(* ===== verification/Prelude.thy ===== *)
theory Prelude
  imports Main "HOL-Library.Word" "HOL-Library.List_Lexorder" "HOL-Library.Char_ord"
begin

text \<open>
  Shared vocabulary of the development: the Rust types every component uses and the generic
  lemmas about them.

  \<^item> A Rust \<^verbatim>\<open>String\<close> or \<^verbatim>\<open>&str\<close> is its UTF-8 byte sequence, a HOL \<^typ>\<open>string\<close>: \<^const>\<open>length\<close> is
    \<^verbatim>\<open>str::len\<close> (bytes), equality and the lexicographic order are those of \<^verbatim>\<open>str\<close>.
  \<^item> \<^verbatim>\<open>u8\<close> is \<open>8 word\<close>; \<^verbatim>\<open>as_bytes\<close> maps a string to its bytes.
  \<^item> \<^verbatim>\<open>Result<T, E>\<close> is \<open>'e + 't\<close> with \<^const>\<open>Inl\<close> for \<^verbatim>\<open>Err\<close>.
  \<^item> \<^verbatim>\<open>BTreeMap<K, V>\<close> is an association list with strictly increasing keys, \<^verbatim>\<open>BTreeSet<K>\<close> a strictly
    increasing list, so iteration visits the elements in the order the code does.
\<close>

named_theorems bmap_simps
named_theorems result_simps

type_synonym byte = "8 word"
type_synonym bytes = "byte list"

definition as_bytes :: "string \<Rightarrow> bytes" where
  "as_bytes s = map of_char s"

section \<open>Results\<close>

fun bind_res :: "'e + 'a \<Rightarrow> ('a \<Rightarrow> 'e + 'b) \<Rightarrow> 'e + 'b" where
  "bind_res (Inl e) f = Inl e"
| "bind_res (Inr a) f = f a"

fun ok_or :: "'a option \<Rightarrow> 'e \<Rightarrow> 'e + 'a" where
  "ok_or None e = Inl e"
| "ok_or (Some a) e = Inr a"

fun map_err :: "('e \<Rightarrow> 'f) \<Rightarrow> 'e + 'a \<Rightarrow> 'f + 'a" where
  "map_err f (Inl e) = Inl (f e)"
| "map_err f (Inr a) = Inr a"

fun is_ok :: "'e + 'a \<Rightarrow> bool" where
  "is_ok (Inl e) = False"
| "is_ok (Inr a) = True"

text \<open>\<^verbatim>\<open>iter().map(f).collect::<Result<Vec<_>, _>>()\<close>: the first error, or all the values.\<close>

fun map_res :: "('a \<Rightarrow> 'e + 'b) \<Rightarrow> 'a list \<Rightarrow> 'e + 'b list" where
  "map_res f [] = Inr []"
| "map_res f (x # xs) = bind_res (f x) (\<lambda>y. bind_res (map_res f xs) (\<lambda>ys. Inr (y # ys)))"

lemma bind_res_eq_Inr [result_simps]:
  "bind_res r f = Inr b \<longleftrightarrow> (\<exists>a. r = Inr a \<and> f a = Inr b)"
  by (cases r) auto

lemma bind_res_eq_Inl [result_simps]:
  "bind_res r f = Inl e \<longleftrightarrow> r = Inl e \<or> (\<exists>a. r = Inr a \<and> f a = Inl e)"
  by (cases r) auto

lemma bind_res_assoc: "bind_res (bind_res r f) g = bind_res r (\<lambda>a. bind_res (f a) g)"
  by (cases r) simp_all

lemma ok_or_eq_Inr [result_simps]: "ok_or x e = Inr a \<longleftrightarrow> x = Some a"
  by (cases x) auto

lemma ok_or_eq_Inl [result_simps]: "ok_or x e = Inl e' \<longleftrightarrow> x = None \<and> e' = e"
  by (cases x) auto

lemma map_err_eq_Inr [result_simps]: "map_err f r = Inr a \<longleftrightarrow> r = Inr a"
  by (cases r) auto

lemma map_err_eq_Inl [result_simps]: "map_err f r = Inl e \<longleftrightarrow> (\<exists>e'. r = Inl e' \<and> e = f e')"
  by (cases r) auto

lemma is_ok_iff [result_simps]: "is_ok r \<longleftrightarrow> (\<exists>a. r = Inr a)"
  by (cases r) auto

lemma map_res_map_Inr [simp]:
  "(\<And>x. x \<in> set xs \<Longrightarrow> f (g x) = Inr x) \<Longrightarrow> map_res f (map g xs) = Inr xs"
  by (induction xs) auto

lemma map_res_length: "map_res f xs = Inr ys \<Longrightarrow> length ys = length xs"
  by (induction xs arbitrary: ys) (auto simp: result_simps)

lemma map_res_cong [fundef_cong]:
  "xs = ys \<Longrightarrow> (\<And>x. x \<in> set ys \<Longrightarrow> f x = g x) \<Longrightarrow> map_res f xs = map_res g ys"
  by (induction ys arbitrary: xs) auto

lemma bind_res_cong [fundef_cong]:
  "r = r' \<Longrightarrow> (\<And>a. r' = Inr a \<Longrightarrow> f a = g a) \<Longrightarrow> bind_res r f = bind_res r' g"
  by (cases r') auto

lemma if_then_Inl_eq_Inr [result_simps]:
  "(if b then Inl e else r) = Inr a \<longleftrightarrow> \<not> b \<and> r = Inr a"
  by auto

section \<open>Checked access\<close>

text \<open>\<^verbatim>\<open>slice.get(i)\<close> and the range \<^verbatim>\<open>slice[i..j]\<close>, \<^const>\<open>None\<close> where the code would panic.\<close>

definition nth_opt :: "'a list \<Rightarrow> nat \<Rightarrow> 'a option" where
  "nth_opt xs i = (if i < length xs then Some (xs ! i) else None)"

definition slice_opt :: "'a list \<Rightarrow> nat \<Rightarrow> nat \<Rightarrow> 'a list option" where
  "slice_opt xs i j = (if i \<le> j \<and> j \<le> length xs then Some (take (j - i) (drop i xs)) else None)"

lemma nth_opt_Some_iff: "nth_opt xs i = Some x \<longleftrightarrow> i < length xs \<and> xs ! i = x"
  by (auto simp: nth_opt_def)

definition checked_add_usize :: "nat \<Rightarrow> nat \<Rightarrow> nat option" where
  "checked_add_usize a b = (if a + b < 2 ^ 64 then Some (a + b) else None)"

section \<open>Ordered maps and sets\<close>

type_synonym ('k, 'v) bmap = "('k \<times> 'v) list"

abbreviation bt_get :: "('k, 'v) bmap \<Rightarrow> 'k \<Rightarrow> 'v option" where
  "bt_get m k \<equiv> map_of m k"

fun bt_insert :: "'k::linorder \<Rightarrow> 'v \<Rightarrow> ('k, 'v) bmap \<Rightarrow> ('k, 'v) bmap" where
  "bt_insert k v [] = [(k, v)]"
| "bt_insert k v ((k', v') # m) =
     (if k < k' then (k, v) # (k', v') # m
      else if k = k' then (k, v) # m
      else (k', v') # bt_insert k v m)"

definition bt_remove :: "'k \<Rightarrow> ('k, 'v) bmap \<Rightarrow> ('k, 'v) bmap" where
  "bt_remove k m = filter (\<lambda>p. fst p \<noteq> k) m"

definition bt_contains :: "('k, 'v) bmap \<Rightarrow> 'k \<Rightarrow> bool" where
  "bt_contains m k \<longleftrightarrow> bt_get m k \<noteq> None"

definition bt_ok :: "('k::linorder, 'v) bmap \<Rightarrow> bool" where
  "bt_ok m \<longleftrightarrow> sorted_wrt (<) (map fst m)"

definition bs_insert :: "'k::linorder \<Rightarrow> 'k list \<Rightarrow> 'k list" where
  "bs_insert k s = insort_insert k s"

definition bs_remove :: "'k \<Rightarrow> 'k list \<Rightarrow> 'k list" where
  "bs_remove k s = filter (\<lambda>x. x \<noteq> k) s"

lemma set_bs_insert [simp, bmap_simps]: "set (bs_insert k s) = insert k (set s)"
  by (auto simp: bs_insert_def set_insort_insert)

lemma set_bs_remove [simp, bmap_simps]: "set (bs_remove k s) = set s - {k}"
  by (auto simp: bs_remove_def)

lemma bt_get_insert [simp, bmap_simps]:
  "bt_get (bt_insert k v m) k' = (if k' = k then Some v else bt_get m k')"
  by (induction m) auto

lemma bt_get_remove [simp, bmap_simps]:
  "bt_get (bt_remove k m) k' = (if k' = k then None else bt_get m k')"
  by (induction m) (auto simp: bt_remove_def)

lemma bt_contains_iff [bmap_simps]: "bt_contains m k \<longleftrightarrow> (\<exists>v. bt_get m k = Some v)"
  by (auto simp: bt_contains_def)

lemma keys_bt_insert [simp, bmap_simps]: "fst ` set (bt_insert k v m) = insert k (fst ` set m)"
  by (auto simp: dom_map_of_conv_image_fst [symmetric] split: if_splits)

lemma bt_ok_Nil [simp]: "bt_ok []"
  by (simp add: bt_ok_def)

lemma bt_ok_insert [simp, intro]: "bt_ok m \<Longrightarrow> bt_ok (bt_insert k v m)"
proof (induction m)
  case (Cons p m)
  obtain k' v' where p: "p = (k', v')" by fastforce
  have "bt_ok m" and gt: "\<forall>x \<in> fst ` set m. k' < x"
    using Cons.prems p by (auto simp: bt_ok_def)
  with Cons.IH have "bt_ok (bt_insert k v m)" by simp
  moreover have "\<forall>x \<in> fst ` set (bt_insert k v m). x = k \<or> k' < x"
    using gt by simp
  ultimately show ?case
    using Cons.prems p gt by (fastforce simp: bt_ok_def)
qed (simp add: bt_ok_def)

lemma bt_ok_remove [simp, intro]: "bt_ok m \<Longrightarrow> bt_ok (bt_remove k m)"
  by (auto simp: bt_ok_def bt_remove_def sorted_wrt_map sorted_wrt_filter)

lemma bt_ok_distinct: "bt_ok m \<Longrightarrow> distinct (map fst m)"
  by (simp add: bt_ok_def strict_sorted_iff)

lemma bt_get_iff_mem: "bt_ok m \<Longrightarrow> bt_get m k = Some v \<longleftrightarrow> (k, v) \<in> set m"
  by (simp add: bt_ok_distinct map_of_eq_Some_iff)

text \<open>Two ordered maps with the same lookups are the same association list.\<close>

lemma bt_ok_keys_eq:
  assumes "bt_ok m" and "bt_ok m'" and "\<And>k. bt_get m k = bt_get m' k"
  shows "map fst m = map fst m'"
proof -
  have "set (map fst m) = dom (map_of m)" for m :: "('a, 'b) bmap"
    by (simp add: dom_map_of_conv_image_fst)
  moreover have "map_of m = map_of m'" using assms(3) by (rule ext)
  ultimately have "set (map fst m) = set (map fst m')" by metis
  with assms(1,2) show ?thesis
    unfolding bt_ok_def strict_sorted_iff by (auto intro: sorted_distinct_set_unique)
qed

lemma bt_ok_ext:
  assumes "bt_ok m" and "bt_ok m'" and "\<And>k. bt_get m k = bt_get m' k"
  shows "m = m'"
proof (rule nth_equalityI)
  have keys: "map fst m = map fst m'" using assms by (rule bt_ok_keys_eq)
  then show len: "length m = length m'" by (rule map_eq_imp_length_eq)
  fix i assume i: "i < length m"
  have "fst (m ! i) = fst (m' ! i)" using keys i len by (metis nth_map)
  moreover have "map_of m (fst (m ! i)) = Some (snd (m ! i))"
    using assms(1) i by (simp add: bt_get_iff_mem)
  moreover have "map_of m' (fst (m' ! i)) = Some (snd (m' ! i))"
    using assms(2) i len by (simp add: bt_get_iff_mem)
  ultimately show "m ! i = m' ! i" using assms(3) by (metis option.inject prod_eqI)
qed

end
