(* ===== verification/Json.thy ===== *)
theory Json
  imports Prelude
begin

text \<open>
  JSON values as \<^verbatim>\<open>serde_json::Value\<close> presents them to the code, and the accessors the engine calls:
  \<^verbatim>\<open>get\<close>, indexing (a missing key reads as null), \<^verbatim>\<open>as_str\<close>, \<^verbatim>\<open>as_array\<close>, \<^verbatim>\<open>as_object\<close>. The
  workspace builds \<^verbatim>\<open>serde_json\<close> without \<^verbatim>\<open>preserve_order\<close>, so an object is an ordered map. Text is UTF-8
  bytes; \<open>chars\<close> splits it into Unicode scalars, each kept as its encoded bytes. A float is its 64 bits, so the model tells the
  two zeros apart, which \<^verbatim>\<open>serde_json\<close> compares as equal; every other pair of its (finite) floats compares as in the code.
\<close>

datatype jnumber = PosInt "64 word" | NegInt "64 word" | Float "64 word"

datatype json =
    JNull
  | JBool bool
  | JNum jnumber
  | JStr string
  | JArr "json list"
  | JObj "(string \<times> json) list"

fun as_str :: "json \<Rightarrow> string option" where
  "as_str (JStr s) = Some s"
| "as_str _ = None"

fun as_array :: "json \<Rightarrow> json list option" where
  "as_array (JArr xs) = Some xs"
| "as_array _ = None"

fun as_object :: "json \<Rightarrow> (string, json) bmap option" where
  "as_object (JObj m) = Some m"
| "as_object _ = None"

fun is_object :: "json \<Rightarrow> bool" where
  "is_object (JObj m) = True"
| "is_object _ = False"

fun is_boolean :: "json \<Rightarrow> bool" where
  "is_boolean (JBool b) = True"
| "is_boolean _ = False"

fun is_string :: "json \<Rightarrow> bool" where
  "is_string (JStr s) = True"
| "is_string _ = False"

fun json_get :: "json \<Rightarrow> string \<Rightarrow> json option" where
  "json_get (JObj m) k = bt_get m k"
| "json_get _ k = None"

definition json_index :: "json \<Rightarrow> string \<Rightarrow> json" where
  "json_index v k = (case json_get v k of None \<Rightarrow> JNull | Some x \<Rightarrow> x)"

lemma json_index_JObj [simp]:
  "json_index (JObj m) k = (case bt_get m k of None \<Rightarrow> JNull | Some x \<Rightarrow> x)"
  by (simp add: json_index_def)

lemma json_get_Some_iff: "json_get v k = Some x \<longleftrightarrow> (\<exists>m. v = JObj m \<and> bt_get m k = Some x)"
  by (cases v) auto

lemma as_str_Some_iff [simp]: "as_str v = Some s \<longleftrightarrow> v = JStr s"
  by (cases v) auto

lemma as_array_Some_iff [simp]: "as_array v = Some xs \<longleftrightarrow> v = JArr xs"
  by (cases v) auto

lemma as_object_Some_iff [simp]: "as_object v = Some m \<longleftrightarrow> v = JObj m"
  by (cases v) auto

lemma is_object_iff: "is_object v \<longleftrightarrow> (\<exists>m. v = JObj m)"
  by (cases v) auto

text \<open>Well-formed values: every object is an ordered map, at every depth.\<close>

fun json_ok :: "json \<Rightarrow> bool" where
  "json_ok (JArr xs) = list_all json_ok xs"
| "json_ok (JObj m) = (bt_ok m \<and> list_all (\<lambda>p. json_ok (snd p)) m)"
| "json_ok _ = True"

text \<open>Sizes for recursion into members: a member is smaller than the value that holds it.\<close>

lemma size_object_member: "(k, x) \<in> set m \<Longrightarrow> size x < size (JObj m)"
  by (induction m) auto

lemma size_member: "json_get v k = Some x \<Longrightarrow> size x < size v"
  by (auto simp: json_get_Some_iff dest!: map_of_SomeD intro: size_object_member)

lemma size_element: "x \<in> set xs \<Longrightarrow> size x < size (JArr xs)"
  by (induction xs) auto

lemma size_content:
  assumes "json_index v k = JArr xs" and "x \<in> set xs" shows "size x < size v"
proof -
  from assms(1) have "json_get v k = Some (JArr xs)"
    by (auto simp: json_index_def split: option.splits)
  then have "size (JArr xs) < size v" by (rule size_member)
  with size_element [OF assms(2)] show ?thesis by simp
qed

lemma size_content_list: "JArr xs = json_index v k \<Longrightarrow> size_list size xs < size v"
  by (auto simp: json_index_def split: option.splits dest!: size_member)

section \<open>Text\<close>

fun join :: "'a list \<Rightarrow> 'a list list \<Rightarrow> 'a list" where
  "join sep [] = []"
| "join sep [x] = x"
| "join sep (x # y # ys) = x @ sep @ join sep (y # ys)"

lemma join_empty_sep [simp]: "join [] xs = concat xs"
  by (induction xs rule: join.induct [of "\<lambda>_. _" "[]", simplified]) auto

text \<open>A UTF-8 continuation byte has the form \<open>10xxxxxx\<close>; every other byte starts a scalar.\<close>

definition is_cont :: "char \<Rightarrow> bool" where
  "is_cont c \<longleftrightarrow> 128 \<le> (of_char c :: nat) \<and> (of_char c :: nat) < 192"

function chars :: "string \<Rightarrow> string list" where
  "chars [] = []"
| "chars (c # cs) = (c # takeWhile is_cont cs) # chars (dropWhile is_cont cs)"
  by pat_completeness auto
termination
  by (relation "measure length") (auto simp: le_imp_less_Suc length_dropWhile_le)

lemma concat_chars [simp]: "concat (chars s) = s"
  by (induction s rule: chars.induct) auto

text \<open>
  \<^verbatim>\<open>char::is_whitespace\<close> (Unicode White_Space) on an encoded scalar, and \<^verbatim>\<open>s.trim().is_empty()\<close>.
\<close>

definition is_whitespace :: "string \<Rightarrow> bool" where
  "is_whitespace ch \<longleftrightarrow>
     (let b = map of_char ch :: nat list in
      (\<exists>x \<in> {9, 10, 11, 12, 13, 32}. b = [x])
      \<or> b \<in> {[194, 133], [194, 160], [225, 154, 128], [226, 128, 168], [226, 128, 169],
             [226, 128, 175], [226, 129, 159], [227, 128, 128]}
      \<or> (length b = 3 \<and> take 2 b = [226, 128] \<and> 128 \<le> b ! 2 \<and> b ! 2 \<le> 138))"

definition trim_is_empty :: "string \<Rightarrow> bool" where
  "trim_is_empty s \<longleftrightarrow> list_all is_whitespace (chars s)"

definition trim :: "string \<Rightarrow> string" where
  "trim s = concat (rev (dropWhile is_whitespace (rev (dropWhile is_whitespace (chars s)))))"

text \<open>\<^verbatim>\<open>format!("{b:02x}")\<close> over bytes: two lowercase hexadecimal digits each.\<close>

definition hex_digit :: "nat \<Rightarrow> char" where
  "hex_digit n = ''0123456789abcdef'' ! n"

definition hex_byte :: "byte \<Rightarrow> string" where
  "hex_byte b = [hex_digit (unat b div 16), hex_digit (unat b mod 16)]"

definition hex_lower :: "bytes \<Rightarrow> string" where
  "hex_lower bs = concat (map hex_byte bs)"

end
