(* ===== verification/Vocabulary.thy ===== *)
theory Vocabulary
  imports Json
begin

text \<open>
  The shared data model of \<^verbatim>\<open>crates/engine-shared\<close>: the stored enumerations with their spellings, the
  identities and their write-time checks, the rich-text patch format, the semantic event payloads and
  the event row. Constructors of the plain enumerations carry a prefix (\<open>NT_\<close>, \<open>DS_\<close>, \<open>ET_\<close>),
  because \<^verbatim>\<open>EventPayload\<close> and \<^verbatim>\<open>EventType\<close> use the same variant names.
\<close>

section \<open>Stored enumerations\<close>

datatype node_type = NT_Form | NT_Section | NT_Item | NT_Choice | NT_Clause | NT_Paragraph

datatype document_status = DS_Draft | DS_Deployed | DS_Archived

datatype event_type =
    ET_NodeCreated | ET_NodeMoved | ET_NodeDeleted | ET_NodeRestored | ET_FieldEdited
  | ET_RichTextPatched | ET_ChoiceAdded | ET_ChoiceRemoved | ET_CommentAdded | ET_CommentReplied
  | ET_CommentResolved | ET_SuggestionProposed | ET_SuggestionAccepted | ET_SuggestionRejected
  | ET_Deployed

record parse_enum_error =
  pe_kind :: string
  pe_value :: string

fun node_type_str :: "node_type \<Rightarrow> string" where
  "node_type_str NT_Form = ''form''"
| "node_type_str NT_Section = ''section''"
| "node_type_str NT_Item = ''item''"
| "node_type_str NT_Choice = ''choice''"
| "node_type_str NT_Clause = ''clause''"
| "node_type_str NT_Paragraph = ''paragraph''"

fun document_status_str :: "document_status \<Rightarrow> string" where
  "document_status_str DS_Draft = ''draft''"
| "document_status_str DS_Deployed = ''deployed''"
| "document_status_str DS_Archived = ''archived''"

fun event_type_str :: "event_type \<Rightarrow> string" where
  "event_type_str ET_NodeCreated = ''NodeCreated''"
| "event_type_str ET_NodeMoved = ''NodeMoved''"
| "event_type_str ET_NodeDeleted = ''NodeDeleted''"
| "event_type_str ET_NodeRestored = ''NodeRestored''"
| "event_type_str ET_FieldEdited = ''FieldEdited''"
| "event_type_str ET_RichTextPatched = ''RichTextPatched''"
| "event_type_str ET_ChoiceAdded = ''ChoiceAdded''"
| "event_type_str ET_ChoiceRemoved = ''ChoiceRemoved''"
| "event_type_str ET_CommentAdded = ''CommentAdded''"
| "event_type_str ET_CommentReplied = ''CommentReplied''"
| "event_type_str ET_CommentResolved = ''CommentResolved''"
| "event_type_str ET_SuggestionProposed = ''SuggestionProposed''"
| "event_type_str ET_SuggestionAccepted = ''SuggestionAccepted''"
| "event_type_str ET_SuggestionRejected = ''SuggestionRejected''"
| "event_type_str ET_Deployed = ''Deployed''"

text \<open>The \<^verbatim>\<open>ALL\<close> constants of the macro: every variant, in declaration order.\<close>

definition node_type_all :: "node_type list" where
  "node_type_all = [NT_Form, NT_Section, NT_Item, NT_Choice, NT_Clause, NT_Paragraph]"

definition document_status_all :: "document_status list" where
  "document_status_all = [DS_Draft, DS_Deployed, DS_Archived]"

definition event_type_all :: "event_type list" where
  "event_type_all =
     [ET_NodeCreated, ET_NodeMoved, ET_NodeDeleted, ET_NodeRestored, ET_FieldEdited,
      ET_RichTextPatched, ET_ChoiceAdded, ET_ChoiceRemoved, ET_CommentAdded, ET_CommentReplied,
      ET_CommentResolved, ET_SuggestionProposed, ET_SuggestionAccepted, ET_SuggestionRejected,
      ET_Deployed]"

text \<open>
  \<^verbatim>\<open>FromStr\<close> of the macro: the match arms in declaration order, each comparing with the stored spelling.
\<close>

definition enum_from_str ::
    "('a \<Rightarrow> string) \<Rightarrow> 'a list \<Rightarrow> string \<Rightarrow> string \<Rightarrow> parse_enum_error + 'a" where
  "enum_from_str repr variants kind s =
     (case find (\<lambda>v. repr v = s) variants of
        Some v \<Rightarrow> Inr v
      | None \<Rightarrow> Inl \<lparr>pe_kind = kind, pe_value = s\<rparr>)"

definition node_type_from_str :: "string \<Rightarrow> parse_enum_error + node_type" where
  "node_type_from_str = enum_from_str node_type_str node_type_all ''node type''"

definition document_status_from_str :: "string \<Rightarrow> parse_enum_error + document_status" where
  "document_status_from_str = enum_from_str document_status_str document_status_all ''document status''"

definition event_type_from_str :: "string \<Rightarrow> parse_enum_error + event_type" where
  "event_type_from_str = enum_from_str event_type_str event_type_all ''event type''"

section \<open>Identities\<close>

type_synonym node_id = string
type_synonym uuid = bytes

definition is_canonical_ulid :: "string \<Rightarrow> bool" where
  "is_canonical_ulid value \<longleftrightarrow>
     (let bs = value in
      length bs = 26
      \<and> (case bs of [] \<Rightarrow> False | b # _ \<Rightarrow> CHR ''0'' \<le> b \<and> b \<le> CHR ''7'')
      \<and> list_all (\<lambda>b. b \<in> set ''0123456789ABCDEFGHJKMNPQRSTVWXYZ'') bs)"

definition MAX_POS_KEY_BYTES :: nat where
  "MAX_POS_KEY_BYTES = 8192"

definition is_valid_pos_key :: "string \<Rightarrow> bool" where
  "is_valid_pos_key key \<longleftrightarrow>
     key \<noteq> [] \<and> length key \<le> MAX_POS_KEY_BYTES \<and> last key \<noteq> CHR '' ''
     \<and> list_all (\<lambda>b. 32 \<le> (of_char b :: nat) \<and> (of_char b :: nat) \<le> 126) key"

section \<open>Rich-text patches\<close>

datatype text_op =
    Retain nat "nat option"
  | Delete nat
  | Insert string nat

datatype rich_text_edit =
    EditText "nat list" "text_op list"
  | EditProps "nat list" json
  | EditReplace "nat list" json

record rich_text_patch =
  rp_version :: byte
  rp_before :: string
  rp_after :: string
  rp_styles :: "json list"
  rp_edits :: "rich_text_edit list"

section \<open>Event payloads and rows\<close>

datatype event_payload =
    NodeCreated node_id node_type "node_id option" string json "string option"
  | NodeMoved node_id "node_id option" string
  | NodeDeleted node_id
  | NodeRestored node_id
  | FieldEdited node_id string json
  | RichTextPatched node_id rich_text_patch
  | ChoiceAdded node_id node_id json
  | ChoiceRemoved node_id node_id
  | CommentAdded "node_id option" string
  | CommentReplied string string
  | CommentResolved string bool
  | SuggestionProposed string "node_id option" json
  | SuggestionAccepted string
  | SuggestionRejected string "string option"
  | Deployed "uuid option"

fun event_type_of :: "event_payload \<Rightarrow> event_type" where
  "event_type_of (NodeCreated _ _ _ _ _ _) = ET_NodeCreated"
| "event_type_of (NodeMoved _ _ _) = ET_NodeMoved"
| "event_type_of (NodeDeleted _) = ET_NodeDeleted"
| "event_type_of (NodeRestored _) = ET_NodeRestored"
| "event_type_of (FieldEdited _ _ _) = ET_FieldEdited"
| "event_type_of (RichTextPatched _ _) = ET_RichTextPatched"
| "event_type_of (ChoiceAdded _ _ _) = ET_ChoiceAdded"
| "event_type_of (ChoiceRemoved _ _) = ET_ChoiceRemoved"
| "event_type_of (CommentAdded _ _) = ET_CommentAdded"
| "event_type_of (CommentReplied _ _) = ET_CommentReplied"
| "event_type_of (CommentResolved _ _) = ET_CommentResolved"
| "event_type_of (SuggestionProposed _ _ _) = ET_SuggestionProposed"
| "event_type_of (SuggestionAccepted _) = ET_SuggestionAccepted"
| "event_type_of (SuggestionRejected _ _) = ET_SuggestionRejected"
| "event_type_of (Deployed _) = ET_Deployed"

fun target_node_id :: "event_payload \<Rightarrow> node_id option" where
  "target_node_id (NodeCreated n _ _ _ _ _) = Some n"
| "target_node_id (NodeMoved n _ _) = Some n"
| "target_node_id (NodeDeleted n) = Some n"
| "target_node_id (NodeRestored n) = Some n"
| "target_node_id (FieldEdited n _ _) = Some n"
| "target_node_id (RichTextPatched n _) = Some n"
| "target_node_id (ChoiceAdded n _ _) = Some n"
| "target_node_id (ChoiceRemoved n _) = Some n"
| "target_node_id (CommentAdded n _) = n"
| "target_node_id (SuggestionProposed _ t _) = t"
| "target_node_id (SuggestionAccepted _) = None"
| "target_node_id (CommentReplied _ _) = None"
| "target_node_id (CommentResolved _ _) = None"
| "target_node_id (SuggestionRejected _ _) = None"
| "target_node_id (Deployed _) = None"

record event =
  ev_id :: string
  ev_document_id :: uuid
  ev_seq :: int
  ev_event_type :: string
  ev_actor_id :: uuid
  ev_target_node_id :: "node_id option"
  ev_payload :: json
  ev_content_hash :: bytes
  ev_prev_chain_hash :: bytes
  ev_chain_hash :: bytes
  ev_created_at :: int

section \<open>Stored spellings\<close>

lemma enum_from_str_iff:
  assumes "inj repr" and "set variants = UNIV"
  shows "enum_from_str repr variants kind s = Inr v \<longleftrightarrow> s = repr v"
proof
  assume "enum_from_str repr variants kind s = Inr v"
  then show "s = repr v"
    by (auto simp: enum_from_str_def find_Some_iff split: option.splits)
next
  assume s: "s = repr v"
  have "find (\<lambda>w. repr w = s) variants \<noteq> None"
    using assms(2) s by (auto simp: find_None_iff)
  then obtain w where w: "find (\<lambda>w. repr w = s) variants = Some w" by blast
  then have "repr w = s" by (auto simp: find_Some_iff)
  with assms(1) s have "w = v" by (auto dest: injD)
  with w show "enum_from_str repr variants kind s = Inr v" by (simp add: enum_from_str_def)
qed

lemma inj_node_type_str: "inj node_type_str"
proof (rule injI)
  fix x y assume "node_type_str x = node_type_str y"
  then show "x = y" by (cases x; cases y) simp_all
qed

lemma inj_document_status_str: "inj document_status_str"
proof (rule injI)
  fix x y assume "document_status_str x = document_status_str y"
  then show "x = y" by (cases x; cases y) simp_all
qed

lemma inj_event_type_str: "inj event_type_str"
proof (rule injI)
  fix x y assume "event_type_str x = event_type_str y"
  then show "x = y" by (cases x; cases y) simp_all
qed

lemma set_node_type_all: "set node_type_all = UNIV"
proof -
  have "x \<in> set node_type_all" for x by (cases x) (simp_all add: node_type_all_def)
  then show ?thesis by blast
qed

lemma set_document_status_all: "set document_status_all = UNIV"
proof -
  have "x \<in> set document_status_all" for x by (cases x) (simp_all add: document_status_all_def)
  then show ?thesis by blast
qed

lemma set_event_type_all: "set event_type_all = UNIV"
proof -
  have "x \<in> set event_type_all" for x by (cases x) (simp_all add: event_type_all_def)
  then show ?thesis by blast
qed

lemmas enum_spellings =
  enum_from_str_iff [OF inj_node_type_str set_node_type_all]
  enum_from_str_iff [OF inj_document_status_str set_document_status_all]
  enum_from_str_iff [OF inj_event_type_str set_event_type_all]

lemma node_type_from_str_iff [simp]: "node_type_from_str s = Inr v \<longleftrightarrow> s = node_type_str v"
  by (simp add: node_type_from_str_def enum_spellings)

lemma document_status_from_str_iff [simp]:
  "document_status_from_str s = Inr v \<longleftrightarrow> s = document_status_str v"
  by (simp add: document_status_from_str_def enum_spellings)

lemma event_type_from_str_iff [simp]: "event_type_from_str s = Inr v \<longleftrightarrow> s = event_type_str v"
  by (simp add: event_type_from_str_def enum_spellings)

end
