(* ===== verification/Position_Keys.thy ===== *)
theory Position_Keys
  imports Vocabulary
begin

text \<open>
  Position keys of the agent compiler (\<^verbatim>\<open>crates/engine-agent/src/pos.rs\<close>): \<open>key_between\<close> asks the editor's
  function for a key between two neighbours and refuses one that does not sort strictly between them. The
  original works on UTF-16 code units, so the conversions of the standard library (\<^verbatim>\<open>encode_utf16\<close>,
  \<^verbatim>\<open>char::decode_utf16\<close>, \<^verbatim>\<open>from_utf16\<close> and \<^verbatim>\<open>from_utf16_lossy\<close>) are written out; a unit is a natural number below
  \<open>65536\<close>. The lemmas show that for the keys \<^const>\<open>is_valid_pos_key\<close> admits there is always room.
\<close>

section \<open>UTF-16\<close>

fun scalar_value :: "nat list \<Rightarrow> nat" where
  "scalar_value [a] = a"
| "scalar_value [a, b] = a mod 32 * 64 + b mod 64"
| "scalar_value [a, b, c] = a mod 16 * 4096 + b mod 64 * 64 + c mod 64"
| "scalar_value [a, b, c, d] = a mod 8 * 262144 + b mod 64 * 4096 + c mod 64 * 64 + d mod 64"
| "scalar_value _ = 0"

definition scalar_utf16 :: "nat \<Rightarrow> nat list" where
  "scalar_utf16 n =
     (if n < 65536 then [n] else [55296 + (n - 65536) div 1024, 56320 + (n - 65536) mod 1024])"

definition encode_utf16 :: "string \<Rightarrow> nat list" where
  "encode_utf16 s = concat (map (\<lambda>ch. scalar_utf16 (scalar_value (map of_char ch))) (chars s))"

definition scalar_utf8 :: "nat \<Rightarrow> string" where
  "scalar_utf8 n = map char_of
     (if n < 128 then [n]
      else if n < 2048 then [192 + n div 64, 128 + n mod 64]
      else if n < 65536 then [224 + n div 4096, 128 + n div 64 mod 64, 128 + n mod 64]
      else [240 + n div 262144, 128 + n div 4096 mod 64, 128 + n div 64 mod 64, 128 + n mod 64])"

text \<open>Each scalar in turn; \<^const>\<open>None\<close> stands for a lone surrogate.\<close>

fun decode_utf16 :: "nat list \<Rightarrow> nat option list" where
  "decode_utf16 [] = []"
| "decode_utf16 [u] = [if u < 55296 \<or> 57343 < u then Some u else None]"
| "decode_utf16 (u # v # us) =
     (if u < 55296 \<or> 57343 < u then Some u # decode_utf16 (v # us)
      else if 56320 \<le> u \<or> v < 56320 \<or> 57343 < v then None # decode_utf16 (v # us)
      else Some (65536 + (u - 55296) * 1024 + (v - 56320)) # decode_utf16 us)"

definition from_utf16 :: "nat list \<Rightarrow> string option" where
  "from_utf16 us =
     (let ss = decode_utf16 us in
      if None \<in> set ss then None else Some (concat (map (\<lambda>x. scalar_utf8 (the x)) ss)))"

definition from_utf16_lossy :: "nat list \<Rightarrow> string" where
  "from_utf16_lossy us =
     concat (map (\<lambda>x. scalar_utf8 (case x of Some n \<Rightarrow> n | None \<Rightarrow> 65533)) (decode_utf16 us))"

section \<open>Keys\<close>

definition MAX_KEY_STEPS :: nat where "MAX_KEY_STEPS = 200"

text \<open>\<^verbatim>\<open>get(i).copied().filter(|u| *u != 0).map_or(default, i32::from)\<close>\<close>

definition unit_at :: "nat \<Rightarrow> nat list \<Rightarrow> nat \<Rightarrow> nat" where
  "unit_at d us i = (case nth_opt us i of None \<Rightarrow> d | Some u \<Rightarrow> if u = 0 then d else u)"

text \<open>The loop, with \<open>k\<close> turns left at position \<open>i\<close>; \<^const>\<open>None\<close> when it runs out. The test \<^verbatim>\<open>b - a > 1\<close> is on signed
  integers.\<close>

fun units_loop :: "nat list \<Rightarrow> nat list \<Rightarrow> nat \<Rightarrow> nat \<Rightarrow> nat list \<Rightarrow> nat list option" where
  "units_loop l r 0 i prefix = None"
| "units_loop l r (Suc k) i prefix =
     (let a = unit_at 32 l i; b = unit_at 126 r i in
      if int b - int a > 1 then Some (prefix @ [(a + b) div 2])
      else units_loop l r k (i + 1) (prefix @ [a]))"

definition units :: "string \<Rightarrow> string option \<Rightarrow> nat list" where
  "units left right =
     (let l = encode_utf16 left;
          r = (case right of Some r \<Rightarrow> encode_utf16 r | None \<Rightarrow> [])
      in case units_loop l r MAX_KEY_STEPS 0 [] of
           Some key \<Rightarrow> key
         | None \<Rightarrow> l @ [of_char CHR ''P''])"

definition between :: "string \<Rightarrow> string option \<Rightarrow> string" where
  "between left right = from_utf16_lossy (units left right)"

definition try_between :: "string \<Rightarrow> string option \<Rightarrow> string option" where
  "try_between left right = from_utf16 (units left right)"

definition key_between :: "string option \<Rightarrow> string option \<Rightarrow> string option" where
  "key_between left right =
     (case try_between (case left of Some l \<Rightarrow> l | None \<Rightarrow> []) right of
        None \<Rightarrow> None
      | Some key \<Rightarrow>
          (let above = (case left of None \<Rightarrow> True | Some l \<Rightarrow> l < key);
               below = (case right of None \<Rightarrow> True | Some r \<Rightarrow> key < r)
           in if above \<and> below \<and> length (chars key) \<le> MAX_KEY_STEPS then Some key else None))"

text \<open>Where the strict conversion succeeds the lossy one agrees with it.\<close>

lemma try_between_Some: "try_between left right = Some key \<Longrightarrow> between left right = key"
  unfolding try_between_def between_def from_utf16_def from_utf16_lossy_def Let_def
  by (auto split: if_splits option.splits intro!: arg_cong [where f = concat])

section \<open>ASCII\<close>

definition is_ascii :: "string \<Rightarrow> bool" where
  "is_ascii s \<longleftrightarrow> (\<forall>c \<in> set s. (of_char c :: nat) < 128)"

lemma is_ascii_simps [simp]: "is_ascii []" "is_ascii (c # s) \<longleftrightarrow> (of_char c :: nat) < 128 \<and> is_ascii s"
  by (simp_all add: is_ascii_def)

lemma chars_ascii: "is_ascii s \<Longrightarrow> chars s = map (\<lambda>c. [c]) s"
proof (induction s)
  case (Cons c s)
  then have "takeWhile is_cont s = [] \<and> dropWhile is_cont s = s"
    by (cases s) (auto simp: is_cont_def)
  with Cons show ?case by simp
qed simp

lemma encode_utf16_ascii: "is_ascii s \<Longrightarrow> encode_utf16 s = map of_char s"
  by (simp add: encode_utf16_def chars_ascii) (induction s; simp add: scalar_utf16_def)

lemma decode_utf16_ascii: "\<forall>u \<in> set us. u < 128 \<Longrightarrow> decode_utf16 us = map Some us"
  by (induction us rule: decode_utf16.induct) auto

lemma from_utf16_ascii:
  assumes "\<forall>u \<in> set us. u < 128"
  shows "from_utf16 us = Some (map char_of us)"
proof -
  have "concat (map scalar_utf8 us) = map char_of us"
    using assms by (induction us) (auto simp: scalar_utf8_def)
  with decode_utf16_ascii [OF assms] show ?thesis by (auto simp: from_utf16_def Let_def comp_def)
qed

section \<open>The midpoint\<close>

text \<open>The loop without positions: it reads both lists from the front.\<close>

definition head_or :: "nat \<Rightarrow> nat list \<Rightarrow> nat" where
  "head_or d us = (case us of u # _ \<Rightarrow> if u = 0 then d else u | [] \<Rightarrow> d)"

fun midpoint :: "nat \<Rightarrow> nat list \<Rightarrow> nat list \<Rightarrow> nat list option" where
  "midpoint 0 l r = None"
| "midpoint (Suc k) l r =
     (let a = head_or 32 l; b = head_or 126 r in
      if a + 1 < b then Some [(a + b) div 2] else map_option ((#) a) (midpoint k (tl l) (tl r)))"

lemma unit_at_head: "unit_at d us i = head_or d (drop i us)"
  by (cases "i < length us") (simp_all add: unit_at_def nth_opt_def head_or_def Cons_nth_drop_Suc [symmetric])

lemma units_loop_midpoint:
  "units_loop l r k i prefix = map_option ((@) prefix) (midpoint k (drop i l) (drop i r))"
proof (induction k arbitrary: i prefix)
  case (Suc k)
  have "int b - int a > 1 \<longleftrightarrow> a + 1 < b" for a b :: nat by linarith
  with Suc show ?case
    by (simp add: Let_def unit_at_head option.map_comp comp_def drop_Suc [symmetric] drop_drop tl_drop)
qed simp

text \<open>Whether a key with \<open>l\<close> as its prefix stays below \<open>r\<close>.\<close>

fun room :: "nat list \<Rightarrow> nat list \<Rightarrow> bool" where
  "room l [] = False"
| "room l (y # ys) = (head_or 32 l < y \<or> head_or 32 l = y \<and> room (tl l) ys)"

lemma roomI:
  assumes "l < r" and "0 \<notin> set l" and "\<forall>u \<in> set r. 32 \<le> u" and "last r \<noteq> 32"
  shows "room l r"
  using assms
proof (induction r arbitrary: l)
  case (Cons y ys)
  show ?case
  proof (cases l)
    case Nil
    show ?thesis
    proof (cases "y = 32")
      case True
      with Cons.prems have "ys \<noteq> []" by auto
      then have "[] < ys" by (cases ys) simp_all
      with Cons.prems Cons.IH [of "[]"] True Nil \<open>ys \<noteq> []\<close> show ?thesis by (simp add: head_or_def)
    qed (use Cons.prems Nil in \<open>auto simp: head_or_def\<close>)
  next
    case (Cons x xs)
    with Cons.prems Cons.IH [of xs] show ?thesis by (cases "ys = []") (auto simp: head_or_def)
  qed
qed simp

lemma midpoint_above: "midpoint k l r = Some key \<Longrightarrow> 0 \<notin> set l \<Longrightarrow> l < key"
proof (induction k arbitrary: l key r)
  case (Suc k)
  then show ?case by (cases l) (auto simp: Let_def head_or_def split: if_splits)
qed simp

lemma midpoint_below: "midpoint k l r = Some key \<Longrightarrow> room l r \<Longrightarrow> 0 \<notin> set r \<Longrightarrow> key < r"
proof (induction k arbitrary: l key r)
  case (Suc k)
  then show ?case by (cases r) (auto simp: Let_def head_or_def [of 126] split: if_splits)
qed simp

lemma midpoint_exists: "max (length l) (length r) < k \<Longrightarrow> \<exists>key. midpoint k l r = Some key \<and> length key \<le> k"
proof (induction k arbitrary: l r)
  case (Suc k)
  show ?case
  proof (cases "l = [] \<and> r = []")
    case False
    with Suc.prems have "max (length (tl l)) (length (tl r)) < k" by (cases l; cases r) auto
    with Suc.IH [of "tl l" "tl r"] show ?thesis by (auto simp: Let_def)
  qed (simp add: head_or_def)
qed simp

lemma set_tl_subset: "x \<in> set (tl xs) \<Longrightarrow> x \<in> set xs"
  by (cases xs) simp_all

lemma midpoint_printable:
  assumes "midpoint k l r = Some key" and "\<forall>u \<in> set l. 32 \<le> u \<and> u \<le> 126" and "\<forall>u \<in> set r. 32 \<le> u \<and> u \<le> 126"
  shows "key \<noteq> [] \<and> last key \<noteq> 32 \<and> (\<forall>u \<in> set key. 32 \<le> u \<and> u \<le> 126)"
  using assms
proof (induction k arbitrary: l r key)
  case (Suc k)
  have a: "32 \<le> head_or 32 l \<and> head_or 32 l \<le> 126" and b: "head_or 126 r \<le> 126"
    using Suc.prems by (auto simp: head_or_def split: list.splits)
  show ?case
  proof (cases "head_or 32 l + 1 < head_or 126 r")
    case True
    with a b have "32 < (head_or 32 l + head_or 126 r) div 2" "(head_or 32 l + head_or 126 r) div 2 \<le> 126" by linarith+
    with True Suc.prems show ?thesis by (auto simp: Let_def)
  next
    case False
    with Suc.prems obtain key' where key': "midpoint k (tl l) (tl r) = Some key'" and key: "key = head_or 32 l # key'"
      by (auto simp: Let_def)
    have "key' \<noteq> [] \<and> last key' \<noteq> 32 \<and> (\<forall>u \<in> set key'. 32 \<le> u \<and> u \<le> 126)"
      by (rule Suc.IH [OF key']) (use Suc.prems(2,3) in \<open>auto dest: set_tl_subset\<close>)
    with a show ?thesis unfolding key by (auto simp del: One_nat_def)
  qed
qed simp

section \<open>Valid keys\<close>

lemma list_less_map_of_char: "(map of_char s :: nat list) < map of_char t \<longleftrightarrow> s < t"
proof (induction s arbitrary: t)
  case (Cons c s)
  then show ?case by (cases t) (auto simp: less_char_def)
next
  case Nil
  show ?case by (cases t) simp_all
qed

lemma of_char_space_iff: "(of_char c :: nat) = 32 \<longleftrightarrow> c = CHR '' ''"
proof -
  have "(32 :: nat) = of_char CHR '' ''" by simp
  then show ?thesis by (simp only: of_char_eq_iff)
qed

lemma valid_pos_key_units:
  assumes "is_valid_pos_key s"
  shows "is_ascii s" and "\<forall>u \<in> set (map of_char s :: nat list). 32 \<le> u \<and> u \<le> 126"
    and "last (map of_char s :: nat list) \<noteq> 32"
proof -
  show "is_ascii s" and "\<forall>u \<in> set (map of_char s :: nat list). 32 \<le> u \<and> u \<le> 126"
    using assms by (fastforce simp: is_valid_pos_key_def is_ascii_def list_all_iff)+
  show "last (map of_char s :: nat list) \<noteq> 32"
    using assms by (simp add: is_valid_pos_key_def last_map of_char_space_iff)
qed

lemma valid_pos_key_char_of:
  fixes us :: "nat list"
  assumes "us \<noteq> []" and "last us \<noteq> 32" and "\<forall>u \<in> set us. 32 \<le> u \<and> u \<le> 126" and "length us \<le> 200"
  shows "is_valid_pos_key (map char_of us)" and "map of_char (map char_of us) = us" and "is_ascii (map char_of us)"
proof -
  have inv: "of_char (char_of u :: char) = u" if "u \<in> set us" for u :: nat
    using assms(3) that by (fastforce simp: of_char_of)
  then show "map of_char (map char_of us) = us" by (simp add: map_idI)
  have "char_of (last us) \<noteq> CHR '' ''"
    using inv [OF last_in_set [OF assms(1)]] assms(2) by (simp add: of_char_space_iff [symmetric])
  with assms inv show "is_valid_pos_key (map char_of us)"
    by (simp add: is_valid_pos_key_def MAX_POS_KEY_BYTES_def list_all_iff last_map)
  show "is_ascii (map char_of us)"
    using assms(3) inv by (fastforce simp: is_ascii_def)
qed

section \<open>There is room between two valid keys\<close>

text \<open>C33: Between any two neighbours whose keys \<^verbatim>\<open>is_valid_pos_key\<close> admits, in order and shorter than 200 bytes (or
  with a neighbour missing on either side), \<^verbatim>\<open>key_between\<close> finds a key: it sorts strictly between them, is itself
  a key \<^verbatim>\<open>is_valid_pos_key\<close> admits, and is at most 200 bytes long. It never refuses.\<close>

theorem position_keys_fit:
  assumes left: "pred_option (\<lambda>l. is_valid_pos_key l \<and> length l < MAX_KEY_STEPS) left"
    and right: "pred_option (\<lambda>r. is_valid_pos_key r \<and> length r < MAX_KEY_STEPS) right"
    and order: "\<forall>l r. left = Some l \<longrightarrow> right = Some r \<longrightarrow> l < r"
  shows "\<exists>key. key_between left right = Some key \<and> is_valid_pos_key key \<and> length key \<le> MAX_KEY_STEPS
    \<and> pred_option (\<lambda>l. l < key) left \<and> pred_option (\<lambda>r. key < r) right"
proof -
  define l where "l = (case left of Some l \<Rightarrow> l | None \<Rightarrow> [])"
  define r where "r = (case right of Some r \<Rightarrow> r | None \<Rightarrow> [])"
  let ?l = "map of_char l :: nat list" and ?r = "map of_char r :: nat list"
  have l: "is_ascii l" "\<forall>u \<in> set ?l. 32 \<le> u \<and> u \<le> 126" "length l < 200"
    using left valid_pos_key_units by (auto simp: l_def MAX_KEY_STEPS_def split: option.splits)
  have r: "is_ascii r" "\<forall>u \<in> set ?r. 32 \<le> u \<and> u \<le> 126" "length r < 200"
    using right valid_pos_key_units by (auto simp: r_def MAX_KEY_STEPS_def split: option.splits)
  have "(case right of Some r \<Rightarrow> encode_utf16 r | None \<Rightarrow> []) = ?r"
    using encode_utf16_ascii [OF r(1)] by (auto simp: r_def split: option.splits)
  moreover from l(3) r(3) obtain us where us: "midpoint 200 ?l ?r = Some us" "length us \<le> 200"
    using midpoint_exists [of ?l ?r 200] by auto
  ultimately have units: "units l right = us"
    by (simp add: units_def MAX_KEY_STEPS_def units_loop_midpoint encode_utf16_ascii [OF l(1)])
  note pr = midpoint_printable [OF us(1) l(2) r(2)]
  let ?key = "map char_of us :: string"
  note key = valid_pos_key_char_of [OF conjunct1 [OF pr] conjunct1 [OF conjunct2 [OF pr]] conjunct2 [OF conjunct2 [OF pr]] us(2)]
  have tried: "try_between l right = Some ?key"
    using pr by (auto simp: try_between_def units intro!: from_utf16_ascii)
  have "?l < us" by (rule midpoint_above [OF us(1)]) (use l(2) in auto)
  then have above: "l < ?key" using list_less_map_of_char [of l ?key] key(2) by simp
  have below: "?key < r'" if "right = Some r'" for r'
  proof -
    from that have r': "r = r'" "is_valid_pos_key r" using right by (auto simp: r_def)
    then have "l < r" using order that by (cases left) (auto simp: l_def is_valid_pos_key_def neq_Nil_conv)
    then have "room ?l ?r"
      using l(2) r(2) valid_pos_key_units(3) [OF r'(2)] by (intro roomI) (auto simp: list_less_map_of_char)
    then have "us < ?r" by (rule midpoint_below [OF us(1)]) (use r(2) in auto)
    then show ?thesis using list_less_map_of_char [of ?key r] key(2) r'(1) by simp
  qed
  have "key_between left right = Some ?key"
    using tried above below chars_ascii [OF key(3)] us(2)
    by (auto simp: key_between_def l_def Let_def MAX_KEY_STEPS_def split: option.splits)
  with key(1) above below us(2) show ?thesis
    by (auto simp: l_def MAX_KEY_STEPS_def pred_option_def split: option.splits)
qed

theorem position_keys_fit_witness:
  "\<exists>key. key_between (Some ''a'') (Some ''a !'') = Some key \<and> is_valid_pos_key key \<and> ''a'' < key \<and> key < ''a !''"
proof -
  have "is_valid_pos_key ''a''" "is_valid_pos_key ''a !''" "''a'' < ''a !''" by code_simp+
  then show ?thesis
    using position_keys_fit [of "Some ''a''" "Some ''a !''"] by (auto simp: MAX_KEY_STEPS_def)
qed

end
