(* ===== verification/Canonical.thy ===== *)
theory Canonical
  imports Vocabulary
begin

text \<open>
  Canonical JSON and the event hashes (\<^verbatim>\<open>crates/engine-core/src/log.rs\<close>, section "hashing"). SHA-256
  (\<^verbatim>\<open>ring\<close>) is the parameter \<open>sha\<close>; the compact form \<^verbatim>\<open>serde_json::to_writer\<close> gives a scalar is the
  parameter \<open>ser\<close>.
\<close>

type_synonym hash_fun = "bytes \<Rightarrow> bytes"
type_synonym scalar_writer = "json \<Rightarrow> bytes"

definition ZERO_HASH :: bytes where
  "ZERO_HASH = replicate 32 0"

definition write_json_string :: "scalar_writer \<Rightarrow> string \<Rightarrow> bytes" where
  "write_json_string ser s = ser (JStr s)"

text \<open>
  The keys are collected, sorted and looked up one by one; on a map, whose keys are distinct, that is
  the list of entries sorted by key.
\<close>

function write_canonical :: "scalar_writer \<Rightarrow> json \<Rightarrow> bytes" where
  "write_canonical ser (JObj m) =
     [123]
     @ join [44]
         (map (\<lambda>p. write_json_string ser (fst p) @ [58] @ write_canonical ser (snd p))
            (sort_key fst m))
     @ [125]"
| "write_canonical ser (JArr items) = [91] @ join [44] (map (write_canonical ser) items) @ [93]"
| "write_canonical ser JNull = ser JNull"
| "write_canonical ser (JBool b) = ser (JBool b)"
| "write_canonical ser (JNum n) = ser (JNum n)"
| "write_canonical ser (JStr s) = ser (JStr s)"
  by pat_completeness auto
termination
  by (relation "measure (\<lambda>(ser, v). size v)") (auto dest: size_object_member size_element)

definition canonical_json :: "scalar_writer \<Rightarrow> json \<Rightarrow> bytes" where
  "canonical_json ser value = write_canonical ser value"

text \<open>\<^verbatim>\<open>u64::to_be_bytes\<close>.\<close>

definition u64_be_bytes :: "nat \<Rightarrow> bytes" where
  "u64_be_bytes n = map (\<lambda>i. word_of_nat (n div 256 ^ i mod 256)) [7, 6, 5, 4, 3, 2, 1, 0]"

definition feed :: "bytes \<Rightarrow> bytes" where
  "feed bs = u64_be_bytes (length bs mod 2 ^ 64) @ bs"

definition content_hash ::
    "hash_fun \<Rightarrow> string \<Rightarrow> string option \<Rightarrow> bytes \<Rightarrow> uuid \<Rightarrow> bytes" where
  "content_hash sha event_type target canonical_payload actor =
     sha (feed (as_bytes event_type)
          @ feed (as_bytes (case target of None \<Rightarrow> [] | Some t \<Rightarrow> t))
          @ feed canonical_payload
          @ feed actor)"

definition chain_hash :: "hash_fun \<Rightarrow> bytes \<Rightarrow> bytes \<Rightarrow> bytes" where
  "chain_hash sha content prev = sha (content @ prev)"

definition fingerprint :: "hash_fun \<Rightarrow> scalar_writer \<Rightarrow> json \<Rightarrow> string" where
  "fingerprint sha ser value = hex_lower (sha (canonical_json ser value))"

lemma u64_be_bytes_short [code]:
  "u64_be_bytes n =
     (if n < 256 then [0, 0, 0, 0, 0, 0, 0, word_of_nat n]
      else map (\<lambda>i. word_of_nat (n div 256 ^ i mod 256)) [7, 6, 5, 4, 3, 2, 1, 0])"
  by (simp add: u64_be_bytes_def)

section \<open>Collisions\<close>

text \<open>Two different inputs of the hash function with the same digest, one from each list: what a property of
  the hash chain or of the Merkle trees exhibits when its conclusion fails.\<close>

definition collides :: "hash_fun \<Rightarrow> bytes list \<Rightarrow> bytes list \<Rightarrow> bool" where
  "collides sha xs ys \<longleftrightarrow> (\<exists>x \<in> set xs. \<exists>y \<in> set ys. x \<noteq> y \<and> sha x = sha y)"

lemma collides_mono: "collides sha xs ys \<Longrightarrow> set xs \<subseteq> set xs' \<Longrightarrow> set ys \<subseteq> set ys' \<Longrightarrow> collides sha xs' ys'"
  unfolding collides_def by blast

section \<open>Length framing is unambiguous\<close>

lemma length_u64_be_bytes [simp]: "length (u64_be_bytes n) = 8"
  by (simp add: u64_be_bytes_def)

lemma byte_of_nat_eq_iff:
  assumes "a < 256" and "b < 256"
  shows "(word_of_nat a :: byte) = word_of_nat b \<longleftrightarrow> a = b"
proof
  assume "(word_of_nat a :: byte) = word_of_nat b"
  then have "unat (word_of_nat a :: byte) = unat (word_of_nat b :: byte)" by simp
  with assms show "a = b" by (simp add: unat_of_nat take_bit_nat_eq_self)
qed simp

lemma mod_pow_eqI:
  assumes "\<And>i. i < k \<Longrightarrow> (n::nat) div B ^ i mod B = m div B ^ i mod B"
  shows "n mod B ^ k = m mod B ^ k"
  using assms
proof (induction k)
  case (Suc k)
  have "x mod B ^ Suc k = B ^ k * (x div B ^ k mod B) + x mod B ^ k" for x :: nat
    by (simp only: power_Suc2 mod_mult2_eq)
  moreover have "n mod B ^ k = m mod B ^ k" using Suc by simp
  ultimately show ?case using Suc.prems [of k] by simp
qed simp

lemma u64_be_bytes_inject:
  assumes "n < 2 ^ 64" and "m < 2 ^ 64" and "u64_be_bytes n = u64_be_bytes m"
  shows "n = m"
proof -
  have "n div 256 ^ i mod 256 = m div 256 ^ i mod 256" if "i < 8" for i
  proof -
    have "i \<in> set [7, 6, 5, 4, 3, 2, 1, 0]" using that by auto
    with assms(3) have "(word_of_nat (n div 256 ^ i mod 256) :: byte) = word_of_nat (m div 256 ^ i mod 256)"
      unfolding u64_be_bytes_def by (meson map_eq_conv)
    then show ?thesis by (simp add: byte_of_nat_eq_iff)
  qed
  then have "n mod 256 ^ 8 = m mod 256 ^ 8" by (rule mod_pow_eqI)
  with assms(1,2) show ?thesis by simp
qed

lemma feed_append_inject:
  assumes "length a < 2 ^ 64" and "length b < 2 ^ 64" and "feed a @ x = feed b @ y"
  shows "a = b \<and> x = y"
proof -
  from assms(3) have "u64_be_bytes (length a mod 2 ^ 64) = u64_be_bytes (length b mod 2 ^ 64)"
    and rest: "a @ x = b @ y"
    by (simp_all add: feed_def)
  with assms(1,2) have "length a = length b" by (auto intro: u64_be_bytes_inject)
  with rest show ?thesis by simp
qed

lemma as_bytes_inject [simp]: "as_bytes a = as_bytes b \<longleftrightarrow> a = b"
proof -
  have "inj (of_char :: char \<Rightarrow> byte)"
  proof (rule injI)
    fix c d :: char assume "(of_char c :: byte) = of_char d"
    then have "(word_of_nat (of_char c) :: byte) = word_of_nat (of_char d)"
      by (simp only: of_nat_of_char)
    then have "(of_char c :: nat) = of_char d" by (simp add: byte_of_nat_eq_iff del: of_nat_of_char)
    then show "c = d" by simp
  qed
  then show ?thesis by (simp add: as_bytes_def inj_map_eq_map)
qed

lemma length_as_bytes [simp]: "length (as_bytes s) = length s"
  by (simp add: as_bytes_def)

end
