(* ===== verification/RichText.thy ===== *)
theory RichText
  imports Canonical
begin

text \<open>
  Rich-text patches (\<^verbatim>\<open>crates/engine-core/src/richtext.rs\<close>): building a patch between two revisions of a
  node's content and applying it. The Myers diff of the crate \<^verbatim>\<open>similar\<close> is the parameter \<open>myers\<close>;
  \<open>sha\<close> and \<open>ser\<close> are the parameters of \<^verbatim>\<open>fingerprint\<close>. An index the code would panic on is the value
  \<^const>\<open>None\<close>.
\<close>

definition MAX_SCALARS :: nat where "MAX_SCALARS = 100000"
definition MAX_DEPTH :: nat where "MAX_DEPTH = 64"
definition DIFF_LIMIT :: nat where "DIFF_LIMIT = 4000"

text \<open>U+FFFC OBJECT REPLACEMENT CHARACTER, as its UTF-8 bytes.\<close>

definition ATOM :: string where
  "ATOM = [char_of (239::nat), char_of (191::nat), char_of (188::nat)]"

datatype patch_error = PatchError string

function plain_text :: "json \<Rightarrow> string" where
  "plain_text value =
     (if as_str (json_index value ''type'') \<in> {Some ''inlineMath'', Some ''blockMath''}
      then (case as_str (json_index (json_index value ''attrs'') ''latex'') of None \<Rightarrow> [] | Some s \<Rightarrow> s)
      else (case as_str (json_index value ''text'') of
              Some text \<Rightarrow> text
            | None \<Rightarrow>
                (case json_index value ''content'' of
                   JArr c \<Rightarrow>
                     join (if json_index value ''type'' = JStr ''doc'' then ''\<newline>'' else [])
                       (map plain_text c)
                 | _ \<Rightarrow> [])))"
  by pat_completeness auto
termination
  by (relation "measure size") (auto intro: size_content)

declare plain_text.simps [simp del]

section \<open>Interned styles\<close>

record styles =
  st_values :: "json list"
  st_lookup :: "(bytes, nat) bmap"

definition styles_default :: styles where
  "styles_default = \<lparr>st_values = [], st_lookup = []\<rparr>"

definition intern :: "scalar_writer \<Rightarrow> json \<Rightarrow> styles \<Rightarrow> nat \<times> styles" where
  "intern ser value s =
     (let key = canonical_json ser value in
      case bt_get (st_lookup s) key of
        Some i \<Rightarrow> (i, s)
      | None \<Rightarrow>
          (let i = length (st_values s) in
           (i, \<lparr>st_values = st_values s @ [value], st_lookup = bt_insert key i (st_lookup s)\<rparr>)))"

record scalar =
  sc_ch :: string
  sc_style :: nat

definition props :: "json \<Rightarrow> json option" where
  "props value = map_option (\<lambda>m. JObj (bt_remove ''content'' m)) (as_object value)"

fun inline_chars :: "bool \<Rightarrow> nat \<Rightarrow> string list \<Rightarrow> scalar list \<Rightarrow> scalar list option" where
  "inline_chars atoms style [] out = Some out"
| "inline_chars atoms style (ch # chs) out =
     (if length out = MAX_SCALARS \<or> (atoms \<and> ch = ATOM) then None
      else inline_chars atoms style chs (out @ [\<lparr>sc_ch = ch, sc_style = style\<rparr>]))"

text \<open>The loop over the children. The styles interned before a failing child stay interned.\<close>

fun inline_loop ::
    "scalar_writer \<Rightarrow> bool \<Rightarrow> json list \<Rightarrow> styles \<Rightarrow> scalar list \<Rightarrow> scalar list option \<times> styles" where
  "inline_loop ser atoms [] st out = (Some out, st)"
| "inline_loop ser atoms (child # rest) st out =
     (if json_index child ''type'' \<noteq> JStr ''text'' \<or> json_get child ''content'' \<noteq> None then
        if \<not> atoms \<or> \<not> is_string (json_index child ''type'') \<or> json_get child ''content'' \<noteq> None
        then (None, st)
        else if length out = MAX_SCALARS then (None, st)
        else (let (i, st') = intern ser child st
              in inline_loop ser atoms rest st' (out @ [\<lparr>sc_ch = ATOM, sc_style = i\<rparr>]))
      else
        (case (as_str (json_index child ''text''), as_object child) of
           (Some text, Some m) \<Rightarrow>
             (let (i, st') = intern ser (JObj (bt_remove ''text'' m)) st
              in case inline_chars atoms i (chars text) out of
                   None \<Rightarrow> (None, st')
                 | Some out' \<Rightarrow> inline_loop ser atoms rest st' out')
         | _ \<Rightarrow> (None, st)))"

definition inline :: "scalar_writer \<Rightarrow> json \<Rightarrow> styles \<Rightarrow> bool \<Rightarrow> scalar list option \<times> styles" where
  "inline ser value st atoms =
     (if as_str (json_index value ''type'') \<notin> {Some ''paragraph'', Some ''heading'', Some ''codeBlock''}
      then (None, st)
      else (case json_get value ''content'' of
              None \<Rightarrow> inline_loop ser atoms [] st []
            | Some v \<Rightarrow> (case as_array v of
                           None \<Rightarrow> (None, st)
                         | Some children \<Rightarrow> inline_loop ser atoms children st [])))"

function children_of :: "scalar list \<Rightarrow> json list \<Rightarrow> bool \<Rightarrow> patch_error + json list" where
  "children_of [] styles atoms = Inr []"
| "children_of (t # ts) styles atoms =
     (case nth_opt styles (sc_style t) of
        Some (JObj metadata) \<Rightarrow>
          if atoms \<and> sc_ch t = ATOM \<and> bt_get metadata ''type'' \<noteq> Some (JStr ''text'') then
            bind_res (children_of ts styles atoms) (\<lambda>out. Inr (JObj metadata # out))
          else if bt_get metadata ''type'' \<noteq> Some (JStr ''text'')
                  \<or> bt_contains metadata ''text'' \<or> bt_contains metadata ''content''
          then Inl (PatchError ''invalid text metadata'')
          else
            (let run = takeWhile (\<lambda>u. sc_style u = sc_style t) (t # ts);
                 rest = dropWhile (\<lambda>u. sc_style u = sc_style t) ts
             in bind_res (children_of rest styles atoms)
                  (\<lambda>out. Inr (JObj (bt_insert ''text'' (JStr (concat (map sc_ch run))) metadata) # out)))
      | _ \<Rightarrow> Inl (PatchError ''unknown style''))"
  by pat_completeness auto
termination
  by (relation "measure (\<lambda>(ts, _, _). length ts)") (auto simp: le_imp_less_Suc length_dropWhile_le)

section \<open>Text diffs\<close>

text \<open>\<^verbatim>\<open>similar::DiffOp\<close> and its \<^verbatim>\<open>as_tag_tuple\<close>: (is it Equal, old start, old length, new start, new length).\<close>

datatype diff_op =
    DEqual nat nat nat
  | DDelete nat nat nat
  | DInsert nat nat nat
  | DReplace nat nat nat nat

fun tag_tuple :: "diff_op \<Rightarrow> bool \<times> nat \<times> nat \<times> nat \<times> nat" where
  "tag_tuple (DEqual oi ni len) = (True, oi, len, ni, len)"
| "tag_tuple (DDelete oi ol ni) = (False, oi, ol, ni, 0)"
| "tag_tuple (DInsert oi ni nl) = (False, oi, 0, ni, nl)"
| "tag_tuple (DReplace oi ol ni nl) = (False, oi, ol, ni, nl)"

type_synonym differ = "string list \<Rightarrow> string list \<Rightarrow> diff_op list"

fun common_prefix :: "'a list \<Rightarrow> 'a list \<Rightarrow> nat" where
  "common_prefix (x # xs) (y # ys) = (if x = y then Suc (common_prefix xs ys) else 0)"
| "common_prefix _ _ = 0"

definition text_diff :: "differ \<Rightarrow> scalar list \<Rightarrow> scalar list \<Rightarrow> diff_op list" where
  "text_diff myers sa sb =
     (let a = map sc_ch sa; b = map sc_ch sb;
          prefix = common_prefix a b;
          suffix = common_prefix (rev (drop prefix a)) (rev (drop prefix b));
          old_len = length a - prefix - suffix;
          new_len = length b - prefix - suffix
      in if old_len = 0 \<or> new_len = 0 \<or> old_len + new_len \<le> DIFF_LIMIT then myers a b
         else (if prefix > 0 then [DEqual 0 0 prefix] else [])
              @ [DReplace prefix old_len prefix new_len]
              @ (if suffix > 0 then [DEqual (prefix + old_len) (prefix + new_len) suffix] else []))"

definition push_retain :: "nat option \<Rightarrow> text_op list \<Rightarrow> text_op list" where
  "push_retain style out =
     (case rev out of
        Retain count prev # _ \<Rightarrow>
          if prev = style then butlast out @ [Retain (count + 1) prev] else out @ [Retain 1 style]
      | _ \<Rightarrow> out @ [Retain 1 style])"

definition push_insert :: "scalar \<Rightarrow> text_op list \<Rightarrow> text_op list" where
  "push_insert t out =
     (case rev out of
        Insert text style # _ \<Rightarrow>
          if style = sc_style t then butlast out @ [Insert (text @ sc_ch t) style]
          else out @ [Insert (sc_ch t) (sc_style t)]
      | _ \<Rightarrow> out @ [Insert (sc_ch t) (sc_style t)])"

fun delta_equal :: "scalar list \<Rightarrow> scalar list \<Rightarrow> nat \<Rightarrow> nat \<Rightarrow> nat \<Rightarrow> text_op list \<Rightarrow> text_op list option" where
  "delta_equal a b old new 0 out = Some out"
| "delta_equal a b old new (Suc n) out =
     (case (nth_opt a old, nth_opt b new) of
        (Some x, Some y) \<Rightarrow>
          delta_equal a b (Suc old) (Suc new) n
            (push_retain (if sc_style x \<noteq> sc_style y then Some (sc_style y) else None) out)
      | _ \<Rightarrow> None)"

fun delta_loop :: "scalar list \<Rightarrow> scalar list \<Rightarrow> diff_op list \<Rightarrow> text_op list \<Rightarrow> text_op list option" where
  "delta_loop a b [] out = Some out"
| "delta_loop a b (op # ops) out =
     (let (equal, old, old_len, new, new_len) = tag_tuple op in
      if equal then
        (case delta_equal a b old new old_len out of
           None \<Rightarrow> None
         | Some out' \<Rightarrow> delta_loop a b ops out')
      else
        (case slice_opt b new (new + new_len) of
           None \<Rightarrow> None
         | Some ins \<Rightarrow>
             delta_loop a b ops
               (fold push_insert ins (if old_len > 0 then out @ [Delete old_len] else out))))"

definition delta :: "differ \<Rightarrow> scalar list \<Rightarrow> scalar list \<Rightarrow> text_op list option" where
  "delta myers a b = delta_loop a b (text_diff myers a b) []"

section \<open>Building a patch\<close>

text \<open>
  \<^verbatim>\<open>build\<close> threads the path, the interned styles and the edits; \<open>build_children\<close> is its loop over paired
  children. \<^const>\<open>None\<close> is an out-of-range index in \<^const>\<open>delta\<close>.
\<close>

function (sequential)
  build :: "differ \<Rightarrow> scalar_writer \<Rightarrow> json \<Rightarrow> json \<Rightarrow> nat list \<Rightarrow> styles \<Rightarrow> rich_text_edit list
             \<Rightarrow> (styles \<times> rich_text_edit list) option"
  and build_children :: "differ \<Rightarrow> scalar_writer \<Rightarrow> json list \<Rightarrow> json list \<Rightarrow> nat \<Rightarrow> nat list \<Rightarrow> styles
             \<Rightarrow> rich_text_edit list \<Rightarrow> (styles \<times> rich_text_edit list) option"
where
  "build myers ser a b path st edits =
     (if a = b then Some (st, edits)
      else
        (let replaced = (\<lambda>st'. Some (st', edits @ [EditReplace path b])) in
         if length path < MAX_DEPTH \<and> json_index a ''type'' = json_index b ''type''
            \<and> props a \<noteq> None \<and> props b \<noteq> None
         then
           (let (x, st1) = inline ser a st False; (y, st2) = inline ser b st1 False;
                edits' = (if props a \<noteq> props b then edits @ [EditProps path (the (props b))] else edits)
            in case (x, y) of
                 (Some x, Some y) \<Rightarrow>
                   (case delta myers x y of
                      None \<Rightarrow> None
                    | Some ops \<Rightarrow> Some (st2, edits' @ [EditText path ops]))
               | _ \<Rightarrow>
                   (case (json_index a ''content'', json_index b ''content'') of
                      (JArr xs, JArr ys) \<Rightarrow>
                        if length xs = length ys
                        then build_children myers ser xs ys 0 path st2 edits'
                        else replaced st2
                    | _ \<Rightarrow> replaced st2))
         else replaced st))"
| "build_children myers ser (x # xs) (y # ys) i path st edits =
     (case build myers ser x y (path @ [i]) st edits of
        None \<Rightarrow> None
      | Some (st', edits') \<Rightarrow> build_children myers ser xs ys (Suc i) path st' edits')"
| "build_children myers ser _ _ i path st edits = Some (st, edits)"
  by pat_completeness auto
termination
  by (relation "measure (case_sum (\<lambda>(_, _, a, _). size a) (\<lambda>(_, _, xs, _). size_list size xs))")
     (auto intro: size_content_list)

fun restyle_ops ::
    "scalar_writer \<Rightarrow> json list \<Rightarrow> text_op list \<Rightarrow> styles \<Rightarrow> (text_op list \<times> styles) option" where
  "restyle_ops ser values [] st = Some ([], st)"
| "restyle_ops ser values (op # ops) st =
     (let keep = (\<lambda>op' st'. map_option (\<lambda>(ops', st''). (op' # ops', st'')) (restyle_ops ser values ops st'))
      in case op of
           Insert text style \<Rightarrow>
             (case nth_opt values style of
                None \<Rightarrow> None
              | Some v \<Rightarrow> (let (i, st') = intern ser v st in keep (Insert text i) st'))
         | Retain count (Some style) \<Rightarrow>
             (case nth_opt values style of
                None \<Rightarrow> None
              | Some v \<Rightarrow> (let (i, st') = intern ser v st in keep (Retain count (Some i)) st'))
         | _ \<Rightarrow> keep op st)"

fun restyle_edits ::
    "scalar_writer \<Rightarrow> json list \<Rightarrow> rich_text_edit list \<Rightarrow> styles \<Rightarrow> (rich_text_edit list \<times> styles) option" where
  "restyle_edits ser values [] st = Some ([], st)"
| "restyle_edits ser values (EditText path ops # es) st =
     (case restyle_ops ser values ops st of
        None \<Rightarrow> None
      | Some (ops', st') \<Rightarrow>
          map_option (\<lambda>(es', st''). (EditText path ops' # es', st'')) (restyle_edits ser values es st'))"
| "restyle_edits ser values (e # es) st =
     map_option (\<lambda>(es', st'). (e # es', st')) (restyle_edits ser values es st)"

section \<open>Applying a patch\<close>

definition advance :: "nat \<Rightarrow> nat \<Rightarrow> nat \<Rightarrow> nat option" where
  "advance cursor count len =
     (case checked_add_usize cursor count of
        Some stop \<Rightarrow> if stop \<le> len then Some stop else None
      | None \<Rightarrow> None)"

fun apply_text_op ::
    "scalar list \<Rightarrow> nat list \<Rightarrow> text_op \<Rightarrow> nat \<times> scalar list \<Rightarrow> patch_error + (nat \<times> scalar list)" where
  "apply_text_op input added (Retain count style) (cursor, result) =
     bind_res (ok_or (advance cursor count (length input)) (PatchError ''retain out of bounds''))
       (\<lambda>stop. bind_res
          (case style of
             None \<Rightarrow> Inr None
           | Some s \<Rightarrow> map_sum id Some (ok_or (nth_opt added s) (PatchError ''unknown style'')))
          (\<lambda>selected. Inr (stop, result @
             map (\<lambda>t. \<lparr>sc_ch = sc_ch t, sc_style = (case selected of None \<Rightarrow> sc_style t | Some s \<Rightarrow> s)\<rparr>)
               (take (stop - cursor) (drop cursor input)))))"
| "apply_text_op input added (Delete count) (cursor, result) =
     bind_res (ok_or (advance cursor count (length input)) (PatchError ''delete out of bounds''))
       (\<lambda>stop. Inr (stop, result))"
| "apply_text_op input added (Insert text style) (cursor, result) =
     bind_res (ok_or (nth_opt added style) (PatchError ''unknown style''))
       (\<lambda>s. if length text > MAX_SCALARS * 4 then Inl (PatchError ''insert too large'')
            else Inr (cursor, result @ map (\<lambda>ch. \<lparr>sc_ch = ch, sc_style = s\<rparr>) (chars text)))"

fun apply_text_ops ::
    "scalar list \<Rightarrow> nat list \<Rightarrow> text_op list \<Rightarrow> nat \<times> scalar list \<Rightarrow> patch_error + (nat \<times> scalar list)" where
  "apply_text_ops input added [] s = Inr s"
| "apply_text_ops input added (op # ops) s =
     bind_res (apply_text_op input added op s)
       (\<lambda>(cursor, result).
          if length result > MAX_SCALARS then Inl (PatchError ''text too large'')
          else apply_text_ops input added ops (cursor, result))"

fun intern_all :: "scalar_writer \<Rightarrow> json list \<Rightarrow> styles \<Rightarrow> nat list \<times> styles" where
  "intern_all ser [] st = ([], st)"
| "intern_all ser (v # vs) st =
     (let (i, st') = intern ser v st; (is, st'') = intern_all ser vs st' in (i # is, st''))"

text \<open>\<^verbatim>\<open>target["content"] = x\<close>; the callers assign into an object only.\<close>

fun put_content :: "json \<Rightarrow> json \<Rightarrow> json" where
  "put_content (JObj m) x = JObj (bt_insert ''content'' x m)"
| "put_content v x = v"

definition apply_text_edit ::
    "scalar_writer \<Rightarrow> json list \<Rightarrow> text_op list \<Rightarrow> json \<Rightarrow> patch_error + json" where
  "apply_text_edit ser patch_styles ops target =
     (let (input, st) = inline ser target styles_default False in
      bind_res (ok_or input (PatchError ''not an inline text container''))
        (\<lambda>input.
           let (added, st') = intern_all ser patch_styles st in
           bind_res (apply_text_ops input added ops (0, []))
             (\<lambda>(cursor, result).
                if cursor \<noteq> length input then Inl (PatchError ''incomplete consumption'')
                else bind_res (children_of result (st_values st') False)
                       (\<lambda>cs. Inr (put_content target (JArr cs))))))"

definition apply_props_edit :: "json \<Rightarrow> json \<Rightarrow> patch_error + json" where
  "apply_props_edit value target =
     (if \<not> is_object value \<or> json_get value ''content'' \<noteq> None
      then Inl (PatchError ''invalid properties'')
      else Inr (case json_get target ''content'' of None \<Rightarrow> value | Some c \<Rightarrow> put_content value c))"

text \<open>Walk the path through the \<^verbatim>\<open>content\<close> arrays and rewrite the target in place.\<close>

fun update_at :: "nat list \<Rightarrow> (json \<Rightarrow> patch_error + json) \<Rightarrow> json \<Rightarrow> patch_error + json" where
  "update_at [] f v = f v"
| "update_at (i # is) f v =
     (case json_get v ''content'' of
        Some (JArr xs) \<Rightarrow>
          if i < length xs
          then bind_res (update_at is f (xs ! i)) (\<lambda>x. Inr (put_content v (JArr (xs[i := x]))))
          else Inl (PatchError ''invalid path'')
      | _ \<Rightarrow> Inl (PatchError ''invalid path''))"

fun edit_path :: "rich_text_edit \<Rightarrow> nat list" where
  "edit_path (EditText path _) = path"
| "edit_path (EditProps path _) = path"
| "edit_path (EditReplace path _) = path"

fun edit_fun :: "scalar_writer \<Rightarrow> json list \<Rightarrow> rich_text_edit \<Rightarrow> json \<Rightarrow> patch_error + json" where
  "edit_fun ser patch_styles (EditReplace _ value) target = Inr value"
| "edit_fun ser patch_styles (EditProps _ value) target = apply_props_edit value target"
| "edit_fun ser patch_styles (EditText _ ops) target = apply_text_edit ser patch_styles ops target"

fun apply_edits ::
    "scalar_writer \<Rightarrow> json list \<Rightarrow> rich_text_edit list \<Rightarrow> json \<Rightarrow> patch_error + json" where
  "apply_edits ser patch_styles [] out = Inr out"
| "apply_edits ser patch_styles (e # es) out =
     (if length (edit_path e) > MAX_DEPTH then Inl (PatchError ''path too deep'')
      else bind_res (update_at (edit_path e) (edit_fun ser patch_styles e) out)
             (apply_edits ser patch_styles es))"

definition apply_patch ::
    "hash_fun \<Rightarrow> scalar_writer \<Rightarrow> json \<Rightarrow> rich_text_patch \<Rightarrow> patch_error + json" where
  "apply_patch sha ser before patch =
     (if rp_version patch \<noteq> 1 \<or> fingerprint sha ser before \<noteq> rp_before patch
      then Inl (PatchError ''base/version mismatch'')
      else if length (rp_edits patch) > 10000 \<or> length (rp_styles patch) > 10000
      then Inl (PatchError ''too many operations/styles'')
      else bind_res (apply_edits ser (rp_styles patch) (rp_edits patch) before)
             (\<lambda>out. if fingerprint sha ser out \<noteq> rp_after patch
                    then Inl (PatchError ''result mismatch'') else Inr out))"

text \<open>
  \<^verbatim>\<open>make_patch\<close>: the outer \<^const>\<open>None\<close> is an index panic of \<^const>\<open>build\<close> or of the style table, the inner one
  the code's own \<^verbatim>\<open>None\<close> (the patch would not reproduce the new value).
\<close>

definition make_patch ::
    "hash_fun \<Rightarrow> scalar_writer \<Rightarrow> differ \<Rightarrow> json \<Rightarrow> json \<Rightarrow> rich_text_patch option option" where
  "make_patch sha ser myers before after =
     (case build myers ser before after [] styles_default [] of
        None \<Rightarrow> None
      | Some (st, edits) \<Rightarrow>
          (case restyle_edits ser (st_values st) edits styles_default of
             None \<Rightarrow> None
           | Some (edits', compact) \<Rightarrow>
               (let patch = \<lparr>rp_version = 1, rp_before = fingerprint sha ser before,
                             rp_after = fingerprint sha ser after,
                             rp_styles = st_values compact, rp_edits = edits'\<rparr>
                in Some (if apply_patch sha ser before patch = Inr after then Some patch else None))))"

end
