(* ===== verification/Materializer.thy ===== *)
theory Materializer
  imports RichText
begin

text \<open>
  The folded document state and the fold of the event log into it
  (\<^verbatim>\<open>crates/engine-core/src/materializer.rs\<close>), with the two event rewrites of
  \<^verbatim>\<open>crates/engine-core/src/richtext.rs\<close> that read that state (\<^verbatim>\<open>redundant_label\<close>, \<^verbatim>\<open>compact_event\<close>). A state is a
  record; \<^verbatim>\<open>apply_payload\<close> returns the updated record or the error. The derived \<^verbatim>\<open>serde\<close> decoders are the
  parameters \<open>decode\<close> (payloads) and \<open>decode_state\<close> (snapshots).
\<close>

record materialized_node =
  mn_id :: node_id
  mn_parent_id :: "node_id option"
  mn_node_type :: string
  mn_pos :: string
  mn_current_fields :: json
  mn_var_name :: "string option"
  mn_deleted :: bool

record comment_state =
  cs_node_id :: "node_id option"
  cs_body :: string

record suggestion_state =
  sg_target_node_id :: "node_id option"
  sg_detail :: json
  sg_accepted :: bool
  sg_rejected_reason :: "string option"

record document_state =
  ds_nodes :: "(node_id, materialized_node) bmap"
  ds_comments :: "comment_state list"
  ds_suggestions :: "(string, suggestion_state) bmap"
  ds_removed_choices :: "node_id list"

definition empty_state :: document_state where
  "empty_state = \<lparr>ds_nodes = [], ds_comments = [], ds_suggestions = [], ds_removed_choices = []\<rparr>"

datatype apply_error =
    AE_RichText string
  | AE_MissingNode string
  | AE_NonObjectFields string
  | AE_MissingSuggestion string

datatype materialize_error =
    ME_RichText int string
  | ME_Deserialize string
  | ME_InvalidPayload int string
  | ME_MissingNode int string
  | ME_NonObjectFields int string
  | ME_MissingSuggestion int string

fun materialize_error_seq :: "materialize_error \<Rightarrow> int option" where
  "materialize_error_seq (ME_RichText seq _) = Some seq"
| "materialize_error_seq (ME_InvalidPayload seq _) = Some seq"
| "materialize_error_seq (ME_MissingNode seq _) = Some seq"
| "materialize_error_seq (ME_NonObjectFields seq _) = Some seq"
| "materialize_error_seq (ME_MissingSuggestion seq _) = Some seq"
| "materialize_error_seq (ME_Deserialize _) = None"

fun with_seq :: "apply_error \<Rightarrow> int \<Rightarrow> materialize_error" where
  "with_seq (AE_RichText reason) seq = ME_RichText seq reason"
| "with_seq (AE_MissingNode node_id) seq = ME_MissingNode seq node_id"
| "with_seq (AE_NonObjectFields node_id) seq = ME_NonObjectFields seq node_id"
| "with_seq (AE_MissingSuggestion sid) seq = ME_MissingSuggestion seq sid"

fun object_or_value :: "json \<Rightarrow> json" where
  "object_or_value (JObj m) = JObj m"
| "object_or_value other = JObj [(''value'', other)]"

fun patch_error_text :: "patch_error \<Rightarrow> string" where
  "patch_error_text (PatchError m) = ''invalid rich-text patch: '' @ m"

text \<open>\<^verbatim>\<open>nodes.get_mut(id)\<close> followed by an update of the node, and the same for a suggestion.\<close>

definition update_node ::
    "document_state \<Rightarrow> node_id \<Rightarrow> (materialized_node \<Rightarrow> apply_error + materialized_node)
      \<Rightarrow> apply_error + document_state" where
  "update_node s n f =
     (case bt_get (ds_nodes s) n of
        None \<Rightarrow> Inl (AE_MissingNode n)
      | Some node \<Rightarrow> bind_res (f node) (\<lambda>node'. Inr (s\<lparr>ds_nodes := bt_insert n node' (ds_nodes s)\<rparr>)))"

definition update_suggestion ::
    "document_state \<Rightarrow> string \<Rightarrow> (suggestion_state \<Rightarrow> suggestion_state)
      \<Rightarrow> apply_error + document_state" where
  "update_suggestion s sid f =
     (case bt_get (ds_suggestions s) sid of
        None \<Rightarrow> Inl (AE_MissingSuggestion sid)
      | Some sg \<Rightarrow> Inr (s\<lparr>ds_suggestions := bt_insert sid (f sg) (ds_suggestions s)\<rparr>))"

fun apply_payload ::
    "hash_fun \<Rightarrow> scalar_writer \<Rightarrow> document_state \<Rightarrow> event_payload \<Rightarrow> apply_error + document_state" where
  "apply_payload sha ser s (RichTextPatched n patch) =
     update_node s n (\<lambda>node.
       bind_res
         (map_err (\<lambda>e. AE_RichText (patch_error_text e))
            (apply_patch sha ser (json_index (mn_current_fields node) ''content'') patch))
         (\<lambda>content.
            (case mn_current_fields node of
               JObj flds \<Rightarrow>
                 Inr (node\<lparr>mn_current_fields :=
                   JObj (bt_insert ''content'' content
                     (bt_insert ''label'' (JStr (plain_text content)) flds))\<rparr>)
             | _ \<Rightarrow> Inl (AE_NonObjectFields n))))"
| "apply_payload sha ser s (NodeCreated n nt parent pos flds var) =
     Inr (s\<lparr>ds_nodes := bt_insert n
       \<lparr>mn_id = n, mn_parent_id = parent, mn_node_type = node_type_str nt, mn_pos = pos,
        mn_current_fields = object_or_value flds, mn_var_name = var, mn_deleted = False\<rparr>
       (ds_nodes s)\<rparr>)"
| "apply_payload sha ser s (FieldEdited n field value) =
     update_node s n (\<lambda>node.
       (case mn_current_fields node of
          JObj flds \<Rightarrow>
            (let node' = node\<lparr>mn_current_fields := JObj (bt_insert field value flds)\<rparr>
             in Inr (if field = ''var_name'' \<or> field = ''varName''
                     then node'\<lparr>mn_var_name := as_str value\<rparr> else node'))
        | _ \<Rightarrow> Inl (AE_NonObjectFields n)))"
| "apply_payload sha ser s (NodeMoved n new_parent new_pos) =
     update_node s n (\<lambda>node. Inr (node\<lparr>mn_parent_id := new_parent, mn_pos := new_pos\<rparr>))"
| "apply_payload sha ser s (NodeRestored n) =
     map_sum id (\<lambda>s'. s'\<lparr>ds_removed_choices := bs_remove n (ds_removed_choices s')\<rparr>)
       (update_node s n (\<lambda>node. Inr (node\<lparr>mn_deleted := False\<rparr>)))"
| "apply_payload sha ser s (NodeDeleted n) =
     update_node s n (\<lambda>node. Inr (node\<lparr>mn_deleted := True\<rparr>))"
| "apply_payload sha ser s (ChoiceAdded n choice flds) =
     Inr (s\<lparr>ds_nodes :=
              (if bt_contains (ds_nodes s) choice then ds_nodes s
               else bt_insert choice
                 \<lparr>mn_id = choice, mn_parent_id = Some n, mn_node_type = ''choice'', mn_pos = choice,
                  mn_current_fields = object_or_value flds, mn_var_name = None, mn_deleted = False\<rparr>
                 (ds_nodes s)),
            ds_removed_choices := bs_remove choice (ds_removed_choices s)\<rparr>)"
| "apply_payload sha ser s (ChoiceRemoved n choice) =
     Inr (s\<lparr>ds_removed_choices := bs_insert choice (ds_removed_choices s)\<rparr>)"
| "apply_payload sha ser s (CommentReplied _ _) = Inr s"
| "apply_payload sha ser s (CommentResolved _ _) = Inr s"
| "apply_payload sha ser s (CommentAdded n body) =
     Inr (s\<lparr>ds_comments := ds_comments s @ [\<lparr>cs_node_id = n, cs_body = body\<rparr>]\<rparr>)"
| "apply_payload sha ser s (SuggestionProposed sid target detail) =
     Inr (s\<lparr>ds_suggestions := bt_insert sid
       \<lparr>sg_target_node_id = target, sg_detail = detail, sg_accepted = False, sg_rejected_reason = None\<rparr>
       (ds_suggestions s)\<rparr>)"
| "apply_payload sha ser s (SuggestionAccepted sid) =
     update_suggestion s sid (\<lambda>g. g\<lparr>sg_accepted := True, sg_rejected_reason := None\<rparr>)"
| "apply_payload sha ser s (SuggestionRejected sid reason) =
     update_suggestion s sid (\<lambda>g. g\<lparr>sg_accepted := False,
       sg_rejected_reason := Some (case reason of None \<Rightarrow> ''rejected'' | Some r \<Rightarrow> r)\<rparr>)"
| "apply_payload sha ser s (Deployed _) = Inr s"

type_synonym decoder = "json \<Rightarrow> string + event_payload"

fun fold_into ::
    "hash_fun \<Rightarrow> scalar_writer \<Rightarrow> decoder \<Rightarrow> document_state \<Rightarrow> event list
      \<Rightarrow> materialize_error + document_state" where
  "fold_into sha ser decode s [] = Inr s"
| "fold_into sha ser decode s (ev # evs) =
     bind_res (map_err (ME_InvalidPayload (ev_seq ev)) (decode (ev_payload ev)))
       (\<lambda>payload. bind_res (map_err (\<lambda>e. with_seq e (ev_seq ev)) (apply_payload sha ser s payload))
          (\<lambda>s'. fold_into sha ser decode s' evs))"

definition fold_events ::
    "hash_fun \<Rightarrow> scalar_writer \<Rightarrow> decoder \<Rightarrow> event list \<Rightarrow> materialize_error + document_state" where
  "fold_events sha ser decode events = fold_into sha ser decode empty_state events"

definition from_snapshot ::
    "hash_fun \<Rightarrow> scalar_writer \<Rightarrow> decoder \<Rightarrow> (json \<Rightarrow> string + document_state) \<Rightarrow> json \<Rightarrow> event list
      \<Rightarrow> materialize_error + document_state" where
  "from_snapshot sha ser decode decode_state snapshot_state tail =
     bind_res (map_err ME_Deserialize (decode_state snapshot_state))
       (\<lambda>s. fold_into sha ser decode s tail)"

section \<open>Event rewrites over the state\<close>

fun redundant_label :: "document_state \<Rightarrow> event_payload \<Rightarrow> bool" where
  "redundant_label s (FieldEdited n field value) =
     (field = ''label''
      \<and> (case bt_get (ds_nodes s) n of
           None \<Rightarrow> False
         | Some node \<Rightarrow> json_get (mn_current_fields node) field = Some value))"
| "redundant_label s _ = False"

text \<open>
  \<open>wire_len\<close> is the length \<^verbatim>\<open>serde_json::to_vec\<close> gives an event; \<^const>\<open>None\<close> is a panic inside \<^const>\<open>make_patch\<close>.
\<close>

fun compact_event ::
    "hash_fun \<Rightarrow> scalar_writer \<Rightarrow> differ \<Rightarrow> (event_payload \<Rightarrow> nat) \<Rightarrow> document_state \<Rightarrow> event_payload
      \<Rightarrow> event_payload option" where
  "compact_event sha ser myers wire_len s (FieldEdited n field value) =
     (let op = FieldEdited n field value in
      if field = ''content'' then
        (case (case bt_get (ds_nodes s) n of
                 None \<Rightarrow> None | Some node \<Rightarrow> json_get (mn_current_fields node) field) of
           None \<Rightarrow> Some op
         | Some before \<Rightarrow>
             (case make_patch sha ser myers before value of
                None \<Rightarrow> None
              | Some None \<Rightarrow> Some op
              | Some (Some patch) \<Rightarrow>
                  if wire_len (RichTextPatched n patch) < wire_len op
                  then Some (RichTextPatched n patch) else Some op))
      else Some op)"
| "compact_event sha ser myers wire_len s op = Some op"

section \<open>The fold\<close>

lemmas state_updates = update_node_def update_suggestion_def

lemma fold_into_append:
  "fold_into sha ser decode s (xs @ ys) =
     bind_res (fold_into sha ser decode s xs) (\<lambda>s'. fold_into sha ser decode s' ys)"
  by (induction xs arbitrary: s) (simp_all add: bind_res_assoc)

end
