(* ===== verification/Ops.thy ===== *)
theory Ops
  imports Materializer
begin

text \<open>
  Validation of semantic operations against the folded state (\<^verbatim>\<open>crates/engine-core/src/ops.rs\<close>): one
  definition per helper of the code and \<open>validate_op\<close> with one equation per variant. \<open>decode\<close> stands for
  the derived decoder of \<^verbatim>\<open>EventPayload\<close>. The constructors of \<^verbatim>\<open>OpError\<close> carry the prefix \<open>OE_\<close>.
\<close>

datatype op_error =
    OE_NodeNotFound string
  | OE_NodeDeleted string
  | OE_NodeAlreadyLive string
  | OE_NodeHasChildren string
  | OE_NodeExists string
  | OE_ParentNotFound string
  | OE_IllegalContainment string string
  | OE_InvalidRoot string
  | OE_DuplicateVarName string
  | OE_MoveCreatesCycle string string
  | OE_NotChoiceBearing string
  | OE_ChoiceNotFound string
  | OE_SuggestionExists string
  | OE_SuggestionNotFound string
  | OE_SuggestionNotPending string
  | OE_InvalidWrappedOp string
  | OE_InvalidDiscussion string

section \<open>Precondition helpers\<close>

definition parse_node_type :: "string \<Rightarrow> node_type option" where
  "parse_node_type raw = (case node_type_from_str raw of Inl _ \<Rightarrow> None | Inr t \<Rightarrow> Some t)"

definition can_contain :: "node_type \<Rightarrow> node_type \<Rightarrow> bool" where
  "can_contain parent child \<longleftrightarrow>
     (parent, child) \<in>
       {(NT_Form, NT_Section), (NT_Form, NT_Item), (NT_Section, NT_Section), (NT_Section, NT_Item),
        (NT_Item, NT_Choice), (NT_Clause, NT_Clause), (NT_Clause, NT_Paragraph)}"

definition is_root_type :: "node_type \<Rightarrow> bool" where
  "is_root_type t \<longleftrightarrow> t \<in> {NT_Form, NT_Clause}"

definition require_present :: "document_state \<Rightarrow> node_id \<Rightarrow> op_error + materialized_node" where
  "require_present s n = ok_or (bt_get (ds_nodes s) n) (OE_NodeNotFound n)"

definition require_live :: "document_state \<Rightarrow> node_id \<Rightarrow> op_error + materialized_node" where
  "require_live s n =
     bind_res (require_present s n)
       (\<lambda>node. if mn_deleted node \<or> n \<in> set (ds_removed_choices s) then Inl (OE_NodeDeleted n)
               else Inr node)"

definition require_not_removed :: "document_state \<Rightarrow> node_id \<Rightarrow> op_error + unit" where
  "require_not_removed s n =
     (if n \<in> set (ds_removed_choices s) then Inl (OE_NodeDeleted n) else Inr ())"

definition require_choice_bearing :: "materialized_node \<Rightarrow> op_error + unit" where
  "require_choice_bearing node =
     (case parse_node_type (mn_node_type node) of
        Some NT_Item \<Rightarrow> Inr ()
      | _ \<Rightarrow> Inl (OE_NotChoiceBearing (mn_id node)))"

definition require_pending :: "document_state \<Rightarrow> string \<Rightarrow> op_error + unit" where
  "require_pending s sid =
     bind_res (ok_or (bt_get (ds_suggestions s) sid) (OE_SuggestionNotFound sid))
       (\<lambda>g. if sg_accepted g \<or> sg_rejected_reason g \<noteq> None then Inl (OE_SuggestionNotPending sid)
            else Inr ())"

definition var_name_taken :: "document_state \<Rightarrow> string \<Rightarrow> node_id option \<Rightarrow> bool" where
  "var_name_taken s name exclude \<longleftrightarrow>
     list_ex (\<lambda>(k, node). \<not> mn_deleted node \<and> Some (mn_id node) \<noteq> exclude
                            \<and> mn_var_name node = Some name) (ds_nodes s)"

text \<open>
  The upward walk of the cycle check. The loop stops when \<^verbatim>\<open>steps > nodes.len()\<close>; \<open>fuel\<close> is the number of
  iterations left, \<open>nodes.len() + 1\<close> at the start.
\<close>

fun is_descendant_loop :: "document_state \<Rightarrow> node_id \<Rightarrow> nat \<Rightarrow> node_id \<Rightarrow> bool" where
  "is_descendant_loop s ancestor 0 current = False"
| "is_descendant_loop s ancestor (Suc fuel) current =
     (case bt_get (ds_nodes s) current of
        None \<Rightarrow> False
      | Some node \<Rightarrow>
          (case mn_parent_id node of
             None \<Rightarrow> False
           | Some parent \<Rightarrow>
               if parent = ancestor then True else is_descendant_loop s ancestor fuel parent))"

definition is_descendant_of :: "document_state \<Rightarrow> node_id \<Rightarrow> node_id \<Rightarrow> bool" where
  "is_descendant_of s candidate ancestor =
     is_descendant_loop s ancestor (length (ds_nodes s) + 1) candidate"

section \<open>Validation\<close>

definition nonempty_name :: "string option \<Rightarrow> string option" where
  "nonempty_name v = (case v of Some n \<Rightarrow> if n = [] then None else Some n | None \<Rightarrow> None)"

definition validate_node_created ::
    "document_state \<Rightarrow> node_id \<Rightarrow> node_type \<Rightarrow> node_id option \<Rightarrow> string option \<Rightarrow> op_error + unit" where
  "validate_node_created s n nt parent_id var_name =
     (if bt_contains (ds_nodes s) n then Inl (OE_NodeExists n)
      else
        bind_res
          (case parent_id of
             Some p \<Rightarrow>
               bind_res (ok_or (bt_get (ds_nodes s) p) (OE_ParentNotFound p))
                 (\<lambda>parent.
                    if mn_deleted parent then Inl (OE_NodeDeleted p)
                    else (case parse_node_type (mn_node_type parent) of
                            Some pt \<Rightarrow>
                              if \<not> can_contain pt nt
                              then Inl (OE_IllegalContainment (node_type_str pt) (node_type_str nt))
                              else Inr ()
                          | None \<Rightarrow> Inr ()))
           | None \<Rightarrow> if \<not> is_root_type nt then Inl (OE_InvalidRoot (node_type_str nt)) else Inr ())
          (\<lambda>_. case nonempty_name var_name of
                  Some name \<Rightarrow>
                    if var_name_taken s name None then Inl (OE_DuplicateVarName name) else Inr ()
                | None \<Rightarrow> Inr ()))"

definition validate_node_moved ::
    "document_state \<Rightarrow> node_id \<Rightarrow> node_id option \<Rightarrow> op_error + unit" where
  "validate_node_moved s n new_parent_id =
     bind_res (require_not_removed s n) (\<lambda>_.
     bind_res (require_present s n) (\<lambda>node.
       (case new_parent_id of
          None \<Rightarrow>
            (case parse_node_type (mn_node_type node) of
               Some t \<Rightarrow> if \<not> is_root_type t then Inl (OE_InvalidRoot (mn_node_type node)) else Inr ()
             | None \<Rightarrow> Inr ())
        | Some p \<Rightarrow>
            bind_res (require_live s p) (\<lambda>new_parent.
            bind_res
              (case (parse_node_type (mn_node_type new_parent), parse_node_type (mn_node_type node)) of
                 (Some pt, Some ct) \<Rightarrow>
                   if \<not> can_contain pt ct
                   then Inl (OE_IllegalContainment (node_type_str pt) (node_type_str ct)) else Inr ()
               | _ \<Rightarrow> Inr ())
              (\<lambda>_. if p = n \<or> is_descendant_of s p n then Inl (OE_MoveCreatesCycle n p)
                    else Inr ())))))"

fun is_content_op :: "event_payload \<Rightarrow> bool" where
  "is_content_op (NodeCreated _ _ _ _ _ _) = True"
| "is_content_op (NodeMoved _ _ _) = True"
| "is_content_op (NodeDeleted _) = True"
| "is_content_op (NodeRestored _) = True"
| "is_content_op (FieldEdited _ _ _) = True"
| "is_content_op (ChoiceAdded _ _ _) = True"
| "is_content_op (ChoiceRemoved _ _) = True"
| "is_content_op (CommentAdded _ _) = True"
| "is_content_op _ = False"

definition decode_wrapped_op :: "decoder \<Rightarrow> json \<Rightarrow> op_error + event_payload" where
  "decode_wrapped_op decode detail =
     bind_res (map_err OE_InvalidWrappedOp (decode detail))
       (\<lambda>op. if \<not> is_content_op op
             then Inl (OE_InvalidWrappedOp
                    (event_type_str (event_type_of op) @ '' cannot be proposed as a suggestion''))
             else Inr op)"

lemma decode_wrapped_op_content: "decode_wrapped_op decode d = Inr op \<Longrightarrow> is_content_op op"
  by (auto simp: decode_wrapped_op_def result_simps)

definition has_live_children :: "document_state \<Rightarrow> node_id \<Rightarrow> bool" where
  "has_live_children s n \<longleftrightarrow>
     list_ex (\<lambda>(k, c). mn_parent_id c = Some n \<and> \<not> mn_deleted c
                        \<and> mn_id c \<notin> set (ds_removed_choices s)) (ds_nodes s)"

text \<open>The en dash of the discussion messages, as its UTF-8 bytes.\<close>

definition en_dash :: string where
  "en_dash = [char_of (226::nat), char_of (128::nat), char_of (147::nat)]"

function (sequential) validate_op ::
    "hash_fun \<Rightarrow> scalar_writer \<Rightarrow> decoder \<Rightarrow> document_state \<Rightarrow> event_payload \<Rightarrow> op_error + unit" where
  "validate_op sha ser decode s (RichTextPatched n patch) =
     bind_res (require_live s n) (\<lambda>node.
     bind_res (map_err (\<lambda>e. OE_InvalidWrappedOp (patch_error_text e))
                 (apply_patch sha ser (json_index (mn_current_fields node) ''content'') patch))
       (\<lambda>_. Inr ()))"
| "validate_op sha ser decode s (NodeCreated n nt parent_id pos flds var_name) =
     validate_node_created s n nt parent_id var_name"
| "validate_op sha ser decode s (FieldEdited n field value) =
     bind_res (require_not_removed s n) (\<lambda>_.
       if field = ''var_name'' \<or> field = ''varName'' then
         bind_res (require_present s n) (\<lambda>_.
         bind_res (ok_or (as_str value) (OE_InvalidWrappedOp ''Variable name must be text''))
           (\<lambda>name. if name \<noteq> [] \<and> var_name_taken s name (Some n) then Inl (OE_DuplicateVarName name)
                    else Inr ()))
       else bind_res (require_live s n) (\<lambda>_. Inr ()))"
| "validate_op sha ser decode s (NodeMoved n new_parent_id new_pos) =
     validate_node_moved s n new_parent_id"
| "validate_op sha ser decode s (NodeRestored n) =
     bind_res (require_present s n) (\<lambda>node.
       if \<not> mn_deleted node \<and> n \<notin> set (ds_removed_choices s) then Inl (OE_NodeAlreadyLive n)
       else
         bind_res
           (case mn_parent_id node of
              Some p \<Rightarrow> bind_res (require_live s p) (\<lambda>_. Inr ())
            | None \<Rightarrow> Inr ())
           (\<lambda>_. case nonempty_name (mn_var_name node) of
                   Some name \<Rightarrow>
                     if var_name_taken s name (Some n) then Inl (OE_DuplicateVarName name) else Inr ()
                 | None \<Rightarrow> Inr ()))"
| "validate_op sha ser decode s (NodeDeleted n) =
     (if has_live_children s n then Inl (OE_NodeHasChildren n)
      else bind_res (require_present s n)
             (\<lambda>node. if mn_deleted node then Inl (OE_NodeDeleted n) else Inr ()))"
| "validate_op sha ser decode s (ChoiceAdded n choice flds) =
     bind_res (require_live s n) (\<lambda>parent.
     bind_res (require_choice_bearing parent) (\<lambda>_.
       if bt_contains (ds_nodes s) choice then Inl (OE_NodeExists choice) else Inr ()))"
| "validate_op sha ser decode s (ChoiceRemoved n choice_id) =
     bind_res (require_live s n) (\<lambda>_.
     bind_res (ok_or (bt_get (ds_nodes s) choice_id) (OE_ChoiceNotFound choice_id)) (\<lambda>choice.
       if mn_parent_id choice \<noteq> Some n then Inl (OE_ChoiceNotFound choice_id)
       else bind_res (require_live s choice_id) (\<lambda>_. Inr ())))"
| "validate_op sha ser decode s (CommentReplied thread_id body) =
     (if length thread_id \<noteq> 26 \<or> trim_is_empty body \<or> length body > 10000
      then Inl (OE_InvalidDiscussion
             (''Reply must contain 1'' @ en_dash @ ''10,000 bytes and a valid thread ID''))
      else Inr ())"
| "validate_op sha ser decode s (CommentResolved thread_id resolved) =
     (if length thread_id \<noteq> 26 then Inl (OE_InvalidDiscussion ''Invalid thread ID'') else Inr ())"
| "validate_op sha ser decode s (CommentAdded node body) =
     (if trim_is_empty body \<or> length body > 10000
      then Inl (OE_InvalidDiscussion (''Comment must contain 1'' @ en_dash @ ''10,000 bytes''))
      else (case node of
              Some n \<Rightarrow> bind_res (require_present s n) (\<lambda>_. Inr ())
            | None \<Rightarrow> Inr ()))"
| "validate_op sha ser decode s (SuggestionProposed sid target detail) =
     (if bt_contains (ds_suggestions s) sid then Inl (OE_SuggestionExists sid)
      else bind_res (decode_wrapped_op decode detail) (validate_op sha ser decode s))"
| "validate_op sha ser decode s (SuggestionAccepted sid) = require_pending s sid"
| "validate_op sha ser decode s (SuggestionRejected sid reason) = require_pending s sid"
| "validate_op sha ser decode s (Deployed snapshot) = Inr ()"
  by pat_completeness auto
termination
  by (relation "measure (\<lambda>(_, _, _, _, op). case op of SuggestionProposed _ _ _ \<Rightarrow> 1 | _ \<Rightarrow> 0)")
     (auto dest!: decode_wrapped_op_content split: event_payload.splits)

section \<open>The bounded cycle check\<close>

definition parent_rel :: "document_state \<Rightarrow> (node_id \<times> node_id) set" where
  "parent_rel s = {(p, c). \<exists>node. bt_get (ds_nodes s) c = Some node \<and> mn_parent_id node = Some p}"

lemma in_parent_rel_iff [simp]:
  "(p, c) \<in> parent_rel s \<longleftrightarrow> (\<exists>node. bt_get (ds_nodes s) c = Some node \<and> mn_parent_id node = Some p)"
  by (simp add: parent_rel_def)

lemma parent_rel_subset:
  "parent_rel s \<subseteq> (\<lambda>(k, node). (the (mn_parent_id node), k)) ` set (ds_nodes s)"
  by (force simp: parent_rel_def dest: map_of_SomeD)

lemma finite_parent_rel: "finite (parent_rel s)"
  using parent_rel_subset by (rule finite_subset) simp

lemma card_parent_rel: "card (parent_rel s) \<le> length (ds_nodes s)"
proof -
  have "card (parent_rel s) \<le> card ((\<lambda>(k, node). (the (mn_parent_id node), k)) ` set (ds_nodes s))"
    by (rule card_mono [OF _ parent_rel_subset]) simp
  also have "\<dots> \<le> card (set (ds_nodes s))" by (rule card_image_le) simp
  also have "\<dots> \<le> length (ds_nodes s)" by (rule card_length)
  finally show ?thesis .
qed

lemma is_descendant_loop_iff:
  "is_descendant_loop s a k c \<longleftrightarrow> (\<exists>j. 0 < j \<and> j \<le> k \<and> (a, c) \<in> parent_rel s ^^ j)"
proof (induction k arbitrary: c)
  case (Suc k)
  have step: "(\<exists>j. 0 < j \<and> j \<le> Suc k \<and> (a, c) \<in> parent_rel s ^^ j) \<longleftrightarrow>
      (\<exists>p. (p, c) \<in> parent_rel s \<and> (p = a \<or> (\<exists>j. 0 < j \<and> j \<le> k \<and> (a, p) \<in> parent_rel s ^^ j)))"
    (is "?L \<longleftrightarrow> ?R")
  proof
    assume ?L
    then obtain j where j: "j \<le> k" and "(a, c) \<in> parent_rel s ^^ Suc j"
      by (metis Suc_le_mono gr0_implies_Suc)
    then obtain p where p: "(p, c) \<in> parent_rel s" and a: "(a, p) \<in> parent_rel s ^^ j"
      by (auto simp del: in_parent_rel_iff)
    show ?R
    proof (cases "j = 0")
      case True
      with p a show ?thesis by auto
    next
      case False
      with j p a show ?thesis by blast
    qed
  next
    assume ?R
    then obtain p where p: "(p, c) \<in> parent_rel s"
      and or: "p = a \<or> (\<exists>j. 0 < j \<and> j \<le> k \<and> (a, p) \<in> parent_rel s ^^ j)" by blast
    from or show ?L
    proof
      assume "p = a" with p show ?thesis by (auto intro!: exI [of _ 1])
    next
      assume "\<exists>j. 0 < j \<and> j \<le> k \<and> (a, p) \<in> parent_rel s ^^ j"
      then obtain j where "j \<le> k" and "(a, p) \<in> parent_rel s ^^ j" by blast
      then have "Suc j \<le> Suc k" and "(a, c) \<in> parent_rel s ^^ Suc j" using p by auto
      then show ?thesis by blast
    qed
  qed
  show ?case
    unfolding step by (auto simp: Suc.IH split: option.splits)
qed auto

lemma is_descendant_of_iff: "is_descendant_of s c a \<longleftrightarrow> (a, c) \<in> (parent_rel s)\<^sup>+"
proof -
  have "(a, c) \<in> (parent_rel s)\<^sup>+ \<longleftrightarrow>
      (\<exists>j. 0 < j \<and> j \<le> card (parent_rel s) \<and> (a, c) \<in> parent_rel s ^^ j)"
    by (auto simp: trancl_finite_eq_relpow [OF finite_parent_rel])
  also have "\<dots> \<longleftrightarrow> is_descendant_of s c a"
    unfolding is_descendant_of_def is_descendant_loop_iff
    using card_parent_rel [of s]
    by (metis (no_types, lifting) calculation le_add1 le_trans trancl_power)
  finally show ?thesis by simp
qed

end
