(* ===== verification/Doc_Invariant.thy ===== *)
theory Doc_Invariant
  imports Ops
begin

text \<open>
  The well-formedness invariant of a document state and its preservation by every operation that
  \<^verbatim>\<open>validate_op\<close> accepts. The interface between the validator and the fold is the locale
  \<open>guarded_fold\<close>: a state machine whose operations are checked against the state before they are
  applied. Its client lemmas (an accepted log always folds, and folds to a well-formed state) are proved
  once and interpreted on \<^const>\<open>validate_op\<close> and \<^const>\<open>apply_payload\<close>.
\<close>

section \<open>Guarded folds\<close>

text \<open>Validate, then apply, one operation after the other; \<^const>\<open>None\<close> when the fold itself fails.\<close>

fun guarded_run ::
    "('s \<Rightarrow> 'o \<Rightarrow> 'e + unit) \<Rightarrow> ('s \<Rightarrow> 'o \<Rightarrow> 'f + 's) \<Rightarrow> 's \<Rightarrow> 'o list \<Rightarrow> ('e + 'f) + 's" where
  "guarded_run validate apply_op s [] = Inr s"
| "guarded_run validate apply_op s (op # ops) =
     (case validate s op of
        Inl e \<Rightarrow> Inl (Inl e)
      | Inr _ \<Rightarrow>
          (case apply_op s op of
             Inl f \<Rightarrow> Inl (Inr f)
           | Inr s' \<Rightarrow> guarded_run validate apply_op s' ops))"

lemma guarded_run_snoc:
  "guarded_run validate apply_op s (ops @ [op]) =
     (case guarded_run validate apply_op s ops of Inl e \<Rightarrow> Inl e | Inr t \<Rightarrow> guarded_run validate apply_op t [op])"
  by (induction ops arbitrary: s) (auto split: sum.splits)

locale guarded_fold =
  fixes validate :: "'s \<Rightarrow> 'o \<Rightarrow> 'e + unit"
    and apply_op :: "'s \<Rightarrow> 'o \<Rightarrow> 'f + 's"
    and init :: 's
    and inv :: "'s \<Rightarrow> bool"
  assumes inv_init: "inv init"
    and progress: "inv s \<Longrightarrow> validate s op = Inr u \<Longrightarrow> \<exists>s'. apply_op s op = Inr s'"
    and preserved: "inv s \<Longrightarrow> validate s op = Inr u \<Longrightarrow> apply_op s op = Inr s' \<Longrightarrow> inv s'"
begin

lemma run_never_fails_in_fold: "inv s \<Longrightarrow> guarded_run validate apply_op s ops \<noteq> Inl (Inr f)"
proof (induction ops arbitrary: s)
  case (Cons op ops)
  show ?case
  proof (cases "validate s op")
    case (Inr u)
    with Cons.prems progress obtain s' where s': "apply_op s op = Inr s'" by blast
    with Inr Cons.prems preserved have "inv s'" by blast
    with Cons.IH Inr s' show ?thesis by simp
  qed simp
qed simp

lemma run_inv: "inv s \<Longrightarrow> guarded_run validate apply_op s ops = Inr s' \<Longrightarrow> inv s'"
proof (induction ops arbitrary: s)
  case (Cons op ops)
  then obtain u t where "validate s op = Inr u" "apply_op s op = Inr t"
    and run: "guarded_run validate apply_op t ops = Inr s'"
    by (auto split: sum.splits)
  with Cons.prems(1) preserved have "inv t" by blast
  with Cons.IH run show ?case by blast
qed simp

lemma reachable_inv: "guarded_run validate apply_op init ops = Inr s \<Longrightarrow> inv s"
  using run_inv inv_init by blast

end

section \<open>The invariant\<close>

definition nodes_typed :: "document_state \<Rightarrow> bool" where
  "nodes_typed s \<longleftrightarrow>
     (\<forall>k node. bt_get (ds_nodes s) k = Some node \<longrightarrow>
        mn_id node = k \<and> is_object (mn_current_fields node)
        \<and> parse_node_type (mn_node_type node) \<noteq> None)"

definition parents_exist :: "document_state \<Rightarrow> bool" where
  "parents_exist s \<longleftrightarrow>
     (\<forall>k node p. bt_get (ds_nodes s) k = Some node \<longrightarrow> mn_parent_id node = Some p \<longrightarrow>
        bt_get (ds_nodes s) p \<noteq> None)"

definition names_unique :: "document_state \<Rightarrow> bool" where
  "names_unique s \<longleftrightarrow>
     (\<forall>k k' node node' name.
        bt_get (ds_nodes s) k = Some node \<longrightarrow> bt_get (ds_nodes s) k' = Some node' \<longrightarrow>
        \<not> mn_deleted node \<longrightarrow> \<not> mn_deleted node' \<longrightarrow>
        mn_var_name node = Some name \<longrightarrow> mn_var_name node' = Some name \<longrightarrow> name \<noteq> [] \<longrightarrow> k = k')"

definition containment_ok :: "document_state \<Rightarrow> bool" where
  "containment_ok s \<longleftrightarrow>
     (\<forall>k node p parent pt ct.
        bt_get (ds_nodes s) k = Some node \<longrightarrow> mn_parent_id node = Some p \<longrightarrow>
        bt_get (ds_nodes s) p = Some parent \<longrightarrow>
        parse_node_type (mn_node_type parent) = Some pt \<longrightarrow>
        parse_node_type (mn_node_type node) = Some ct \<longrightarrow> can_contain pt ct)"

definition state_ok :: "document_state \<Rightarrow> bool" where
  "state_ok s \<longleftrightarrow>
     bt_ok (ds_nodes s) \<and> nodes_typed s \<and> parents_exist s \<and> acyclic (parent_rel s)
     \<and> names_unique s \<and> containment_ok s"

lemmas state_ok_parts = nodes_typed_def parents_exist_def names_unique_def containment_ok_def

lemma parse_node_type_str [simp]: "parse_node_type (node_type_str t) = Some t"
proof -
  have "node_type_from_str (node_type_str t) = Inr t" by simp
  then show ?thesis by (simp only: parse_node_type_def sum.case)
qed

lemma parse_node_type_choice [simp]: "parse_node_type ''choice'' = Some NT_Choice"
  using parse_node_type_str [of NT_Choice] by simp

lemma state_ok_empty: "state_ok empty_state"
  by (simp add: state_ok_def state_ok_parts empty_state_def parent_rel_def acyclic_def)

lemma var_name_taken_iff:
  assumes "bt_ok (ds_nodes s)" and "nodes_typed s"
  shows "var_name_taken s name ex \<longleftrightarrow>
    (\<exists>k node. bt_get (ds_nodes s) k = Some node \<and> \<not> mn_deleted node \<and> Some k \<noteq> ex
       \<and> mn_var_name node = Some name)"
  using assms unfolding var_name_taken_def list_ex_iff
  by (fastforce simp: bt_get_iff_mem nodes_typed_def)

lemma nonempty_name_Some_iff [simp]: "nonempty_name v = Some n \<longleftrightarrow> v = Some n \<and> n \<noteq> []"
  by (auto simp: nonempty_name_def split: option.splits if_splits)

lemma nonempty_name_None_iff [simp]: "nonempty_name v = None \<longleftrightarrow> v = None \<or> v = Some []"
  by (auto simp: nonempty_name_def split: option.splits if_splits)

text \<open>
  Two shapes of change cover every operation: a node whose identity and links stay (only its fields,
  name, tombstone or position change), and a node that is new or gets a new parent.
\<close>

lemma state_ok_same_nodes: "state_ok s \<Longrightarrow> ds_nodes t = ds_nodes s \<Longrightarrow> state_ok t"
  by (simp add: state_ok_def state_ok_parts parent_rel_def)

lemma parent_rel_same_parent:
  assumes "bt_get (ds_nodes s) n = Some node" and "mn_parent_id node' = mn_parent_id node"
    and "ds_nodes t = bt_insert n node' (ds_nodes s)"
  shows "parent_rel t = parent_rel s"
  using assms by (auto simp: parent_rel_def split: if_splits)

lemma parent_rel_new_parent:
  assumes "ds_nodes t = bt_insert n node' (ds_nodes s)" and "mn_parent_id node' = p"
  shows "parent_rel t \<subseteq> (case p of None \<Rightarrow> parent_rel s | Some p' \<Rightarrow> insert (p', n) (parent_rel s))"
  using assms by (auto simp: parent_rel_def split: if_splits option.splits)

lemma state_ok_update_node:
  assumes ok: "state_ok s" and n: "bt_get (ds_nodes s) n = Some node"
    and t: "ds_nodes t = bt_insert n node' (ds_nodes s)"
    and keep: "mn_id node' = mn_id node" "mn_node_type node' = mn_node_type node"
      "mn_parent_id node' = mn_parent_id node" "is_object (mn_current_fields node')"
    and name: "\<And>name k other. mn_var_name node' = Some name \<Longrightarrow> name \<noteq> [] \<Longrightarrow> \<not> mn_deleted node' \<Longrightarrow>
      bt_get (ds_nodes s) k = Some other \<Longrightarrow> \<not> mn_deleted other \<Longrightarrow> mn_var_name other = Some name \<Longrightarrow>
      k = n"
  shows "state_ok t"
proof -
  note ok' = ok [unfolded state_ok_def]
  have "bt_ok (ds_nodes t)" using ok' t by auto
  moreover have "nodes_typed t"
    using ok' n t keep by (auto simp: nodes_typed_def)
  moreover have "parents_exist t"
    using ok' n t keep by (auto simp: parents_exist_def)
  moreover have "acyclic (parent_rel t)"
    using ok' parent_rel_same_parent [OF n keep(3) t] by simp
  moreover have "names_unique t"
    using ok' t name unfolding names_unique_def by (auto split: if_splits)
  moreover have "containment_ok t"
    using ok' n t keep unfolding containment_ok_def by (auto split: if_splits)
  ultimately show ?thesis by (simp add: state_ok_def)
qed

lemma state_ok_place_node:
  assumes ok: "state_ok s"
    and t: "ds_nodes t = bt_insert n node' (ds_nodes s)"
    and typed: "mn_id node' = n" "is_object (mn_current_fields node')"
      "parse_node_type (mn_node_type node') = Some ct"
    and same: "\<And>old. bt_get (ds_nodes s) n = Some old \<Longrightarrow> mn_node_type old = mn_node_type node'"
    and parent: "\<And>p. mn_parent_id node' = Some p \<Longrightarrow> p \<noteq> n \<and> (n, p) \<notin> (parent_rel s)\<^sup>+ \<and>
      (\<exists>pn. bt_get (ds_nodes s) p = Some pn \<and>
        (\<forall>pt. parse_node_type (mn_node_type pn) = Some pt \<longrightarrow> can_contain pt ct))"
    and name: "\<And>name k other. mn_var_name node' = Some name \<Longrightarrow> name \<noteq> [] \<Longrightarrow> \<not> mn_deleted node' \<Longrightarrow>
      bt_get (ds_nodes s) k = Some other \<Longrightarrow> \<not> mn_deleted other \<Longrightarrow> mn_var_name other = Some name \<Longrightarrow>
      k = n"
  shows "state_ok t"
proof -
  note ok' = ok [unfolded state_ok_def]
  have "bt_ok (ds_nodes t)" using ok' t by auto
  moreover have "nodes_typed t"
    using ok' t typed by (auto simp: nodes_typed_def)
  moreover have "parents_exist t"
    using ok' t parent by (auto simp: parents_exist_def)
  moreover have "acyclic (parent_rel t)"
  proof (cases "mn_parent_id node'")
    case None
    then show ?thesis
      using ok' parent_rel_new_parent [OF t None] acyclic_subset by auto
  next
    case (Some p)
    then have "(n, p) \<notin> (parent_rel s)\<^sup>*" using parent by (auto simp: rtrancl_eq_or_trancl)
    with ok' have "acyclic (insert (p, n) (parent_rel s))" by (simp add: acyclic_insert)
    then show ?thesis using parent_rel_new_parent [OF t Some] acyclic_subset by auto
  qed
  moreover have "names_unique t"
    using ok' t name unfolding names_unique_def by (auto split: if_splits)
  moreover have "containment_ok t"
    unfolding containment_ok_def
  proof (intro allI impI)
    fix k node p pn pt c
    assume a: "bt_get (ds_nodes t) k = Some node" "mn_parent_id node = Some p"
      "bt_get (ds_nodes t) p = Some pn" "parse_node_type (mn_node_type pn) = Some pt"
      "parse_node_type (mn_node_type node) = Some c"
    show "can_contain pt c"
    proof (cases "k = n")
      case True
      with a t typed parent show ?thesis by (auto split: if_splits)
    next
      case False
      with a t have k: "bt_get (ds_nodes s) k = Some node" by simp
      with a ok' obtain po where po: "bt_get (ds_nodes s) p = Some po"
        unfolding parents_exist_def by blast
      have "mn_node_type po = mn_node_type pn"
        using a(3) po same t by (auto split: if_splits)
      with a k po ok' show ?thesis unfolding containment_ok_def by metis
    qed
  qed
  ultimately show ?thesis by (simp add: state_ok_def)
qed

lemma fresh_not_ancestor:
  assumes "state_ok s" and "bt_get (ds_nodes s) n = None"
  shows "(n, p) \<notin> (parent_rel s)\<^sup>+"
proof
  assume "(n, p) \<in> (parent_rel s)\<^sup>+"
  then obtain c where "(n, c) \<in> parent_rel s" by (meson tranclD)
  with assms show False by (fastforce simp: state_ok_def parents_exist_def)
qed

section \<open>Preservation and progress\<close>

lemmas op_guards =
  require_live_def require_present_def require_not_removed_def require_pending_def validate_node_created_def validate_node_moved_def

lemma require_choice_bearing_iff [simp]:
  "require_choice_bearing node = Inr u \<longleftrightarrow> parse_node_type (mn_node_type node) = Some NT_Item"
  by (auto simp: require_choice_bearing_def split: option.splits node_type.splits)

lemmas op_effects = state_updates result_simps

lemma validated_create_ok:
  assumes ok: "state_ok s" and v: "validate_node_created s n nt parent var = Inr u"
    and t: "ds_nodes t = bt_insert n node' (ds_nodes s)"
    and node': "mn_id node' = n" "is_object (mn_current_fields node')" "mn_node_type node' = node_type_str nt"
      "mn_parent_id node' = parent" "mn_var_name node' = var"
  shows "state_ok t"
proof (rule state_ok_place_node [OF ok t node'(1,2)])
  from v have fresh: "bt_get (ds_nodes s) n = None"
    by (simp add: validate_node_created_def bt_contains_def split: if_splits)
  show "parse_node_type (mn_node_type node') = Some nt" by (simp add: node')
  show "mn_node_type old = mn_node_type node'" if "bt_get (ds_nodes s) n = Some old" for old
    using that fresh by simp
  show "p \<noteq> n \<and> (n, p) \<notin> (parent_rel s)\<^sup>+ \<and>
      (\<exists>pn. bt_get (ds_nodes s) p = Some pn \<and>
        (\<forall>pt. parse_node_type (mn_node_type pn) = Some pt \<longrightarrow> can_contain pt nt))"
    if "mn_parent_id node' = Some p" for p
    using v that node' fresh fresh_not_ancestor [OF ok fresh]
    by (auto simp: validate_node_created_def result_simps split: if_splits option.splits)
  show "k = n"
    if "mn_var_name node' = Some name" "name \<noteq> []" "\<not> mn_deleted node'"
      "bt_get (ds_nodes s) k = Some other" "\<not> mn_deleted other" "mn_var_name other = Some name"
    for name k other
  proof -
    have "\<not> var_name_taken s name None"
      using v that node' by (auto simp: validate_node_created_def result_simps split: if_splits option.splits)
    with that ok show ?thesis by (auto simp: var_name_taken_iff state_ok_def)
  qed
qed

lemma validated_move_ok:
  assumes ok: "state_ok s" and v: "validate_node_moved s n parent = Inr u"
    and n: "bt_get (ds_nodes s) n = Some node"
    and t: "ds_nodes t = bt_insert n (node\<lparr>mn_parent_id := parent, mn_pos := pos\<rparr>) (ds_nodes s)"
  shows "state_ok t"
proof -
  from ok n obtain ct where ct: "parse_node_type (mn_node_type node) = Some ct"
    and id: "mn_id node = n" and obj: "is_object (mn_current_fields node)"
    by (fastforce simp: state_ok_def nodes_typed_def)
  have par: "p \<noteq> n \<and> (n, p) \<notin> (parent_rel s)\<^sup>+ \<and> (\<exists>pn. bt_get (ds_nodes s) p = Some pn \<and>
      (\<forall>pt. parse_node_type (mn_node_type pn) = Some pt \<longrightarrow> can_contain pt ct))"
    if "parent = Some p" for p
    using v that n ct
    by (auto simp: op_guards result_simps is_descendant_of_iff split: if_splits option.splits)
  have names: "k = n" if "mn_var_name node = Some name" "name \<noteq> []" "\<not> mn_deleted node"
      "bt_get (ds_nodes s) k = Some other" "\<not> mn_deleted other" "mn_var_name other = Some name"
    for name k other
    using that n ok unfolding state_ok_def names_unique_def by blast
  show ?thesis
    by (rule state_ok_place_node [OF ok t]) (use id obj ct n par names in auto)
qed

lemma name_free:
  assumes "state_ok s" and "\<not> var_name_taken s name (Some n)"
    and "bt_get (ds_nodes s) k = Some other" and "\<not> mn_deleted other" and "mn_var_name other = Some name"
  shows "k = n"
  using assms by (auto simp: var_name_taken_iff state_ok_def)

lemma own_name:
  assumes "state_ok s" and "bt_get (ds_nodes s) n = Some node" and "\<not> mn_deleted node"
    and "mn_var_name node = Some name" and "name \<noteq> []"
    and "bt_get (ds_nodes s) k = Some other" and "\<not> mn_deleted other" and "mn_var_name other = Some name"
  shows "k = n"
  using assms unfolding state_ok_def names_unique_def by blast

lemma object_or_value_object [simp]: "is_object (object_or_value v)"
  by (cases v) auto

lemma choice_added_ok:
  assumes ok: "state_ok s" and v: "validate_op sha ser decode s (ChoiceAdded n c flds) = Inr u"
    and a: "apply_payload sha ser s (ChoiceAdded n c flds) = Inr s'"
  shows "state_ok s'"
proof -
  from v obtain parent where p: "bt_get (ds_nodes s) n = Some parent"
    and item: "parse_node_type (mn_node_type parent) = Some NT_Item"
    and fresh: "bt_get (ds_nodes s) c = None"
    by (auto simp: op_guards result_simps bt_contains_def
             split: if_splits)
  have neq: "n \<noteq> c" using p fresh by auto
  from a fresh have s': "ds_nodes s' = bt_insert c
      \<lparr>mn_id = c, mn_parent_id = Some n, mn_node_type = ''choice'', mn_pos = c,
       mn_current_fields = object_or_value flds, mn_var_name = None, mn_deleted = False\<rparr> (ds_nodes s)"
    by (auto simp: bt_contains_def)
  show ?thesis
    by (rule state_ok_place_node [OF ok s', where ct = NT_Choice])
       (use p item fresh neq fresh_not_ancestor [OF ok fresh] in \<open>auto simp: can_contain_def\<close>)
qed

lemma field_edited_ok:
  assumes ok: "state_ok s" and v: "validate_op sha ser decode s (FieldEdited n field val) = Inr u"
    and a: "apply_payload sha ser s (FieldEdited n field val) = Inr s'"
  shows "state_ok s'"
proof -
  from a obtain node flds where n: "bt_get (ds_nodes s) n = Some node"
    and f: "mn_current_fields node = JObj flds"
    and s': "s' = s\<lparr>ds_nodes := bt_insert n
       (if field = ''var_name'' \<or> field = ''varName''
        then node\<lparr>mn_current_fields := JObj (bt_insert field val flds), mn_var_name := as_str val\<rparr>
        else node\<lparr>mn_current_fields := JObj (bt_insert field val flds)\<rparr>) (ds_nodes s)\<rparr>"
    by (auto simp: op_effects Let_def split: option.splits json.splits)
  show ?thesis
  proof (cases "field = ''var_name'' \<or> field = ''varName''")
    case True
    with v obtain name where val: "val = JStr name"
      and free: "name \<noteq> [] \<longrightarrow> \<not> var_name_taken s name (Some n)"
      by (auto simp: op_guards result_simps split: if_splits)
    have "ds_nodes s' = bt_insert n (node\<lparr>mn_current_fields := JObj (bt_insert field val flds),
        mn_var_name := Some name\<rparr>) (ds_nodes s)"
      using True s' val by auto
    then show ?thesis
      by (rule state_ok_update_node [OF ok n]) (use free name_free [OF ok] in auto)
  next
    case False
    then have "ds_nodes s' =
        bt_insert n (node\<lparr>mn_current_fields := JObj (bt_insert field val flds)\<rparr>) (ds_nodes s)"
      using s' by auto
    then show ?thesis
      by (rule state_ok_update_node [OF ok n]) (use own_name [OF ok n] in auto)
  qed
qed

lemma rich_text_ok:
  assumes ok: "state_ok s" and a: "apply_payload sha ser s (RichTextPatched n patch) = Inr s'"
  shows "state_ok s'"
proof -
  from a obtain node where n: "bt_get (ds_nodes s) n = Some node"
    by (auto simp: state_updates split: option.splits)
  with ok obtain m where m: "mn_current_fields node = JObj m"
    by (auto simp: state_ok_def nodes_typed_def is_object_iff)
  with a n obtain flds where
    s': "ds_nodes s' = bt_insert n (node\<lparr>mn_current_fields := JObj flds\<rparr>) (ds_nodes s)"
    by (auto simp: op_effects)
  show ?thesis
    by (rule state_ok_update_node [OF ok n s']) (use own_name [OF ok n] in auto)
qed

lemma delete_restore_ok:
  assumes ok: "state_ok s" and n: "bt_get (ds_nodes s) n = Some node"
    and t: "ds_nodes t = bt_insert n (node\<lparr>mn_deleted := d\<rparr>) (ds_nodes s)"
    and free: "\<And>name. \<not> d \<Longrightarrow> mn_var_name node = Some name \<Longrightarrow> name \<noteq> [] \<Longrightarrow> \<not> var_name_taken s name (Some n)"
  shows "state_ok t"
proof -
  have "is_object (mn_current_fields node)" using ok n by (auto simp: state_ok_def nodes_typed_def)
  then show ?thesis
    by (intro state_ok_update_node [OF ok n t]) (auto dest: free name_free [OF ok])
qed

lemma validated_op_preserves:
  assumes ok: "state_ok s" and v: "validate_op sha ser decode s op = Inr u"
    and a: "apply_payload sha ser s op = Inr s'"
  shows "state_ok s'"
proof (cases op)
  case (NodeCreated n nt parent pos flds var)
  with v a show ?thesis by (auto intro!: validated_create_ok [OF ok])
next
  case (NodeMoved n parent pos)
  with v a show ?thesis by (auto simp: op_effects split: option.splits intro!: validated_move_ok [OF ok])
next
  case (NodeDeleted n)
  with v a show ?thesis
    by (auto simp: op_effects split: option.splits intro!: delete_restore_ok [OF ok, where d = True])
next
  case (NodeRestored n)
  with v a obtain node where n: "bt_get (ds_nodes s) n = Some node"
    and s': "ds_nodes s' = bt_insert n (node\<lparr>mn_deleted := False\<rparr>) (ds_nodes s)"
    by (auto simp: state_updates split: option.splits)
  show ?thesis
    by (rule delete_restore_ok [OF ok n s'])
       (use NodeRestored v n in \<open>auto simp: op_guards result_simps split: if_splits option.splits\<close>)
next
  case (FieldEdited n field val)
  with v a show ?thesis by (auto intro: field_edited_ok [OF ok])
next
  case (RichTextPatched n patch)
  with a show ?thesis by (auto intro: rich_text_ok [OF ok])
next
  case (ChoiceAdded n c flds)
  with v a show ?thesis by (auto intro: choice_added_ok [OF ok])
qed (use a in \<open>auto simp: state_updates split: option.splits intro: state_ok_same_nodes [OF ok]\<close>)

lemma validated_op_applies:
  assumes ok: "state_ok s" and v: "validate_op sha ser decode s op = Inr u"
  shows "\<exists>s'. apply_payload sha ser s op = Inr s'"
proof -
  have obj: "\<exists>m. mn_current_fields node = JObj m" if "bt_get (ds_nodes s) n = Some node" for n node
    using ok that by (auto simp: state_ok_def nodes_typed_def is_object_iff)
  show ?thesis
  proof (cases op)
    case (FieldEdited n field val)
    with v obtain node where "bt_get (ds_nodes s) n = Some node"
      by (auto simp: op_guards result_simps split: if_splits)
    with FieldEdited obj show ?thesis by (fastforce simp: state_updates Let_def)
  next
    case (RichTextPatched n patch)
    with v obtain node c where n: "bt_get (ds_nodes s) n = Some node"
      and "apply_patch sha ser (json_index (mn_current_fields node) ''content'') patch = Inr c"
      by (auto simp: op_guards result_simps split: if_splits)
    with RichTextPatched obj [OF n] show ?thesis by (auto simp: state_updates)
  qed (use v in \<open>auto simp: op_guards state_updates result_simps split: if_splits option.splits\<close>)
qed

interpretation doc: guarded_fold
  "validate_op sha ser decode" "apply_payload sha ser" empty_state state_ok for sha ser decode
proof unfold_locales
  show "state_ok empty_state" by (rule state_ok_empty)
qed (blast intro: validated_op_applies validated_op_preserves)+

end
