(* ===== verification/Structure_Check.thy ===== *)
theory Structure_Check
  imports Doc_Invariant
begin

text \<open>
  The read-only structural diagnostics of \<^verbatim>\<open>crates/engine-core/src/integrity/invariants.rs\<close>. The three
  passes of the function are three definitions: node identities, live parents and the name index; the
  parent walks with their visited set; the duplicated names.
\<close>

datatype invariant_violation =
    NodeIdMismatch node_id node_id
  | MissingParent node_id node_id
  | NonLiveParent node_id node_id
  | ParentCycle "node_id list"
  | DuplicateVarName string "node_id list"

definition live :: "document_state \<Rightarrow> node_id \<Rightarrow> materialized_node \<Rightarrow> bool" where
  "live s key node \<longleftrightarrow> \<not> mn_deleted node \<and> key \<notin> set (ds_removed_choices s)"

definition live_node :: "document_state \<Rightarrow> node_id \<Rightarrow> materialized_node option" where
  "live_node s key =
     (case bt_get (ds_nodes s) key of
        Some node \<Rightarrow> if live s key node then Some node else None
      | None \<Rightarrow> None)"

definition link_violations :: "document_state \<Rightarrow> node_id \<Rightarrow> materialized_node \<Rightarrow> invariant_violation list" where
  "link_violations s key node =
     (if key \<noteq> mn_id node then [NodeIdMismatch key (mn_id node)] else [])
     @ (if live s key node then
          (case mn_parent_id node of
             None \<Rightarrow> []
           | Some p \<Rightarrow>
               (case bt_get (ds_nodes s) p of
                  None \<Rightarrow> [MissingParent key p]
                | Some parent \<Rightarrow> if \<not> live s p parent then [NonLiveParent key p] else []))
        else [])"

definition add_name ::
    "document_state \<Rightarrow> node_id \<times> materialized_node \<Rightarrow> (string, node_id list) bmap \<Rightarrow> (string, node_id list) bmap" where
  "add_name s p names =
     (let (key, node) = p in
      if live s key node then
        (case nonempty_name (mn_var_name node) of
           Some name \<Rightarrow>
             bt_insert name ((case bt_get names name of None \<Rightarrow> [] | Some ids \<Rightarrow> ids) @ [key]) names
         | None \<Rightarrow> names)
      else names)"

definition rotate_min_first :: "node_id list \<Rightarrow> node_id list" where
  "rotate_min_first cycle =
     (case cycle of
        [] \<Rightarrow> []
      | _ \<Rightarrow> rotate (length (takeWhile (\<lambda>x. x \<noteq> Min (set cycle)) cycle)) cycle)"

text \<open>One parent walk: the path it pushes and the cycle it reports, if any.\<close>

function walk ::
    "document_state \<Rightarrow> node_id list \<Rightarrow> node_id list \<Rightarrow> node_id option \<Rightarrow> node_id list \<times> node_id list option" where
  "walk s visited path None = (path, None)"
| "walk s visited path (Some key) =
     (case live_node s key of
        None \<Rightarrow> (path, None)
      | Some node \<Rightarrow>
          if key \<in> set path then (path, Some (rotate_min_first (dropWhile (\<lambda>x. x \<noteq> key) path)))
          else if key \<in> set visited then (path, None)
          else walk s visited (path @ [key]) (mn_parent_id node))"
  by pat_completeness auto
termination
proof (relation "measure (\<lambda>(s, _, path, _). card (fst ` set (ds_nodes s) - set path))", goal_cases)
  case (2 s visited path key node)
  then have "key \<in> fst ` set (ds_nodes s)"
    by (auto simp: live_node_def split: option.splits if_splits dest!: map_of_SomeD
             intro: rev_image_eqI)
  with 2 have "fst ` set (ds_nodes s) - set (path @ [key]) \<subset> fst ` set (ds_nodes s) - set path"
    by auto
  then show ?case by (simp add: psubset_card_mono)
qed simp

fun cycle_walks ::
    "document_state \<Rightarrow> (node_id, materialized_node) bmap \<Rightarrow> node_id list \<Rightarrow> invariant_violation list" where
  "cycle_walks s [] visited = []"
| "cycle_walks s ((start, node) # rest) visited =
     (if \<not> live s start node \<or> start \<in> set visited then cycle_walks s rest visited
      else
        (let (path, cycle) = walk s visited [] (Some start)
         in (case cycle of None \<Rightarrow> [] | Some c \<Rightarrow> [ParentCycle c])
            @ cycle_walks s rest (visited @ path)))"

definition name_violations :: "document_state \<Rightarrow> invariant_violation list" where
  "name_violations s =
     map (\<lambda>(name, ids). DuplicateVarName name ids)
       (filter (\<lambda>(name, ids). length ids > 1) (fold (add_name s) (ds_nodes s) []))"

definition check_invariants :: "document_state \<Rightarrow> invariant_violation list" where
  "check_invariants s =
     concat (map (\<lambda>(key, node). link_violations s key node) (ds_nodes s))
     @ cycle_walks s (ds_nodes s) []
     @ name_violations s"

section \<open>What the diagnostics decide\<close>

definition live_rel :: "document_state \<Rightarrow> (node_id \<times> node_id) set" where
  "live_rel s = {(p, c). \<exists>node. live_node s c = Some node \<and> mn_parent_id node = Some p \<and> live_node s p \<noteq> None}"

definition structurally_sound :: "document_state \<Rightarrow> bool" where
  "structurally_sound s \<longleftrightarrow>
     (\<forall>k node. bt_get (ds_nodes s) k = Some node \<longrightarrow> mn_id node = k)
     \<and> (\<forall>k node p. live_node s k = Some node \<longrightarrow> mn_parent_id node = Some p \<longrightarrow> live_node s p \<noteq> None)
     \<and> acyclic (live_rel s)
     \<and> (\<forall>k k' node node' name. live_node s k = Some node \<longrightarrow> live_node s k' = Some node' \<longrightarrow>
          mn_var_name node = Some name \<longrightarrow> mn_var_name node' = Some name \<longrightarrow> name \<noteq> [] \<longrightarrow> k = k')"

lemma live_node_iff:
  "live_node s k = Some node \<longleftrightarrow> bt_get (ds_nodes s) k = Some node \<and> live s k node"
  by (auto simp: live_node_def split: option.splits)

lemma finite_live_rel: "finite (live_rel s)"
proof (rule finite_subset [OF _ finite_parent_rel])
  show "live_rel s \<subseteq> parent_rel s" by (auto simp: live_rel_def parent_rel_def live_node_iff)
qed

subsection \<open>Parent walks\<close>

text \<open>
  A walk that reports no cycle ends in a node with no live parent or in a node of an earlier walk, so
  every node on it has a finite chain of live ancestors.
\<close>

lemma walk_grounded:
  assumes "walk s visited path cur = (path', None)"
    and "\<And>v. v \<in> set visited \<Longrightarrow> v \<in> Wellfounded.acc (live_rel s)"
  shows "(\<forall>x \<in> set path'. x \<in> set path \<or> x \<in> Wellfounded.acc (live_rel s))
         \<and> set path \<subseteq> set path'
         \<and> (\<forall>k. cur = Some k \<longrightarrow> live_node s k \<noteq> None \<longrightarrow> k \<in> Wellfounded.acc (live_rel s))"
  using assms
proof (induction s visited path cur rule: walk.induct)
  case (2 s visited path key)
  show ?case
  proof (cases "live_node s key")
    case None
    with 2 show ?thesis by auto
  next
    case (Some node)
    show ?thesis
    proof (cases "key \<in> set visited")
      case True
      with 2 Some show ?thesis by (auto split: if_splits)
    next
      case False
      with 2 Some have np: "key \<notin> set path"
        and w: "walk s visited (path @ [key]) (mn_parent_id node) = (path', None)"
        by (auto split: if_splits)
      note IH = "2.IH" [OF Some np False w "2.prems"(2)]
      have "key \<in> Wellfounded.acc (live_rel s)"
        by (rule accI) (use Some IH in \<open>auto simp: live_rel_def\<close>)
      with IH show ?thesis by auto
    qed
  qed
qed auto

text \<open>A walk over an acyclic state reports no cycle: the nodes on its path are descendants of the cursor.\<close>

lemma walk_acyclic:
  assumes "acyclic (live_rel s)"
    and "\<And>x k node. x \<in> set path \<Longrightarrow> cur = Some k \<Longrightarrow> live_node s k = Some node \<Longrightarrow> (k, x) \<in> (live_rel s)\<^sup>+"
  shows "snd (walk s visited path cur) = None"
  using assms
proof (induction s visited path cur rule: walk.induct)
  case (2 s visited path key)
  show ?case
  proof (cases "live_node s key")
    case (Some node)
    have np: "key \<notin> set path"
      using "2.prems" Some by (auto simp: acyclic_def)
    have "(p, x) \<in> (live_rel s)\<^sup>+"
      if "x \<in> set (path @ [key])" "mn_parent_id node = Some p" "live_node s p = Some pn" for x p pn
    proof -
      have "(p, key) \<in> live_rel s" using that Some by (auto simp: live_rel_def)
      moreover have "x = key \<or> (key, x) \<in> (live_rel s)\<^sup>+" using that "2.prems"(2) Some by auto
      ultimately show ?thesis by (auto intro: trancl_into_trancl2)
    qed
    with 2 Some np show ?thesis by auto
  qed simp
qed simp

lemma cycle_walks_empty_acc:
  assumes "cycle_walks s ns visited = []"
    and "\<And>v. v \<in> set visited \<Longrightarrow> v \<in> Wellfounded.acc (live_rel s)"
    and "(k, node) \<in> set ns" and "live_node s k = Some node"
  shows "k \<in> Wellfounded.acc (live_rel s)"
  using assms
proof (induction s ns visited rule: cycle_walks.induct)
  case (2 s start n rest visited)
  show ?case
  proof (cases "\<not> live s start n \<or> start \<in> set visited")
    case True
    with 2 show ?thesis by (auto simp: live_node_iff)
  next
    case False
    obtain path cyc where w: "walk s visited [] (Some start) = (path, cyc)" by fastforce
    with 2 False have c: "cyc = None" and rest: "cycle_walks s rest (visited @ path) = []"
      by (auto split: option.splits)
    note g = walk_grounded [OF w [unfolded c] "2.prems"(2)]
    have acc: "v \<in> Wellfounded.acc (live_rel s)" if "v \<in> set (visited @ path)" for v
      using that g "2.prems"(2) by auto
    show ?thesis
    proof (cases "(k, node) = (start, n)")
      case True
      with g "2.prems"(4) show ?thesis by auto
    next
      case kn: False
      with "2.prems"(3) have "(k, node) \<in> set rest" by auto
      from "2.IH"(2) [OF False w [symmetric] refl rest acc this "2.prems"(4)] show ?thesis by simp
    qed
  qed
qed simp

lemma cycle_walks_empty_iff: "cycle_walks s (ds_nodes s) [] = [] \<longleftrightarrow> acyclic (live_rel s)"
proof
  assume e: "cycle_walks s (ds_nodes s) [] = []"
  have "c \<in> Wellfounded.acc (live_rel s)" for c
  proof (cases "live_node s c")
    case None
    then show ?thesis by (auto intro: accI simp: live_rel_def)
  next
    case (Some node)
    then have "(c, node) \<in> set (ds_nodes s)" by (auto simp: live_node_iff dest: map_of_SomeD)
    with e Some show ?thesis by (auto intro: cycle_walks_empty_acc)
  qed
  then have "wf (live_rel s)" by (auto intro: acc_wfI)
  then show "acyclic (live_rel s)" by (rule wf_acyclic)
next
  assume a: "acyclic (live_rel s)"
  have "cycle_walks s ns visited = []" for ns visited
  proof (induction ns arbitrary: visited)
    case (Cons p ns)
    have "snd (walk s visited [] (Some (fst p))) = None" by (rule walk_acyclic [OF a]) simp
    with Cons show ?case by (cases p) (auto split: prod.splits)
  qed simp
  then show "cycle_walks s (ds_nodes s) [] = []" .
qed

subsection \<open>The name index\<close>

definition ids_of :: "(string, node_id list) bmap \<Rightarrow> string \<Rightarrow> node_id list" where
  "ids_of names name = (case bt_get names name of None \<Rightarrow> [] | Some ids \<Rightarrow> ids)"

definition named :: "document_state \<Rightarrow> string \<Rightarrow> node_id \<times> materialized_node \<Rightarrow> bool" where
  "named s name p \<longleftrightarrow> live s (fst p) (snd p) \<and> nonempty_name (mn_var_name (snd p)) = Some name"

lemma ids_of_add_name:
  "ids_of (add_name s p names) name = ids_of names name @ (if named s name p then [fst p] else [])"
  by (cases p) (auto simp: ids_of_def add_name_def named_def split: option.splits)

lemma ids_of_index:
  "ids_of (fold (add_name s) ns names) name = ids_of names name @ map fst (filter (named s name) ns)"
  by (induction ns arbitrary: names) (auto simp: ids_of_add_name)

lemma bt_ok_add_name: "bt_ok names \<Longrightarrow> bt_ok (add_name s p names)"
  by (cases p) (auto simp: add_name_def split: option.splits)

lemma bt_ok_index: "bt_ok names \<Longrightarrow> bt_ok (fold (add_name s) ns names)"
  by (induction ns arbitrary: names) (auto simp: bt_ok_add_name)

lemma name_violations_empty_iff:
  "name_violations s = [] \<longleftrightarrow> (\<forall>name. length (filter (named s name) (ds_nodes s)) \<le> 1)"
proof -
  let ?index = "fold (add_name s) (ds_nodes s) []"
  have ok: "bt_ok ?index" by (simp add: bt_ok_index)
  have ids: "ids_of ?index name = map fst (filter (named s name) (ds_nodes s))" for name
    using ids_of_index [of s "ds_nodes s" "[]" name] by (simp add: ids_of_def)
  have "name_violations s = [] \<longleftrightarrow> (\<forall>name ids. bt_get ?index name = Some ids \<longrightarrow> length ids \<le> 1)"
    unfolding name_violations_def using ok
    by (fastforce simp: filter_empty_conv bt_get_iff_mem not_less)
  also have "\<dots> \<longleftrightarrow> (\<forall>name. length (ids_of ?index name) \<le> 1)"
    by (auto simp: ids_of_def split: option.splits)
  finally show ?thesis by (simp add: ids)
qed

lemma filter_at_most_one_iff:
  assumes "distinct xs"
  shows "length (filter P xs) \<le> 1 \<longleftrightarrow> (\<forall>x \<in> set xs. \<forall>y \<in> set xs. P x \<longrightarrow> P y \<longrightarrow> x = y)"
proof -
  have "length (filter P xs) = card {x \<in> set xs. P x}"
    using assms by (metis distinct_card distinct_filter set_filter)
  then show ?thesis by (auto simp: card_le_Suc0_iff_eq)
qed

lemma link_violations_empty_iff:
  "link_violations s k node = [] \<longleftrightarrow>
     mn_id node = k \<and> (live s k node \<longrightarrow> (\<forall>p. mn_parent_id node = Some p \<longrightarrow> live_node s p \<noteq> None))"
  by (auto simp: link_violations_def live_node_def split: option.splits)

lemma link_violation_cases:
  assumes "v \<in> set (link_violations s k node)"
  shows "mn_id node \<noteq> k
    \<or> (\<exists>p. mn_parent_id node = Some p \<and> bt_get (ds_nodes s) p = None)
    \<or> (\<exists>p. v = NonLiveParent k p)"
proof (cases "mn_id node = k \<and> live s k node")
  case True
  with assms obtain p where p: "mn_parent_id node = Some p"
    by (cases "mn_parent_id node") (auto simp: link_violations_def)
  have "v \<in> set (case bt_get (ds_nodes s) p of None \<Rightarrow> [MissingParent k p]
      | Some parent \<Rightarrow> if \<not> live s p parent then [NonLiveParent k p] else [])"
    using assms True p by (simp add: link_violations_def)
  then have "bt_get (ds_nodes s) p = None \<or> v = NonLiveParent k p"
    by (auto split: option.splits if_splits)
  with p show ?thesis by blast
next
  case False
  then have "mn_id node \<noteq> k \<or> link_violations s k node = []" by (simp add: link_violations_def)
  with assms show ?thesis by auto
qed

lemma check_invariants_empty_iff:
  assumes "bt_ok (ds_nodes s)"
  shows "check_invariants s = [] \<longleftrightarrow> structurally_sound s"
proof -
  have d: "distinct (ds_nodes s)" using bt_ok_distinct [OF assms] by (simp add: distinct_map)
  have mem: "(k, node) \<in> set (ds_nodes s) \<longleftrightarrow> bt_get (ds_nodes s) k = Some node" for k node
    using assms by (simp add: bt_get_iff_mem)
  have links: "concat (map (\<lambda>(key, node). link_violations s key node) (ds_nodes s)) = [] \<longleftrightarrow>
      (\<forall>k node. bt_get (ds_nodes s) k = Some node \<longrightarrow> mn_id node = k)
      \<and> (\<forall>k node p. live_node s k = Some node \<longrightarrow> mn_parent_id node = Some p \<longrightarrow> live_node s p \<noteq> None)"
  proof -
    have "concat (map (\<lambda>(key, node). link_violations s key node) (ds_nodes s)) = [] \<longleftrightarrow>
        (\<forall>k node. (k, node) \<in> set (ds_nodes s) \<longrightarrow> link_violations s k node = [])"
      by (auto simp del: not_None_eq)
    then show ?thesis by (auto simp: link_violations_empty_iff live_node_iff mem)
  qed
  have names: "name_violations s = [] \<longleftrightarrow>
      (\<forall>k k' node node' name. live_node s k = Some node \<longrightarrow> live_node s k' = Some node' \<longrightarrow>
          mn_var_name node = Some name \<longrightarrow> mn_var_name node' = Some name \<longrightarrow> name \<noteq> [] \<longrightarrow> k = k')"
  proof -
    have "name_violations s = [] \<longleftrightarrow>
        (\<forall>k node k' node' name. bt_get (ds_nodes s) k = Some node \<longrightarrow> bt_get (ds_nodes s) k' = Some node' \<longrightarrow>
           named s name (k, node) \<longrightarrow> named s name (k', node') \<longrightarrow> (k, node) = (k', node'))"
      unfolding name_violations_empty_iff filter_at_most_one_iff [OF d] mem [symmetric]
      by (simp only: Ball_def split_paired_All) blast
    also have "\<dots> \<longleftrightarrow> (\<forall>k k' node node' name. live_node s k = Some node \<longrightarrow> live_node s k' = Some node' \<longrightarrow>
          mn_var_name node = Some name \<longrightarrow> mn_var_name node' = Some name \<longrightarrow> name \<noteq> [] \<longrightarrow> k = k')"
      by (rule iffI; simp add: named_def live_node_iff; fastforce)
    finally show ?thesis .
  qed
  show ?thesis
    unfolding check_invariants_def structurally_sound_def append_is_Nil_conv links names
      cycle_walks_empty_iff by blast
qed

section \<open>Validated documents\<close>

text \<open>A live node under a live parent: the one clause that validation does not keep by itself.\<close>

definition live_parents :: "document_state \<Rightarrow> bool" where
  "live_parents s \<longleftrightarrow>
     (\<forall>k node p. live_node s k = Some node \<longrightarrow> mn_parent_id node = Some p \<longrightarrow> live_node s p \<noteq> None)"

definition removed_are_choices :: "document_state \<Rightarrow> bool" where
  "removed_are_choices s \<longleftrightarrow>
     (\<forall>k \<in> set (ds_removed_choices s). \<exists>node. bt_get (ds_nodes s) k = Some node
        \<and> parse_node_type (mn_node_type node) = Some NT_Choice)"

definition strict_ok :: "document_state \<Rightarrow> bool" where
  "strict_ok s \<longleftrightarrow> state_ok s \<and> live_parents s \<and> removed_are_choices s"

fun removes_choice :: "document_state \<Rightarrow> event_payload \<Rightarrow> bool" where
  "removes_choice s (ChoiceRemoved n c) =
     (case bt_get (ds_nodes s) c of
        Some node \<Rightarrow> parse_node_type (mn_node_type node) = Some NT_Choice
      | None \<Rightarrow> False)"
| "removes_choice s _ = True"

lemma acyclic_live_rel: "state_ok s \<Longrightarrow> acyclic (live_rel s)"
  unfolding state_ok_def
  by (auto intro: acyclic_subset simp: live_rel_def parent_rel_def live_node_iff)

lemma state_ok_violations:
  assumes "state_ok s" and "v \<in> set (check_invariants s)"
  shows "\<exists>k p. v = NonLiveParent k p"
proof -
  have "cycle_walks s (ds_nodes s) [] = []"
    using acyclic_live_rel [OF assms(1)] by (simp add: cycle_walks_empty_iff)
  moreover have "name_violations s = []"
  proof -
    have ok: "bt_ok (ds_nodes s)" using assms(1) by (simp add: state_ok_def)
    then have d: "distinct (ds_nodes s)" by (auto dest: bt_ok_distinct simp: distinct_map)
    show ?thesis
      unfolding name_violations_empty_iff filter_at_most_one_iff [OF d]
      using assms(1) ok
      by (fastforce simp: state_ok_def names_unique_def named_def live_def bt_get_iff_mem [symmetric])
  qed
  ultimately obtain k node where "(k, node) \<in> set (ds_nodes s)" and v: "v \<in> set (link_violations s k node)"
    using assms(2) by (auto simp: check_invariants_def)
  then have "bt_get (ds_nodes s) k = Some node" using assms(1) by (simp add: state_ok_def bt_get_iff_mem)
  with link_violation_cases [OF v] assms(1) show ?thesis
    unfolding state_ok_def nodes_typed_def parents_exist_def by metis
qed

lemma live_node_other:
  assumes "ds_nodes t = bt_insert n node' (ds_nodes s)" and "k \<noteq> n"
    and "\<And>j. j \<noteq> n \<Longrightarrow> j \<in> set (ds_removed_choices t) \<longleftrightarrow> j \<in> set (ds_removed_choices s)"
  shows "live_node t k = live_node s k"
  using assms by (auto simp: live_node_def live_def split: option.split)

lemma live_parents_update:
  assumes ok: "live_parents s"
    and t: "ds_nodes t = bt_insert n node' (ds_nodes s)"
    and rem: "\<And>j. j \<noteq> n \<Longrightarrow> j \<in> set (ds_removed_choices t) \<longleftrightarrow> j \<in> set (ds_removed_choices s)"
    and up: "\<And>p. live t n node' \<Longrightarrow> mn_parent_id node' = Some p \<Longrightarrow> p \<noteq> n \<and> live_node s p \<noteq> None"
    and down: "live_node s n \<noteq> None \<Longrightarrow> live t n node' \<or>
      (\<forall>k c. live_node s k = Some c \<longrightarrow> k \<noteq> n \<longrightarrow> mn_parent_id c \<noteq> Some n)"
  shows "live_parents t"
  unfolding live_parents_def
proof (intro allI impI)
  fix k node p
  assume k: "live_node t k = Some node" and p: "mn_parent_id node = Some p"
  show "live_node t p \<noteq> None"
  proof (cases "k = n")
    case True
    with k t have "node = node'" "live t n node'" by (auto simp: live_node_iff)
    with up p live_node_other [OF t _ rem] show ?thesis by auto
  next
    case False
    with k have ks: "live_node s k = Some node" using live_node_other [OF t _ rem] by auto
    with ok p have "live_node s p \<noteq> None" unfolding live_parents_def by blast
    with down ks p False t live_node_other [OF t _ rem] show ?thesis
      by (cases "p = n") (auto simp: live_node_iff)
  qed
qed

lemma removed_update:
  assumes "removed_are_choices s" and "set (ds_removed_choices t) \<subseteq> set (ds_removed_choices s)"
    and "ds_nodes t = bt_insert n node' (ds_nodes s)"
    and "\<And>node. bt_get (ds_nodes s) n = Some node \<Longrightarrow> mn_node_type node' = mn_node_type node"
  shows "removed_are_choices t"
  using assms unfolding removed_are_choices_def by (fastforce split: if_splits)

lemma removed_fresh:
  "removed_are_choices s \<Longrightarrow> bt_get (ds_nodes s) n = None \<Longrightarrow> n \<notin> set (ds_removed_choices s)"
  by (auto simp: removed_are_choices_def)

lemma no_cycle_self:
  assumes "state_ok s" and "bt_get (ds_nodes s) n = Some node" shows "mn_parent_id node \<noteq> Some n"
  using assms by (auto simp: state_ok_def acyclic_def parent_rel_def)

lemma choice_childless:
  assumes "state_ok s" and "bt_get (ds_nodes s) c = Some node"
    and "parse_node_type (mn_node_type node) = Some NT_Choice"
    and "bt_get (ds_nodes s) k = Some child" shows "mn_parent_id child \<noteq> Some c"
proof
  assume p: "mn_parent_id child = Some c"
  from assms(1,4) obtain ct where "parse_node_type (mn_node_type child) = Some ct"
    by (fastforce simp: state_ok_def nodes_typed_def)
  with assms p have "can_contain NT_Choice ct" unfolding state_ok_def containment_ok_def by blast
  then show False by (simp add: can_contain_def)
qed

lemma strict_same_liveness:
  assumes strict: "strict_ok s" and n: "bt_get (ds_nodes s) n = Some node"
    and t: "ds_nodes t = bt_insert n node' (ds_nodes s)" "ds_removed_choices t = ds_removed_choices s"
    and keep: "mn_deleted node' = mn_deleted node" "mn_parent_id node' = mn_parent_id node"
      "mn_node_type node' = mn_node_type node"
  shows "live_parents t \<and> removed_are_choices t"
proof
  have "live_parents s" and "removed_are_choices s" using strict by (simp_all add: strict_ok_def)
  show "live_parents t"
  proof (rule live_parents_update [OF \<open>live_parents s\<close> t(1)])
    show "p \<noteq> n \<and> live_node s p \<noteq> None" if "live t n node'" "mn_parent_id node' = Some p" for p
    proof -
      have "live_node s n = Some node" using that(1) n keep t by (simp add: live_node_iff live_def)
      with that(2) keep \<open>live_parents s\<close> have "live_node s p \<noteq> None" unfolding live_parents_def by simp
      moreover have "p \<noteq> n" using no_cycle_self [OF _ n] strict that(2) keep by (auto simp: strict_ok_def)
      ultimately show ?thesis by simp
    qed
  qed (use n t keep in \<open>auto simp: live_node_iff live_def\<close>)
  show "removed_are_choices t"
    using \<open>removed_are_choices s\<close> by (rule removed_update [OF _ _ t(1)]) (use t n keep in auto)
qed

lemma require_live_iff: "require_live s n = Inr node \<longleftrightarrow> live_node s n = Some node"
  by (auto simp: require_live_def require_present_def live_node_iff live_def result_simps split: if_splits)

lemma strict_place:
  assumes strict: "strict_ok s"
    and t: "ds_nodes t = bt_insert n node' (ds_nodes s)"
    and rem: "set (ds_removed_choices t) = set (ds_removed_choices s) - R" "R \<subseteq> {n}"
    and parent: "\<And>p. mn_parent_id node' = Some p \<Longrightarrow> p \<noteq> n \<and> (live t n node' \<longrightarrow> live_node s p \<noteq> None)"
    and old: "\<And>node. bt_get (ds_nodes s) n = Some node \<Longrightarrow>
      mn_node_type node' = mn_node_type node \<and> (live s n node \<longrightarrow> live t n node')"
  shows "live_parents t \<and> removed_are_choices t"
proof
  have lp: "live_parents s" and rc: "removed_are_choices s" using strict by (simp_all add: strict_ok_def)
  show "live_parents t"
    by (rule live_parents_update [OF lp t]) (use rem parent old in \<open>auto simp: live_node_iff\<close>)
  show "removed_are_choices t"
    by (rule removed_update [OF rc _ t]) (use rem old in auto)
qed

lemma strict_create:
  assumes strict: "strict_ok s" and v: "validate_node_created s n nt parent var = Inr u"
    and t: "ds_nodes t = bt_insert n node' (ds_nodes s)" "ds_removed_choices t = ds_removed_choices s"
    and node': "mn_parent_id node' = parent"
  shows "live_parents t \<and> removed_are_choices t"
proof (rule strict_place [OF strict t(1), where R = "{}"])
  from v have fresh: "bt_get (ds_nodes s) n = None"
    by (simp add: validate_node_created_def bt_contains_def split: if_splits)
  show "p \<noteq> n \<and> (live t n node' \<longrightarrow> live_node s p \<noteq> None)" if "mn_parent_id node' = Some p" for p
  proof -
    from v that node' obtain pn where pn: "bt_get (ds_nodes s) p = Some pn" "\<not> mn_deleted pn"
      and cc: "\<And>pt. parse_node_type (mn_node_type pn) = Some pt \<Longrightarrow> can_contain pt nt"
      by (auto simp: validate_node_created_def result_simps split: if_splits option.splits)
    have "p \<notin> set (ds_removed_choices s)"
      using strict pn cc [of NT_Choice]
      by (auto simp: strict_ok_def removed_are_choices_def can_contain_def)
    with pn fresh show ?thesis by (auto simp: live_node_def live_def)
  qed
  show "mn_node_type node' = mn_node_type node \<and> (live s n node \<longrightarrow> live t n node')"
    if "bt_get (ds_nodes s) n = Some node" for node
    using that fresh by simp
qed (simp_all add: t)

lemma strict_move:
  assumes strict: "strict_ok s" and v: "validate_node_moved s n parent = Inr u"
    and n: "bt_get (ds_nodes s) n = Some node"
    and t: "ds_nodes t = bt_insert n (node\<lparr>mn_parent_id := parent, mn_pos := pos\<rparr>) (ds_nodes s)"
      "ds_removed_choices t = ds_removed_choices s"
  shows "live_parents t \<and> removed_are_choices t"
proof (rule strict_place [OF strict t(1), where R = "{}"])
  show "p \<noteq> n \<and> (live t n (node\<lparr>mn_parent_id := parent, mn_pos := pos\<rparr>) \<longrightarrow> live_node s p \<noteq> None)"
    if "mn_parent_id (node\<lparr>mn_parent_id := parent, mn_pos := pos\<rparr>) = Some p" for p
    using v that by (auto simp: validate_node_moved_def result_simps require_live_iff split: if_splits)
qed (use n t in \<open>auto simp: live_def\<close>)

lemma strict_delete:
  assumes strict: "strict_ok s" and v: "validate_op sha ser decode s (NodeDeleted n) = Inr u"
    and n: "bt_get (ds_nodes s) n = Some node"
    and t: "ds_nodes t = bt_insert n (node\<lparr>mn_deleted := True\<rparr>) (ds_nodes s)"
      "ds_removed_choices t = ds_removed_choices s"
  shows "live_parents t \<and> removed_are_choices t"
proof
  have lp: "live_parents s" and rc: "removed_are_choices s" and ok: "state_ok s"
    using strict by (simp_all add: strict_ok_def)
  have "mn_parent_id c \<noteq> Some n" if "live_node s k = Some c" for k c
  proof -
    have "\<not> has_live_children s n" using v by (auto split: if_splits)
    moreover have "(k, c) \<in> set (ds_nodes s)" "mn_id c = k" "live s k c"
      using that ok by (auto simp: live_node_iff state_ok_def nodes_typed_def bt_get_iff_mem [symmetric])
    ultimately show ?thesis by (auto simp: has_live_children_def list_ex_iff live_def)
  qed
  then show "live_parents t"
    by (intro live_parents_update [OF lp t(1)]) (use t in \<open>auto simp: live_def\<close>)
  show "removed_are_choices t"
    by (rule removed_update [OF rc _ t(1)]) (use t n in auto)
qed

lemma strict_choice_removed:
  assumes strict: "strict_ok s" and c: "bt_get (ds_nodes s) c = Some node"
    and choice: "parse_node_type (mn_node_type node) = Some NT_Choice"
    and t: "ds_nodes t = ds_nodes s" "set (ds_removed_choices t) = insert c (set (ds_removed_choices s))"
  shows "live_parents t \<and> removed_are_choices t"
proof
  have lp: "live_parents s" and rc: "removed_are_choices s" and ok: "state_ok s"
    using strict by (simp_all add: strict_ok_def)
  have sub: "live_node t k = Some x \<longleftrightarrow> live_node s k = Some x \<and> k \<noteq> c" for k x
    using t by (auto simp: live_node_iff live_def)
  show "live_parents t"
    unfolding live_parents_def
  proof (intro allI impI)
    fix k x p assume "live_node t k = Some x" and p: "mn_parent_id x = Some p"
    then have k: "live_node s k = Some x" by (simp add: sub)
    with lp p obtain y where "live_node s p = Some y" unfolding live_parents_def by blast
    moreover have "p \<noteq> c" using choice_childless [OF ok c choice] k p by (auto simp: live_node_iff)
    ultimately show "live_node t p \<noteq> None" using sub by blast
  qed
  show "removed_are_choices t" using rc c choice t by (auto simp: removed_are_choices_def)
qed

lemma strict_same_nodes:
  assumes "strict_ok s" and "ds_nodes t = ds_nodes s" and "ds_removed_choices t = ds_removed_choices s"
  shows "live_parents t \<and> removed_are_choices t"
proof -
  have "live_node t k = live_node s k" for k
    using assms by (auto simp: live_node_def live_def split: option.split)
  with assms show ?thesis by (simp add: strict_ok_def live_parents_def removed_are_choices_def)
qed

lemma strict_restore:
  assumes strict: "strict_ok s" and v: "validate_op sha ser decode s (NodeRestored n) = Inr u"
    and n: "bt_get (ds_nodes s) n = Some node"
    and t: "ds_nodes t = bt_insert n (node\<lparr>mn_deleted := False\<rparr>) (ds_nodes s)"
      "ds_removed_choices t = bs_remove n (ds_removed_choices s)"
  shows "live_parents t \<and> removed_are_choices t"
proof (rule strict_place [OF strict t(1), where R = "{n}"])
  show "p \<noteq> n \<and> (live t n (node\<lparr>mn_deleted := False\<rparr>) \<longrightarrow> live_node s p \<noteq> None)"
    if "mn_parent_id (node\<lparr>mn_deleted := False\<rparr>) = Some p" for p
  proof -
    have "p \<noteq> n" using no_cycle_self [OF _ n] strict that by (auto simp: strict_ok_def)
    moreover have "live_node s p \<noteq> None"
      using v that n
      by (auto simp: require_present_def result_simps require_live_iff split: if_splits option.splits)
    ultimately show ?thesis by simp
  qed
qed (use n t in \<open>auto simp: live_def\<close>)

lemma strict_choice_added:
  assumes strict: "strict_ok s" and v: "validate_op sha ser decode s (ChoiceAdded n c flds) = Inr u"
    and a: "apply_payload sha ser s (ChoiceAdded n c flds) = Inr t"
  shows "live_parents t \<and> removed_are_choices t"
proof -
  from v have fresh: "bt_get (ds_nodes s) c = None" and n: "live_node s n \<noteq> None"
    by (auto simp: require_live_iff result_simps bt_contains_def split: if_splits)
  then have nc: "n \<noteq> c" by (auto simp: live_node_def)
  from a fresh obtain node' where t: "ds_nodes t = bt_insert c node' (ds_nodes s)"
    "ds_removed_choices t = bs_remove c (ds_removed_choices s)" and p: "mn_parent_id node' = Some n"
    by (auto simp: bt_contains_def)
  show ?thesis
    by (rule strict_place [OF strict t(1), where R = "{c}"]) (use t p n nc fresh in auto)
qed

lemma strict_field_edit:
  assumes strict: "strict_ok s" and n: "bt_get (ds_nodes s) n = Some node"
    and a: "apply_payload sha ser s op = Inr t"
    and op: "op = FieldEdited n field val \<or> op = RichTextPatched n patch"
  shows "live_parents t \<and> removed_are_choices t"
proof -
  from strict n obtain m where m: "mn_current_fields node = JObj m"
    by (auto simp: strict_ok_def state_ok_def nodes_typed_def is_object_iff)
  from op obtain node' where t: "ds_nodes t = bt_insert n node' (ds_nodes s)"
    "ds_removed_choices t = ds_removed_choices s"
    and keep: "mn_deleted node' = mn_deleted node" "mn_parent_id node' = mn_parent_id node"
      "mn_node_type node' = mn_node_type node"
    using a n m by (auto simp: op_effects Let_def)
  show ?thesis by (rule strict_same_liveness [OF strict n t keep])
qed

lemma validated_op_preserves_strict:
  assumes strict: "strict_ok s" and v: "validate_op sha ser decode s op = Inr u"
    and a: "apply_payload sha ser s op = Inr t" and choice: "removes_choice s op"
  shows "strict_ok t"
proof -
  have "state_ok t" using validated_op_preserves [OF _ v a] strict by (simp add: strict_ok_def)
  moreover have "live_parents t \<and> removed_are_choices t"
  proof (cases op)
    case (NodeCreated n nt parent pos flds var)
    with a obtain node' where "ds_nodes t = bt_insert n node' (ds_nodes s)"
      "ds_removed_choices t = ds_removed_choices s" "mn_parent_id node' = parent"
      by auto
    with strict_create [OF strict] v NodeCreated show ?thesis by simp
  next
    case (NodeMoved n parent pos)
    with v a obtain node where n: "bt_get (ds_nodes s) n = Some node"
      and t: "ds_nodes t = bt_insert n (node\<lparr>mn_parent_id := parent, mn_pos := pos\<rparr>) (ds_nodes s)"
        "ds_removed_choices t = ds_removed_choices s"
      by (auto simp: state_updates split: option.splits)
    with strict_move [OF strict _ n t] v NodeMoved show ?thesis by simp
  next
    case (NodeDeleted n)
    with v a obtain node where n: "bt_get (ds_nodes s) n = Some node"
      and t: "ds_nodes t = bt_insert n (node\<lparr>mn_deleted := True\<rparr>) (ds_nodes s)"
        "ds_removed_choices t = ds_removed_choices s"
      by (auto simp: state_updates split: option.splits)
    with strict_delete [OF strict _ n t] v NodeDeleted show ?thesis by blast
  next
    case (NodeRestored n)
    with v a obtain node where n: "bt_get (ds_nodes s) n = Some node"
      and t: "ds_nodes t = bt_insert n (node\<lparr>mn_deleted := False\<rparr>) (ds_nodes s)"
        "ds_removed_choices t = bs_remove n (ds_removed_choices s)"
      by (auto simp: state_updates split: option.splits)
    with strict_restore [OF strict _ n t] v NodeRestored show ?thesis by blast
  next
    case (FieldEdited n field val)
    with a obtain node where "bt_get (ds_nodes s) n = Some node"
      by (auto simp: update_node_def split: option.splits)
    with strict_field_edit [OF strict _ a] FieldEdited show ?thesis by blast
  next
    case (RichTextPatched n patch)
    with a obtain node where "bt_get (ds_nodes s) n = Some node"
      by (auto simp: update_node_def split: option.splits)
    with strict_field_edit [OF strict _ a] RichTextPatched show ?thesis by blast
  next
    case (ChoiceAdded n c flds)
    with strict_choice_added [OF strict] v a show ?thesis by blast
  next
    case (ChoiceRemoved n c)
    with choice obtain node where c: "bt_get (ds_nodes s) c = Some node"
      "parse_node_type (mn_node_type node) = Some NT_Choice"
      by (auto split: option.splits)
    from ChoiceRemoved a have "ds_nodes t = ds_nodes s"
      "set (ds_removed_choices t) = insert c (set (ds_removed_choices s))" by auto
    then show ?thesis by (rule strict_choice_removed [OF strict c])
  qed (use a in \<open>auto simp: update_suggestion_def split: option.splits
         intro: strict_same_nodes [OF strict, THEN conjunct1] strict_same_nodes [OF strict, THEN conjunct2]\<close>)
  ultimately show ?thesis by (simp add: strict_ok_def)
qed

lemma strict_ok_sound: "strict_ok s \<Longrightarrow> check_invariants s = []"
proof -
  assume strict: "strict_ok s"
  then have ok: "bt_ok (ds_nodes s)" by (simp add: strict_ok_def state_ok_def)
  have "v \<notin> set (check_invariants s)" for v
  proof
    assume v: "v \<in> set (check_invariants s)"
    then have ne: "\<not> structurally_sound s" using check_invariants_empty_iff [OF ok] by force
    have "names_unique s" and "nodes_typed s" and "state_ok s" and "live_parents s"
      using strict by (simp_all add: strict_ok_def state_ok_def)
    then have "structurally_sound s"
      unfolding structurally_sound_def names_unique_def nodes_typed_def live_parents_def
      using acyclic_live_rel [of s] by (fastforce simp: live_node_iff live_def)
    with ne show False by simp
  qed
  then show ?thesis by (metis list.set_intros(1) neq_Nil_conv)
qed

text \<open>
  Validation with the check that a removed choice is a choice. The code's validator accepts
  \<^verbatim>\<open>ChoiceRemoved\<close> on any child.
\<close>

definition validate_choice_safe ::
    "hash_fun \<Rightarrow> scalar_writer \<Rightarrow> decoder \<Rightarrow> document_state \<Rightarrow> event_payload \<Rightarrow> op_error + unit" where
  "validate_choice_safe sha ser decode s op =
     bind_res (validate_op sha ser decode s op)
       (\<lambda>u. if removes_choice s op then Inr u else Inl (OE_ChoiceNotFound []))"

interpretation choice_safe: guarded_fold
  "validate_choice_safe sha ser decode" "apply_payload sha ser" empty_state strict_ok for sha ser decode
proof unfold_locales
  show "strict_ok empty_state"
    using state_ok_empty
    by (simp add: strict_ok_def live_parents_def removed_are_choices_def empty_state_def live_node_def)
next
  fix s op u assume "strict_ok s" and "validate_choice_safe sha ser decode s op = Inr u"
  then show "\<exists>s'. apply_payload sha ser s op = Inr s'"
    by (auto simp: validate_choice_safe_def result_simps strict_ok_def intro: validated_op_applies)
next
  fix s op u s' assume "strict_ok s" and "validate_choice_safe sha ser decode s op = Inr u"
    and "apply_payload sha ser s op = Inr s'"
  then show "strict_ok s'"
    by (auto simp: validate_choice_safe_def result_simps split: if_splits
             intro: validated_op_preserves_strict)
qed

end
