(* ===== verification/Expr.thy ===== *)
theory Expr
  imports Json
begin

text \<open>
  The recursive-descent parser of ODK expressions (\<^verbatim>\<open>crates/engine-core/src/expr.rs\<close>) and the two AST
  visitors. The parser's methods call each other mutually; they are the equations of one function
  \<open>parse_nt\<close> whose first argument names the method (a loop carries its accumulator), and each method is
  a definition over it. A loop re-enters itself only after it moved forward; the code has no such
  test, and \<open>parse_nt_forward\<close> shows that it never fails. Parsing a decimal text into an
  \<^verbatim>\<open>f64\<close> is the parameter \<open>f64\<close>; no check reads the number.
\<close>

datatype literal = LNumber "64 word" | LStr string | LBool bool

datatype bin_op =
    OpEq | OpNe | OpLt | OpLe | OpGt | OpGe | OpAdd | OpSub | OpMul | OpDiv | OpMod | OpAnd | OpOr

datatype unary_op = OpNot | OpNeg

datatype expr =
    VarRef string
  | Literal literal
  | BinOp bin_op expr expr
  | UnaryOp unary_op expr
  | Call string "expr list"
  | Dot

datatype parse_error =
    LimitExceeded string nat
  | UnexpectedEof
  | UnexpectedChar nat nat
  | Expected string nat
  | UnterminatedString nat
  | UnterminatedVarRef nat
  | TrailingInput nat

definition is_arithmetic :: "bin_op \<Rightarrow> bool" where
  "is_arithmetic op \<longleftrightarrow> op \<in> {OpAdd, OpSub, OpMul, OpDiv, OpMod}"

definition is_ordering :: "bin_op \<Rightarrow> bool" where
  "is_ordering op \<longleftrightarrow> op \<in> {OpLt, OpLe, OpGt, OpGe}"

definition MAX_EXPRESSION_BYTES :: nat where "MAX_EXPRESSION_BYTES = 64 * 1024"
definition MAX_EXPRESSION_DEPTH :: nat where "MAX_EXPRESSION_DEPTH = 32"
definition MAX_EXPRESSION_TERMS :: nat where "MAX_EXPRESSION_TERMS = 256"

section \<open>Visitors\<close>

fun collect_vars :: "expr \<Rightarrow> string list \<Rightarrow> string list" where
  "collect_vars (VarRef name) out = bs_insert name out"
| "collect_vars (Literal v) out = out"
| "collect_vars Dot out = out"
| "collect_vars (BinOp op a b) out = collect_vars b (collect_vars a out)"
| "collect_vars (UnaryOp op a) out = collect_vars a out"
| "collect_vars (Call name args) out = fold collect_vars args out"

definition referenced_vars :: "expr \<Rightarrow> string list" where
  "referenced_vars e = collect_vars e []"

fun find_var :: "expr list \<Rightarrow> string option" where
  "find_var [] = None"
| "find_var (VarRef v # _) = Some v"
| "find_var (_ # es) = find_var es"

fun find_lit :: "expr list \<Rightarrow> string option" where
  "find_lit [] = None"
| "find_lit (Literal (LStr s) # _) = Some s"
| "find_lit (_ # es) = find_lit es"

fun collect_selected :: "expr \<Rightarrow> (string \<times> string) list \<Rightarrow> (string \<times> string) list" where
  "collect_selected (VarRef name) out = out"
| "collect_selected (Literal v) out = out"
| "collect_selected Dot out = out"
| "collect_selected (BinOp op a b) out = collect_selected b (collect_selected a out)"
| "collect_selected (UnaryOp op a) out = collect_selected a out"
| "collect_selected (Call name args) out =
     fold collect_selected args
       (if name = ''selected'' \<and> length args = 2 then
          (case (find_var args, find_lit args) of
             (Some var, Some lit) \<Rightarrow> out @ [(var, lit)]
           | _ \<Rightarrow> out)
        else out)"

definition selected_choice_refs :: "expr \<Rightarrow> (string \<times> string) list" where
  "selected_choice_refs e = collect_selected e []"

section \<open>The parser\<close>

record parser =
  ps_input :: string
  ps_pos :: nat
  ps_depth :: nat
  ps_terms :: nat

definition new_parser :: "string \<Rightarrow> parser" where
  "new_parser input = \<lparr>ps_input = input, ps_pos = 0, ps_depth = 0, ps_terms = 0\<rparr>"

definition is_digit :: "char \<Rightarrow> bool" where
  "is_digit c \<longleftrightarrow> CHR ''0'' \<le> c \<and> c \<le> CHR ''9''"

definition is_alpha :: "char \<Rightarrow> bool" where
  "is_alpha c \<longleftrightarrow> (CHR ''a'' \<le> c \<and> c \<le> CHR ''z'') \<or> (CHR ''A'' \<le> c \<and> c \<le> CHR ''Z'')"

definition is_ascii_ws :: "char \<Rightarrow> bool" where
  "is_ascii_ws c \<longleftrightarrow> (of_char c :: nat) \<in> {32, 9, 10, 12, 13}"

definition is_ident_start :: "char \<Rightarrow> bool" where
  "is_ident_start b \<longleftrightarrow> is_alpha b \<or> b = CHR ''_''"

definition is_ident_continue :: "char \<Rightarrow> bool" where
  "is_ident_continue b \<longleftrightarrow> is_alpha b \<or> is_digit b \<or> b = CHR ''_'' \<or> b = CHR ''-''"

definition rest :: "parser \<Rightarrow> string" where
  "rest p = drop (ps_pos p) (ps_input p)"

definition peek :: "parser \<Rightarrow> char option" where
  "peek p = nth_opt (ps_input p) (ps_pos p)"

definition advance_by :: "nat \<Rightarrow> parser \<Rightarrow> parser" where
  "advance_by n p = p\<lparr>ps_pos := ps_pos p + n\<rparr>"

definition skip_ws :: "parser \<Rightarrow> parser" where
  "skip_ws p = advance_by (length (takeWhile is_ascii_ws (rest p))) p"

definition eat_symbol :: "string \<Rightarrow> parser \<Rightarrow> parser option" where
  "eat_symbol symbol p =
     (if ps_pos p + length symbol \<le> length (ps_input p) \<and> take (length symbol) (rest p) = symbol
      then Some (advance_by (length symbol) p) else None)"

definition eat_keyword :: "string \<Rightarrow> parser \<Rightarrow> parser option" where
  "eat_keyword word p =
     (let stop = ps_pos p + length word in
      if stop \<le> length (ps_input p) \<and> take (length word) (rest p) = word
         \<and> \<not> (case nth_opt (ps_input p) stop of None \<Rightarrow> False | Some c \<Rightarrow> is_ident_continue c)
      then Some (advance_by (length word) p) else None)"

fun eat_ops :: "((parser \<Rightarrow> parser option) \<times> bin_op) list \<Rightarrow> parser \<Rightarrow> (bin_op \<times> parser) option" where
  "eat_ops [] p = None"
| "eat_ops ((eat, op) # es) p =
     (case eat p of Some p' \<Rightarrow> Some (op, p') | None \<Rightarrow> eat_ops es p)"

definition or_ops :: "((parser \<Rightarrow> parser option) \<times> bin_op) list" where
  "or_ops = [(eat_keyword ''or'', OpOr)]"

definition and_ops :: "((parser \<Rightarrow> parser option) \<times> bin_op) list" where
  "and_ops = [(eat_keyword ''and'', OpAnd)]"

definition comparison_ops :: "((parser \<Rightarrow> parser option) \<times> bin_op) list" where
  "comparison_ops =
     [(eat_symbol ''!='', OpNe), (eat_symbol ''<='', OpLe), (eat_symbol ''>='', OpGe),
      (eat_symbol ''='', OpEq), (eat_symbol ''<'', OpLt), (eat_symbol ''>'', OpGt)]"

definition additive_ops :: "((parser \<Rightarrow> parser option) \<times> bin_op) list" where
  "additive_ops = [(eat_symbol ''+'', OpAdd), (eat_symbol ''-'', OpSub)]"

definition multiplicative_ops :: "((parser \<Rightarrow> parser option) \<times> bin_op) list" where
  "multiplicative_ops =
     [(eat_symbol ''*'', OpMul), (eat_keyword ''div'', OpDiv), (eat_keyword ''mod'', OpMod),
      (eat_symbol ''/'', OpDiv)]"

definition parse_string :: "char \<Rightarrow> parser \<Rightarrow> parse_error + expr \<times> parser" where
  "parse_string quote p =
     (let body = takeWhile (\<lambda>c. c \<noteq> quote) (drop 1 (rest p));
          after = dropWhile (\<lambda>c. c \<noteq> quote) (drop 1 (rest p))
      in if after = [] then Inl (UnterminatedString (ps_pos p))
         else Inr (Literal (LStr body), advance_by (length body + 2) p))"

definition parse_number :: "(string \<Rightarrow> 64 word option) \<Rightarrow> parser \<Rightarrow> parse_error + expr \<times> parser" where
  "parse_number f64 p =
     (let text = takeWhile (\<lambda>c. is_digit c \<or> c = CHR ''.'') (rest p) in
      case f64 text of
        None \<Rightarrow> Inl (Expected ''number'' (ps_pos p))
      | Some value \<Rightarrow> Inr (Literal (LNumber value), advance_by (length text) p))"

definition parse_var_ref :: "parser \<Rightarrow> parse_error + expr \<times> parser" where
  "parse_var_ref p =
     (let name = takeWhile (\<lambda>c. c \<noteq> CHR ''}'') (drop 2 (rest p));
          after = dropWhile (\<lambda>c. c \<noteq> CHR ''}'') (drop 2 (rest p))
      in if after = [] then Inl (UnterminatedVarRef (ps_pos p))
         else Inr (VarRef (trim name), advance_by (length name + 3) p))"

datatype nonterm =
    N_or | N_and | N_comparison | N_additive | N_multiplicative
  | N_loop nonterm expr
  | N_unary | N_unary_inner | N_primary
  | N_args string "expr list"

text \<open>The operators of a left-associative level and the level below it.\<close>

fun level_ops :: "nonterm \<Rightarrow> ((parser \<Rightarrow> parser option) \<times> bin_op) list" where
  "level_ops N_or = or_ops"
| "level_ops N_and = and_ops"
| "level_ops N_comparison = comparison_ops"
| "level_ops N_additive = additive_ops"
| "level_ops N_multiplicative = multiplicative_ops"
| "level_ops _ = []"

fun level_below :: "nonterm \<Rightarrow> nonterm" where
  "level_below N_or = N_and"
| "level_below N_and = N_comparison"
| "level_below N_comparison = N_additive"
| "level_below N_additive = N_multiplicative"
| "level_below _ = N_unary"

fun rank :: "nonterm \<Rightarrow> nat" where
  "rank N_or = 9"
| "rank N_and = 8"
| "rank N_comparison = 7"
| "rank N_additive = 6"
| "rank N_multiplicative = 5"
| "rank (N_loop _ _) = 0"
| "rank N_unary = 3"
| "rank N_unary_inner = 2"
| "rank N_primary = 1"
| "rank (N_args _ _) = 10"

definition forward :: "parser \<Rightarrow> parser \<Rightarrow> bool" where
  "forward p p' \<longleftrightarrow> ps_input p' = ps_input p \<and> ps_depth p' = ps_depth p
     \<and> ps_pos p < ps_pos p' \<and> ps_pos p' \<le> length (ps_input p)"

text \<open>The end of an operand: the loop of its level, entered only after input was consumed.\<close>

definition stuck :: "parse_error + expr \<times> parser" where
  "stuck = Inl UnexpectedEof"

function (sequential) parse_nt ::
    "(string \<Rightarrow> 64 word option) \<Rightarrow> nonterm \<Rightarrow> parser \<Rightarrow> parse_error + expr \<times> parser" where
  "parse_nt f64 (N_loop level lhs) p =
     (let p1 = skip_ws p in
      case eat_ops (level_ops level) p1 of
        None \<Rightarrow> Inr (lhs, p1)
      | Some (op, p2) \<Rightarrow>
          if forward p p2 then
            bind_res (parse_nt f64 (level_below level) (skip_ws p2))
              (\<lambda>(rhs, p3). if forward p p3 then parse_nt f64 (N_loop level (BinOp op lhs rhs)) p3 else stuck)
          else stuck)"
| "parse_nt f64 N_unary p =
     (if ps_depth p \<ge> MAX_EXPRESSION_DEPTH then Inl (LimitExceeded ''nesting'' MAX_EXPRESSION_DEPTH)
      else if ps_terms p \<ge> MAX_EXPRESSION_TERMS then Inl (LimitExceeded ''term'' MAX_EXPRESSION_TERMS)
      else
        bind_res
          (parse_nt f64 N_unary_inner (p\<lparr>ps_depth := ps_depth p + 1, ps_terms := ps_terms p + 1\<rparr>))
          (\<lambda>(e, p'). Inr (e, p'\<lparr>ps_depth := ps_depth p' - 1\<rparr>)))"
| "parse_nt f64 N_unary_inner p =
     (let p1 = skip_ws p in
      case eat_keyword ''not'' p1 of
        Some p2 \<Rightarrow>
          if forward p p2 then
            bind_res (parse_nt f64 N_unary (skip_ws p2)) (\<lambda>(e, p3). Inr (UnaryOp OpNot e, p3))
          else stuck
      | None \<Rightarrow>
          if peek p1 = Some (CHR ''-'') then
            if forward p (advance_by 1 p1) then
              bind_res (parse_nt f64 N_unary (skip_ws (advance_by 1 p1)))
                (\<lambda>(e, p3). Inr (UnaryOp OpNeg e, p3))
            else stuck
          else parse_nt f64 N_primary p1)"
| "parse_nt f64 N_primary p0 =
     (let p = skip_ws p0 in
      case peek p of
        None \<Rightarrow> Inl UnexpectedEof
      | Some b \<Rightarrow>
          if b = CHR ''('' then
            if forward p0 (advance_by 1 p) then
              bind_res (parse_nt f64 N_or (skip_ws (advance_by 1 p)))
                (\<lambda>(inner, p1).
                   case eat_symbol '')'' (skip_ws p1) of
                     Some p2 \<Rightarrow> Inr (inner, p2)
                   | None \<Rightarrow> Inl (Expected '')'' (ps_pos (skip_ws p1))))
            else stuck
          else if b = CHR ''$'' \<and> nth_opt (ps_input p) (ps_pos p + 1) = Some (CHR ''{'')
          then parse_var_ref p
          else if b = CHR 0x27 \<or> b = CHR 0x22 then parse_string b p
          else if is_digit b
                  \<or> (b = CHR ''.'' \<and> (case nth_opt (ps_input p) (ps_pos p + 1) of
                                         None \<Rightarrow> False | Some c \<Rightarrow> is_digit c))
          then parse_number f64 p
          else if b = CHR ''.'' then Inr (Dot, advance_by 1 p)
          else if is_ident_start b then
            (let name = takeWhile is_ident_continue (rest p); p1 = advance_by (length name) p in
             if name = ''true'' then Inr (Literal (LBool True), p1)
             else if name = ''false'' then Inr (Literal (LBool False), p1)
             else (let p2 = skip_ws p1 in
                   if peek p2 = Some (CHR ''('') then
                     (let p3 = skip_ws (advance_by 1 p2) in
                      case eat_symbol '')'' p3 of
                        Some p4 \<Rightarrow> Inr (Call name [], p4)
                      | None \<Rightarrow> if forward p0 p3 then parse_nt f64 (N_args name []) p3 else stuck)
                   else Inl (UnexpectedChar (of_char (hd (rest p))) (ps_pos p))))
          else Inl (UnexpectedChar (of_char b) (ps_pos p)))"
| "parse_nt f64 (N_args name args) p =
     bind_res (parse_nt f64 N_or (skip_ws p))
       (\<lambda>(arg, p1).
          let p2 = skip_ws p1 in
          case eat_symbol '','' p2 of
            Some p3 \<Rightarrow> if forward p p3 then parse_nt f64 (N_args name (args @ [arg])) p3 else stuck
          | None \<Rightarrow>
              (case eat_symbol '')'' p2 of
                 Some p3 \<Rightarrow> Inr (Call name (args @ [arg]), p3)
               | None \<Rightarrow> Inl (Expected '', or )'' (ps_pos p2))))"
| "parse_nt f64 level p =
     bind_res (parse_nt f64 (level_below level) p)
       (\<lambda>(lhs, p1). if forward p p1 then parse_nt f64 (N_loop level lhs) p1 else stuck)"
  by pat_completeness auto
termination
  by (relation "inv_image (less_than <*lex*> less_than <*lex*> less_than)
        (\<lambda>(f64, nt, p). (MAX_EXPRESSION_DEPTH - ps_depth p, length (ps_input p) - ps_pos p, rank nt))")
     (auto simp: forward_def skip_ws_def advance_by_def)

declare parse_nt.simps [simp del]

definition parse_or where "parse_or f64 = parse_nt f64 N_or"
definition parse_and where "parse_and f64 = parse_nt f64 N_and"
definition parse_comparison where "parse_comparison f64 = parse_nt f64 N_comparison"
definition parse_additive where "parse_additive f64 = parse_nt f64 N_additive"
definition parse_multiplicative where "parse_multiplicative f64 = parse_nt f64 N_multiplicative"
definition parse_unary where "parse_unary f64 = parse_nt f64 N_unary"
definition parse_unary_inner where "parse_unary_inner f64 = parse_nt f64 N_unary_inner"
definition parse_primary where "parse_primary f64 = parse_nt f64 N_primary"
definition parse_args where "parse_args f64 name = parse_nt f64 (N_args name [])"

definition parse :: "(string \<Rightarrow> 64 word option) \<Rightarrow> string \<Rightarrow> parse_error + expr" where
  "parse f64 input =
     (if length input > MAX_EXPRESSION_BYTES then Inl (LimitExceeded ''byte'' MAX_EXPRESSION_BYTES)
      else
        bind_res (parse_or f64 (skip_ws (new_parser input)))
          (\<lambda>(e, p). let p' = skip_ws p in
             if ps_pos p' < length (ps_input p') then Inl (TrailingInput (ps_pos p')) else Inr e))"

section \<open>Progress and limits\<close>

fun expr_terms :: "expr \<Rightarrow> nat" where
  "expr_terms (BinOp op a b) = expr_terms a + expr_terms b"
| "expr_terms (UnaryOp op a) = 1 + expr_terms a"
| "expr_terms (Call name args) = 1 + sum_list (map expr_terms args)"
| "expr_terms _ = 1"

definition within :: "parser \<Rightarrow> bool" where
  "within p \<longleftrightarrow> ps_pos p \<le> length (ps_input p) \<and> ps_terms p \<le> MAX_EXPRESSION_TERMS"

text \<open>\<open>moved p p'\<close>: the same input and nesting, a position no further back, a term count no smaller.\<close>

definition moved :: "parser \<Rightarrow> parser \<Rightarrow> bool" where
  "moved p p' \<longleftrightarrow> ps_input p' = ps_input p \<and> ps_depth p' = ps_depth p \<and> ps_pos p \<le> ps_pos p'
     \<and> ps_terms p \<le> ps_terms p' \<and> within p'"

lemmas move_defs = moved_def within_def forward_def advance_by_def

lemma moved_trans: "moved p q \<Longrightarrow> moved q r \<Longrightarrow> moved p r"
  by (auto simp: moved_def)

lemma skip_ws_moved: "within p \<Longrightarrow> moved p (skip_ws p) \<and> ps_terms (skip_ws p) = ps_terms p"
proof -
  assume w: "within p"
  have "length (takeWhile is_ascii_ws (rest p)) \<le> length (rest p)" by (rule length_takeWhile_le)
  with w show ?thesis by (auto simp: move_defs skip_ws_def rest_def)
qed

definition stepped :: "parser \<Rightarrow> parser \<Rightarrow> bool" where
  "stepped p p' \<longleftrightarrow> moved p p' \<and> ps_pos p < ps_pos p' \<and> ps_terms p' = ps_terms p"

lemma eat_symbol_stepped: "within p \<Longrightarrow> s \<noteq> [] \<Longrightarrow> eat_symbol s p = Some p' \<Longrightarrow> stepped p p'"
  by (auto simp: stepped_def eat_symbol_def move_defs split: if_splits)

lemma eat_keyword_stepped: "within p \<Longrightarrow> s \<noteq> [] \<Longrightarrow> eat_keyword s p = Some p' \<Longrightarrow> stepped p p'"
  by (auto simp: stepped_def eat_keyword_def Let_def move_defs split: if_splits)

lemma eat_ops_stepped:
  assumes "within p" and "eat_ops es p = Some (op, p')"
    and "\<And>eat o' q. (eat, o') \<in> set es \<Longrightarrow> eat p = Some q \<Longrightarrow> stepped p q"
  shows "stepped p p'"
  using assms(2,3)
proof (induction es)
  case (Cons e es)
  obtain eat o' where e: "e = (eat, o')" by (cases e)
  show ?case
  proof (cases "eat p")
    case None
    then show ?thesis using Cons e by auto
  next
    case (Some q)
    then show ?thesis using Cons.prems e by auto
  qed
qed simp

lemma level_ops_stepped:
  assumes "within p" and "eat_ops (level_ops level) p = Some (op, p')"
  shows "stepped p p'"
  using assms(1,2)
proof (rule eat_ops_stepped)
  fix eat o' q assume "(eat, o') \<in> set (level_ops level)" and "eat p = Some q"
  with assms(1) show "stepped p q"
    by (cases level)
       (auto simp: or_ops_def and_ops_def comparison_ops_def additive_ops_def multiplicative_ops_def
             intro: eat_symbol_stepped eat_keyword_stepped)
qed

lemma peek_stepped: "within p \<Longrightarrow> peek p = Some c \<Longrightarrow> stepped p (advance_by 1 p)"
  by (auto simp: stepped_def move_defs peek_def nth_opt_def split: if_splits)

lemma moved_stepped: "moved p q \<Longrightarrow> stepped q r \<Longrightarrow> moved p r \<and> ps_pos p < ps_pos r"
  by (auto simp: stepped_def moved_def)

lemma stepped_forward: "moved p q \<Longrightarrow> ps_pos p < ps_pos q \<Longrightarrow> forward p q"
  by (auto simp: move_defs)

lemma scan_stepped:
  assumes "within p" and "n \<le> length (rest p)" and "0 < n"
  shows "stepped p (advance_by n p)"
  using assms by (auto simp: stepped_def move_defs rest_def)

lemma split_at_stop:
  assumes "dropWhile P xs \<noteq> []" shows "length (takeWhile P xs) < length xs"
proof -
  have "length xs = length (takeWhile P xs) + length (dropWhile P xs)"
    by (metis length_append takeWhile_dropWhile_id)
  with assms show ?thesis by auto
qed

lemma parse_string_stepped: "within p \<Longrightarrow> parse_string q p = Inr (e, p') \<Longrightarrow> stepped p p' \<and> expr_terms e = 1"
  using split_at_stop [of "\<lambda>c. c \<noteq> q" "drop 1 (rest p)"]
  by (auto simp: parse_string_def Let_def split: if_splits intro!: scan_stepped)

lemma parse_var_ref_stepped: "within p \<Longrightarrow> parse_var_ref p = Inr (e, p') \<Longrightarrow> stepped p p' \<and> expr_terms e = 1"
  using split_at_stop [of "\<lambda>c. c \<noteq> CHR ''}''" "drop 2 (rest p)"]
  by (auto simp: parse_var_ref_def Let_def split: if_splits intro!: scan_stepped)

lemma rest_peek: "peek p = Some c \<Longrightarrow> \<exists>cs. rest p = c # cs"
  by (auto simp: peek_def rest_def nth_opt_def Cons_nth_drop_Suc [symmetric] split: if_splits)

lemma parse_number_stepped:
  assumes "within p" and "peek p = Some c" and "is_digit c \<or> c = CHR ''.''"
    and "parse_number f64 p = Inr (e, p')"
  shows "stepped p p' \<and> expr_terms e = 1"
proof -
  obtain cs where cs: "rest p = c # cs" using rest_peek [OF assms(2)] by blast
  let ?t = "takeWhile (\<lambda>c. is_digit c \<or> c = CHR ''.'') (rest p)"
  have "0 < length ?t" using assms(3) cs by simp
  then have "stepped p (advance_by (length ?t) p)"
    using assms(1) by (intro scan_stepped) (auto simp: length_takeWhile_le)
  with assms(4) show ?thesis by (auto simp: parse_number_def Let_def split: option.splits)
qed


fun base_terms :: "nonterm \<Rightarrow> nat" where
  "base_terms (N_loop _ lhs) = expr_terms lhs"
| "base_terms N_unary_inner = 1"
| "base_terms N_primary = 1"
| "base_terms (N_args _ args) = 1 + sum_list (map expr_terms args)"
| "base_terms _ = 0"

fun consuming :: "nonterm \<Rightarrow> bool" where
  "consuming (N_loop _ _) \<longleftrightarrow> False"
| "consuming _ \<longleftrightarrow> True"

definition reached :: "nonterm \<Rightarrow> parser \<Rightarrow> expr \<Rightarrow> parser \<Rightarrow> bool" where
  "reached nt p e p' \<longleftrightarrow> moved p p' \<and> (consuming nt \<longrightarrow> ps_pos p < ps_pos p')
     \<and> expr_terms e + ps_terms p \<le> base_terms nt + ps_terms p'"

lemma skip_ws_within: "within p \<Longrightarrow> within (skip_ws p)"
  using skip_ws_moved moved_def by blast

lemma reached_leaf:
  "within p \<Longrightarrow> stepped (skip_ws p) p' \<Longrightarrow> expr_terms e = 1 \<Longrightarrow> reached N_primary p e p'"
  using skip_ws_moved [of p] by (auto simp: reached_def stepped_def moved_def)

lemma reached_level:
  assumes "reached below p lhs p1" and "reached (N_loop level lhs) p1 e p'"
    and "base_terms below = 0" and "consuming below"
  shows "moved p p' \<and> ps_pos p < ps_pos p' \<and> expr_terms e + ps_terms p \<le> ps_terms p'"
  using assms by (auto simp: reached_def moved_def)

lemma level_below_terms: "base_terms (level_below level) = 0 \<and> consuming (level_below level)"
  by (cases level) auto

text \<open>An operand after skipped space: at least the operand is consumed.\<close>

lemma reached_after_ws:
  assumes "reached nt (skip_ws q) e p'" and "stepped (skip_ws p) q" and "within p"
  shows "moved p p' \<and> ps_pos p < ps_pos p' \<and> expr_terms e + ps_terms p \<le> base_terms nt + ps_terms p'"
  using assms skip_ws_moved [of p] skip_ws_moved [of q]
  by (auto simp: reached_def stepped_def moved_def)

lemma loop_forward:
  assumes "within p" and "parse_nt f64 (N_loop level lhs) p = Inr (e, p')"
    and operand: "\<And>q r q'. within q \<Longrightarrow> forward p q \<Longrightarrow>
          parse_nt f64 (level_below level) (skip_ws q) = Inr (r, q') \<Longrightarrow> reached (level_below level) (skip_ws q) r q'"
    and again: "\<And>q l. within q \<Longrightarrow> forward p q \<Longrightarrow>
          parse_nt f64 (N_loop level l) q = Inr (e, p') \<Longrightarrow> reached (N_loop level l) q e p'"
  shows "reached (N_loop level lhs) p e p'"
proof -
  note step = trans [OF parse_nt.simps(1) [symmetric] assms(2)]
  show ?thesis
  proof (cases "eat_ops (level_ops level) (skip_ws p)")
    case None
    with assms(1) step skip_ws_moved [OF assms(1)] show ?thesis by (auto simp: reached_def)
  next
    case (Some a)
    then obtain op p2 where a: "eat_ops (level_ops level) (skip_ws p) = Some (op, p2)" by (cases a) auto
    then have s: "stepped (skip_ws p) p2" using level_ops_stepped skip_ws_within assms(1) by blast
    then have w2: "within p2" by (auto simp: stepped_def moved_def)
    from step a obtain rhs p3 where f: "forward p p2" "forward p p3"
      and r: "parse_nt f64 (level_below level) (skip_ws p2) = Inr (rhs, p3)"
      and l: "parse_nt f64 (N_loop level (BinOp op lhs rhs)) p3 = Inr (e, p')"
      by (auto simp: result_simps stuck_def split: if_splits)
    have m: "moved p p3 \<and> ps_pos p < ps_pos p3 \<and> expr_terms rhs + ps_terms p \<le> ps_terms p3"
      using reached_after_ws [OF operand [OF w2 f(1) r] s assms(1)] level_below_terms [of level] by simp
    then have "within p3" by (simp add: moved_def)
    from again [OF this f(2) l] m show ?thesis by (auto simp: reached_def moved_def)
  qed
qed

lemma primary_forward:
  assumes "within p" and "parse_nt f64 N_primary p = Inr (e, p')"
    and inner: "\<And>q r q'. within q \<Longrightarrow> forward p q \<Longrightarrow>
          parse_nt f64 N_or (skip_ws q) = Inr (r, q') \<Longrightarrow> reached N_or (skip_ws q) r q'"
    and args: "\<And>q name. within q \<Longrightarrow> forward p q \<Longrightarrow>
          parse_nt f64 (N_args name []) q = Inr (e, p') \<Longrightarrow> reached (N_args name []) q e p'"
  shows "reached N_primary p e p'"
proof -
  note step = trans [OF parse_nt.simps(4) [symmetric] assms(2)]
  let ?q = "skip_ws p"
  have wq: "within ?q" and mq: "moved p ?q" "ps_terms ?q = ps_terms p"
    using skip_ws_moved [OF assms(1)] skip_ws_within [OF assms(1)] by auto
  obtain b where b: "peek ?q = Some b" using step by (cases "peek ?q") (auto simp: Let_def)
  have sq: "stepped ?q (advance_by 1 ?q)" by (rule peek_stepped [OF wq b])
  obtain cs where cs: "rest ?q = b # cs" using rest_peek [OF b] by blast
  consider (paren) "b = CHR ''(''"
    | (var) "parse_var_ref ?q = Inr (e, p')"
    | (str) "parse_string b ?q = Inr (e, p')"
    | (num) "is_digit b \<or> b = CHR ''.''" "parse_number f64 ?q = Inr (e, p')"
    | (dot) "e = Dot" "p' = advance_by 1 ?q"
    | (ident) "is_ident_start b" "b \<noteq> CHR ''(''" "\<not> is_digit b" "b \<noteq> CHR ''.''"
        "b \<noteq> CHR 0x27" "b \<noteq> CHR 0x22"
        "\<not> (b = CHR ''$'' \<and> nth_opt (ps_input ?q) (ps_pos ?q + 1) = Some (CHR ''{''))"
    using step b by (auto simp: Let_def split: if_splits option.splits)
  then show ?thesis
  proof cases
    case paren
    with step b obtain p1 where f: "forward p (advance_by 1 ?q)"
      and n: "parse_nt f64 N_or (skip_ws (advance_by 1 ?q)) = Inr (e, p1)"
      and p2: "eat_symbol '')'' (skip_ws p1) = Some p'"
      by (auto simp: result_simps stuck_def Let_def split: if_splits option.splits)
    have "within (advance_by 1 ?q)" using sq by (simp add: stepped_def moved_def)
    from reached_after_ws [OF inner [OF this f n] sq assms(1)]
    have m: "moved p p1 \<and> ps_pos p < ps_pos p1 \<and> expr_terms e + ps_terms p \<le> ps_terms p1" by simp
    then have "within p1" by (simp add: moved_def)
    then show ?thesis using m skip_ws_moved [of p1] eat_symbol_stepped [OF skip_ws_within _ p2]
      by (auto simp: reached_def moved_def stepped_def)
  next
    case var
    then show ?thesis using parse_var_ref_stepped [OF wq] reached_leaf assms(1) by blast
  next
    case str
    then show ?thesis using parse_string_stepped [OF wq] reached_leaf assms(1) by blast
  next
    case num
    then show ?thesis using parse_number_stepped [OF wq b] reached_leaf assms(1) by blast
  next
    case dot
    then show ?thesis using sq reached_leaf assms(1) by simp
  next
    case ident
    let ?name = "takeWhile is_ident_continue (rest ?q)"
    let ?p1 = "advance_by (length ?name) ?q"
    have "is_ident_continue b" using ident(1) by (auto simp: is_ident_start_def is_ident_continue_def)
    then have s1: "stepped ?q ?p1"
      by (intro scan_stepped [OF wq]) (auto simp: length_takeWhile_le cs)
    then have w1: "within ?p1" by (simp add: stepped_def moved_def)
    consider (lit) "expr_terms e = 1" "p' = ?p1"
      | (call) "peek (skip_ws ?p1) = Some (CHR ''('')"
          "case eat_symbol '')'' (skip_ws (advance_by 1 (skip_ws ?p1))) of
             Some p4 \<Rightarrow> e = Call ?name [] \<and> p' = p4
           | None \<Rightarrow> forward p (skip_ws (advance_by 1 (skip_ws ?p1)))
               \<and> parse_nt f64 (N_args ?name []) (skip_ws (advance_by 1 (skip_ws ?p1))) = Inr (e, p')"
      using step b ident by (auto simp: Let_def stuck_def split: if_splits option.splits)
    then show ?thesis
    proof cases
      case lit
      then show ?thesis using s1 reached_leaf assms(1) by blast
    next
      case call
      let ?p2 = "skip_ws ?p1" and ?p3 = "skip_ws (advance_by 1 (skip_ws ?p1))"
      have "stepped ?p2 (advance_by 1 ?p2)" by (rule peek_stepped [OF skip_ws_within [OF w1] call(1)])
      then have s3: "stepped ?q ?p3"
        using s1 skip_ws_moved [OF w1] skip_ws_moved [of "advance_by 1 ?p2"] by (auto simp: stepped_def moved_def)
      then have w3: "within ?p3" by (simp add: stepped_def moved_def)
      show ?thesis
      proof (cases "eat_symbol '')'' ?p3")
        case None
        with call(2) args [OF w3] have "reached (N_args ?name []) ?p3 e p'" by simp
        with s3 mq show ?thesis by (auto simp: reached_def stepped_def moved_def)
      next
        case (Some p4)
        then show ?thesis using call(2) s3 mq eat_symbol_stepped [OF w3 _ Some]
          by (auto simp: reached_def stepped_def moved_def)
      qed
    qed
  qed
qed

definition parse_order :: "((nonterm \<times> parser) \<times> (nonterm \<times> parser)) set" where
  "parse_order = inv_image (less_than <*lex*> less_than <*lex*> less_than)
     (\<lambda>(nt, p). (MAX_EXPRESSION_DEPTH - ps_depth p, length (ps_input p) - ps_pos p, rank nt))"

lemma wf_parse_order: "wf parse_order"
  unfolding parse_order_def by (intro wf_inv_image wf_lex_prod wf_less_than)

lemma forward_smaller: "forward p q \<Longrightarrow> ((nt, q), (nt', p)) \<in> parse_order"
  by (auto simp: parse_order_def forward_def)

lemma forward_ws: "forward p q \<Longrightarrow> within q \<Longrightarrow> forward p (skip_ws q)"
  using skip_ws_moved [of q] by (auto simp: move_defs)

lemma unary_inner_forward:
  assumes "within p" and "parse_nt f64 N_unary_inner p = Inr (e, p')"
    and operand: "\<And>q r q'. within q \<Longrightarrow> forward p q \<Longrightarrow>
          parse_nt f64 N_unary (skip_ws q) = Inr (r, q') \<Longrightarrow> reached N_unary (skip_ws q) r q'"
    and primary: "parse_nt f64 N_primary (skip_ws p) = Inr (e, p') \<Longrightarrow> reached N_primary (skip_ws p) e p'"
  shows "reached N_unary_inner p e p'"
proof -
  note step = trans [OF parse_nt.simps(3) [symmetric] assms(2)]
  have wq: "within (skip_ws p)" and mq: "moved p (skip_ws p)" "ps_terms (skip_ws p) = ps_terms p"
    using skip_ws_moved [OF assms(1)] skip_ws_within [OF assms(1)] by auto
  have prefix: "reached N_unary_inner p (UnaryOp u r) p'"
    if s: "stepped (skip_ws p) q" and f: "forward p q" and n: "parse_nt f64 N_unary (skip_ws q) = Inr (r, p')" for q r u
  proof -
    have "within q" using s by (simp add: stepped_def moved_def)
    from reached_after_ws [OF operand [OF this f n] s assms(1)] show ?thesis by (auto simp: reached_def)
  qed
  show ?thesis
  proof (cases "eat_keyword ''not'' (skip_ws p)")
    case (Some p2)
    with step show ?thesis using eat_keyword_stepped [OF wq _ Some]
      by (auto simp: Let_def result_simps stuck_def split: if_splits intro!: prefix)
  next
    case None
    with step consider (neg) r where "peek (skip_ws p) = Some (CHR ''-'')" "forward p (advance_by 1 (skip_ws p))"
        "parse_nt f64 N_unary (skip_ws (advance_by 1 (skip_ws p))) = Inr (r, p')" "e = UnaryOp OpNeg r"
      | (prim) "parse_nt f64 N_primary (skip_ws p) = Inr (e, p')"
      by (auto simp: Let_def result_simps stuck_def split: if_splits)
    then show ?thesis
    proof cases
      case neg
      then show ?thesis using prefix [OF peek_stepped [OF wq]] by blast
    next
      case prim
      from primary [OF prim] mq show ?thesis by (auto simp: reached_def moved_def)
    qed
  qed
qed

lemma args_forward:
  assumes "within p" and "parse_nt f64 (N_args name args) p = Inr (e, p')"
    and arg: "\<And>r q'. parse_nt f64 N_or (skip_ws p) = Inr (r, q') \<Longrightarrow> reached N_or (skip_ws p) r q'"
    and again: "\<And>q as. within q \<Longrightarrow> forward p q \<Longrightarrow>
          parse_nt f64 (N_args name as) q = Inr (e, p') \<Longrightarrow> reached (N_args name as) q e p'"
  shows "reached (N_args name args) p e p'"
proof -
  note step = trans [OF parse_nt.simps(5) [symmetric] assms(2)]
  obtain r p1 where r: "parse_nt f64 N_or (skip_ws p) = Inr (r, p1)"
    using step by (auto simp: result_simps)
  have m: "moved p p1 \<and> ps_pos p < ps_pos p1 \<and> expr_terms r + ps_terms p \<le> ps_terms p1"
    using arg [OF r] skip_ws_moved [OF assms(1)] by (auto simp: reached_def moved_def)
  then have w1: "within p1" by (simp add: moved_def)
  note ws = skip_ws_moved [OF w1] skip_ws_within [OF w1]
  show ?thesis
  proof (cases "eat_symbol '','' (skip_ws p1)")
    case (Some p3)
    with step r have f: "forward p p3" and n: "parse_nt f64 (N_args name (args @ [r])) p3 = Inr (e, p')"
      by (auto simp: Let_def stuck_def split: if_splits)
    have s: "stepped (skip_ws p1) p3" using eat_symbol_stepped [OF ws(2) _ Some] by simp
    then have "within p3" by (simp add: stepped_def moved_def)
    from again [OF this f n] s ws m show ?thesis by (auto simp: reached_def stepped_def moved_def)
  next
    case None
    with step r have p': "eat_symbol '')'' (skip_ws p1) = Some p'" and e: "e = Call name (args @ [r])"
      by (auto simp: Let_def split: option.splits)
    from eat_symbol_stepped [OF ws(2) _ p'] ws m e show ?thesis
      by (auto simp: reached_def stepped_def moved_def)
  qed
qed

text \<open>Every method that succeeds moves forward (a loop may stay), keeps the nesting depth, and builds an
  expression of no more terms than it counted.\<close>

lemma parse_nt_forward:
  "within p \<Longrightarrow> parse_nt f64 nt p = Inr (e, p') \<Longrightarrow> reached nt p e p'"
proof (induction "(nt, p)" arbitrary: nt p e p' rule: wf_induct_rule [OF wf_parse_order])
  case (1 nt p)
  note IH = "1.hyps"
  note ahead = IH [OF forward_smaller]
  have aheadw: "reached nt' (skip_ws q) r q'"
    if "within q" "forward p q" "parse_nt f64 nt' (skip_ws q) = Inr (r, q')" for nt' q r q'
    using ahead [OF forward_ws] that skip_ws_within by blast
  have here: "reached nt' (skip_ws p) r q'"
    if "rank nt' < rank nt" "parse_nt f64 nt' (skip_ws p) = Inr (r, q')" for nt' r q'
  proof (rule IH [OF _ skip_ws_within [OF "1.prems"(1)] that(2)])
    show "((nt', skip_ws p), (nt, p)) \<in> parse_order"
      using skip_ws_moved [OF "1.prems"(1)] that(1) by (auto simp: parse_order_def moved_def)
  qed
  have level: "reached nt p e p'"
    if step: "parse_nt f64 nt p = bind_res (parse_nt f64 below p)
           (\<lambda>(lhs, p1). if forward p p1 then parse_nt f64 (N_loop nt lhs) p1 else stuck)"
      and below: "rank below < rank nt" "base_terms below = 0" "consuming below" "base_terms nt = 0" for below
  proof -
    from "1.prems"(2) step obtain lhs p1 where l: "parse_nt f64 below p = Inr (lhs, p1)"
      and f: "forward p p1" and n: "parse_nt f64 (N_loop nt lhs) p1 = Inr (e, p')"
      by (auto simp: result_simps stuck_def split: if_splits)
    have "((below, p), (nt, p)) \<in> parse_order" using below by (auto simp: parse_order_def)
    then have r: "reached below p lhs p1" using IH "1.prems"(1) l by blast
    then have "within p1" by (simp add: reached_def moved_def)
    from reached_level [OF r ahead [OF f this n] below(2,3)] below(4) show ?thesis by (simp add: reached_def)
  qed
  show ?case
  proof (cases nt)
    case (N_loop level lhs)
    show ?thesis unfolding N_loop
      by (rule loop_forward [OF "1.prems"[unfolded N_loop]]) (blast intro: ahead aheadw)+
  next
    case N_primary
    show ?thesis unfolding N_primary
      by (rule primary_forward [OF "1.prems"[unfolded N_primary]]) (blast intro: ahead aheadw)+
  next
    case N_unary
    let ?q = "p\<lparr>ps_depth := ps_depth p + 1, ps_terms := ps_terms p + 1\<rparr>"
    from trans [OF parse_nt.simps(2) [symmetric] "1.prems"(2) [unfolded N_unary]] obtain q where lim: "ps_depth p < MAX_EXPRESSION_DEPTH" "ps_terms p < MAX_EXPRESSION_TERMS"
      and n: "parse_nt f64 N_unary_inner ?q = Inr (e, q)" and q: "p' = q\<lparr>ps_depth := ps_depth q - 1\<rparr>"
      by (auto simp: result_simps not_le split: if_splits)
    have "((N_unary_inner, ?q), (nt, p)) \<in> parse_order" using lim by (auto simp: parse_order_def)
    moreover have "within ?q" using lim "1.prems"(1) by (simp add: within_def)
    ultimately have "reached N_unary_inner ?q e q" using IH n by blast
    then show ?thesis unfolding N_unary q by (auto simp: reached_def moved_def within_def)
  next
    case N_unary_inner
    have "reached N_primary (skip_ws p) e p'" if "parse_nt f64 N_primary (skip_ws p) = Inr (e, p')"
      using here [of N_primary] that N_unary_inner by simp
    then show ?thesis unfolding N_unary_inner
      by (intro unary_inner_forward [OF "1.prems"[unfolded N_unary_inner]]) (blast intro: ahead aheadw)+
  next
    case (N_args name args)
    have "reached N_or (skip_ws p) r q'" if "parse_nt f64 N_or (skip_ws p) = Inr (r, q')" for r q'
      using here [of N_or] that N_args by simp
    then show ?thesis unfolding N_args
      by (intro args_forward [OF "1.prems"[unfolded N_args]]) (blast intro: ahead aheadw)+
  qed (use level [of "level_below nt"] in \<open>auto simp: parse_nt.simps(6-10)\<close>)
qed

text \<open>So no guard that a call moved forward ever fails: the methods satisfy the equations of the code,
  which has no such guard.\<close>

lemma reached_forward: "reached nt p e p' \<Longrightarrow> consuming nt \<Longrightarrow> forward p p'"
  by (auto simp: reached_def move_defs)

lemma parse_level_eq:
  assumes "within p" and "level \<in> {N_or, N_and, N_comparison, N_additive, N_multiplicative}"
  shows "parse_nt f64 level p =
    bind_res (parse_nt f64 (level_below level) p) (\<lambda>(lhs, p1). parse_nt f64 (N_loop level lhs) p1)"
proof -
  have "parse_nt f64 level p = bind_res (parse_nt f64 (level_below level) p)
       (\<lambda>(lhs, p1). if forward p p1 then parse_nt f64 (N_loop level lhs) p1 else stuck)"
    using assms(2) by (auto simp only: parse_nt.simps(6-10) insert_iff empty_iff)
  also have "\<dots> = bind_res (parse_nt f64 (level_below level) p) (\<lambda>(lhs, p1). parse_nt f64 (N_loop level lhs) p1)"
    using reached_forward [OF parse_nt_forward [OF assms(1)]] level_below_terms [of level]
    by (intro bind_res_cong) auto
  finally show ?thesis .
qed

lemma after_ws_forward:
  assumes "within p" and "stepped (skip_ws p) q"
  shows "forward p q"
    and "parse_nt f64 nt (skip_ws q) = Inr (e, p') \<Longrightarrow> forward p p'"
proof -
  have q: "moved p q \<and> ps_pos p < ps_pos q" and w: "within q"
    using moved_stepped skip_ws_moved assms unfolding stepped_def moved_def by blast+
  then show "forward p q" by (auto simp: move_defs)
  show "forward p p'" if "parse_nt f64 nt (skip_ws q) = Inr (e, p')"
    using reached_after_ws [OF parse_nt_forward [OF skip_ws_within [OF w] that] assms(2,1)]
    by (auto simp: move_defs)
qed

lemma parse_loop_eq:
  assumes "within p"
  shows "parse_nt f64 (N_loop level lhs) p =
    (let p1 = skip_ws p in
     case eat_ops (level_ops level) p1 of
       None \<Rightarrow> Inr (lhs, p1)
     | Some (op, p2) \<Rightarrow>
         bind_res (parse_nt f64 (level_below level) (skip_ws p2))
           (\<lambda>(rhs, p3). parse_nt f64 (N_loop level (BinOp op lhs rhs)) p3))"
proof (cases "eat_ops (level_ops level) (skip_ws p)")
  case (Some a)
  then obtain op p2 where a: "eat_ops (level_ops level) (skip_ws p) = Some (op, p2)" by (cases a) auto
  note f = after_ws_forward [OF assms level_ops_stepped [OF skip_ws_within [OF assms] a]]
  have "bind_res (parse_nt f64 (level_below level) (skip_ws p2))
          (\<lambda>(rhs, p3). if forward p p3 then parse_nt f64 (N_loop level (BinOp op lhs rhs)) p3 else stuck)
      = bind_res (parse_nt f64 (level_below level) (skip_ws p2))
          (\<lambda>(rhs, p3). parse_nt f64 (N_loop level (BinOp op lhs rhs)) p3)"
    using f(2) by (intro bind_res_cong) auto
  then show ?thesis using f(1) a by (subst parse_nt.simps(1)) simp
qed (subst parse_nt.simps(1), simp)

lemma parse_unary_inner_eq:
  assumes "within p"
  shows "parse_nt f64 N_unary_inner p =
    (let p1 = skip_ws p in
     case eat_keyword ''not'' p1 of
       Some p2 \<Rightarrow> bind_res (parse_nt f64 N_unary (skip_ws p2)) (\<lambda>(e, p3). Inr (UnaryOp OpNot e, p3))
     | None \<Rightarrow>
         if peek p1 = Some (CHR ''-'')
         then bind_res (parse_nt f64 N_unary (skip_ws (advance_by 1 p1))) (\<lambda>(e, p3). Inr (UnaryOp OpNeg e, p3))
         else parse_nt f64 N_primary p1)"
  using after_ws_forward(1) [OF assms eat_keyword_stepped [OF skip_ws_within [OF assms]]]
    after_ws_forward(1) [OF assms peek_stepped [OF skip_ws_within [OF assms]]]
  by (subst parse_nt.simps(3)) (auto simp: Let_def split: option.split)

lemma primary_guards:
  assumes "within p" and "peek (skip_ws p) = Some b"
  shows "forward p (advance_by 1 (skip_ws p))"
    and "is_ident_start b \<Longrightarrow> p1 = advance_by (length (takeWhile is_ident_continue (rest (skip_ws p)))) (skip_ws p) \<Longrightarrow>
      peek (skip_ws p1) = Some c \<Longrightarrow> forward p (skip_ws (advance_by 1 (skip_ws p1)))"
proof -
  note w = skip_ws_within [OF assms(1)]
  show "forward p (advance_by 1 (skip_ws p))"
    by (rule after_ws_forward(1) [OF assms(1) peek_stepped [OF w assms(2)]])
  assume b: "is_ident_start b" and p1: "p1 = advance_by (length (takeWhile is_ident_continue (rest (skip_ws p)))) (skip_ws p)"
    and c: "peek (skip_ws p1) = Some c"
  obtain cs where cs: "rest (skip_ws p) = b # cs" using rest_peek [OF assms(2)] by blast
  have s1: "stepped (skip_ws p) p1" unfolding p1
    using b cs by (intro scan_stepped [OF w]) (auto simp: length_takeWhile_le is_ident_start_def is_ident_continue_def)
  then have w1: "within p1" by (simp add: stepped_def moved_def)
  have s2: "stepped (skip_ws p1) (advance_by 1 (skip_ws p1))" by (rule peek_stepped [OF skip_ws_within [OF w1] c])
  then have w2: "within (advance_by 1 (skip_ws p1))" by (simp add: stepped_def moved_def)
  have "stepped (skip_ws p) (skip_ws (advance_by 1 (skip_ws p1)))"
    using s1 s2 skip_ws_moved [OF w1] skip_ws_moved [OF w2] by (auto simp: stepped_def moved_def)
  then show "forward p (skip_ws (advance_by 1 (skip_ws p1)))" by (rule after_ws_forward(1) [OF assms(1)])
qed

lemma parse_args_eq:
  assumes "within p"
  shows "parse_nt f64 (N_args name args) p =
    bind_res (parse_nt f64 N_or (skip_ws p))
      (\<lambda>(arg, p1).
         let p2 = skip_ws p1 in
         case eat_symbol '','' p2 of
           Some p3 \<Rightarrow> parse_nt f64 (N_args name (args @ [arg])) p3
         | None \<Rightarrow>
             (case eat_symbol '')'' p2 of
                Some p3 \<Rightarrow> Inr (Call name (args @ [arg]), p3)
              | None \<Rightarrow> Inl (Expected '', or )'' (ps_pos p2))))"
proof -
  have "forward p p3" if "parse_nt f64 N_or (skip_ws p) = Inr (arg, p1)" "eat_symbol '','' (skip_ws p1) = Some p3"
    for arg p1 p3
  proof -
    have r: "moved p p1 \<and> ps_pos p < ps_pos p1"
      using parse_nt_forward [OF skip_ws_within [OF assms] that(1)] skip_ws_moved [OF assms]
      by (auto simp: reached_def moved_def)
    then have w: "within p1" by (simp add: moved_def)
    from eat_symbol_stepped [OF skip_ws_within [OF w] _ that(2)] skip_ws_moved [OF w] r show ?thesis
      by (auto simp: stepped_def move_defs)
  qed
  then show ?thesis by (subst parse_nt.simps(5), intro bind_res_cong) (auto simp: Let_def split: option.split)
qed

text \<open>The limits of the parser hold of what it accepts.\<close>

lemma parse_terms_le:
  assumes "parse f64 input = Inr e"
  shows "expr_terms e \<le> MAX_EXPRESSION_TERMS"
proof -
  from assms obtain p where p: "parse_nt f64 N_or (skip_ws (new_parser input)) = Inr (e, p)"
    by (auto simp: parse_def parse_or_def result_simps Let_def split: if_splits)
  have "within (new_parser input)" by (simp add: within_def new_parser_def)
  note ws = skip_ws_moved [OF this] skip_ws_within [OF this]
  from parse_nt_forward [OF ws(2) p] ws show ?thesis
    by (auto simp: reached_def moved_def within_def new_parser_def)
qed

end
