(* ===== verification/Integrity.thy ===== *)
theory Integrity
  imports Structure_Check Expr
begin

text \<open>
  The referential-integrity pass that gates a deployment (\<^verbatim>\<open>crates/engine-core/src/integrity.rs\<close>):
  duplicate and dangling variables, relevance cycles, type mismatches and undefined choices. The reason of
  an \<open>InvalidExpression\<close> is kept as the parse error itself; the code stores its printed form. The
  explicit-stack depth-first search is a total function: every turn of its loop visits a new node, takes
  an edge or pops a frame. The pass is proved to report nothing exactly when the instrument is sound.
\<close>

datatype integrity_violation =
    InvalidOperation string
  | DanglingReference node_id string string
  | IV_DuplicateVarName string "node_id list"
  | RelevanceCycle "node_id list"
  | InvalidExpression node_id string parse_error
  | TypeMismatch node_id string string string string
  | UndefinedChoice node_id string string string

definition EXPRESSION_FIELDS :: "string list" where
  "EXPRESSION_FIELDS = [''relevance'', ''constraint'', ''calculation'', ''required_expression'']"

definition NON_NUMERIC_TYPES :: "string list" where
  "NON_NUMERIC_TYPES = [''text'', ''select_one'', ''select_multiple'']"

definition SELECT_TYPES :: "string list" where
  "SELECT_TYPES = [''select_one'', ''select_multiple'']"

section \<open>References and types\<close>

definition choice_value :: "materialized_node \<Rightarrow> string option" where
  "choice_value node =
     (case Option.bind (json_get (mn_current_fields node) ''value'') as_str of
        Some v \<Rightarrow> Some v
      | None \<Rightarrow> Option.bind (json_get (mn_current_fields node) ''name'') as_str)"

definition note_operand :: "(string, string) bmap \<Rightarrow> expr \<Rightarrow> (string, string) bmap \<Rightarrow> (string, string) bmap" where
  "note_operand node_var_type operand found =
     (case operand of
        VarRef var \<Rightarrow>
          (case bt_get node_var_type var of
             Some ty \<Rightarrow> if ty \<in> set NON_NUMERIC_TYPES then bt_insert var ty found else found
           | None \<Rightarrow> found)
      | _ \<Rightarrow> found)"

fun walk_numeric :: "expr \<Rightarrow> (string, string) bmap \<Rightarrow> (string, string) bmap \<Rightarrow> (string, string) bmap" where
  "walk_numeric (BinOp op lhs rhs) types found =
     walk_numeric rhs types (walk_numeric lhs types
       (if is_arithmetic op \<or> is_ordering op
        then note_operand types rhs (note_operand types lhs found) else found))"
| "walk_numeric (UnaryOp op operand) types found = walk_numeric operand types found"
| "walk_numeric (Call name args) types found = fold (\<lambda>arg. walk_numeric arg types) args found"
| "walk_numeric (VarRef v) types found = found"
| "walk_numeric (Literal l) types found = found"
| "walk_numeric Dot types found = found"

definition numeric_var_usages :: "expr \<Rightarrow> (string, string) bmap \<Rightarrow> (string \<times> string) list" where
  "numeric_var_usages ast node_var_type = walk_numeric ast node_var_type []"

text \<open>The scanner of references; its second argument is the references found so far (the code keeps the
  same names in a set beside the vector).\<close>

function extract_loop :: "string \<Rightarrow> string list \<Rightarrow> string list" where
  "extract_loop (c # d # cs) refs =
     (if c = CHR ''$'' \<and> d = CHR ''{'' then
        (if CHR ''}'' \<in> set cs then
           (let name = trim (takeWhile (\<lambda>x. x \<noteq> CHR ''}'') cs) in
            extract_loop (drop 1 (dropWhile (\<lambda>x. x \<noteq> CHR ''}'') cs))
              (if name \<noteq> [] \<and> name \<notin> set refs then refs @ [name] else refs))
         else refs)
      else extract_loop (d # cs) refs)"
| "extract_loop [c] refs = refs"
| "extract_loop [] refs = refs"
  by pat_completeness auto
termination
proof (relation "measure (length \<circ> fst)", goal_cases)
  case (2 c d cs refs name)
  have "length (drop 1 (dropWhile (\<lambda>x. x \<noteq> CHR ''}'') cs)) \<le> length cs"
    using length_dropWhile_le [of "\<lambda>x. x \<noteq> CHR ''}''" cs] by simp
  then show ?case by simp
qed auto

definition extract_var_refs :: "string \<Rightarrow> string list" where
  "extract_var_refs e = extract_loop e []"

section \<open>Relevance cycles\<close>

datatype visit_state = InProgress | Done

record dfs =
  df_state :: "(node_id, visit_state) bmap"
  df_stack :: "node_id list"
  df_reported :: "node_id list list"
  df_violations :: "integrity_violation list"

definition canonical_cycle :: "node_id list \<Rightarrow> node_id list" where
  "canonical_cycle nodes =
     (let m = (if nodes = [] then 0 else length (takeWhile (\<lambda>x. x \<noteq> Min (set nodes)) nodes))
      in drop m nodes @ take m nodes)"

definition report_cycle :: "node_id list \<Rightarrow> dfs \<Rightarrow> dfs" where
  "report_cycle cycle d =
     (if cycle \<in> set (df_reported d) then d
      else d\<lparr>df_reported := bs_insert cycle (df_reported d),
             df_violations := df_violations d @ [RelevanceCycle cycle]\<rparr>)"

text \<open>\<open>graph_nodes\<close> bounds the search: the keys and the targets of the adjacency.\<close>

definition graph_nodes :: "(node_id, node_id list) bmap \<Rightarrow> node_id set" where
  "graph_nodes adjacency = fst ` set adjacency \<union> (\<Union>p \<in> set adjacency. set (snd p))"

definition targets_of :: "(node_id, node_id list) bmap \<Rightarrow> node_id \<Rightarrow> node_id list" where
  "targets_of adjacency n = (case bt_get adjacency n of None \<Rightarrow> [] | Some ts \<Rightarrow> ts)"

definition unvisited :: "(node_id, node_id list) bmap \<Rightarrow> dfs \<Rightarrow> node_id set" where
  "unvisited adjacency d = graph_nodes adjacency - dom (bt_get (df_state d))"

definition edges_left :: "(node_id, node_id list) bmap \<Rightarrow> (node_id \<times> nat) list \<Rightarrow> nat" where
  "edges_left adjacency frames = (\<Sum>(n, edge) \<leftarrow> frames. length (targets_of adjacency n) - edge + 1)"

lemma finite_graph_nodes [simp]: "finite (graph_nodes adjacency)"
  by (simp add: graph_nodes_def)

lemma targets_of_graph_nodes: "t \<in> set (targets_of adjacency n) \<Longrightarrow> t \<in> graph_nodes adjacency"
proof -
  assume t: "t \<in> set (targets_of adjacency n)"
  then obtain ts where "bt_get adjacency n = Some ts" "t \<in> set ts"
    by (cases "bt_get adjacency n") (auto simp: targets_of_def)
  then show ?thesis by (force simp: graph_nodes_def dest: map_of_SomeD)
qed

lemma unvisited_mark:
  "unvisited adjacency (d\<lparr>df_state := bt_insert n v (df_state d), df_stack := st\<rparr>)
     = unvisited adjacency d - {n}"
  by (auto simp: unvisited_def dom_def split: if_splits)

lemma unvisited_report [simp]: "unvisited adjacency (report_cycle c d) = unvisited adjacency d"
  by (simp add: unvisited_def report_cycle_def)

lemma unvisited_pop:
  "card (unvisited adjacency (d\<lparr>df_state := bt_insert n v (df_state d), df_stack := st\<rparr>))
     \<le> card (unvisited adjacency d)"
  by (simp add: unvisited_mark) (intro card_mono, auto simp: unvisited_def)

lemma unvisited_push:
  assumes "edge < length (targets_of adjacency current)" and "targets_of adjacency current ! edge = n"
    and "bt_get (df_state d) n = None"
  shows "card (unvisited adjacency (d\<lparr>df_state := bt_insert n v (df_state d), df_stack := st\<rparr>))
     < card (unvisited adjacency d)"
proof -
  have "n \<in> unvisited adjacency d"
    using assms targets_of_graph_nodes [of n adjacency current] by (auto simp: unvisited_def dom_def)
  moreover have "finite (unvisited adjacency d)" by (simp add: unvisited_def)
  ultimately show ?thesis by (simp only: unvisited_mark card_Diff1_less)
qed

text \<open>The loop over the frames; the first frame of the list is the top of the code's vector.\<close>

function dfs_loop :: "(node_id, node_id list) bmap \<Rightarrow> (node_id \<times> nat) list \<Rightarrow> dfs \<Rightarrow> dfs" where
  "dfs_loop adjacency [] d = d"
| "dfs_loop adjacency ((current, edge) # frames) d =
     (case nth_opt (targets_of adjacency current) edge of
        Some nxt \<Rightarrow>
          (case bt_get (df_state d) nxt of
             Some Done \<Rightarrow> dfs_loop adjacency ((current, edge + 1) # frames) d
           | Some InProgress \<Rightarrow>
               dfs_loop adjacency ((current, edge + 1) # frames)
                 (if nxt \<in> set (df_stack d)
                  then report_cycle (canonical_cycle (dropWhile (\<lambda>n. n \<noteq> nxt) (df_stack d))) d
                  else d)
           | None \<Rightarrow>
               dfs_loop adjacency ((nxt, 0) # (current, edge + 1) # frames)
                 (d\<lparr>df_state := bt_insert nxt InProgress (df_state d), df_stack := df_stack d @ [nxt]\<rparr>))
      | None \<Rightarrow>
          dfs_loop adjacency frames
            (d\<lparr>df_state := bt_insert current Done (df_state d), df_stack := butlast (df_stack d)\<rparr>))"
  by pat_completeness auto
termination
proof (relation "measures [\<lambda>(adj, frames, d). card (unvisited adj d), \<lambda>(adj, frames, d). edges_left adj frames]",
    goal_cases)
  case 1
  show ?case by simp
qed (auto simp: edges_left_def nth_opt_Some_iff unvisited_push le_neq_implies_less [OF unvisited_pop])

declare dfs_loop.simps(2) [simp del]

definition dfs_cycles :: "(node_id, node_id list) bmap \<Rightarrow> node_id \<Rightarrow> dfs \<Rightarrow> dfs" where
  "dfs_cycles adjacency node d =
     (if bt_contains (df_state d) node then d
      else dfs_loop adjacency [(node, 0)]
             (d\<lparr>df_state := bt_insert node InProgress (df_state d), df_stack := df_stack d @ [node]\<rparr>))"

definition relevance_targets :: "(string, node_id list) bmap \<Rightarrow> materialized_node \<Rightarrow> node_id list" where
  "relevance_targets by_var node =
     (case Option.bind (json_get (mn_current_fields node) ''relevance'') as_str of
        None \<Rightarrow> []
      | Some e \<Rightarrow>
          concat (map (\<lambda>var. case bt_get by_var var of None \<Rightarrow> [] | Some defs \<Rightarrow> defs) (extract_var_refs e)))"

definition relevance_adjacency ::
    "materialized_node list \<Rightarrow> (string, node_id list) bmap \<Rightarrow> (node_id, node_id list) bmap" where
  "relevance_adjacency live_nodes by_var =
     fold (\<lambda>node. bt_insert (mn_id node) (relevance_targets by_var node)) live_nodes []"

definition new_dfs :: dfs where
  "new_dfs = \<lparr>df_state = [], df_stack = [], df_reported = [], df_violations = []\<rparr>"

definition find_relevance_cycles ::
    "materialized_node list \<Rightarrow> (string, node_id list) bmap \<Rightarrow> integrity_violation list" where
  "find_relevance_cycles live_nodes by_var =
     (let adjacency = relevance_adjacency live_nodes by_var
      in df_violations (fold (dfs_cycles adjacency) (map fst adjacency) new_dfs))"

section \<open>The pass\<close>

definition undeleted :: "document_state \<Rightarrow> materialized_node list" where
  "undeleted s = filter (\<lambda>node. \<not> mn_deleted node) (map snd (ds_nodes s))"

definition push_var :: "materialized_node \<Rightarrow> (string, node_id list) bmap \<Rightarrow> (string, node_id list) bmap" where
  "push_var node by_var =
     (case nonempty_name (mn_var_name node) of
        None \<Rightarrow> by_var
      | Some var \<Rightarrow>
          bt_insert var ((case bt_get by_var var of None \<Rightarrow> [] | Some ids \<Rightarrow> ids) @ [mn_id node]) by_var)"

definition vars_index :: "materialized_node list \<Rightarrow> (string, node_id list) bmap" where
  "vars_index live_nodes = fold push_var live_nodes []"

definition expression_of :: "materialized_node \<Rightarrow> string \<Rightarrow> string option" where
  "expression_of node field = Option.bind (json_get (mn_current_fields node) field) as_str"

definition dangling_refs :: "(string, node_id list) bmap \<Rightarrow> materialized_node \<Rightarrow> string \<Rightarrow> integrity_violation list" where
  "dangling_refs by_var node field =
     (case expression_of node field of
        None \<Rightarrow> []
      | Some e \<Rightarrow>
          map (DanglingReference (mn_id node) field)
            (filter (\<lambda>var. \<not> bt_contains by_var var) (extract_var_refs e)))"

definition node_type_field :: "materialized_node \<Rightarrow> string option" where
  "node_type_field node =
     Option.bind
       (case json_get (mn_current_fields node) ''question_type'' of
          Some v \<Rightarrow> Some v
        | None \<Rightarrow> json_get (mn_current_fields node) ''type'') as_str"

definition note_type :: "materialized_node \<Rightarrow> (string, string) bmap \<Rightarrow> (string, string) bmap" where
  "note_type node types =
     (case (nonempty_name (mn_var_name node), node_type_field node) of
        (Some var, Some ty) \<Rightarrow> bt_insert var ty types
      | _ \<Rightarrow> types)"

definition var_types :: "materialized_node list \<Rightarrow> (string, string) bmap" where
  "var_types live_nodes = fold note_type live_nodes []"

definition note_var :: "materialized_node \<Rightarrow> (node_id, string) bmap \<Rightarrow> (node_id, string) bmap" where
  "note_var node vars =
     (case nonempty_name (mn_var_name node) of None \<Rightarrow> vars | Some v \<Rightarrow> bt_insert (mn_id node) v vars)"

definition note_choice ::
    "document_state \<Rightarrow> (node_id, string) bmap \<Rightarrow> materialized_node \<Rightarrow> (string, string list) bmap
      \<Rightarrow> (string, string list) bmap" where
  "note_choice s var_of_node node choices =
     (if mn_node_type node \<noteq> ''choice'' \<or> mn_id node \<in> set (ds_removed_choices s) then choices
      else
        (case Option.bind (mn_parent_id node) (bt_get var_of_node) of
           None \<Rightarrow> choices
         | Some parent_var \<Rightarrow>
             (case choice_value node of
                None \<Rightarrow> choices
              | Some v \<Rightarrow>
                  bt_insert parent_var
                    (bs_insert v (case bt_get choices parent_var of None \<Rightarrow> [] | Some cs \<Rightarrow> cs)) choices)))"

definition choices_index :: "document_state \<Rightarrow> (string, string list) bmap" where
  "choices_index s =
     fold (note_choice s (fold note_var (undeleted s) [])) (undeleted s) []"

definition choice_violations ::
    "(string, node_id list) bmap \<Rightarrow> (string, string) bmap \<Rightarrow> (string, string list) bmap
      \<Rightarrow> materialized_node \<Rightarrow> string \<Rightarrow> string \<times> string \<Rightarrow> integrity_violation list" where
  "choice_violations by_var types choices node field r =
     (let (var_name, choice) = r in
      if \<not> bt_contains by_var var_name then []
      else if \<not> (case bt_get types var_name of None \<Rightarrow> False | Some ty \<Rightarrow> ty \<in> set SELECT_TYPES) then []
      else if (case bt_get choices var_name of None \<Rightarrow> False | Some cs \<Rightarrow> choice \<in> set cs) then []
      else [UndefinedChoice (mn_id node) field var_name choice])"

definition expression_violations ::
    "(string \<Rightarrow> 64 word option) \<Rightarrow> (string, node_id list) bmap \<Rightarrow> (string, string) bmap \<Rightarrow> (string, string list) bmap
      \<Rightarrow> materialized_node \<Rightarrow> string \<Rightarrow> integrity_violation list" where
  "expression_violations f64 by_var types choices node field =
     (case expression_of node field of
        None \<Rightarrow> []
      | Some text \<Rightarrow>
          if trim_is_empty text then []
          else
            (case parse f64 text of
               Inl error \<Rightarrow> [InvalidExpression (mn_id node) field error]
             | Inr ast \<Rightarrow>
                 map (\<lambda>(var_name, actual). TypeMismatch (mn_id node) field var_name ''numeric'' actual)
                   (numeric_var_usages ast types)
                 @ concat (map (choice_violations by_var types choices node field) (selected_choice_refs ast))))"

definition validate_integrity :: "(string \<Rightarrow> 64 word option) \<Rightarrow> document_state \<Rightarrow> integrity_violation list" where
  "validate_integrity f64 s =
     (let live_nodes = undeleted s;
          by_var = vars_index live_nodes;
          types = var_types live_nodes;
          choices = choices_index s
      in map (\<lambda>(var_name, ids). IV_DuplicateVarName var_name ids)
           (filter (\<lambda>(var_name, ids). length ids > 1) by_var)
         @ concat (map (\<lambda>node. concat (map (dangling_refs by_var node) EXPRESSION_FIELDS)) live_nodes)
         @ find_relevance_cycles live_nodes by_var
         @ concat (map (\<lambda>node.
              concat (map (expression_violations f64 by_var types choices node) EXPRESSION_FIELDS)) live_nodes))"

section \<open>The search finds exactly the cyclic graphs\<close>

definition graph_rel :: "(node_id, node_id list) bmap \<Rightarrow> (node_id \<times> node_id) set" where
  "graph_rel adjacency = {(a, b). b \<in> set (targets_of adjacency a)}"

text \<open>A node is grounded when no infinite chain of dependencies starts at it.\<close>

definition grounded :: "(node_id, node_id list) bmap \<Rightarrow> node_id \<Rightarrow> bool" where
  "grounded adjacency n \<longleftrightarrow> n \<in> Wellfounded.acc ((graph_rel adjacency)\<inverse>)"

lemma groundedI: "(\<And>t. t \<in> set (targets_of adjacency n) \<Longrightarrow> grounded adjacency t) \<Longrightarrow> grounded adjacency n"
  unfolding grounded_def by (rule accI) (auto simp: graph_rel_def)

text \<open>
  The frames form a path; every edge a frame has taken leads to a grounded node or to the node of the
  frame above it (\<open>upper\<close>), as long as nothing was reported.
\<close>

fun frames_path :: "(node_id, node_id list) bmap \<Rightarrow> node_id option \<Rightarrow> (node_id \<times> nat) list \<Rightarrow> bool" where
  "frames_path adjacency upper [] = True"
| "frames_path adjacency upper ((n, edge) # frames) =
     ((case upper of None \<Rightarrow> True | Some a \<Rightarrow> a \<in> set (targets_of adjacency n))
      \<and> frames_path adjacency (Some n) frames)"

fun frames_done :: "(node_id, node_id list) bmap \<Rightarrow> node_id option \<Rightarrow> (node_id \<times> nat) list \<Rightarrow> bool" where
  "frames_done adjacency upper [] = True"
| "frames_done adjacency upper ((n, edge) # frames) =
     ((\<forall>t \<in> set (take edge (targets_of adjacency n)). grounded adjacency t \<or> upper = Some t)
      \<and> frames_done adjacency (Some n) frames)"

definition search_ok :: "(node_id, node_id list) bmap \<Rightarrow> (node_id \<times> nat) list \<Rightarrow> dfs \<Rightarrow> bool" where
  "search_ok adjacency frames d \<longleftrightarrow>
     df_stack d = rev (map fst frames)
     \<and> (\<forall>n. bt_get (df_state d) n = Some InProgress \<longleftrightarrow> n \<in> fst ` set frames)
     \<and> distinct (map fst frames)
     \<and> frames_path adjacency None frames
     \<and> (df_violations d = [] \<longrightarrow> df_reported d = []
         \<and> (\<forall>n. bt_get (df_state d) n = Some Done \<longrightarrow> grounded adjacency n)
         \<and> frames_done adjacency None frames)
     \<and> (df_violations d \<noteq> [] \<longrightarrow> \<not> acyclic (graph_rel adjacency))"

lemma frames_path_reach:
  "frames_path adjacency upper frames \<Longrightarrow> n \<in> fst ` set frames \<Longrightarrow>
     upper = Some a \<Longrightarrow> (n, a) \<in> (graph_rel adjacency)\<^sup>+"
proof (induction frames arbitrary: upper a)
  case (Cons f frames)
  obtain m e where f: "f = (m, e)" by (cases f)
  with Cons.prems have step: "(m, a) \<in> graph_rel adjacency" by (auto simp: graph_rel_def)
  show ?case
  proof (cases "n = m")
    case True
    with step show ?thesis by auto
  next
    case False
    with Cons f have "(n, m) \<in> (graph_rel adjacency)\<^sup>+" by auto
    from this step show ?thesis by (rule trancl_into_trancl)
  qed
qed simp

lemma take_edge: "edge < length ts \<Longrightarrow> set (take (edge + 1) ts) = insert (ts ! edge) (set (take edge ts))"
  by (simp add: take_Suc_conv_app_nth)

lemma search_skip:
  assumes "search_ok adjacency ((c, e) # fs) d" and "nth_opt (targets_of adjacency c) e = Some nxt"
    and "df_violations d = [] \<Longrightarrow> grounded adjacency nxt"
  shows "search_ok adjacency ((c, e + 1) # fs) d"
  using assms take_edge [of e "targets_of adjacency c"] by (auto simp: search_ok_def nth_opt_Some_iff)

lemma search_report:
  assumes ok: "search_ok adjacency ((c, e) # fs) d" and n: "nth_opt (targets_of adjacency c) e = Some nxt"
    and st: "bt_get (df_state d) nxt = Some InProgress"
  shows "search_ok adjacency ((c, e + 1) # fs) (report_cycle cyc d) \<and> nxt \<in> set (df_stack d)"
proof -
  have mem: "nxt \<in> fst ` set ((c, e) # fs)" using ok st by (auto simp: search_ok_def)
  have edge: "(c, nxt) \<in> graph_rel adjacency"
    using n by (auto simp: graph_rel_def nth_opt_Some_iff)
  have "(nxt, c) \<in> (graph_rel adjacency)\<^sup>*"
  proof (cases "nxt = c")
    case False
    with mem have "nxt \<in> fst ` set fs" by auto
    with ok frames_path_reach [of adjacency "Some c" fs nxt c] show ?thesis
      by (simp add: search_ok_def trancl_into_rtrancl)
  qed simp
  with edge have "\<not> acyclic (graph_rel adjacency)" by (meson acyclic_def rtrancl_into_trancl2)
  moreover have "df_violations (report_cycle cyc d) \<noteq> []" using ok by (auto simp: report_cycle_def search_ok_def)
  ultimately show ?thesis using ok mem by (auto simp: search_ok_def report_cycle_def)
qed

lemma search_push:
  assumes ok: "search_ok adjacency ((c, e) # fs) d" and n: "nth_opt (targets_of adjacency c) e = Some nxt"
    and st: "bt_get (df_state d) nxt = None"
  shows "search_ok adjacency ((nxt, 0) # (c, e + 1) # fs)
    (d\<lparr>df_state := bt_insert nxt InProgress (df_state d), df_stack := df_stack d @ [nxt]\<rparr>)"
proof -
  have "nxt \<notin> fst ` set ((c, e) # fs)" using ok st unfolding search_ok_def by (metis option.distinct(1))
  then show ?thesis
    using ok n take_edge [of e "targets_of adjacency c"]
    by (auto simp: search_ok_def nth_opt_Some_iff split: if_splits)
qed

lemma frames_done_grounded:
  "frames_done adjacency (Some a) fs \<Longrightarrow> grounded adjacency a \<Longrightarrow> frames_done adjacency None fs"
  by (cases fs) auto

lemma frames_path_none: "frames_path adjacency a fs \<Longrightarrow> frames_path adjacency None fs"
  by (cases fs) auto

lemma search_pop:
  assumes ok: "search_ok adjacency ((c, e) # fs) d" and n: "nth_opt (targets_of adjacency c) e = None"
  shows "search_ok adjacency fs
    (d\<lparr>df_state := bt_insert c Done (df_state d), df_stack := butlast (df_stack d)\<rparr>)"
proof -
  have "take e (targets_of adjacency c) = targets_of adjacency c"
    using n by (auto simp: nth_opt_def split: if_splits)
  note all = this
  have g: "grounded adjacency c" if "df_violations d = []"
    by (rule groundedI) (use ok that all in \<open>simp add: search_ok_def\<close>)
  have nc: "c \<notin> fst ` set fs" using ok by (simp add: search_ok_def)
  have ip: "bt_get (df_state d) n = Some InProgress \<longleftrightarrow> n = c \<or> n \<in> fst ` set fs" for n
    using ok by (simp add: search_ok_def)
  have "frames_done adjacency None fs" if "df_violations d = []"
    using ok that g frames_done_grounded [of adjacency c fs] by (simp add: search_ok_def)
  moreover have "frames_path adjacency None fs"
    using ok frames_path_none [of adjacency "Some c" fs] by (simp add: search_ok_def)
  moreover have "bt_get (bt_insert c Done (df_state d)) n = Some InProgress \<longleftrightarrow> n \<in> fst ` set fs" for n
    using nc ip [of n] by auto
  ultimately show ?thesis using ok g by (simp add: search_ok_def)
qed

text \<open>The turns of the loop as a step relation; the loop runs it to the end.\<close>

inductive dfs_step ::
    "(node_id, node_id list) bmap \<Rightarrow> (node_id \<times> nat) list \<times> dfs \<Rightarrow> (node_id \<times> nat) list \<times> dfs \<Rightarrow> bool"
  for adjacency where
  skip: "nth_opt (targets_of adjacency c) e = Some nxt \<Longrightarrow> bt_get (df_state d) nxt = Some Done \<Longrightarrow>
    dfs_step adjacency ((c, e) # fs, d) ((c, e + 1) # fs, d)"
| report: "nth_opt (targets_of adjacency c) e = Some nxt \<Longrightarrow> bt_get (df_state d) nxt = Some InProgress \<Longrightarrow>
    dfs_step adjacency ((c, e) # fs, d) ((c, e + 1) # fs,
      if nxt \<in> set (df_stack d)
      then report_cycle (canonical_cycle (dropWhile (\<lambda>n. n \<noteq> nxt) (df_stack d))) d else d)"
| push: "nth_opt (targets_of adjacency c) e = Some nxt \<Longrightarrow> bt_get (df_state d) nxt = None \<Longrightarrow>
    dfs_step adjacency ((c, e) # fs, d) ((nxt, 0) # (c, e + 1) # fs,
      d\<lparr>df_state := bt_insert nxt InProgress (df_state d), df_stack := df_stack d @ [nxt]\<rparr>)"
| pop: "nth_opt (targets_of adjacency c) e = None \<Longrightarrow>
    dfs_step adjacency ((c, e) # fs, d)
      (fs, d\<lparr>df_state := bt_insert c Done (df_state d), df_stack := butlast (df_stack d)\<rparr>)"

lemma dfs_loop_steps: "(dfs_step adjacency)\<^sup>*\<^sup>* (frames, d) ([], dfs_loop adjacency frames d)"
proof (induction adjacency frames d rule: dfs_loop.induct)
  case (2 adjacency c e fs d)
  note eq = dfs_loop.simps(2) [of adjacency c e fs d]
  note into = converse_rtranclp_into_rtranclp
  show ?case
  proof (cases "nth_opt (targets_of adjacency c) e")
    case None
    show ?thesis by (simp only: eq None option.case) (rule into [OF pop [OF None] "2.IH"(1) [OF None]])
  next
    case (Some nxt)
    consider (fresh) "bt_get (df_state d) nxt = None" | (active) "bt_get (df_state d) nxt = Some InProgress"
      | (closed) "bt_get (df_state d) nxt = Some Done"
      using visit_state.exhaust by (metis option.exhaust)
    then show ?thesis
    proof cases
      case fresh
      show ?thesis by (simp only: eq Some fresh option.case) (rule into [OF push [OF Some fresh] "2.IH"(2) [OF Some fresh]])
    next
      case active
      show ?thesis by (simp only: eq Some active option.case visit_state.case)
        (rule into [OF report [OF Some active] "2.IH"(3) [OF Some active refl]])
    next
      case closed
      show ?thesis by (simp only: eq Some closed option.case visit_state.case)
        (rule into [OF skip [OF Some closed] "2.IH"(4) [OF Some closed refl]])
    qed
  qed
qed simp

lemma dfs_step_ok: "dfs_step adjacency x y \<Longrightarrow> search_ok adjacency (fst x) (snd x) \<Longrightarrow> search_ok adjacency (fst y) (snd y)"
proof (induction rule: dfs_step.induct)
  case (skip c e nxt d fs)
  from skip(3) have ok: "search_ok adjacency ((c, e) # fs) d" by simp
  then have "df_violations d = [] \<Longrightarrow> grounded adjacency nxt" using skip(2) by (simp add: search_ok_def)
  from search_skip [OF ok skip(1) this] show ?case by simp
next
  case (report c e nxt d fs)
  from search_report [OF report(3) [simplified] report(1,2)] show ?case by simp
next
  case (push c e nxt d fs)
  from search_push [OF push(3) [simplified] push(1,2)] show ?case by simp
next
  case (pop c e d fs)
  from search_pop [OF pop(2) [simplified] pop(1)] show ?case by simp
qed

lemma dfs_loop_ok:
  assumes "search_ok adjacency frames d" shows "search_ok adjacency [] (dfs_loop adjacency frames d)"
proof -
  have "search_ok adjacency (fst y) (snd y)" if "(dfs_step adjacency)\<^sup>*\<^sup>* (frames, d) y" for y
    using that by (induction rule: rtranclp_induct) (auto simp: assms intro: dfs_step_ok)
  from this [OF dfs_loop_steps] show ?thesis by simp
qed

lemma dfs_loop_contains:
  assumes "bt_contains (df_state d) n" shows "bt_contains (df_state (dfs_loop adjacency frames d)) n"
proof -
  have step: "bt_contains (df_state (snd y)) n" if "dfs_step adjacency x y" "bt_contains (df_state (snd x)) n" for x y
    using that by (induction rule: dfs_step.induct) (auto simp: bt_contains_def report_cycle_def)
  have "bt_contains (df_state (snd y)) n" if "(dfs_step adjacency)\<^sup>*\<^sup>* (frames, d) y" for y
    using that by (induction rule: rtranclp_induct) (auto simp: assms intro: step)
  from this [OF dfs_loop_steps] show ?thesis by simp
qed

lemma dfs_cycles_ok:
  assumes "search_ok adjacency [] d"
  shows "search_ok adjacency [] (dfs_cycles adjacency n d) \<and> bt_contains (df_state (dfs_cycles adjacency n d)) n"
proof (cases "bt_contains (df_state d) n")
  case True
  then show ?thesis using assms by (simp add: dfs_cycles_def)
next
  case False
  let ?d = "d\<lparr>df_state := bt_insert n InProgress (df_state d), df_stack := df_stack d @ [n]\<rparr>"
  have "search_ok adjacency [(n, 0)] ?d"
    using assms False by (auto simp: search_ok_def bt_contains_def)
  then have "search_ok adjacency [] (dfs_loop adjacency [(n, 0)] ?d)" by (rule dfs_loop_ok)
  moreover have "bt_contains (df_state (dfs_loop adjacency [(n, 0)] ?d)) n"
    by (rule dfs_loop_contains) (simp add: bt_contains_def)
  ultimately show ?thesis using False by (simp add: dfs_cycles_def)
qed

lemma fold_dfs_ok:
  assumes "search_ok adjacency [] d"
  shows "search_ok adjacency [] (fold (dfs_cycles adjacency) ns d)
    \<and> (\<forall>n \<in> set ns \<union> dom (bt_get (df_state d)). bt_contains (df_state (fold (dfs_cycles adjacency) ns d)) n)"
  using assms
proof (induction ns arbitrary: d)
  case (Cons n ns)
  note step = dfs_cycles_ok [OF Cons.prems, of n]
  have keep: "bt_contains (df_state (dfs_cycles adjacency n d)) m" if "bt_contains (df_state d) m" for m
    unfolding dfs_cycles_def
    using that dfs_loop_contains [of "d\<lparr>df_state := bt_insert n InProgress (df_state d), df_stack := df_stack d @ [n]\<rparr>" m]
    by (auto simp: bt_contains_def)
  show ?case using Cons.IH [OF conjunct1 [OF step]] step keep by (auto simp: bt_contains_def)
qed (auto simp: bt_contains_def)

lemma cycles_empty_iff:
  "df_violations (fold (dfs_cycles adjacency) (map fst adjacency) new_dfs) = [] \<longleftrightarrow> acyclic (graph_rel adjacency)"
proof -
  let ?d = "fold (dfs_cycles adjacency) (map fst adjacency) new_dfs"
  have ok: "search_ok adjacency [] ?d" and all: "\<And>n. n \<in> fst ` set adjacency \<Longrightarrow> bt_contains (df_state ?d) n"
    using fold_dfs_ok [of adjacency new_dfs "map fst adjacency"] by (auto simp: search_ok_def new_dfs_def)
  show ?thesis
  proof
    assume e: "df_violations ?d = []"
    have "grounded adjacency n" for n
    proof (cases "n \<in> fst ` set adjacency")
      case True
      from all [OF this] obtain v where v: "bt_get (df_state ?d) n = Some v" by (auto simp: bt_contains_def)
      with ok have "v \<noteq> InProgress" by (auto simp: search_ok_def)
      with v have "bt_get (df_state ?d) n = Some Done" by (cases v) auto
      then show ?thesis using ok e by (simp add: search_ok_def)
    next
      case False
      then have "targets_of adjacency n = []" by (simp add: targets_of_def map_of_eq_None_iff [THEN iffD2])
      then show ?thesis by (auto intro: groundedI)
    qed
    then have "wf ((graph_rel adjacency)\<inverse>)" by (intro acc_wfI) (auto simp: grounded_def)
    then show "acyclic (graph_rel adjacency)" using wf_acyclic by (auto simp: acyclic_converse)
  next
    assume "acyclic (graph_rel adjacency)"
    then show "df_violations ?d = []" using ok by (auto simp: search_ok_def)
  qed
qed

section \<open>What a clean pass means\<close>

definition defines_var :: "materialized_node \<Rightarrow> string \<Rightarrow> bool" where
  "defines_var node var \<longleftrightarrow> nonempty_name (mn_var_name node) = Some var"

text \<open>A reading of references, \<open>refs\<close>, gives the variables that a text refers to.\<close>

definition relevance_rel :: "(string \<Rightarrow> string set) \<Rightarrow> document_state \<Rightarrow> (node_id \<times> node_id) set" where
  "relevance_rel refs s =
     {(a, b). \<exists>node \<in> set (undeleted s). \<exists>target \<in> set (undeleted s). \<exists>e var.
        a = mn_id node \<and> b = mn_id target \<and> expression_of node ''relevance'' = Some e
        \<and> var \<in> refs e \<and> defines_var target var}"

fun subexprs :: "expr \<Rightarrow> expr set" where
  "subexprs (BinOp op a b) = insert (BinOp op a b) (subexprs a \<union> subexprs b)"
| "subexprs (UnaryOp op a) = insert (UnaryOp op a) (subexprs a)"
| "subexprs (Call name args) = insert (Call name args) (\<Union>a \<in> set args. subexprs a)"
| "subexprs e = {e}"

definition numeric_on :: "expr \<Rightarrow> string \<Rightarrow> bool" where
  "numeric_on ast var \<longleftrightarrow>
     (\<exists>op a b. BinOp op a b \<in> subexprs ast \<and> (is_arithmetic op \<or> is_ordering op)
        \<and> (a = VarRef var \<or> b = VarRef var))"

definition well_typed :: "document_state \<Rightarrow> expr \<Rightarrow> bool" where
  "well_typed s ast \<longleftrightarrow>
     (\<forall>node \<in> set (undeleted s). \<forall>var ty. defines_var node var \<longrightarrow> node_type_field node = Some ty \<longrightarrow>
        ty \<in> set NON_NUMERIC_TYPES \<longrightarrow> \<not> numeric_on ast var)"

definition live_choice :: "document_state \<Rightarrow> node_id \<Rightarrow> string \<Rightarrow> bool" where
  "live_choice s q c \<longleftrightarrow>
     (\<exists>node \<in> set (undeleted s). mn_node_type node = ''choice'' \<and> mn_id node \<notin> set (ds_removed_choices s)
        \<and> mn_parent_id node = Some q \<and> choice_value node = Some c)"

definition choices_defined :: "document_state \<Rightarrow> expr \<Rightarrow> bool" where
  "choices_defined s ast \<longleftrightarrow>
     (\<forall>(var, c) \<in> set (selected_choice_refs ast). \<forall>node \<in> set (undeleted s). \<forall>ty.
        defines_var node var \<longrightarrow> node_type_field node = Some ty \<longrightarrow> ty \<in> set SELECT_TYPES \<longrightarrow>
        live_choice s (mn_id node) c)"

definition integrity_sound :: "(string \<Rightarrow> string set) \<Rightarrow> (string \<Rightarrow> 64 word option) \<Rightarrow> document_state \<Rightarrow> bool" where
  "integrity_sound refs f64 s \<longleftrightarrow>
     (\<forall>node \<in> set (undeleted s). \<forall>node' \<in> set (undeleted s). \<forall>var.
        defines_var node var \<longrightarrow> defines_var node' var \<longrightarrow> node = node')
     \<and> (\<forall>node \<in> set (undeleted s). \<forall>field \<in> set EXPRESSION_FIELDS. \<forall>e. expression_of node field = Some e \<longrightarrow>
          (\<forall>var \<in> refs e. \<exists>target \<in> set (undeleted s). defines_var target var))
     \<and> acyclic (relevance_rel refs s)
     \<and> (\<forall>node \<in> set (undeleted s). \<forall>field \<in> set EXPRESSION_FIELDS. \<forall>text. expression_of node field = Some text \<longrightarrow>
          \<not> trim_is_empty text \<longrightarrow>
          (\<exists>ast. parse f64 text = Inr ast \<and> well_typed s ast \<and> choices_defined s ast))"

subsection \<open>The indexes\<close>

lemma bt_get_push_var:
  "bt_get (push_var node m) var =
     (if defines_var node var then Some ((case bt_get m var of None \<Rightarrow> [] | Some ids \<Rightarrow> ids) @ [mn_id node])
      else bt_get m var)"
  by (auto simp: push_var_def defines_var_def split: option.splits)

lemma bt_ok_vars_index: "bt_ok (vars_index ns)"
proof -
  have "bt_ok m \<Longrightarrow> bt_ok (fold push_var ns m)" for m
    by (induction ns arbitrary: m) (auto simp: push_var_def split: option.splits)
  then show ?thesis by (simp add: vars_index_def)
qed

lemma vars_index_get:
  "bt_get (vars_index ns) var =
     (let ids = map mn_id (filter (\<lambda>n. defines_var n var) ns) in if ids = [] then None else Some ids)"
proof -
  have "bt_get (fold push_var ns m) var =
      (let ids = map mn_id (filter (\<lambda>n. defines_var n var) ns) in
       if ids = [] then bt_get m var
       else Some ((case bt_get m var of None \<Rightarrow> [] | Some xs \<Rightarrow> xs) @ ids))" for m
    by (induction ns arbitrary: m) (auto simp: bt_get_push_var Let_def split: option.split)
  from this [of "[]"] show ?thesis by (simp add: vars_index_def Let_def)
qed

lemma vars_index_contains: "bt_contains (vars_index ns) var \<longleftrightarrow> (\<exists>n \<in> set ns. defines_var n var)"
  by (auto simp: bt_contains_def vars_index_get Let_def filter_empty_conv)

lemma duplicates_empty_iff:
  assumes "distinct ns"
  shows "filter (\<lambda>(var, ids). length ids > 1) (vars_index ns) = [] \<longleftrightarrow>
    (\<forall>node \<in> set ns. \<forall>node' \<in> set ns. \<forall>var. defines_var node var \<longrightarrow> defines_var node' var \<longrightarrow> node = node')"
proof -
  have mem: "(var, ids) \<in> set (vars_index ns) \<and> length ids > 1 \<longleftrightarrow>
      ids = map mn_id (filter (\<lambda>n. defines_var n var) ns) \<and> length ids > 1" for var ids
    using bt_ok_vars_index [of ns]
    by (auto simp: bt_get_iff_mem [symmetric] vars_index_get Let_def split: if_splits)
  have "filter (\<lambda>(var, ids). length ids > 1) (vars_index ns) = [] \<longleftrightarrow>
      (\<forall>var ids. \<not> ((var, ids) \<in> set (vars_index ns) \<and> length ids > 1))"
    by (auto simp: filter_empty_conv)
  also have "\<dots> \<longleftrightarrow> (\<forall>var. length (filter (\<lambda>n. defines_var n var) ns) \<le> 1)"
    unfolding mem by (auto simp: not_less)
  finally show ?thesis unfolding filter_at_most_one_iff [OF assms] by blast
qed

lemma note_type_get:
  "bt_get (note_type node m) var =
     (if defines_var node var \<and> node_type_field node \<noteq> None then node_type_field node else bt_get m var)"
  by (auto simp: note_type_def defines_var_def split: option.splits)

lemma var_types_get:
  assumes "\<And>n n'. n \<in> set ns \<Longrightarrow> n' \<in> set ns \<Longrightarrow> defines_var n var \<Longrightarrow> defines_var n' var \<Longrightarrow> n = n'"
  shows "bt_get (var_types ns) var = Some ty \<longleftrightarrow>
    (\<exists>n \<in> set ns. defines_var n var \<and> node_type_field n = Some ty)"
proof
  have "bt_get (fold note_type ms m) var = Some ty \<Longrightarrow>
      (\<exists>n \<in> set ms. defines_var n var \<and> node_type_field n = Some ty) \<or> bt_get m var = Some ty" for ms m
    by (induction ms arbitrary: m) (force simp: note_type_get split: if_splits)+
  from this [of ns "[]"] show "bt_get (var_types ns) var = Some ty \<Longrightarrow>
      \<exists>n \<in> set ns. defines_var n var \<and> node_type_field n = Some ty"
    by (simp add: var_types_def)
next
  assume "\<exists>n \<in> set ns. defines_var n var \<and> node_type_field n = Some ty"
  then obtain n where n: "n \<in> set ns" "defines_var n var" "node_type_field n = Some ty" by blast
  have keep: "bt_get m var = Some ty \<Longrightarrow> set ms \<subseteq> set ns \<Longrightarrow> bt_get (fold note_type ms m) var = Some ty" for ms m
  proof (induction ms arbitrary: m)
    case (Cons a ms)
    then have "bt_get (note_type a m) var = Some ty"
      using assms [OF n(1) _ n(2), of a] n(3) by (auto simp: note_type_get)
    with Cons show ?case by simp
  qed simp
  from n(1) obtain xs ys where ns: "ns = xs @ n # ys" by (meson split_list)
  have "bt_get (note_type n (fold note_type xs [])) var = Some ty" using n by (simp add: note_type_get)
  then show "bt_get (var_types ns) var = Some ty"
    using keep [of "note_type n (fold note_type xs [])" ys] ns by (auto simp: var_types_def)
qed

subsection \<open>Types and choices\<close>

lemma note_operand_get:
  "bt_get (note_operand types e m) v =
     (if e = VarRef v \<and> (\<exists>ty \<in> set NON_NUMERIC_TYPES. bt_get types v = Some ty) then bt_get types v
      else bt_get m v)"
  by (auto simp: note_operand_def split: expr.splits option.splits)

lemma numeric_on_simps:
  "numeric_on (BinOp op a b) v \<longleftrightarrow>
     (is_arithmetic op \<or> is_ordering op) \<and> (a = VarRef v \<or> b = VarRef v) \<or> numeric_on a v \<or> numeric_on b v"
  "numeric_on (UnaryOp u a) v \<longleftrightarrow> numeric_on a v"
  "numeric_on (Call name args) v \<longleftrightarrow> (\<exists>a \<in> set args. numeric_on a v)"
  "\<not> numeric_on (VarRef x) v" "\<not> numeric_on (Literal l) v" "\<not> numeric_on Dot v"
  unfolding numeric_on_def subexprs.simps by blast+

definition mistyped :: "(string, string) bmap \<Rightarrow> string \<Rightarrow> bool" where
  "mistyped types v \<longleftrightarrow> (\<exists>ty \<in> set NON_NUMERIC_TYPES. bt_get types v = Some ty)"

lemma walk_numeric_contains:
  "bt_contains (walk_numeric e types m) v \<longleftrightarrow> bt_contains m v \<or> numeric_on e v \<and> mistyped types v"
proof (induction e arbitrary: m)
  case (BinOp op a b)
  then show ?case
    by (auto simp: numeric_on_simps bt_contains_def note_operand_get mistyped_def split: if_splits)
next
  case (Call name args)
  have "bt_contains (fold (\<lambda>arg. walk_numeric arg types) as m) v \<longleftrightarrow>
      bt_contains m v \<or> (\<exists>a \<in> set as. numeric_on a v) \<and> mistyped types v" if "set as \<subseteq> set args" for as m
    using that Call.IH by (induction as arbitrary: m) auto
  then show ?case by (simp add: numeric_on_simps)
qed (auto simp: numeric_on_simps)

lemma numeric_var_usages_empty_iff:
  "numeric_var_usages ast types = [] \<longleftrightarrow> (\<forall>v. numeric_on ast v \<longrightarrow> \<not> mistyped types v)"
proof -
  have "m = [] \<longleftrightarrow> (\<forall>v. \<not> bt_contains m v)" for m :: "(string, string) bmap"
    by (cases m) (auto simp: bt_contains_def)
  then show ?thesis by (simp only: numeric_var_usages_def walk_numeric_contains) (auto simp: bt_contains_def)
qed

lemma note_var_get:
  assumes "\<And>n n'. n \<in> set ns \<Longrightarrow> n' \<in> set ns \<Longrightarrow> mn_id n = mn_id n' \<Longrightarrow> n = n'"
  shows "bt_get (fold note_var ns []) q = Some v \<longleftrightarrow> (\<exists>n \<in> set ns. mn_id n = q \<and> defines_var n v)"
proof -
  have one: "bt_get (note_var n m) q = (if mn_id n = q \<and> nonempty_name (mn_var_name n) \<noteq> None
      then nonempty_name (mn_var_name n) else bt_get m q)" for n m
    by (auto simp: note_var_def simp del: nonempty_name_Some_iff nonempty_name_None_iff split: option.splits)
  have "bt_get (fold note_var ms m) q = Some v \<longleftrightarrow> (\<exists>n \<in> set ms. mn_id n = q \<and> defines_var n v)
      \<or> (\<forall>n \<in> set ms. mn_id n = q \<longrightarrow> nonempty_name (mn_var_name n) = None) \<and> bt_get m q = Some v"
    if "\<And>n n'. n \<in> set ms \<Longrightarrow> n' \<in> set ms \<Longrightarrow> mn_id n = mn_id n' \<Longrightarrow> n = n'" for ms m
    using that
  proof (induction ms arbitrary: m)
    case (Cons a ms)
    have "bt_get (fold note_var ms (note_var a m)) q = Some v \<longleftrightarrow> (\<exists>n \<in> set ms. mn_id n = q \<and> defines_var n v)
      \<or> (\<forall>n \<in> set ms. mn_id n = q \<longrightarrow> nonempty_name (mn_var_name n) = None) \<and> bt_get (note_var a m) q = Some v"
      using Cons by simp
    moreover have "n \<in> set ms \<Longrightarrow> mn_id n = mn_id a \<Longrightarrow> n = a" for n using Cons.prems [of n a] by simp
    ultimately show ?case by (auto simp: one defines_var_def)
  qed simp
  from this [of ns "[]"] assms show ?thesis by simp
qed

definition choice_of :: "document_state \<Rightarrow> (node_id, string) bmap \<Rightarrow> string \<Rightarrow> string \<Rightarrow> materialized_node \<Rightarrow> bool" where
  "choice_of s vars v c node \<longleftrightarrow> mn_node_type node = ''choice'' \<and> mn_id node \<notin> set (ds_removed_choices s)
     \<and> Option.bind (mn_parent_id node) (bt_get vars) = Some v \<and> choice_value node = Some c"

definition choice_set :: "(string, string list) bmap \<Rightarrow> string \<Rightarrow> string set" where
  "choice_set choices v = (case bt_get choices v of None \<Rightarrow> {} | Some cs \<Rightarrow> set cs)"

lemma note_choice_set:
  "choice_set (note_choice s vars node m) v = choice_set m v \<union> {c. choice_of s vars v c node}"
  by (auto simp: choice_set_def note_choice_def choice_of_def bmap_simps split: option.splits if_splits)

lemma fold_choice_set:
  "choice_set (fold (note_choice s vars) ns m) v = choice_set m v \<union> {c. \<exists>node \<in> set ns. choice_of s vars v c node}"
  by (induction ns arbitrary: m) (auto simp: note_choice_set)

lemma choices_index_iff:
  assumes ids: "\<And>n n'. n \<in> set (undeleted s) \<Longrightarrow> n' \<in> set (undeleted s) \<Longrightarrow> mn_id n = mn_id n' \<Longrightarrow> n = n'"
    and vars: "\<And>n n'. n \<in> set (undeleted s) \<Longrightarrow> n' \<in> set (undeleted s) \<Longrightarrow> defines_var n v \<Longrightarrow> defines_var n' v \<Longrightarrow> n = n'"
    and node: "node \<in> set (undeleted s)" "defines_var node v"
  shows "c \<in> choice_set (choices_index s) v \<longleftrightarrow> live_choice s (mn_id node) c"
proof -
  let ?vars = "fold note_var (undeleted s) []"
  have get: "bt_get ?vars q = Some v \<longleftrightarrow> q = mn_id node" for q
  proof -
    have "bt_get ?vars q = Some v \<longleftrightarrow> (\<exists>n \<in> set (undeleted s). mn_id n = q \<and> defines_var n v)"
      by (rule note_var_get) (rule ids)
    also have "\<dots> \<longleftrightarrow> q = mn_id node" using vars [OF _ node(1) _ node(2)] node by blast
    finally show ?thesis .
  qed
  have parent: "Option.bind p (bt_get ?vars) = Some v \<longleftrightarrow> p = Some (mn_id node)" for p
    using get by (cases p) auto
  show ?thesis
    unfolding choices_index_def fold_choice_set choice_of_def parent live_choice_def
    by (auto simp: choice_set_def)
qed

lemma option_eqI: "(\<And>a. x = Some a \<longleftrightarrow> y = Some a) \<Longrightarrow> x = y"
  by (cases x; cases y) auto

subsection \<open>Soundness and completeness of the pass\<close>

lemma undeleted_ids:
  assumes "bt_ok (ds_nodes s)" and "nodes_typed s"
    and "n \<in> set (undeleted s)" and "n' \<in> set (undeleted s)" and "mn_id n = mn_id n'"
  shows "n = n'"
proof -
  have "bt_get (ds_nodes s) (mn_id m) = Some m" if m: "m \<in> set (undeleted s)" for m
  proof -
    from m obtain k where "(k, m) \<in> set (ds_nodes s)" by (auto simp: undeleted_def)
    then have "bt_get (ds_nodes s) k = Some m" using assms(1) by (simp add: bt_get_iff_mem)
    moreover then have "k = mn_id m" using assms(2) by (auto simp: nodes_typed_def)
    ultimately show ?thesis by simp
  qed
  then show ?thesis using assms(3-5) by (metis option.inject)
qed

lemma undeleted_distinct: "bt_ok (ds_nodes s) \<Longrightarrow> nodes_typed s \<Longrightarrow> distinct (undeleted s)"
proof -
  assume ok: "bt_ok (ds_nodes s)" "nodes_typed s"
  have ids: "map (mn_id \<circ> snd) (ds_nodes s) = map fst (ds_nodes s)"
  proof (rule map_cong [OF refl])
    fix p assume "p \<in> set (ds_nodes s)"
    then have "bt_get (ds_nodes s) (fst p) = Some (snd p)" using ok(1) by (metis bt_get_iff_mem prod.collapse)
    then show "(mn_id \<circ> snd) p = fst p" using ok(2) by (auto simp: nodes_typed_def)
  qed
  have "distinct (map mn_id (map snd (ds_nodes s)))" using bt_ok_distinct [OF ok(1)] by (simp only: map_map ids)
  then show ?thesis unfolding undeleted_def distinct_map by (intro distinct_filter) (auto simp: distinct_map)
qed

lemma vars_index_case:
  "(case bt_get (vars_index ns) var of None \<Rightarrow> [] | Some defs \<Rightarrow> defs) = map mn_id (filter (\<lambda>n. defines_var n var) ns)"
  by (auto simp: vars_index_get Let_def filter_empty_conv)

lemma relevance_targets_mem:
  "t \<in> set (relevance_targets (vars_index ns) node) \<longleftrightarrow>
     (\<exists>e var. expression_of node ''relevance'' = Some e \<and> var \<in> set (extract_var_refs e)
        \<and> (\<exists>target \<in> set ns. defines_var target var \<and> t = mn_id target))"
proof (cases "expression_of node ''relevance''")
  case None
  then show ?thesis by (simp add: relevance_targets_def expression_of_def)
next
  case (Some e)
  then have "relevance_targets (vars_index ns) node =
      concat (map (\<lambda>var. map mn_id (filter (\<lambda>n. defines_var n var) ns)) (extract_var_refs e))"
    by (simp add: relevance_targets_def expression_of_def vars_index_case)
  then show ?thesis using Some by auto
qed

lemma targets_of_relevance:
  assumes ids: "\<And>n n'. n \<in> set ns \<Longrightarrow> n' \<in> set ns \<Longrightarrow> mn_id n = mn_id n' \<Longrightarrow> n = n'"
  shows "b \<in> set (targets_of (relevance_adjacency ns by_var) a) \<longleftrightarrow>
    (\<exists>node \<in> set ns. a = mn_id node \<and> b \<in> set (relevance_targets by_var node))"
proof -
  let ?ins = "\<lambda>node. bt_insert (mn_id node) (relevance_targets by_var node)"
  have get: "bt_get (fold ?ins ms []) a =
      (case find (\<lambda>n. mn_id n = a) (rev ms) of Some n \<Rightarrow> Some (relevance_targets by_var n) | None \<Rightarrow> None)" for ms
    by (induction ms rule: rev_induct) auto
  show ?thesis
  proof (cases "find (\<lambda>n. mn_id n = a) (rev ns)")
    case None
    then have "targets_of (relevance_adjacency ns by_var) a = []"
      using get [of ns] by (simp add: targets_of_def relevance_adjacency_def)
    moreover have "\<not> (\<exists>node \<in> set ns. mn_id node = a)" using None by (auto simp: find_None_iff)
    ultimately show ?thesis by auto
  next
    case (Some m)
    then have m: "m \<in> set ns" "mn_id m = a"
      by (auto simp: find_Some_iff) (metis nth_mem set_rev length_rev)
    have t: "targets_of (relevance_adjacency ns by_var) a = relevance_targets by_var m"
      using get [of ns] Some by (simp add: targets_of_def relevance_adjacency_def)
    have one: "node = m" if "node \<in> set ns" "a = mn_id node" for node
      using ids [OF that(1) m(1)] that m by simp
    show ?thesis unfolding t using m one by blast
  qed
qed

lemma graph_rel_relevance:
  assumes "bt_ok (ds_nodes s)" and "nodes_typed s"
  shows "graph_rel (relevance_adjacency (undeleted s) (vars_index (undeleted s))) = relevance_rel (\<lambda>e. set (extract_var_refs e)) s"
proof -
  have "(a, b) \<in> graph_rel (relevance_adjacency (undeleted s) (vars_index (undeleted s))) \<longleftrightarrow> (a, b) \<in> relevance_rel (\<lambda>e. set (extract_var_refs e)) s" for a b
  proof -
    have "b \<in> set (targets_of (relevance_adjacency (undeleted s) (vars_index (undeleted s))) a) \<longleftrightarrow>
        (\<exists>node \<in> set (undeleted s). a = mn_id node \<and> b \<in> set (relevance_targets (vars_index (undeleted s)) node))"
      by (rule targets_of_relevance) (rule undeleted_ids [OF assms])
    then show ?thesis unfolding graph_rel_def relevance_targets_mem relevance_rel_def by blast
  qed
  then show ?thesis by auto
qed

lemma expression_violations_empty_iff:
  assumes ok: "bt_ok (ds_nodes s)" "nodes_typed s"
    and unique: "\<And>n n' var. n \<in> set (undeleted s) \<Longrightarrow> n' \<in> set (undeleted s) \<Longrightarrow>
      defines_var n var \<Longrightarrow> defines_var n' var \<Longrightarrow> n = n'"
  shows "expression_violations f64 (vars_index (undeleted s)) (var_types (undeleted s)) (choices_index s) node field = []
    \<longleftrightarrow> (\<forall>text. expression_of node field = Some text \<longrightarrow> \<not> trim_is_empty text \<longrightarrow>
      (\<exists>ast. parse f64 text = Inr ast \<and> well_typed s ast \<and> choices_defined s ast))"
proof -
  let ?live = "undeleted s"
  have types: "bt_get (var_types ?live) var = Some ty \<longleftrightarrow>
      (\<exists>n \<in> set ?live. defines_var n var \<and> node_type_field n = Some ty)" for var ty
    by (rule var_types_get) (rule unique)
  have typed: "(\<forall>v. numeric_on ast v \<longrightarrow> \<not> mistyped (var_types ?live) v) \<longleftrightarrow> well_typed s ast" for ast
    unfolding mistyped_def well_typed_def by (auto simp: types)
  have choice: "choice_violations (vars_index ?live) (var_types ?live) (choices_index s) node field (v, c) = [] \<longleftrightarrow>
      (\<forall>n \<in> set ?live. \<forall>ty. defines_var n v \<longrightarrow> node_type_field n = Some ty \<longrightarrow> ty \<in> set SELECT_TYPES \<longrightarrow>
        live_choice s (mn_id n) c)" for v c
  proof (cases "\<exists>n \<in> set ?live. defines_var n v")
    case True
    then obtain n where n: "n \<in> set ?live" "defines_var n v" by blast
    have one: "m = n" if "m \<in> set ?live" "defines_var m v" for m using unique that n by blast
    have sel: "(case bt_get (var_types ?live) v of None \<Rightarrow> False | Some ty \<Rightarrow> ty \<in> set SELECT_TYPES) \<longleftrightarrow>
        (\<exists>ty. node_type_field n = Some ty \<and> ty \<in> set SELECT_TYPES)"
    proof -
      have "bt_get (var_types ?live) v = node_type_field n"
      proof (rule option_eqI)
        show "bt_get (var_types ?live) v = Some ty \<longleftrightarrow> node_type_field n = Some ty" for ty
          unfolding types using n one by blast
      qed
      then show ?thesis by (auto split: option.split)
    qed
    have has: "(case bt_get (choices_index s) v of None \<Rightarrow> False | Some cs \<Rightarrow> c \<in> set cs) \<longleftrightarrow> live_choice s (mn_id n) c"
    proof -
      have "c \<in> choice_set (choices_index s) v \<longleftrightarrow> live_choice s (mn_id n) c"
        by (rule choices_index_iff [OF _ _ n]) (use undeleted_ids [OF ok] unique in blast)+
      then show ?thesis by (auto simp: choice_set_def split: option.splits)
    qed
    have "choice_violations (vars_index ?live) (var_types ?live) (choices_index s) node field (v, c) = [] \<longleftrightarrow>
        ((\<exists>ty. node_type_field n = Some ty \<and> ty \<in> set SELECT_TYPES) \<longrightarrow> live_choice s (mn_id n) c)"
      using True by (simp add: choice_violations_def vars_index_contains sel has)
    also have "\<dots> \<longleftrightarrow> (\<forall>n \<in> set ?live. \<forall>ty. defines_var n v \<longrightarrow> node_type_field n = Some ty \<longrightarrow>
        ty \<in> set SELECT_TYPES \<longrightarrow> live_choice s (mn_id n) c)"
      using n one by blast
    finally show ?thesis .
  next
    case False
    then show ?thesis by (auto simp: choice_violations_def vars_index_contains)
  qed
  show ?thesis
    by (auto simp: expression_violations_def numeric_var_usages_empty_iff typed choices_defined_def choice
             split: option.split sum.split)
qed

lemma validate_integrity_empty_iff:
  assumes ok: "bt_ok (ds_nodes s)" "nodes_typed s"
  shows "validate_integrity f64 s = [] \<longleftrightarrow> integrity_sound (\<lambda>e. set (extract_var_refs e)) f64 s"
proof -
  let ?live = "undeleted s" and ?unique = "\<forall>node \<in> set (undeleted s). \<forall>node' \<in> set (undeleted s). \<forall>var.
        defines_var node var \<longrightarrow> defines_var node' var \<longrightarrow> node = node'"
  have dup: "filter (\<lambda>(var, ids). length ids > 1) (vars_index ?live) = [] \<longleftrightarrow> ?unique"
    by (rule duplicates_empty_iff [OF undeleted_distinct [OF ok]])
  have dangling: "dangling_refs (vars_index ?live) node field = [] \<longleftrightarrow>
      (\<forall>e. expression_of node field = Some e \<longrightarrow>
        (\<forall>var \<in> set (extract_var_refs e). \<exists>target \<in> set ?live. defines_var target var))" for node field
    by (auto simp: dangling_refs_def filter_empty_conv vars_index_contains split: option.split)
  have cycles: "find_relevance_cycles ?live (vars_index ?live) = [] \<longleftrightarrow> acyclic (relevance_rel (\<lambda>e. set (extract_var_refs e)) s)"
    by (simp add: find_relevance_cycles_def Let_def cycles_empty_iff graph_rel_relevance [OF ok])
  have "validate_integrity f64 s = [] \<longleftrightarrow>
      ?unique
      \<and> (\<forall>node \<in> set ?live. \<forall>field \<in> set EXPRESSION_FIELDS. dangling_refs (vars_index ?live) node field = [])
      \<and> acyclic (relevance_rel (\<lambda>e. set (extract_var_refs e)) s)
      \<and> (\<forall>node \<in> set ?live. \<forall>field \<in> set EXPRESSION_FIELDS.
          expression_violations f64 (vars_index ?live) (var_types ?live) (choices_index s) node field = [])"
    unfolding validate_integrity_def Let_def append_is_Nil_conv map_is_Nil_conv dup cycles
    by simp
  also have "\<dots> \<longleftrightarrow> integrity_sound (\<lambda>e. set (extract_var_refs e)) f64 s"
  proof (cases ?unique)
    case True
    then have "expression_violations f64 (vars_index ?live) (var_types ?live) (choices_index s) node field = []
        \<longleftrightarrow> (\<forall>text. expression_of node field = Some text \<longrightarrow> \<not> trim_is_empty text \<longrightarrow>
          (\<exists>ast. parse f64 text = Inr ast \<and> well_typed s ast \<and> choices_defined s ast))" for node field
      by (intro expression_violations_empty_iff [OF ok]) blast
    then show ?thesis unfolding integrity_sound_def dangling by simp
  next
    case False
    then show ?thesis unfolding integrity_sound_def by blast
  qed
  finally show ?thesis .
qed

end
