(* ===== verification/Governance.thy ===== *)
theory Governance
  imports Integrity
begin

text \<open>
  The governance gate and the proposal lifecycle (\<^verbatim>\<open>crates/engine-core/src/governance.rs\<close>). Two places of the
  code can panic (the index \<^verbatim>\<open>state.nodes[node_id]\<close> and an \<^verbatim>\<open>expect\<close>): there the result is
  \<^const>\<open>None\<close>, and \<open>authorize_total\<close> and \<open>plan_acceptance_total\<close> show that it never is.
\<close>

datatype role = Author | Reviewer | Auditor

fun role_str :: "role \<Rightarrow> string" where
  "role_str Author = ''author''"
| "role_str Reviewer = ''reviewer''"
| "role_str Auditor = ''auditor''"

definition role_from_str :: "string \<Rightarrow> (string \<times> string) + role" where
  "role_from_str s =
     (if s = ''author'' then Inr Author
      else if s = ''reviewer'' then Inr Reviewer
      else if s = ''auditor'' then Inr Auditor
      else Inl (''role'', s))"

datatype proposal_status = Pending | Accepted | Rejected

datatype governance_error =
    GE_Unauthorized string string
  | GE_Op op_error
  | GE_Integrity "integrity_violation list"
  | GE_SheetProtection string

fun can_perform :: "role \<Rightarrow> event_payload \<Rightarrow> bool" where
  "can_perform Auditor _ = False"
| "can_perform Reviewer (CommentAdded _ _) = True"
| "can_perform Reviewer (CommentReplied _ _) = True"
| "can_perform Reviewer (SuggestionProposed _ _ _) = True"
| "can_perform Reviewer _ = False"
| "can_perform Author _ = True"

section \<open>Sheet protection\<close>

definition protecting :: "materialized_node \<Rightarrow> bool" where
  "protecting node \<longleftrightarrow> json_index (mn_current_fields node) ''kind'' = JStr ''sheet''
     \<and> json_index (mn_current_fields node) ''sheet_protected'' = JBool True"

text \<open>The upward walk; \<open>fuel\<close> counts the turns left of \<^verbatim>\<open>0..=nodes.len()\<close>.\<close>

fun protected_loop :: "document_state \<Rightarrow> nat \<Rightarrow> node_id option \<Rightarrow> bool" where
  "protected_loop s 0 cur = True"
| "protected_loop s (Suc fuel) cur =
     (case Option.bind cur (bt_get (ds_nodes s)) of
        None \<Rightarrow> False
      | Some node \<Rightarrow> if protecting node then True else protected_loop s fuel (mn_parent_id node))"

definition protected :: "document_state \<Rightarrow> node_id \<Rightarrow> bool" where
  "protected s start = protected_loop s (length (ds_nodes s) + 1) (Some start)"

fun blocked :: "document_state \<Rightarrow> event_payload \<Rightarrow> bool" where
  "blocked s (NodeCreated n nt parent pos flds var) =
     (case parent of None \<Rightarrow> False | Some p \<Rightarrow> protected s p)"
| "blocked s (NodeMoved n new_parent pos) =
     (protected s n \<or> (case new_parent of None \<Rightarrow> False | Some p \<Rightarrow> protected s p))"
| "blocked s (NodeDeleted n) = protected s n"
| "blocked s (NodeRestored n) = protected s n"
| "blocked s (FieldEdited n field val) = protected s n"
| "blocked s (RichTextPatched n patch) = protected s n"
| "blocked s (ChoiceAdded n c flds) = protected s n"
| "blocked s (ChoiceRemoved n c) = protected s n"
| "blocked s _ = False"

definition blocked_error :: "document_state \<Rightarrow> event_payload \<Rightarrow> governance_error + unit" where
  "blocked_error s op =
     (if blocked s op then Inl (GE_SheetProtection ''unprotect the worksheet before editing it'') else Inr ())"

fun check_sheet_protection :: "document_state \<Rightarrow> event_payload \<Rightarrow> (governance_error + unit) option" where
  "check_sheet_protection s (FieldEdited n field val) =
     (if field = ''sheet_protected'' then
        (case bt_get (ds_nodes s) n of
           None \<Rightarrow> None
         | Some node \<Rightarrow>
             Some (if mn_node_type node \<noteq> ''section''
                      \<or> json_index (mn_current_fields node) ''kind'' \<noteq> JStr ''sheet''
                      \<or> \<not> (is_boolean val \<or> val = JNull)
                   then Inl (GE_SheetProtection ''use a boolean protection flag or clear it on a worksheet'')
                   else Inr ()))
      else Some (blocked_error s (FieldEdited n field val)))"
| "check_sheet_protection s op = Some (blocked_error s op)"

section \<open>The gate\<close>

fun is_deployed :: "event_payload \<Rightarrow> bool" where
  "is_deployed (Deployed _) = True"
| "is_deployed _ = False"

definition authorize ::
    "hash_fun \<Rightarrow> scalar_writer \<Rightarrow> decoder \<Rightarrow> (string \<Rightarrow> 64 word option)
      \<Rightarrow> role \<Rightarrow> event_payload \<Rightarrow> document_state \<Rightarrow> (governance_error + unit) option" where
  "authorize sha ser decode f64 r op s =
     (if \<not> can_perform r op
      then Some (Inl (GE_Unauthorized (role_str r) (event_type_str (event_type_of op))))
      else
        (case validate_op sha ser decode s op of
           Inl e \<Rightarrow> Some (Inl (GE_Op e))
         | Inr _ \<Rightarrow>
             (case check_sheet_protection s op of
                None \<Rightarrow> None
              | Some (Inl e) \<Rightarrow> Some (Inl e)
              | Some (Inr _) \<Rightarrow>
                  Some (if is_deployed op \<and> validate_integrity f64 s \<noteq> []
                        then Inl (GE_Integrity (validate_integrity f64 s)) else Inr ()))))"

definition proposal_status :: "document_state \<Rightarrow> string \<Rightarrow> proposal_status option" where
  "proposal_status s sid =
     map_option (\<lambda>g. if sg_accepted g then Accepted
                     else if sg_rejected_reason g \<noteq> None then Rejected else Pending)
       (bt_get (ds_suggestions s) sid)"

definition plan_acceptance ::
    "hash_fun \<Rightarrow> scalar_writer \<Rightarrow> decoder \<Rightarrow> (string \<Rightarrow> 64 word option)
      \<Rightarrow> role \<Rightarrow> document_state \<Rightarrow> string \<Rightarrow> (governance_error + event_payload) option" where
  "plan_acceptance sha ser decode f64 r s sid =
     (case authorize sha ser decode f64 r (SuggestionAccepted sid) s of
        None \<Rightarrow> None
      | Some (Inl e) \<Rightarrow> Some (Inl e)
      | Some (Inr _) \<Rightarrow>
          (case bt_get (ds_suggestions s) sid of
             None \<Rightarrow> None
           | Some suggestion \<Rightarrow>
               (case decode_wrapped_op decode (sg_detail suggestion) of
                  Inl e \<Rightarrow> Some (Inl (GE_Op e))
                | Inr wrapped \<Rightarrow>
                    (case authorize sha ser decode f64 r wrapped s of
                       None \<Rightarrow> None
                     | Some (Inl e) \<Rightarrow> Some (Inl e)
                     | Some (Inr _) \<Rightarrow> Some (Inr wrapped)))))"

section \<open>Totality\<close>

lemma check_sheet_protection_total:
  assumes "validate_op sha ser decode s op = Inr u"
  shows "check_sheet_protection s op \<noteq> None"
proof (cases op)
  case (FieldEdited n field val)
  with assms have "bt_get (ds_nodes s) n \<noteq> None"
    by (auto simp: require_present_def require_live_def result_simps split: if_splits)
  with FieldEdited show ?thesis by auto
qed simp_all

lemma authorize_total: "authorize sha ser decode f64 r op s \<noteq> None"
  using check_sheet_protection_total [of sha ser decode s op]
  by (auto simp: authorize_def split: sum.split option.split)

lemma authorize_ok_iff:
  "authorize sha ser decode f64 r op s = Some (Inr u) \<longleftrightarrow>
     can_perform r op \<and> validate_op sha ser decode s op = Inr ()
     \<and> check_sheet_protection s op = Some (Inr ())
     \<and> (is_deployed op \<longrightarrow> validate_integrity f64 s = [])"
  by (auto simp: authorize_def split: sum.split option.split)

lemma plan_acceptance_total: "plan_acceptance sha ser decode f64 r s sid \<noteq> None"
proof -
  have "bt_get (ds_suggestions s) sid \<noteq> None"
    if "authorize sha ser decode f64 r (SuggestionAccepted sid) s = Some (Inr u)" for u
    using that by (auto simp: authorize_ok_iff require_pending_def result_simps)
  then show ?thesis
    by (auto simp: plan_acceptance_def authorize_total [simplified] split: sum.split option.split)
       (use authorize_total in metis)
qed

section \<open>Sheet protection covers the subtree\<close>

lemma relpow_bound:
  assumes "acyclic R" and "finite A" and "R \<subseteq> A \<times> A" and "n \<in> A" and "(a, n) \<in> R ^^ k"
  shows "k < card {b \<in> A. (b, n) \<in> R\<^sup>*}"
  using assms(4,5)
proof (induction k arbitrary: n)
  case 0
  then have "n \<in> {b \<in> A. (b, n) \<in> R\<^sup>*}" by simp
  then show ?case using assms(2) by (auto simp: card_gt_0_iff)
next
  case (Suc k)
  then obtain m where m: "(a, m) \<in> R ^^ k" "(m, n) \<in> R" by auto
  with assms(3) have "m \<in> A" by auto
  from Suc.IH [OF this m(1)] have "k < card {b \<in> A. (b, m) \<in> R\<^sup>*}" .
  moreover have "card {b \<in> A. (b, m) \<in> R\<^sup>*} < card {b \<in> A. (b, n) \<in> R\<^sup>*}"
  proof (rule psubset_card_mono)
    show "finite {b \<in> A. (b, n) \<in> R\<^sup>*}" using assms(2) by simp
    have "(n, m) \<notin> R\<^sup>*" using assms(1) m(2) by (meson acyclic_def rtrancl_into_trancl2 rtrancl_trancl_trancl r_into_trancl)
    then show "{b \<in> A. (b, m) \<in> R\<^sup>*} \<subset> {b \<in> A. (b, n) \<in> R\<^sup>*}"
      using m(2) Suc.prems(1) by (auto intro: rtrancl.rtrancl_into_rtrancl)
  qed
  ultimately show ?case by simp
qed

lemma ancestor_depth:
  assumes "state_ok s" and "(a, n) \<in> parent_rel s ^^ k" and "bt_get (ds_nodes s) n = Some node"
  shows "k < length (ds_nodes s)"
proof -
  let ?A = "dom (bt_get (ds_nodes s))"
  have fin: "finite ?A" by (rule finite_dom_map_of)
  have "parent_rel s \<subseteq> ?A \<times> ?A" using assms(1) by (auto simp: state_ok_def parents_exist_def)
  with assms fin have "k < card {b \<in> ?A. (b, n) \<in> (parent_rel s)\<^sup>*}"
    by (intro relpow_bound) (auto simp: state_ok_def)
  also have "\<dots> \<le> card ?A" using fin by (intro card_mono) auto
  also have "\<dots> \<le> length (ds_nodes s)"
    by (metis card_length dom_map_of_conv_image_fst length_map list.set_map)
  finally show ?thesis .
qed

lemma protected_loop_sound:
  "protected_loop s (Suc k) (Some n) \<Longrightarrow>
     (\<exists>a node. (a, n) \<in> (parent_rel s)\<^sup>* \<and> bt_get (ds_nodes s) a = Some node \<and> protecting node)
     \<or> (\<exists>a. (a, n) \<in> parent_rel s ^^ k \<and> bt_get (ds_nodes s) a \<noteq> None)"
proof (induction k arbitrary: n)
  case 0
  then show ?case by (auto split: option.splits)
next
  case (Suc k)
  then obtain node where n: "bt_get (ds_nodes s) n = Some node" by (auto split: option.splits)
  show ?case
  proof (cases "protecting node")
    case True
    with n show ?thesis by blast
  next
    case False
    with Suc.prems n obtain p where p: "mn_parent_id node = Some p" "protected_loop s (Suc k) (Some p)"
      by (cases "mn_parent_id node") auto
    have "(p, n) \<in> parent_rel s" using n p by simp
    with Suc.IH [OF p(2)] show ?thesis
      by (metis relpow_Suc_I rtrancl.rtrancl_into_rtrancl)
  qed
qed

lemma protected_loop_complete:
  "(a, n) \<in> parent_rel s ^^ j \<Longrightarrow> j < k \<Longrightarrow> bt_get (ds_nodes s) a = Some node \<Longrightarrow> protecting node \<Longrightarrow>
     protected_loop s k (Some n)"
proof (induction j arbitrary: n k)
  case 0
  then show ?case by (cases k) auto
next
  case (Suc j)
  then obtain p where p: "(a, p) \<in> parent_rel s ^^ j" "(p, n) \<in> parent_rel s" by auto
  then obtain m where "bt_get (ds_nodes s) n = Some m" "mn_parent_id m = Some p" by auto
  with Suc p show ?case by (cases k) auto
qed

lemma protected_iff:
  assumes ok: "state_ok s" and n: "bt_get (ds_nodes s) n \<noteq> None"
  shows "protected s n \<longleftrightarrow>
    (\<exists>a node. (a, n) \<in> (parent_rel s)\<^sup>* \<and> bt_get (ds_nodes s) a = Some node \<and> protecting node)"
proof
  assume "protected s n"
  then have "protected_loop s (Suc (length (ds_nodes s))) (Some n)" by (simp add: protected_def)
  from protected_loop_sound [OF this] ancestor_depth [OF ok] n
  show "\<exists>a node. (a, n) \<in> (parent_rel s)\<^sup>* \<and> bt_get (ds_nodes s) a = Some node \<and> protecting node" by blast
next
  assume "\<exists>a node. (a, n) \<in> (parent_rel s)\<^sup>* \<and> bt_get (ds_nodes s) a = Some node \<and> protecting node"
  then obtain a node j where j: "(a, n) \<in> parent_rel s ^^ j" and a: "bt_get (ds_nodes s) a = Some node" "protecting node"
    by (metis rtrancl_imp_relpow)
  with ancestor_depth [OF ok j] n have "j < length (ds_nodes s) + 1" by fastforce
  from protected_loop_complete [OF j this a] show "protected s n" by (simp add: protected_def)
qed

lemma check_ok_not_blocked:
  "check_sheet_protection s op = Some (Inr u) \<Longrightarrow>
     \<not> blocked s op \<or> (\<exists>n val. op = FieldEdited n ''sheet_protected'' val)"
  by (cases op) (auto simp: blocked_error_def split: if_splits option.splits)

text \<open>An operation that passes the gate leaves every node of a protected worksheet as it is.\<close>

lemma protected_node_kept:
  assumes ok: "state_ok s" and v: "validate_op sha ser decode s op = Inr u"
    and nb: "\<not> blocked s op" and a: "apply_payload sha ser s op = Inr t"
    and k: "bt_get (ds_nodes s) k = Some node" "protected s k"
  shows "bt_get (ds_nodes t) k = Some node
    \<and> (k \<in> set (ds_removed_choices t) \<longleftrightarrow> k \<in> set (ds_removed_choices s) \<or> (\<exists>n. op = ChoiceRemoved n k))"
proof -
  have keep: ?thesis if "ds_nodes t = bt_insert n node' (ds_nodes s)" "n \<noteq> k"
      "ds_removed_choices t = ds_removed_choices s \<or> ds_removed_choices t = bs_remove n (ds_removed_choices s)"
      "\<And>n. op \<noteq> ChoiceRemoved n k" for n node'
    using that k by (auto simp: bmap_simps)
  show ?thesis
  proof (cases op)
    case (NodeCreated n nt parent pos flds var)
    with v k have "n \<noteq> k" by (auto simp: validate_node_created_def bt_contains_def split: if_splits)
    with NodeCreated a show ?thesis by (intro keep) (auto simp: state_updates)
  next
    case (ChoiceAdded n c flds)
    with v k have "c \<noteq> k" by (auto simp: bt_contains_def result_simps split: if_splits)
    with ChoiceAdded a k show ?thesis by (auto simp: bmap_simps)
  next
    case (ChoiceRemoved n c)
    with a k show ?thesis by (auto simp: bmap_simps)
  qed (use nb a k in \<open>auto simp: state_updates bmap_simps result_simps split: option.splits json.splits\<close>)
qed

end
