(* ===== verification/Sample.thy ===== *)
theory Sample
  imports Governance "HOL-Library.Code_Target_Nat"
begin

text \<open>
  A small questionnaire for the witnesses: a form with one worksheet, a select question with one choice and
  a question whose relevance refers to it, built by running the operations through the validator. The
  parameters of the model (hash, scalar writer, payload decoder, number parser) get concrete functions.
\<close>

definition sample_sha :: hash_fun where
  "sample_sha bs = take 32 (bs @ replicate 32 0)"

fun sample_ser :: scalar_writer where
  "sample_ser (JStr s) = [34] @ as_bytes s @ [34]"
| "sample_ser (JBool b) = (if b then [116] else [102])"
| "sample_ser _ = [110]"

fun sample_decode :: decoder where
  "sample_decode (JStr n) = Inr (NodeDeleted n)"
| "sample_decode (JArr [JStr n, JStr field, v]) = Inr (FieldEdited n field v)"
| "sample_decode _ = Inl ''unsupported''"

definition sample_f64 :: "string \<Rightarrow> 64 word option" where
  "sample_f64 text = Some 0"

definition sample_ops :: "event_payload list" where
  "sample_ops =
     [NodeCreated ''f'' NT_Form None ''a'' (JObj []) None,
      NodeCreated ''s'' NT_Section (Some ''f'') ''a'' (JObj [(''kind'', JStr ''sheet'')]) None,
      NodeCreated ''q'' NT_Item (Some ''s'') ''a'' (JObj [(''question_type'', JStr ''select_one'')]) (Some ''age''),
      ChoiceAdded ''q'' ''qa'' (JObj [(''value'', JStr ''yes'')]),
      NodeCreated ''r'' NT_Item (Some ''s'') ''b''
        (JObj [(''relevance'', JStr (''selected(${age}, '' @ [CHR 0x27] @ ''yes'' @ [CHR 0x27] @ '')''))]) (Some ''why''),
      SuggestionProposed ''p'' (Some ''r'') (JArr [JStr ''r'', JStr ''label'', JStr ''Why?''])]"

definition sample_node :: "node_id \<Rightarrow> node_id option \<Rightarrow> string \<Rightarrow> string \<Rightarrow> json \<Rightarrow> string option \<Rightarrow> materialized_node" where
  "sample_node n parent ty pos flds var =
     \<lparr>mn_id = n, mn_parent_id = parent, mn_node_type = ty, mn_pos = pos, mn_current_fields = flds,
      mn_var_name = var, mn_deleted = False\<rparr>"

definition sample_state :: document_state where
  "sample_state =
     \<lparr>ds_nodes =
        [(''f'', sample_node ''f'' None ''form'' ''a'' (JObj []) None),
         (''q'', sample_node ''q'' (Some ''s'') ''item'' ''a'' (JObj [(''question_type'', JStr ''select_one'')]) (Some ''age'')),
         (''qa'', sample_node ''qa'' (Some ''q'') ''choice'' ''qa'' (JObj [(''value'', JStr ''yes'')]) None),
         (''r'', sample_node ''r'' (Some ''s'') ''item'' ''b''
            (JObj [(''relevance'', JStr (''selected(${age}, '' @ [CHR 0x27] @ ''yes'' @ [CHR 0x27] @ '')''))]) (Some ''why'')),
         (''s'', sample_node ''s'' (Some ''f'') ''section'' ''a'' (JObj [(''kind'', JStr ''sheet'')]) None)],
      ds_comments = [],
      ds_suggestions = [(''p'', \<lparr>sg_target_node_id = Some ''r'',
         sg_detail = JArr [JStr ''r'', JStr ''label'', JStr ''Why?''], sg_accepted = False, sg_rejected_reason = None\<rparr>)],
      ds_removed_choices = []\<rparr>"

lemma sample_run:
  "guarded_run (validate_op sample_sha sample_ser sample_decode) (apply_payload sample_sha sample_ser)
     empty_state sample_ops = Inr sample_state"
  by code_simp

lemma sample_state_ok: "state_ok sample_state"
  by (rule doc.reachable_inv [OF sample_run])

end
