(* ===== verification/Var_Refs.thy ===== *)
theory Var_Refs
  imports Integrity "HOL-Library.Sublist"
begin

text \<open>
  What a reference of an expression is. \<open>mentions\<close> is the reading of a text, by the grammar of its \<^verbatim>\<open>${name}\<close> parts, and does
  not use the scanner; \<open>parsed_refs\<close> is the reading of the parsed expression. The scanner \<^verbatim>\<open>extract_var_refs\<close> finds exactly the
  former, and the two readings agree on every expression without \<^verbatim>\<open>${\<close> in a string literal.
\<close>

section \<open>References of a text\<close>

text \<open>From the left: the first \<^verbatim>\<open>${\<close>, then the next \<^verbatim>\<open>}\<close>, and on from there.\<close>

inductive mentions :: "string \<Rightarrow> string \<Rightarrow> bool" where
  here: "\<not> sublist ''${'' pre \<Longrightarrow> CHR ''}'' \<notin> set name \<Longrightarrow> trim name \<noteq> [] \<Longrightarrow>
    mentions (pre @ ''${'' @ name @ ''}'' @ post) (trim name)"
| later: "\<not> sublist ''${'' pre \<Longrightarrow> CHR ''}'' \<notin> set name \<Longrightarrow> mentions post v \<Longrightarrow>
    mentions (pre @ ''${'' @ name @ ''}'' @ post) v"

definition text_refs :: "string \<Rightarrow> string set" where
  "text_refs e = {v. mentions e v}"

definition scan :: "string \<Rightarrow> string set" where
  "scan e = set (extract_var_refs e)"

lemma scan_short [simp]: "scan [] = {}" "scan [c] = {}"
  by (simp_all add: scan_def extract_var_refs_def)

lemma set_extract_loop: "set (extract_loop e refs) = set refs \<union> scan e"
proof (induction "length e" arbitrary: e refs rule: less_induct)
  case less
  show ?case
  proof (cases "(e, refs)" rule: extract_loop.cases)
    case (1 c d cs refs')
    let ?rest = "drop 1 (dropWhile (\<lambda>x. x \<noteq> CHR ''}'') cs)" and ?name = "trim (takeWhile (\<lambda>x. x \<noteq> CHR ''}'') cs)"
    have "length (dropWhile (\<lambda>x. x \<noteq> CHR ''}'') cs) \<le> length cs" by (rule length_dropWhile_le)
    then have rest: "set (extract_loop ?rest rs) = set rs \<union> scan ?rest" "set (extract_loop (d # cs) rs) = set rs \<union> scan (d # cs)" for rs
      using 1 by (intro less; simp)+
    from rest show ?thesis using 1 by (auto simp: scan_def [of "c # d # cs"] extract_var_refs_def Let_def)
  qed (auto simp: scan_def extract_var_refs_def)
qed

lemma scan_open:
  assumes "CHR ''}'' \<notin> set name"
  shows "scan (''${'' @ name @ ''}'' @ post) = {trim name} - {[]} \<union> scan post"
proof -
  have "takeWhile (\<lambda>x. x \<noteq> CHR ''}'') (name @ ''}'' @ post) = name" "dropWhile (\<lambda>x. x \<noteq> CHR ''}'') (name @ ''}'' @ post) = ''}'' @ post"
    using assms by (induction name) auto
  then show ?thesis by (auto simp: scan_def [of "_ # _"] extract_var_refs_def set_extract_loop Let_def)
qed

lemma scan_unclosed: "CHR ''}'' \<notin> set cs \<Longrightarrow> scan (''${'' @ cs) = {}"
  by (simp add: scan_def extract_var_refs_def)

lemma scan_step: "\<not> (c = CHR ''$'' \<and> cs \<noteq> [] \<and> hd cs = CHR ''{'') \<Longrightarrow> scan (c # cs) = scan cs"
  by (cases cs) (auto simp: scan_def extract_var_refs_def)

lemma scan_skip: "\<not> sublist ''${'' pre \<Longrightarrow> \<not> (pre \<noteq> [] \<and> last pre = CHR ''$'' \<and> post \<noteq> [] \<and> hd post = CHR ''{'') \<Longrightarrow> scan (pre @ post) = scan post"
proof (induction pre)
  case (Cons c pre)
  have "\<not> (c = CHR ''$'' \<and> pre \<noteq> [] \<and> hd pre = CHR ''{'')"
  proof
    assume "c = CHR ''$'' \<and> pre \<noteq> [] \<and> hd pre = CHR ''{''"
    then have "c # pre = ''${'' @ tl pre" by (cases pre) auto
    then show False using Cons.prems(1) by (metis prefix_def prefix_imp_sublist)
  qed
  then have "scan (c # (pre @ post)) = scan (pre @ post)" using Cons.prems(2) by (intro scan_step) (cases pre, auto)
  moreover have "\<not> sublist ''${'' pre" using Cons.prems(1) by (meson sublist_Cons_right)
  moreover have "\<not> (pre \<noteq> [] \<and> last pre = CHR ''$'' \<and> post \<noteq> [] \<and> hd post = CHR ''{'')" using Cons.prems(2) by auto
  ultimately show ?case using Cons.IH by simp
qed simp

lemma scan_plain: "CHR ''$'' \<notin> set pre \<Longrightarrow> scan (pre @ post) = scan post"
  by (intro scan_skip) (auto simp: sublist_def dest: last_in_set)

text \<open>A text without \<^verbatim>\<open>${\<close>, or its first one.\<close>

lemma first_open: "\<not> sublist ''${'' e \<or> (\<exists>pre post. e = pre @ ''${'' @ post \<and> \<not> sublist ''${'' pre)"
proof (induction e)
  case (Cons c e)
  show ?case
  proof (cases "c = CHR ''$'' \<and> (\<exists>e'. e = CHR ''{'' # e')")
    case True
    then obtain e' where "c # e = [] @ ''${'' @ e'" by auto
    then show ?thesis by fastforce
  next
    case False
    have keep: "\<not> sublist ''${'' (c # pre)" if "\<not> sublist ''${'' pre" "\<not> (c = CHR ''$'' \<and> (\<exists>e'. pre = CHR ''{'' # e'))" for pre
      using that by (auto simp: sublist_Cons_right prefix_def)
    from Cons.IH show ?thesis
    proof
      assume "\<not> sublist ''${'' e"
      then show ?thesis using keep False by blast
    next
      assume "\<exists>pre post. e = pre @ ''${'' @ post \<and> \<not> sublist ''${'' pre"
      then obtain pre post where e: "e = pre @ ''${'' @ post" "\<not> sublist ''${'' pre" by blast
      then have "\<not> sublist ''${'' (c # pre)" using False by (intro keep) auto
      with e have "c # e = (c # pre) @ ''${'' @ post \<and> \<not> sublist ''${'' (c # pre)" by simp
      then show ?thesis by blast
    qed
  qed
qed simp

lemma scan_exact: "scan e = text_refs e"
proof -
  have "mentions e v \<Longrightarrow> v \<in> scan e" for v
  proof (induction rule: mentions.induct)
    case (here pre name post)
    then show ?case using scan_open [of name post] scan_skip [of pre "''${'' @ name @ ''}'' @ post"] by simp
  next
    case (later pre name post v)
    then show ?case using scan_open [of name post] scan_skip [of pre "''${'' @ name @ ''}'' @ post"] by simp
  qed
  moreover have "v \<in> scan e \<Longrightarrow> mentions e v" for v
  proof (induction "length e" arbitrary: e rule: less_induct)
    case less
    show ?case
    proof (cases "sublist ''${'' e")
      case False
      then have "scan e = {}" using scan_skip [of e "[]"] by simp
      with less.prems show ?thesis by simp
    next
      case True
      then obtain pre post where e: "e = pre @ ''${'' @ post" "\<not> sublist ''${'' pre" using first_open by blast
      then have s: "scan e = scan (''${'' @ post)" by (simp add: scan_skip)
      with less.prems have "CHR ''}'' \<in> set post" using scan_unclosed [of post] by auto
      then obtain name rest where post: "post = name @ ''}'' @ rest" "CHR ''}'' \<notin> set name" using split_list_first by force
      with s less.prems have "v = trim name \<and> trim name \<noteq> [] \<or> v \<in> scan rest" using scan_open [OF post(2), of rest] by auto
      then show ?thesis
      proof
        assume "v = trim name \<and> trim name \<noteq> []"
        then show ?thesis using e post mentions.here [of pre name rest] by simp
      next
        assume "v \<in> scan rest"
        then have "mentions rest v" using e(1) post(1) by (intro less.hyps) simp
        then show ?thesis using e post mentions.later [of pre name rest v] by simp
      qed
    qed
  qed
  ultimately show ?thesis by (auto simp: text_refs_def)
qed

section \<open>References of a parsed expression\<close>

fun expr_vars :: "expr \<Rightarrow> string set" where
  "expr_vars (VarRef v) = {v}"
| "expr_vars (Literal l) = {}"
| "expr_vars Dot = {}"
| "expr_vars (BinOp op a b) = expr_vars a \<union> expr_vars b"
| "expr_vars (UnaryOp op a) = expr_vars a"
| "expr_vars (Call name args) = (\<Union>a \<in> set args. expr_vars a)"

fun expr_strings :: "expr \<Rightarrow> string set" where
  "expr_strings (Literal (LStr s)) = {s}"
| "expr_strings (Literal _) = {}"
| "expr_strings (VarRef v) = {}"
| "expr_strings Dot = {}"
| "expr_strings (BinOp op a b) = expr_strings a \<union> expr_strings b"
| "expr_strings (UnaryOp op a) = expr_strings a"
| "expr_strings (Call name args) = (\<Union>a \<in> set args. expr_strings a)"

definition quiet :: "string set \<Rightarrow> bool" where
  "quiet strs \<longleftrightarrow> (\<forall>s \<in> strs. \<not> sublist ''${'' s)"

fun held_vars :: "nonterm \<Rightarrow> string set" where
  "held_vars (N_loop level lhs) = expr_vars lhs"
| "held_vars (N_args name args) = (\<Union>a \<in> set args. expr_vars a)"
| "held_vars _ = {}"

fun held_strings :: "nonterm \<Rightarrow> string set" where
  "held_strings (N_loop level lhs) = expr_strings lhs"
| "held_strings (N_args name args) = (\<Union>a \<in> set args. expr_strings a)"
| "held_strings _ = {}"

text \<open>What a method that succeeds has read: the scanner finds the references of its text and of the rest.\<close>

definition reads :: "nonterm \<Rightarrow> parser \<Rightarrow> expr \<Rightarrow> parser \<Rightarrow> bool" where
  "reads nt p e p' \<longleftrightarrow> held_strings nt \<subseteq> expr_strings e
     \<and> (quiet (expr_strings e) \<longrightarrow> (held_vars nt - {[]}) \<union> scan (rest p) = (expr_vars e - {[]}) \<union> scan (rest p'))"

definition silent :: "parser \<Rightarrow> parser \<Rightarrow> bool" where
  "silent p p' \<longleftrightarrow> scan (rest p') = scan (rest p)"

lemma rest_advance: "rest (advance_by n p) = drop n (rest p)"
  by (simp add: rest_def advance_by_def add.commute)

lemma silent_advance: "CHR ''$'' \<notin> set (take n (rest p)) \<Longrightarrow> silent p (advance_by n p)"
  using scan_plain [of "take n (rest p)" "drop n (rest p)"] by (simp add: silent_def rest_advance)

lemma silent_while: "\<not> P (CHR ''$'') \<Longrightarrow> silent p (advance_by (length (takeWhile P (rest p))) p)"
  by (intro silent_advance) (auto simp: takeWhile_eq_take [symmetric] dest: set_takeWhileD)

lemma silent_ws: "silent p (skip_ws p)"
  unfolding skip_ws_def by (rule silent_while) (simp add: is_ascii_ws_def)

lemma silent_symbol: "CHR ''$'' \<notin> set s \<Longrightarrow> eat_symbol s p = Some p' \<Longrightarrow> silent p p'"
  by (auto simp: eat_symbol_def intro!: silent_advance split: if_splits)

lemma silent_keyword: "CHR ''$'' \<notin> set s \<Longrightarrow> eat_keyword s p = Some p' \<Longrightarrow> silent p p'"
  by (auto simp: eat_keyword_def Let_def intro!: silent_advance split: if_splits)

lemma silent_ops:
  assumes "eat_ops es p = Some (op, p')" and "\<And>eat o' q. (eat, o') \<in> set es \<Longrightarrow> eat p = Some q \<Longrightarrow> silent p q"
  shows "silent p p'"
  using assms
proof (induction es)
  case (Cons e es)
  then show ?case by (cases e) (auto split: option.splits)
qed simp

lemma silent_level:
  assumes "eat_ops (level_ops level) p = Some (op, p')"
  shows "silent p p'"
  using assms
proof (rule silent_ops)
  fix eat o' q assume "(eat, o') \<in> set (level_ops level)" and "eat p = Some q"
  then show "silent p q"
    by (cases level) (auto simp: or_ops_def and_ops_def comparison_ops_def additive_ops_def multiplicative_ops_def
        intro: silent_symbol [rotated] silent_keyword [rotated])
qed

lemma silent_one: "peek p = Some c \<Longrightarrow> c \<noteq> CHR ''$'' \<Longrightarrow> silent p (advance_by 1 p)"
  using rest_peek [of p c] by (intro silent_advance) auto

lemma silent_simps: "silent p p' \<Longrightarrow> scan (rest p') = scan (rest p)"
  by (simp add: silent_def)

lemma scan_ws [simp]: "scan (rest (skip_ws p)) = scan (rest p)"
  by (rule silent_simps [OF silent_ws])

lemma while_split:
  assumes "dropWhile P xs \<noteq> []"
  shows "\<exists>c ys. xs = takeWhile P xs @ c # ys \<and> \<not> P c \<and> ys = drop (Suc (length (takeWhile P xs))) xs"
proof -
  obtain c ys where "dropWhile P xs = c # ys" using assms by (cases "dropWhile P xs") auto
  moreover from this have "\<not> P c" by (metis hd_dropWhile list.distinct(1) list.sel(1))
  ultimately show ?thesis by (metis append_Cons_eq_iff dropWhile_eq_drop drop_Suc drop_eq_Nil list.sel(3) takeWhile_dropWhile_id tl_drop)
qed

lemma reads_var_ref:
  assumes "parse_var_ref p = Inr (e, p')" and "peek p = Some (CHR ''$'')" and "nth_opt (ps_input p) (ps_pos p + 1) = Some (CHR ''{'')"
  shows "reads N_primary p e p'"
proof -
  obtain cs where cs: "rest p = ''${'' @ cs"
    using assms(2,3) by (auto simp: peek_def rest_def nth_opt_def Cons_nth_drop_Suc [symmetric] split: if_splits)
  let ?name = "takeWhile (\<lambda>c. c \<noteq> CHR ''}'') cs"
  from assms(1) cs have e: "e = VarRef (trim ?name)" "p' = advance_by (length ?name + 3) p" "dropWhile (\<lambda>c. c \<noteq> CHR ''}'') cs \<noteq> []"
    by (auto simp: parse_var_ref_def Let_def split: if_splits)
  obtain ys where "cs = ?name @ ''}'' @ ys" "ys = drop (Suc (length ?name)) cs" using while_split [OF e(3)] by auto
  moreover have "CHR ''}'' \<notin> set ?name" by (auto dest: set_takeWhileD)
  ultimately have "scan (rest p) = {trim ?name} - {[]} \<union> scan (drop (Suc (length ?name)) cs)"
    using scan_open [of ?name ys] cs by metis
  then show ?thesis by (simp add: reads_def e rest_advance cs numeral_3_eq_3)
qed

lemma reads_string:
  assumes "parse_string q p = Inr (e, p')" and "peek p = Some q" and "q = CHR 0x27 \<or> q = CHR 0x22"
  shows "reads N_primary p e p'"
proof -
  obtain cs where cs: "rest p = q # cs" using rest_peek [OF assms(2)] by blast
  let ?body = "takeWhile (\<lambda>c. c \<noteq> q) cs"
  from assms(1) cs have e: "e = Literal (LStr ?body)" "p' = advance_by (length ?body + 2) p" "dropWhile (\<lambda>c. c \<noteq> q) cs \<noteq> []"
    by (auto simp: parse_string_def Let_def split: if_splits)
  obtain ys where ys: "cs = ?body @ q # ys" "ys = drop (Suc (length ?body)) cs" using while_split [OF e(3)] by auto
  have "scan (q # cs) = scan cs" "scan (q # ys) = scan ys" using assms(3) by (intro scan_step; force)+
  moreover have "scan (?body @ q # ys) = scan (q # ys)" if "quiet {?body}"
    using that assms(3) by (intro scan_skip) (auto simp: quiet_def)
  ultimately have "scan (rest p) = scan (drop (Suc (length ?body)) cs)" if "quiet {?body}" using that cs ys by metis
  then show ?thesis by (simp add: reads_def e rest_advance cs)
qed

lemma reads_leaf: "silent p p' \<Longrightarrow> expr_vars e = {} \<Longrightarrow> reads N_primary p e p'"
  by (simp add: reads_def silent_def)

lemma quiet_mono: "quiet A \<Longrightarrow> B \<subseteq> A \<Longrightarrow> quiet B"
  by (auto simp: quiet_def)

lemma reads_primary:
  assumes "parse_nt f64 N_primary p0 = Inr (e, p')"
    and inner: "\<And>q r q'. forward p0 q \<Longrightarrow> parse_nt f64 N_or (skip_ws q) = Inr (r, q') \<Longrightarrow> reads N_or (skip_ws q) r q'"
    and args: "\<And>q name. forward p0 q \<Longrightarrow> parse_nt f64 (N_args name []) q = Inr (e, p') \<Longrightarrow> reads (N_args name []) q e p'"
  shows "reads N_primary p0 e p'"
proof -
  note step = trans [OF parse_nt.simps(4) [symmetric] assms(1)]
  let ?p = "skip_ws p0"
  obtain b where b: "peek ?p = Some b" using step by (cases "peek ?p") (auto simp: Let_def)
  obtain cs where cs: "rest ?p = b # cs" using rest_peek [OF b] by blast
  have "reads N_primary ?p e p'"
  proof -
    consider (paren) "b = CHR ''(''" | (var) "b = CHR ''$''" "nth_opt (ps_input ?p) (ps_pos ?p + 1) = Some (CHR ''{'')"
        "parse_var_ref ?p = Inr (e, p')"
      | (str) "b = CHR 0x27 \<or> b = CHR 0x22" "parse_string b ?p = Inr (e, p')"
      | (num) "parse_number f64 ?p = Inr (e, p')" | (dot) "b = CHR ''.''" "e = Dot" "p' = advance_by 1 ?p"
      | (ident) "is_ident_start b" "b \<noteq> CHR ''(''" "\<not> is_digit b" "b \<noteq> CHR ''.''"
        "b \<noteq> CHR 0x27" "b \<noteq> CHR 0x22"
        "\<not> (b = CHR ''$'' \<and> nth_opt (ps_input ?p) (ps_pos ?p + 1) = Some (CHR ''{''))"
      using step b by (auto simp: Let_def split: if_splits option.splits)
    then show ?thesis
    proof cases
      case paren
      with step b obtain p1 where f: "forward p0 (advance_by 1 ?p)"
        and n: "parse_nt f64 N_or (skip_ws (advance_by 1 ?p)) = Inr (e, p1)" and p2: "eat_symbol '')'' (skip_ws p1) = Some p'"
        by (auto simp: result_simps stuck_def Let_def split: if_splits option.splits)
      from inner [OF f n] silent_symbol [OF _ p2] silent_one [OF b] paren show ?thesis by (simp add: reads_def silent_def)
    next
      case num
      then show ?thesis by (intro reads_leaf)
        (auto simp: parse_number_def Let_def is_digit_def split: option.splits intro!: silent_while)
    next
      case ident
      let ?name = "takeWhile is_ident_continue (rest ?p)"
      let ?p1 = "advance_by (length ?name) ?p"
      let ?p3 = "skip_ws (advance_by 1 (skip_ws ?p1))"
      have s1: "silent ?p ?p1" by (rule silent_while) (simp add: is_ident_continue_def is_alpha_def is_digit_def)
      consider (lit) "expr_vars e = {}" "p' = ?p1"
        | (call) "peek (skip_ws ?p1) = Some (CHR ''('')"
            "case eat_symbol '')'' ?p3 of
               Some p4 \<Rightarrow> e = Call ?name [] \<and> p' = p4
             | None \<Rightarrow> forward p0 ?p3 \<and> parse_nt f64 (N_args ?name []) ?p3 = Inr (e, p')"
        using step b ident by (auto simp: Let_def stuck_def split: if_splits option.splits)
      then show ?thesis
      proof cases
        case lit
        then show ?thesis using s1 reads_leaf by blast
      next
        case call
        have s3: "silent ?p ?p3" using s1 silent_one [OF call(1)] by (simp add: silent_def)
        show ?thesis
        proof (cases "eat_symbol '')'' ?p3")
          case None
          with call(2) args have "reads (N_args ?name []) ?p3 e p'" by simp
          with s3 show ?thesis by (simp add: reads_def silent_def)
        next
          case (Some p4)
          with call(2) s3 silent_symbol [OF _ Some] show ?thesis by (intro reads_leaf) (auto simp: silent_def)
        qed
      qed
    qed (use b reads_var_ref reads_string reads_leaf silent_one in auto)
  qed
  then show ?thesis by (simp add: reads_def)
qed

lemma reads_loop:
  assumes "parse_nt f64 (N_loop level lhs) p = Inr (e, p')"
    and operand: "\<And>q r q'. forward p q \<Longrightarrow> parse_nt f64 (level_below level) (skip_ws q) = Inr (r, q') \<Longrightarrow> reads (level_below level) (skip_ws q) r q'"
    and again: "\<And>q l. forward p q \<Longrightarrow> parse_nt f64 (N_loop level l) q = Inr (e, p') \<Longrightarrow> reads (N_loop level l) q e p'"
  shows "reads (N_loop level lhs) p e p'"
proof -
  note step = trans [OF parse_nt.simps(1) [symmetric] assms(1)]
  have none: "held_strings (level_below level) = {}" "held_vars (level_below level) = {}" by (cases level; simp)+
  show ?thesis
  proof (cases "eat_ops (level_ops level) (skip_ws p)")
    case None
    with step show ?thesis by (auto simp: reads_def)
  next
    case (Some a)
    then obtain op p2 where a: "eat_ops (level_ops level) (skip_ws p) = Some (op, p2)" by (cases a) auto
    from step a obtain rhs p3 where f: "forward p p2" "forward p p3"
      and r: "parse_nt f64 (level_below level) (skip_ws p2) = Inr (rhs, p3)"
      and l: "parse_nt f64 (N_loop level (BinOp op lhs rhs)) p3 = Inr (e, p')"
      by (auto simp: result_simps stuck_def split: if_splits)
    note loop = again [OF f(2) l] and right = operand [OF f(1) r]
    have "quiet (expr_strings e) \<Longrightarrow> quiet (expr_strings rhs)" using loop by (auto simp: reads_def intro: quiet_mono)
    then show ?thesis using loop right silent_level [OF a] none by (auto simp: reads_def silent_def)
  qed
qed

lemma reads_args:
  assumes "parse_nt f64 (N_args name args) p = Inr (e, p')"
    and arg: "\<And>r q'. parse_nt f64 N_or (skip_ws p) = Inr (r, q') \<Longrightarrow> reads N_or (skip_ws p) r q'"
    and again: "\<And>q as. forward p q \<Longrightarrow> parse_nt f64 (N_args name as) q = Inr (e, p') \<Longrightarrow> reads (N_args name as) q e p'"
  shows "reads (N_args name args) p e p'"
proof -
  note step = trans [OF parse_nt.simps(5) [symmetric] assms(1)]
  obtain r p1 where r: "parse_nt f64 N_or (skip_ws p) = Inr (r, p1)" using step by (auto simp: result_simps)
  show ?thesis
  proof (cases "eat_symbol '','' (skip_ws p1)")
    case (Some p3)
    with step r have f: "forward p p3" and n: "parse_nt f64 (N_args name (args @ [r])) p3 = Inr (e, p')"
      by (auto simp: Let_def stuck_def split: if_splits)
    note loop = again [OF f n]
    have "quiet (expr_strings e) \<Longrightarrow> quiet (expr_strings r)" using loop by (auto simp: reads_def intro: quiet_mono)
    then show ?thesis using loop arg [OF r] silent_symbol [OF _ Some] by (auto simp: reads_def silent_def)
  next
    case None
    with step r have p': "eat_symbol '')'' (skip_ws p1) = Some p'" and e: "e = Call name (args @ [r])"
      by (auto simp: Let_def split: option.splits)
    have "quiet (expr_strings e) \<Longrightarrow> quiet (expr_strings r)" by (auto simp: e intro: quiet_mono)
    then show ?thesis using arg [OF r] silent_symbol [OF _ p'] by (auto simp: reads_def silent_def e)
  qed
qed

lemma reads_unary_inner:
  assumes "parse_nt f64 N_unary_inner p = Inr (e, p')"
    and operand: "\<And>q r q'. forward p q \<Longrightarrow> parse_nt f64 N_unary (skip_ws q) = Inr (r, q') \<Longrightarrow> reads N_unary (skip_ws q) r q'"
    and primary: "parse_nt f64 N_primary (skip_ws p) = Inr (e, p') \<Longrightarrow> reads N_primary (skip_ws p) e p'"
  shows "reads N_unary_inner p e p'"
proof -
  note step = trans [OF parse_nt.simps(3) [symmetric] assms(1)]
  have prefix: "reads N_unary_inner p (UnaryOp u r) p'"
    if "silent (skip_ws p) q" "forward p q" "parse_nt f64 N_unary (skip_ws q) = Inr (r, p')" for q r u
    using operand [OF that(2,3)] that(1) by (simp add: reads_def silent_def)
  show ?thesis
  proof (cases "eat_keyword ''not'' (skip_ws p)")
    case (Some p2)
    with step show ?thesis using silent_keyword [OF _ Some]
      by (auto simp: Let_def result_simps stuck_def split: if_splits intro!: prefix)
  next
    case None
    with step consider (neg) r where "peek (skip_ws p) = Some (CHR ''-'')" "forward p (advance_by 1 (skip_ws p))"
        "parse_nt f64 N_unary (skip_ws (advance_by 1 (skip_ws p))) = Inr (r, p')" "e = UnaryOp OpNeg r"
      | (prim) "parse_nt f64 N_primary (skip_ws p) = Inr (e, p')"
      by (auto simp: Let_def result_simps stuck_def split: if_splits)
    then show ?thesis
    proof cases
      case neg
      then show ?thesis using prefix [OF silent_one] by auto
    next
      case prim
      from primary [OF prim] show ?thesis by (simp add: reads_def)
    qed
  qed
qed

lemma reads_level:
  assumes "reads (level_below level) p lhs p1" and "reads (N_loop level lhs) p1 e p'" and "held_vars level = {}" and "held_strings level = {}"
  shows "reads level p e p'"
proof -
  have none: "held_strings (level_below level) = {}" "held_vars (level_below level) = {}" by (cases level; simp)+
  have "quiet (expr_strings e) \<Longrightarrow> quiet (expr_strings lhs)" using assms(2) by (auto simp: reads_def intro: quiet_mono)
  then show ?thesis using assms none by (auto simp: reads_def)
qed

lemma forward_skip: "forward p q \<Longrightarrow> forward p (skip_ws q)"
  using length_takeWhile_le [of is_ascii_ws "rest q"] by (auto simp: forward_def skip_ws_def advance_by_def rest_def)

lemma parse_nt_reads: "parse_nt f64 nt p = Inr (e, p') \<Longrightarrow> reads nt p e p'"
proof (induction "(nt, p)" arbitrary: nt p e p' rule: wf_induct_rule [OF wf_parse_order])
  case (1 nt p)
  note IH = "1.hyps"
  note ahead = IH [OF forward_smaller]
  note aheadw = ahead [OF forward_skip]
  have here: "reads nt' (skip_ws p) r q'" if "rank nt' < rank nt" "parse_nt f64 nt' (skip_ws p) = Inr (r, q')" for nt' r q'
    using that(1) by (intro IH [OF _ that(2)]) (auto simp: parse_order_def skip_ws_def advance_by_def)
  have level: "reads nt p e p'"
    if step: "parse_nt f64 nt p = bind_res (parse_nt f64 (level_below nt) p)
           (\<lambda>(lhs, p1). if forward p p1 then parse_nt f64 (N_loop nt lhs) p1 else stuck)"
      and below: "rank (level_below nt) < rank nt" "held_vars nt = {}" "held_strings nt = {}"
  proof -
    from "1.prems" step obtain lhs p1 where l: "parse_nt f64 (level_below nt) p = Inr (lhs, p1)"
      and f: "forward p p1" and n: "parse_nt f64 (N_loop nt lhs) p1 = Inr (e, p')"
      by (auto simp: result_simps stuck_def split: if_splits)
    have "((level_below nt, p), (nt, p)) \<in> parse_order" using below by (auto simp: parse_order_def)
    from reads_level [OF IH [OF this l] ahead [OF f n] below(2,3)] show ?thesis .
  qed
  show ?case
  proof (cases nt)
    case (N_loop level lhs)
    show ?thesis unfolding N_loop by (rule reads_loop [OF "1.prems"[unfolded N_loop]]) (blast intro: ahead aheadw)+
  next
    case N_primary
    show ?thesis unfolding N_primary by (rule reads_primary [OF "1.prems"[unfolded N_primary]]) (blast intro: ahead aheadw)+
  next
    case N_unary
    let ?q = "p\<lparr>ps_depth := ps_depth p + 1, ps_terms := ps_terms p + 1\<rparr>"
    from trans [OF parse_nt.simps(2) [symmetric] "1.prems" [unfolded N_unary]] obtain q where lim: "ps_depth p < MAX_EXPRESSION_DEPTH"
      and n: "parse_nt f64 N_unary_inner ?q = Inr (e, q)" and q: "p' = q\<lparr>ps_depth := ps_depth q - 1\<rparr>"
      by (auto simp: result_simps not_le split: if_splits)
    have "((N_unary_inner, ?q), (nt, p)) \<in> parse_order" using lim by (auto simp: parse_order_def)
    from IH [OF this n] show ?thesis unfolding N_unary q by (simp add: reads_def rest_def)
  next
    case N_unary_inner
    have "reads N_primary (skip_ws p) e p'" if "parse_nt f64 N_primary (skip_ws p) = Inr (e, p')"
      using here [of N_primary] that N_unary_inner by simp
    then show ?thesis unfolding N_unary_inner
      by (intro reads_unary_inner [OF "1.prems"[unfolded N_unary_inner]]) (blast intro: ahead aheadw)+
  next
    case (N_args name args)
    have "reads N_or (skip_ws p) r q'" if "parse_nt f64 N_or (skip_ws p) = Inr (r, q')" for r q'
      using here [of N_or] that N_args by simp
    then show ?thesis unfolding N_args
      by (intro reads_args [OF "1.prems"[unfolded N_args]]) (blast intro: ahead aheadw)+
  qed (use level in \<open>auto simp: parse_nt.simps(6-10)\<close>)
qed

definition parsed_refs :: "(string \<Rightarrow> 64 word option) \<Rightarrow> string \<Rightarrow> string set" where
  "parsed_refs f64 e = (case parse f64 e of Inr ast \<Rightarrow> expr_vars ast - {[]} | Inl _ \<Rightarrow> {})"

lemma parsed_refs_text:
  assumes "parse f64 e = Inr ast" and "quiet (expr_strings ast)"
  shows "parsed_refs f64 e = text_refs e"
proof -
  from assms(1) obtain p where p: "parse_nt f64 N_or (skip_ws (new_parser e)) = Inr (ast, p)" "length (ps_input p) \<le> ps_pos (skip_ws p)"
    by (auto simp: parse_def parse_or_def result_simps Let_def skip_ws_def advance_by_def not_less split: if_splits)
  have "rest (skip_ws p) = []" using p(2) by (simp add: rest_def skip_ws_def advance_by_def)
  then have "scan (rest p) = {}" using scan_ws [of p] by simp
  moreover have "scan (rest (new_parser e)) = expr_vars ast - {[]} \<union> scan (rest p)"
    using parse_nt_reads [OF p(1)] assms(2) by (simp add: reads_def)
  ultimately show ?thesis using assms(1) by (simp add: parsed_refs_def scan_exact [symmetric] rest_def new_parser_def)
qed

section \<open>The integrity pass\<close>

text \<open>No string literal of an expression contains \<^verbatim>\<open>${\<close>.\<close>

definition quiet_strings :: "(string \<Rightarrow> 64 word option) \<Rightarrow> document_state \<Rightarrow> bool" where
  "quiet_strings f64 s \<longleftrightarrow> (\<forall>node \<in> set (undeleted s). \<forall>field \<in> set EXPRESSION_FIELDS.
     case expression_of node field of
       None \<Rightarrow> True
     | Some e \<Rightarrow> (case parse f64 e of Inl _ \<Rightarrow> True | Inr ast \<Rightarrow> quiet (expr_strings ast)))"

lemma integrity_sound_cong:
  assumes "\<And>node field e. node \<in> set (undeleted s) \<Longrightarrow> field \<in> set EXPRESSION_FIELDS \<Longrightarrow> expression_of node field = Some e \<Longrightarrow> refs e = refs' e"
  shows "integrity_sound refs f64 s \<longleftrightarrow> integrity_sound refs' f64 s"
proof -
  have "''relevance'' \<in> set EXPRESSION_FIELDS" by (simp add: EXPRESSION_FIELDS_def)
  then have "relevance_rel refs s \<subseteq> relevance_rel refs' s" "relevance_rel refs' s \<subseteq> relevance_rel refs s"
    using assms unfolding relevance_rel_def by (auto; metis)+
  then have "relevance_rel refs s = relevance_rel refs' s" by blast
  moreover have "(\<forall>node \<in> set (undeleted s). \<forall>field \<in> set EXPRESSION_FIELDS. \<forall>e. expression_of node field = Some e \<longrightarrow>
          (\<forall>var \<in> refs e. \<exists>target \<in> set (undeleted s). defines_var target var))
      \<longleftrightarrow> (\<forall>node \<in> set (undeleted s). \<forall>field \<in> set EXPRESSION_FIELDS. \<forall>e. expression_of node field = Some e \<longrightarrow>
          (\<forall>var \<in> refs' e. \<exists>target \<in> set (undeleted s). defines_var target var))"
    by (intro ball_cong all_cong imp_cong refl) (simp add: assms)
  ultimately show ?thesis unfolding integrity_sound_def by (simp only:)
qed

lemma blank_no_refs: "trim_is_empty e \<Longrightarrow> text_refs e = {}"
proof -
  assume e: "trim_is_empty e"
  have "CHR ''$'' \<notin> set ch" if "is_whitespace ch" for ch
  proof
    assume "CHR ''$'' \<in> set ch"
    then have "(36::nat) \<in> set (map of_char ch)" by force
    with that show False unfolding is_whitespace_def Let_def
      by (auto simp: length_Suc_conv numeral_3_eq_3)
  qed
  then have "CHR ''$'' \<notin> (\<Union>ch \<in> set (chars e). set ch)" using e by (auto simp: trim_is_empty_def list_all_iff)
  then have "CHR ''$'' \<notin> set e" using set_concat [of "chars e"] by simp
  then show ?thesis using scan_plain [of e "[]"] scan_exact [of e] by simp
qed

lemma validate_integrity_text: "bt_ok (ds_nodes s) \<Longrightarrow> nodes_typed s \<Longrightarrow> validate_integrity f64 s = [] \<longleftrightarrow> integrity_sound text_refs f64 s"
  using validate_integrity_empty_iff [of s f64] by (simp add: scan_def [symmetric] scan_exact [abs_def])

lemma integrity_sound_parsed:
  assumes "quiet_strings f64 s"
  shows "integrity_sound text_refs f64 s \<longleftrightarrow> integrity_sound (parsed_refs f64) f64 s"
proof (cases "\<forall>node \<in> set (undeleted s). \<forall>field \<in> set EXPRESSION_FIELDS. \<forall>e. expression_of node field = Some e \<longrightarrow>
    \<not> trim_is_empty e \<longrightarrow> (\<exists>ast. parse f64 e = Inr ast)")
  case True
  have "text_refs e = parsed_refs f64 e" if "node \<in> set (undeleted s)" "field \<in> set EXPRESSION_FIELDS" "expression_of node field = Some e" for node field e
  proof (cases "parse f64 e")
    case (Inl err)
    then have "\<nexists>ast. parse f64 e = Inr ast" by simp
    with True that have "trim_is_empty e" by metis
    then show ?thesis using blank_no_refs Inl by (simp add: parsed_refs_def)
  next
    case (Inr ast)
    with assms that have "quiet (expr_strings ast)" unfolding quiet_strings_def by fastforce
    with Inr show ?thesis by (simp add: parsed_refs_text)
  qed
  then show ?thesis by (rule integrity_sound_cong)
next
  case False
  then show ?thesis unfolding integrity_sound_def by blast
qed

end
