(* ===== verification/Document_Properties.thy ===== *)
theory Document_Properties
  imports Sample Var_Refs
begin

text \<open>
  The properties of the document core: replay of validated logs, the well-formedness invariant, the
  structural diagnostics, the integrity pass and the governance gate, each with a witness on the
  questionnaire of \<^verbatim>\<open>Sample\<close> where it has hypotheses.
\<close>

section \<open>Replay\<close>

text \<open>The log so far replays to the state of the writer, who validates each operation before applying it.\<close>

lemma accepted_prefix:
  assumes decoded: "map (\<lambda>ev. decode (ev_payload ev)) evs = map Inr ops"
    and accepted: "\<And>i s. i < length ops \<Longrightarrow> fold_events sha ser decode (take i evs) = Inr s \<Longrightarrow> validate_op sha ser decode s (ops ! i) = Inr ()"
  shows "i \<le> length ops \<Longrightarrow> \<exists>s. fold_events sha ser decode (take i evs) = Inr s
    \<and> guarded_run (validate_op sha ser decode) (apply_payload sha ser) empty_state (take i ops) = Inr s"
proof (induction i)
  case 0
  show ?case by (simp add: fold_events_def)
next
  case (Suc i)
  then obtain s where s: "fold_events sha ser decode (take i evs) = Inr s"
      "guarded_run (validate_op sha ser decode) (apply_payload sha ser) empty_state (take i ops) = Inr s" by auto
  have len: "length evs = length ops" using decoded by (metis length_map)
  have v: "validate_op sha ser decode s (ops ! i) = Inr ()" using accepted [OF _ s(1)] Suc.prems by simp
  obtain t where t: "apply_payload sha ser s (ops ! i) = Inr t" using validated_op_applies [OF doc.reachable_inv [OF s(2)] v] by blast
  have "decode (ev_payload (evs ! i)) = Inr (ops ! i)" using arg_cong [OF decoded, of "\<lambda>xs. xs ! i"] Suc.prems len by simp
  then have "fold_into sha ser decode s [evs ! i] = Inr t" using t by simp
  moreover have "take (Suc i) evs = take i evs @ [evs ! i]" "take (Suc i) ops = take i ops @ [ops ! i]"
    using Suc.prems len by (simp_all add: take_Suc_conv_app_nth)
  ultimately show ?case using s v t by (simp add: fold_events_def fold_into_append guarded_run_snoc)
qed

text \<open>C1: A log of accepted operations replays. Let every operation of a log be one that \<^verbatim>\<open>validate_op\<close> accepts on the state that
  the events before it replay to, if they do. Then the whole log replays without error, to the state that validating and
  applying the operations one by one gives, and that state is well-formed: ids match keys, fields are objects, parents exist, there
  is no parent cycle, live variable names are unique and containment is legal.\<close>

theorem validated_log_replays:
  assumes "map (\<lambda>ev. decode (ev_payload ev)) evs = map Inr ops"
    and "\<And>i s. i < length ops \<Longrightarrow> fold_events sha ser decode (take i evs) = Inr s \<Longrightarrow> validate_op sha ser decode s (ops ! i) = Inr ()"
  shows "\<exists>s. fold_events sha ser decode evs = Inr s
    \<and> guarded_run (validate_op sha ser decode) (apply_payload sha ser) empty_state ops = Inr s \<and> state_ok s"
proof -
  have "length evs = length ops" using assms(1) by (metis length_map)
  with accepted_prefix [of decode evs ops sha ser "length ops", OF assms] show ?thesis using doc.reachable_inv by fastforce
qed

definition sample_event :: "int \<Rightarrow> json \<Rightarrow> event" where
  "sample_event seq payload =
     \<lparr>ev_id = ''01ARZ3NDEKTSV4RRFFQ69G5FAV'', ev_document_id = [], ev_seq = seq, ev_event_type = [],
      ev_actor_id = [], ev_target_node_id = None, ev_payload = payload, ev_content_hash = [],
      ev_prev_chain_hash = [], ev_chain_hash = [], ev_created_at = 0\<rparr>"

definition index_decode :: decoder where
  "index_decode v =
     (case v of JArr xs \<Rightarrow> (if length xs < length sample_ops then Inr (sample_ops ! length xs) else sample_decode v)
      | _ \<Rightarrow> sample_decode v)"

definition sample_log :: "event list" where
  "sample_log = map (\<lambda>i. sample_event (int i) (JArr (replicate i JNull))) [0..<5]"

lemma sample_log_accepted:
  "list_all (\<lambda>i. case fold_events sample_sha sample_ser index_decode (take i sample_log) of
      Inr s \<Rightarrow> validate_op sample_sha sample_ser index_decode s (take 5 sample_ops ! i) = Inr () | Inl _ \<Rightarrow> False) [0..<5]"
  by code_simp

theorem validated_log_replays_witness:
  "\<exists>s. fold_events sample_sha sample_ser index_decode sample_log = Inr s \<and> state_ok s"
proof -
  have dec: "map (\<lambda>ev. index_decode (ev_payload ev)) sample_log = map Inr (take 5 sample_ops)" by code_simp
  have "validate_op sample_sha sample_ser index_decode s (take 5 sample_ops ! i) = Inr ()"
    if "i < length (take 5 sample_ops)" "fold_events sample_sha sample_ser index_decode (take i sample_log) = Inr s" for i s
  proof -
    have "i \<in> set [0..<5]" using that(1) by simp
    from bspec [OF sample_log_accepted [unfolded list_all_iff] this] that(2) show ?thesis by simp
  qed
  from validated_log_replays [of index_decode sample_log "take 5 sample_ops" sample_sha sample_ser, OF dec this] show ?thesis by blast
qed

text \<open>In a run that validates every operation before applying it, the fold itself never fails: the only
  errors are the refusals of \<^verbatim>\<open>validate_op\<close>.\<close>

theorem validated_run_never_fails_in_fold:
  "guarded_run (validate_op sha ser decode) (apply_payload sha ser) empty_state ops \<noteq> Inl (Inr f)"
  by (rule doc.run_never_fails_in_fold [OF state_ok_empty])

text \<open>Every operation that \<^verbatim>\<open>validate_op\<close> accepts on a well-formed state applies without error and gives a
  well-formed state.\<close>

theorem validated_op_sound:
  assumes "state_ok s" and "validate_op sha ser decode s op = Inr ()"
  shows "\<exists>s'. apply_payload sha ser s op = Inr s' \<and> state_ok s'"
  using validated_op_applies [OF assms] validated_op_preserves [OF assms] by blast

theorem validated_op_sound_witness:
  "\<exists>s'. apply_payload sample_sha sample_ser sample_state (NodeMoved ''r'' (Some ''f'') ''c'') = Inr s' \<and> state_ok s'"
proof (rule validated_op_sound [OF sample_state_ok])
  show "validate_op sample_sha sample_ser sample_decode sample_state (NodeMoved ''r'' (Some ''f'') ''c'') = Inr ()"
    by code_simp
qed

text \<open>C35: The bounded upward walk \<^verbatim>\<open>is_descendant_of\<close> that guards moves is exact: it answers true precisely for
  the proper descendants of \<open>ancestor\<close>, on every state, cyclic ones included; its bound of
  \<^verbatim>\<open>nodes.len()\<close> steps never cuts a walk short.\<close>

theorem is_descendant_of_exact: "is_descendant_of s candidate ancestor \<longleftrightarrow> (ancestor, candidate) \<in> (parent_rel s)\<^sup>+"
  by (rule is_descendant_of_iff)

section \<open>Typing of replayed states\<close>

lemma typed_insert:
  assumes "nodes_typed s" and "ds_nodes t = bt_insert n node (ds_nodes s)"
    and "mn_id node = n" and "is_object (mn_current_fields node)" and "parse_node_type (mn_node_type node) \<noteq> None"
  shows "nodes_typed t"
  using assms by (simp add: nodes_typed_def)

lemma typed_update_node:
  assumes "bt_ok (ds_nodes s) \<and> nodes_typed s" and "update_node s n f = Inr t"
    and "\<And>node node'. f node = Inr node' \<Longrightarrow> is_object (mn_current_fields node) \<Longrightarrow>
      mn_id node' = mn_id node \<and> is_object (mn_current_fields node') \<and> mn_node_type node' = mn_node_type node"
  shows "bt_ok (ds_nodes t) \<and> nodes_typed t"
proof -
  from assms(2) obtain node node' where get: "bt_get (ds_nodes s) n = Some node" and f: "f node = Inr node'"
    and t: "t = s\<lparr>ds_nodes := bt_insert n node' (ds_nodes s)\<rparr>"
    by (auto simp: update_node_def result_simps split: option.splits)
  from assms(1) get have "mn_id node = n" "is_object (mn_current_fields node)" "parse_node_type (mn_node_type node) \<noteq> None"
    by (auto simp: nodes_typed_def)
  with assms(3) [OF f] have "nodes_typed t"
    by (intro typed_insert [of s t n node', OF conjunct2 [OF assms(1)]]) (simp_all add: t)
  with assms(1) t show ?thesis by simp
qed

lemma is_object_object_or_value [simp]: "is_object (object_or_value v)"
  by (cases v) simp_all

lemma update_suggestion_nodes: "update_suggestion s sid f = Inr t \<Longrightarrow> ds_nodes t = ds_nodes s"
  by (auto simp: update_suggestion_def split: option.splits)

lemma apply_payload_typed:
  assumes ok: "bt_ok (ds_nodes s) \<and> nodes_typed s" and "apply_payload sha ser s op = Inr t"
  shows "bt_ok (ds_nodes t) \<and> nodes_typed t"
proof -
  have same: "bt_ok (ds_nodes u) \<and> nodes_typed u" if "ds_nodes u = ds_nodes s" for u
    using ok that by (simp add: nodes_typed_def)
  note upd = typed_update_node [OF ok]
  show ?thesis
    using assms(2)
  proof (cases op)
    case (NodeRestored n)
    with assms(2) obtain u where u: "update_node s n (\<lambda>node. Inr (node\<lparr>mn_deleted := False\<rparr>)) = Inr u"
      and "ds_nodes t = ds_nodes u" by (cases "update_node s n (\<lambda>node. Inr (node\<lparr>mn_deleted := False\<rparr>))") auto
    moreover have "bt_ok (ds_nodes u) \<and> nodes_typed u" by (rule upd [OF u]) auto
    ultimately show ?thesis by (simp add: nodes_typed_def)
  next
    case (RichTextPatched n patch)
    with assms(2) show ?thesis
      by (simp only: apply_payload.simps) (erule upd, auto simp: is_object_iff result_simps)
  next
    case (FieldEdited n field v)
    with assms(2) show ?thesis
      by (simp only: apply_payload.simps) (erule upd, auto simp: is_object_iff Let_def split: if_splits)
  next
    case (ChoiceAdded n choice flds)
    with assms(2) ok show ?thesis by (auto simp: nodes_typed_def split: if_splits)
  next
    case (NodeCreated n nt parent pos flds var)
    with assms(2) ok show ?thesis by (auto simp: nodes_typed_def split: if_splits)
  next
    case (NodeMoved n parent pos)
    with assms(2) show ?thesis by (simp only: apply_payload.simps) (erule upd, auto)
  next
    case (NodeDeleted n)
    with assms(2) show ?thesis by (simp only: apply_payload.simps) (erule upd, auto)
  qed (auto intro!: same dest: update_suggestion_nodes)
qed

lemma apply_payload_objects:
  assumes "nodes_typed s"
  shows "apply_payload sha ser s op \<noteq> Inl (AE_NonObjectFields n)"
proof -
  have obj: "\<exists>m. mn_current_fields node = JObj m" if "bt_get (ds_nodes s) k = Some node" for k node
    using assms that by (auto simp: nodes_typed_def is_object_iff)
  show ?thesis
    by (cases op) (auto simp: state_updates result_simps Let_def map_sum_def split: option.splits sum.splits json.splits dest!: obj)
qed
text \<open>C28: Replay is type-safe for every log, validated or not: a state it returns keeps each node under its own id,
  with an object as its fields and a known node type, in strictly increasing key order; and the error
  \<^verbatim>\<open>NonObjectFields\<close> is never returned.\<close>

theorem replayed_states_are_typed:
  "case fold_events sha ser decode evs of
     Inr s \<Rightarrow> bt_ok (ds_nodes s) \<and> nodes_typed s
   | Inl e \<Rightarrow> \<not> (\<exists>seq n. e = ME_NonObjectFields seq n)"
proof -
  have "case fold_into sha ser decode s evs of
     Inr t \<Rightarrow> bt_ok (ds_nodes t) \<and> nodes_typed t
   | Inl e \<Rightarrow> \<not> (\<exists>seq n. e = ME_NonObjectFields seq n)" if "bt_ok (ds_nodes s) \<and> nodes_typed s" for s
    using that
  proof (induction evs arbitrary: s)
    case (Cons ev evs)
    show ?case
    proof (cases "decode (ev_payload ev)")
      case (Inr op)
      show ?thesis
      proof (cases "apply_payload sha ser s op")
        case (Inl e)
        with apply_payload_objects [OF conjunct2 [OF Cons.prems]] have "\<not> (\<exists>n. e = AE_NonObjectFields n)" by blast
        with Inl Inr show ?thesis by (cases e) simp_all
      next
        case (Inr t)
        with Cons.IH [OF apply_payload_typed [OF Cons.prems Inr]] \<open>decode (ev_payload ev) = Inr op\<close>
        show ?thesis by simp
      qed
    qed simp
  qed simp
  moreover have "bt_ok (ds_nodes empty_state) \<and> nodes_typed empty_state"
    by (simp add: empty_state_def nodes_typed_def)
  ultimately show ?thesis by (simp add: fold_events_def)
qed

section \<open>Compaction\<close>

lemma make_patch_checked:
  assumes "make_patch sha ser myers before after = Some (Some patch)"
  shows "apply_patch sha ser before patch = Inr after"
  using assms by (auto simp: make_patch_def Let_def split: option.splits if_splits)

text \<open>C34: Storing an edit in its compacted form loses nothing: when the edit applies, so does the event
  \<^verbatim>\<open>compact_event\<close> stores in its place, and the states agree, except that a stored text patch also sets the
  \<^verbatim>\<open>label\<close> of the node to the plain text of the new content.\<close>

theorem compaction_keeps_the_edit:
  assumes "compact_event sha ser myers wire_len s op = Some op'" and "apply_payload sha ser s op = Inr t"
  shows "apply_payload sha ser s op' = Inr t
    \<or> (\<exists>n value node flds. op = FieldEdited n ''content'' value
         \<and> bt_get (ds_nodes s) n = Some node \<and> mn_current_fields node = JObj flds
         \<and> apply_payload sha ser s op' = Inr (s\<lparr>ds_nodes := bt_insert n
             (node\<lparr>mn_current_fields := JObj (bt_insert ''content'' value
                (bt_insert ''label'' (JStr (plain_text value)) flds))\<rparr>) (ds_nodes s)\<rparr>))"
proof (cases "op' = op")
  case False
  with assms(1) obtain n field v where op: "op = FieldEdited n field v"
    by (cases op) simp_all
  from assms(1) False obtain node flds base patch where field: "field = ''content''"
    and node: "bt_get (ds_nodes s) n = Some node" and flds: "mn_current_fields node = JObj flds"
    and base: "bt_get flds ''content'' = Some base"
    and patch: "make_patch sha ser myers base v = Some (Some patch)" and op': "op' = RichTextPatched n patch"
    unfolding op by (auto simp: Let_def json_get_Some_iff split: if_splits option.splits)
  have "apply_payload sha ser s op' = Inr (s\<lparr>ds_nodes := bt_insert n
             (node\<lparr>mn_current_fields := JObj (bt_insert ''content'' v
                (bt_insert ''label'' (JStr (plain_text v)) flds))\<rparr>) (ds_nodes s)\<rparr>)"
    using make_patch_checked [OF patch] node flds base by (simp add: op' update_node_def)
  with op field node flds show ?thesis by blast
qed (use assms in simp)

definition sample_paragraph :: "string \<Rightarrow> json" where
  "sample_paragraph t = JObj [(''content'', JArr [JObj [(''text'', JStr t), (''type'', JStr ''text'')]]),
     (''type'', JStr ''paragraph'')]"

definition sample_note :: document_state where
  "sample_note = empty_state\<lparr>ds_nodes :=
     [(''n'', sample_node ''n'' None ''item'' ''a'' (JObj [(''content'', sample_paragraph ''a'')]) None)]\<rparr>"

definition replace_all :: differ where
  "replace_all a b = [DReplace 0 (length a) 0 (length b)]"

definition sample_edit :: event_payload where
  "sample_edit = FieldEdited ''n'' ''content'' (sample_paragraph ''ab'')"

lemma sample_compaction:
  "case compact_event sample_sha sample_ser replace_all (\<lambda>op. if op = sample_edit then 1 else 0) sample_note
     sample_edit of
     Some op \<Rightarrow> op \<noteq> sample_edit | None \<Rightarrow> False"
  "is_ok (apply_payload sample_sha sample_ser sample_note sample_edit)"
  by code_simp+

theorem compaction_keeps_the_edit_witness:
  "\<exists>op t. op \<noteq> sample_edit \<and> apply_payload sample_sha sample_ser sample_note op = Inr t
     \<and> compact_event sample_sha sample_ser replace_all (\<lambda>op. if op = sample_edit then 1 else 0) sample_note
         sample_edit = Some op"
proof -
  from sample_compaction obtain op t where "op \<noteq> sample_edit"
    and "compact_event sample_sha sample_ser replace_all (\<lambda>op. if op = sample_edit then 1 else 0) sample_note
      sample_edit = Some op"
    and "apply_payload sample_sha sample_ser sample_note sample_edit = Inr t"
    by (auto simp: is_ok_iff split: option.splits)
  with compaction_keeps_the_edit [OF this(2,3)] show ?thesis by blast
qed

section \<open>Snapshots\<close>

text \<open>Recovering from a snapshot of a prefix of the log and folding the remaining events gives the same
  result, state or error, as folding the whole log.\<close>

theorem snapshot_tail_equals_full_fold:
  assumes "fold_events sha ser decode head = Inr s" and "decode_state snapshot = Inr s"
  shows "from_snapshot sha ser decode decode_state snapshot tail = fold_events sha ser decode (head @ tail)"
  using assms by (simp add: from_snapshot_def fold_events_def fold_into_append)

theorem snapshot_tail_equals_full_fold_witness:
  "\<exists>s. fold_events sample_sha sample_ser index_decode (take 2 sample_log) = Inr s
     \<and> from_snapshot sample_sha sample_ser index_decode (\<lambda>_. Inr s) JNull (drop 2 sample_log)
         = fold_events sample_sha sample_ser index_decode (take 2 sample_log @ drop 2 sample_log)"
proof -
  have "is_ok (fold_events sample_sha sample_ser index_decode (take 2 sample_log))" by code_simp
  then obtain s where "fold_events sample_sha sample_ser index_decode (take 2 sample_log) = Inr s"
    by (auto simp: is_ok_iff)
  with snapshot_tail_equals_full_fold [of _ _ _ _ s "\<lambda>_. Inr s"] show ?thesis by blast
qed

section \<open>Structural diagnostics\<close>

text \<open>C27: \<^verbatim>\<open>check_invariants\<close> reports nothing exactly when the live structure is sound: keys match ids, live
  parents are live, there is no cycle among live nodes and live variable names are unique.\<close>

theorem check_invariants_exact:
  assumes "bt_ok (ds_nodes s)"
  shows "check_invariants s = [] \<longleftrightarrow> structurally_sound s"
  by (rule check_invariants_empty_iff [OF assms])

theorem check_invariants_exact_witness:
  "bt_ok (ds_nodes sample_state) \<and> structurally_sound sample_state"
proof -
  have ok: "bt_ok (ds_nodes sample_state)" using sample_state_ok by (simp add: state_ok_def)
  moreover have "check_invariants sample_state = []" by code_simp
  ultimately show ?thesis using check_invariants_exact [OF ok] by blast
qed

text \<open>On every state reached through \<^verbatim>\<open>validate_op\<close>, \<^verbatim>\<open>check_invariants\<close> reports no id mismatch, missing
  parent, cycle or duplicate name; the only violation it can report is a live node under a parent that is
  not live.\<close>

theorem reachable_violations:
  assumes "guarded_run (validate_op sha ser decode) (apply_payload sha ser) empty_state ops = Inr s"
    and "v \<in> set (check_invariants s)"
  shows "\<exists>k p. v = NonLiveParent k p"
  using state_ok_violations [OF doc.reachable_inv [OF assms(1)] assms(2)] .

definition removing_ops :: "event_payload list" where
  "removing_ops = take 3 sample_ops @ [ChoiceRemoved ''f'' ''s'']"

definition removed_state :: document_state where
  "removed_state = sample_state\<lparr>
     ds_nodes := [(''f'', sample_node ''f'' None ''form'' ''a'' (JObj []) None),
         (''q'', sample_node ''q'' (Some ''s'') ''item'' ''a'' (JObj [(''question_type'', JStr ''select_one'')]) (Some ''age'')),
         (''s'', sample_node ''s'' (Some ''f'') ''section'' ''a'' (JObj [(''kind'', JStr ''sheet'')]) None)],
     ds_suggestions := [], ds_removed_choices := [''s'']\<rparr>"

lemma removing_run:
  "guarded_run (validate_op sample_sha sample_ser sample_decode) (apply_payload sample_sha sample_ser)
     empty_state removing_ops = Inr removed_state"
  by code_simp

theorem reachable_violations_witness:
  "NonLiveParent ''q'' ''s'' \<in> set (check_invariants removed_state) \<and> (\<exists>k p. NonLiveParent ''q'' ''s'' = NonLiveParent k p)"
proof -
  have "NonLiveParent ''q'' ''s'' \<in> set (check_invariants removed_state)" by code_simp
  with reachable_violations [OF removing_run] show ?thesis by blast
qed

text \<open>If every \<^verbatim>\<open>ChoiceRemoved\<close> of a validated run names a node of type choice, \<^verbatim>\<open>check_invariants\<close>
  reports nothing on the state reached.\<close>

theorem choice_safe_runs_are_sound:
  assumes "guarded_run (validate_choice_safe sha ser decode) (apply_payload sha ser) empty_state ops = Inr s"
  shows "check_invariants s = []"
  by (rule strict_ok_sound [OF choice_safe.reachable_inv [OF assms]])

theorem choice_safe_runs_are_sound_witness: "check_invariants sample_state = []"
proof (rule choice_safe_runs_are_sound)
  show "guarded_run (validate_choice_safe sample_sha sample_ser sample_decode) (apply_payload sample_sha sample_ser)
     empty_state sample_ops = Inr sample_state"
    by code_simp
qed




section \<open>Referential integrity\<close>


lemma sample_clean: "validate_integrity sample_f64 sample_state = []"
  by code_simp



text \<open>The search of \<^verbatim>\<open>find_relevance_cycles\<close> reports no cycle exactly when the graph it is given is acyclic.\<close>

theorem relevance_search_exact:
  "df_violations (fold (dfs_cycles adjacency) (map fst adjacency) new_dfs) = [] \<longleftrightarrow>
     acyclic {(a, b). b \<in> set (targets_of adjacency a)}"
  using cycles_empty_iff [of adjacency] by (simp add: graph_rel_def)

section \<open>The governance gate\<close>

text \<open>Neither \<^verbatim>\<open>authorize\<close> nor \<^verbatim>\<open>plan_acceptance\<close> panics: the node indexed by the sheet check exists and
  the \<^verbatim>\<open>expect\<close> on the suggestion holds, whatever the state.\<close>

theorem gate_never_panics:
  "authorize sha ser decode f64 r op s \<noteq> None \<and> plan_acceptance sha ser decode f64 r s sid \<noteq> None"
  by (simp add: authorize_total plan_acceptance_total del: not_None_eq)

text \<open>A deployment of a well-formed document is authorised exactly for an author and a sound instrument.\<close>

theorem deploy_gate:
  assumes "state_ok s"
  shows "authorize sha ser decode f64 r (Deployed snapshot) s = Some (Inr ()) \<longleftrightarrow> r = Author \<and> integrity_sound text_refs f64 s"
proof -
  have "validate_integrity f64 s = [] \<longleftrightarrow> integrity_sound text_refs f64 s"
    using assms by (intro validate_integrity_text) (auto simp: state_ok_def)
  then show ?thesis by (cases r) (auto simp: authorize_ok_iff blocked_error_def)
qed

theorem deploy_gate_witness:
  "authorize sample_sha sample_ser sample_decode sample_f64 Author (Deployed None) sample_state = Some (Inr ())
     \<and> integrity_sound text_refs sample_f64 sample_state"
proof -
  have "authorize sample_sha sample_ser sample_decode sample_f64 Author (Deployed None) sample_state = Some (Inr ())"
    by (simp add: authorize_ok_iff blocked_error_def sample_clean)
  with deploy_gate [OF sample_state_ok] show ?thesis by blast
qed

text \<open>An operation authorised for a reviewer leaves every node, every removed choice and every existing
  proposal as it is; nothing is ever authorised for an auditor.\<close>

theorem reviewers_write_no_content:
  assumes "authorize sha ser decode f64 r op s = Some (Inr ())" and "r \<noteq> Author"
    and "apply_payload sha ser s op = Inr s'"
  shows "r = Reviewer \<and> ds_nodes s' = ds_nodes s \<and> ds_removed_choices s' = ds_removed_choices s
    \<and> (\<forall>sid g. bt_get (ds_suggestions s) sid = Some g \<longrightarrow> bt_get (ds_suggestions s') sid = Some g)"
proof -
  have "can_perform r op" using assms(1) by (simp add: authorize_ok_iff)
  with assms(2) have r: "r = Reviewer" by (cases r) auto
  show ?thesis
  proof (cases op)
    case (SuggestionProposed sid target detail)
    with assms(1) have "bt_get (ds_suggestions s) sid = None"
      by (auto simp: authorize_ok_iff bt_contains_def result_simps split: if_splits)
    with SuggestionProposed assms(3) r show ?thesis by auto
  qed (use \<open>can_perform r op\<close> r assms(3) in auto)
qed

definition sample_proposal :: event_payload where
  "sample_proposal = SuggestionProposed ''n'' None (JStr ''qa'')"

theorem reviewers_write_no_content_witness:
  "\<exists>s'. apply_payload sample_sha sample_ser sample_state sample_proposal = Inr s' \<and> ds_nodes s' = ds_nodes sample_state"
proof -
  have a: "authorize sample_sha sample_ser sample_decode sample_f64 Reviewer sample_proposal sample_state = Some (Inr ())"
    by code_simp
  obtain s' where s': "apply_payload sample_sha sample_ser sample_state sample_proposal = Inr s'"
    by (simp add: sample_proposal_def)
  from reviewers_write_no_content [OF a _ s'] s' show ?thesis by blast
qed

text \<open>Sheet protection is exact on a well-formed state: a node is protected precisely when it or one of its
  ancestors is a worksheet with the protection flag set; the bound of the walk never matters.\<close>

theorem protection_covers_subtree:
  assumes "state_ok s" and "bt_get (ds_nodes s) n \<noteq> None"
  shows "protected s n \<longleftrightarrow>
    (\<exists>a node. (a, n) \<in> (parent_rel s)\<^sup>* \<and> bt_get (ds_nodes s) a = Some node \<and> protecting node)"
  by (rule protected_iff [OF assms])

definition locked_state :: document_state where
  "locked_state = sample_state\<lparr>ds_nodes := bt_insert ''s''
     (sample_node ''s'' (Some ''f'') ''section'' ''a''
        (JObj [(''kind'', JStr ''sheet''), (''sheet_protected'', JBool True)]) None) (ds_nodes sample_state)\<rparr>"

lemma locked_run:
  "guarded_run (validate_op sample_sha sample_ser sample_decode) (apply_payload sample_sha sample_ser)
     empty_state (sample_ops @ [FieldEdited ''s'' ''sheet_protected'' (JBool True)]) = Inr locked_state"
  by code_simp

lemmas locked_state_ok = doc.reachable_inv [OF locked_run]

theorem protection_covers_subtree_witness:
  "\<exists>a node. (a, ''qa'') \<in> (parent_rel locked_state)\<^sup>* \<and> bt_get (ds_nodes locked_state) a = Some node \<and> protecting node"
proof -
  have "protected locked_state ''qa''" by code_simp
  moreover have "bt_get (ds_nodes locked_state) ''qa'' \<noteq> None" by (simp add: locked_state_def sample_state_def)
  ultimately show ?thesis using protection_covers_subtree [OF locked_state_ok] by blast
qed

text \<open>C18: While a worksheet is protected, an authorised operation other than an edit of the protection flag leaves
  the worksheet and every node below it, at any depth, as it is, and marks none of them removed unless it is a \<^verbatim>\<open>ChoiceRemoved\<close> that
  names the node.\<close>

theorem protected_nodes_are_frozen:
  assumes "state_ok s" and "authorize sha ser decode f64 r op s = Some (Inr ())"
    and "\<And>n val. op \<noteq> FieldEdited n ''sheet_protected'' val" and "apply_payload sha ser s op = Inr s'"
    and "bt_get (ds_nodes s) w = Some sheet" and "json_index (mn_current_fields sheet) ''kind'' = JStr ''sheet''"
    and "json_index (mn_current_fields sheet) ''sheet_protected'' = JBool True"
    and "(w, k) \<in> (parent_rel s)\<^sup>*" and "bt_get (ds_nodes s) k = Some node"
  shows "bt_get (ds_nodes s') k = Some node
    \<and> (k \<in> set (ds_removed_choices s') \<longleftrightarrow> k \<in> set (ds_removed_choices s) \<or> (\<exists>n. op = ChoiceRemoved n k))"
proof -
  from assms(2) have v: "validate_op sha ser decode s op = Inr ()" and "check_sheet_protection s op = Some (Inr ())"
    by (simp_all add: authorize_ok_iff)
  then have "\<not> blocked s op" using check_ok_not_blocked assms(3) by blast
  moreover have "protected s k" using protected_iff [OF assms(1), of k] assms(5-9) by (auto simp: protecting_def)
  ultimately show ?thesis using protected_node_kept [OF assms(1) v _ assms(4,9)] by blast
qed

lemma locked_sheet:
  "bt_get (ds_nodes locked_state) ''s'' = Some (sample_node ''s'' (Some ''f'') ''section'' ''a''
     (JObj [(''kind'', JStr ''sheet''), (''sheet_protected'', JBool True)]) None)"
  by (simp add: locked_state_def)

theorem protected_nodes_are_frozen_witness:
  "\<exists>s'. apply_payload sample_sha sample_ser locked_state (NodeCreated ''g'' NT_Section (Some ''f'') ''b'' (JObj []) None) = Inr s'
     \<and> bt_get (ds_nodes s') ''qa'' = bt_get (ds_nodes locked_state) ''qa''"
proof -
  let ?op = "NodeCreated ''g'' NT_Section (Some ''f'') ''b'' (JObj []) None"
  have a: "authorize sample_sha sample_ser sample_decode sample_f64 Author ?op locked_state = Some (Inr ())" by code_simp
  obtain s' where s': "apply_payload sample_sha sample_ser locked_state ?op = Inr s'" by simp
  obtain node where node: "bt_get (ds_nodes locked_state) ''qa'' = Some node" by (simp add: locked_state_def sample_state_def)
  have "(''s'', ''q'') \<in> parent_rel locked_state" "(''q'', ''qa'') \<in> parent_rel locked_state"
    by (simp_all add: locked_state_def sample_state_def sample_node_def)
  then have below: "(''s'', ''qa'') \<in> (parent_rel locked_state)\<^sup>*" by (rule converse_rtrancl_into_rtrancl [OF _ r_into_rtrancl])
  from protected_nodes_are_frozen [OF locked_state_ok a _ s' locked_sheet _ _ below node] s' node show ?thesis
    by (auto simp: sample_node_def)
qed



section \<open>Proposals\<close>

lemma content_op_keeps_suggestions:
  assumes "is_content_op op" and "apply_payload sha ser s op = Inr s'"
  shows "ds_suggestions s' = ds_suggestions s"
  using assms by (cases op) (auto simp: state_updates Let_def split: option.splits json.splits if_splits)

lemma plan_acceptance_ok:
  assumes "plan_acceptance sha ser decode f64 r s sid = Some (Inr w)"
  shows "authorize sha ser decode f64 r (SuggestionAccepted sid) s = Some (Inr ())
    \<and> authorize sha ser decode f64 r w s = Some (Inr ())
    \<and> (\<exists>g. bt_get (ds_suggestions s) sid = Some g \<and> decode_wrapped_op decode (sg_detail g) = Inr w)"
  using assms by (auto simp: plan_acceptance_def split: option.splits sum.splits)

text \<open>C31: The two events that an acceptance appends always apply: the planned wrapped operation applies to the
  current state, the \<^verbatim>\<open>SuggestionAccepted\<close> that follows is still valid and applies, the state stays
  well-formed and the proposal ends up accepted.\<close>

theorem acceptance_applies:
  assumes ok: "state_ok s" and plan: "plan_acceptance sha ser decode f64 r s sid = Some (Inr w)"
  shows "r = Author \<and> (\<exists>s1 s2. apply_payload sha ser s w = Inr s1
    \<and> validate_op sha ser decode s1 (SuggestionAccepted sid) = Inr ()
    \<and> apply_payload sha ser s1 (SuggestionAccepted sid) = Inr s2
    \<and> state_ok s2 \<and> proposal_status s2 sid = Some Accepted)"
proof -
  note facts = plan_acceptance_ok [OF plan, unfolded authorize_ok_iff]
  then obtain g where g: "bt_get (ds_suggestions s) sid = Some g" and dec: "decode_wrapped_op decode (sg_detail g) = Inr w"
    by blast
  from facts have acc: "require_pending s sid = Inr ()" and v: "validate_op sha ser decode s w = Inr ()"
    and r: "r = Author" by (cases r; simp)+
  from validated_op_applies [OF ok v] obtain s1 where s1: "apply_payload sha ser s w = Inr s1" by blast
  have ok1: "state_ok s1" by (rule validated_op_preserves [OF ok v s1])
  have keep: "ds_suggestions s1 = ds_suggestions s"
    by (rule content_op_keeps_suggestions [OF decode_wrapped_op_content [OF dec] s1])
  then have v2: "validate_op sha ser decode s1 (SuggestionAccepted sid) = Inr ()"
    using acc by (simp add: require_pending_def)
  from validated_op_applies [OF ok1 v2] obtain s2 where s2: "apply_payload sha ser s1 (SuggestionAccepted sid) = Inr s2"
    by blast
  have "state_ok s2" by (rule validated_op_preserves [OF ok1 v2 s2])
  moreover have "proposal_status s2 sid = Some Accepted"
    using s2 keep g by (auto simp: proposal_status_def state_updates)
  ultimately show ?thesis using r s1 v2 s2 by blast
qed

theorem acceptance_applies_witness:
  "\<exists>w s1 s2. plan_acceptance sample_sha sample_ser sample_decode sample_f64 Author sample_state ''p'' = Some (Inr w)
     \<and> apply_payload sample_sha sample_ser sample_state w = Inr s1
     \<and> apply_payload sample_sha sample_ser s1 (SuggestionAccepted ''p'') = Inr s2
     \<and> proposal_status s2 ''p'' = Some Accepted"
proof -
  have "plan_acceptance sample_sha sample_ser sample_decode sample_f64 Author sample_state ''p''
      = Some (Inr (FieldEdited ''r'' ''label'' (JStr ''Why?'')))"
    by code_simp
  with acceptance_applies [OF sample_state_ok this] show ?thesis by blast
qed

text \<open>A decided proposal stays decided: no authorised operation changes the status of a proposal that was
  accepted or rejected.\<close>

theorem decided_proposals_are_final:
  assumes "authorize sha ser decode f64 r op s = Some (Inr ())" and "apply_payload sha ser s op = Inr s'"
    and "proposal_status s sid = Some status" and "status \<noteq> Pending"
  shows "proposal_status s' sid = Some status"
proof -
  from assms(3,4) obtain g where g: "bt_get (ds_suggestions s) sid = Some g" and dec: "sg_accepted g \<or> sg_rejected_reason g \<noteq> None"
    by (auto simp: proposal_status_def split: if_splits)
  have v: "validate_op sha ser decode s op = Inr ()" using assms(1) by (simp add: authorize_ok_iff)
  have pend: "sid' \<noteq> sid" if "require_pending s sid' = Inr ()" for sid'
    using that g dec by (auto simp: require_pending_def result_simps split: if_splits)
  have keep: "bt_get (ds_suggestions s') sid = bt_get (ds_suggestions s) sid"
  proof (cases op)
    case (SuggestionProposed sid' target detail)
    with v g have "sid' \<noteq> sid" by (auto simp: bt_contains_def split: if_splits)
    with SuggestionProposed assms(2) show ?thesis by auto
  next
    case (SuggestionAccepted sid')
    with v pend have "sid' \<noteq> sid" by simp
    with SuggestionAccepted assms(2) show ?thesis by (auto simp: state_updates split: option.splits)
  next
    case (SuggestionRejected sid' reason)
    with v pend have "sid' \<noteq> sid" by simp
    with SuggestionRejected assms(2) show ?thesis by (auto simp: state_updates split: option.splits)
  qed (use assms(2) in \<open>auto simp: state_updates Let_def result_simps split: option.splits json.splits if_splits\<close>)
  then show ?thesis using assms(3) by (simp add: proposal_status_def)
qed

theorem decided_proposals_are_final_witness:
  "\<exists>s s'. proposal_status s ''p'' = Some Rejected \<and> apply_payload sample_sha sample_ser s (NodeDeleted ''qa'') = Inr s'
     \<and> proposal_status s' ''p'' = Some Rejected"
proof -
  let ?s = "sample_state\<lparr>ds_suggestions := [(''p'', \<lparr>sg_target_node_id = None, sg_detail = JNull,
     sg_accepted = False, sg_rejected_reason = Some ''no''\<rparr>)]\<rparr>"
  have a: "authorize sample_sha sample_ser sample_decode sample_f64 Author (NodeDeleted ''qa'') ?s = Some (Inr ())"
    by code_simp
  have "is_ok (apply_payload sample_sha sample_ser ?s (NodeDeleted ''qa''))" by code_simp
  then obtain s' where s': "apply_payload sample_sha sample_ser ?s (NodeDeleted ''qa'') = Inr s'" by (auto simp: is_ok_iff)
  have p: "proposal_status ?s ''p'' = Some Rejected" by (simp add: proposal_status_def)
  from decided_proposals_are_final [OF a s' p] p s' show ?thesis by blast
qed

section \<open>Expressions\<close>

text \<open>C36: An expression the parser accepts has at most \<^verbatim>\<open>MAX_EXPRESSION_TERMS\<close> terms (operands, unary operators and
  calls) and its text at most \<^verbatim>\<open>MAX_EXPRESSION_BYTES\<close> bytes, whatever the input.\<close>

theorem parsed_expressions_are_bounded:
  assumes "parse f64 input = Inr e"
  shows "expr_terms e \<le> MAX_EXPRESSION_TERMS \<and> length input \<le> MAX_EXPRESSION_BYTES"
  using parse_terms_le [OF assms] assms by (auto simp: parse_def split: if_splits)

theorem parsed_expressions_are_bounded_witness:
  "expr_terms (BinOp OpGt (VarRef ''age'') (Literal (LNumber 0))) \<le> MAX_EXPRESSION_TERMS"
proof -
  have "parse sample_f64 ''${age} > 18'' = Inr (BinOp OpGt (VarRef ''age'') (Literal (LNumber 0)))"
    by code_simp
  from parsed_expressions_are_bounded [OF this] show ?thesis by simp
qed

text \<open>A reference to no variable passes both checks of the deploy gate: the scanner finds no reference in
  \<^verbatim>\<open>${}\<close>, and the parser accepts it; a quoted \<^verbatim>\<open>${\<close> hides the reference that follows it from the scanner,
  although the parsed expression has it.\<close>

theorem scanner_misses_references:
  "extract_var_refs ''${}'' = [] \<and> parse sample_f64 ''${}'' = Inr (VarRef [])
   \<and> (let text = [CHR 0x27] @ ''${'' @ [CHR 0x27] @ '' + ${x}'' in
       ''x'' \<notin> set (extract_var_refs text)
       \<and> map_res (\<lambda>t. map_sum id referenced_vars (parse sample_f64 t)) [text] = Inr [[''x'']])"
  by code_simp

end
