(* ===== verification/Decimal.thy ===== *)
theory Decimal
  imports Prelude
begin

text \<open>
  The decimal spelling of integers (\<^verbatim>\<open>to_string\<close> and \<^verbatim>\<open>{}\<close> of the standard library's integer types): the digits
  without leading zeros, a minus sign in front of negative numbers.
\<close>

definition dec_digit :: "nat \<Rightarrow> char" where
  "dec_digit d = char_of (48 + d)"

fun dec_nat :: "nat \<Rightarrow> string" where
  "dec_nat n = (if n < 10 then [dec_digit n] else dec_nat (n div 10) @ [dec_digit (n mod 10)])"

declare dec_nat.simps [simp del]

definition dec_int :: "int \<Rightarrow> string" where
  "dec_int i = (if i < 0 then CHR ''-'' # dec_nat (nat (- i)) else dec_nat (nat i))"

definition dec_value :: "string \<Rightarrow> nat" where
  "dec_value ds = foldl (\<lambda>n c. 10 * n + (of_char c - 48)) 0 ds"

definition is_dec_digit :: "char \<Rightarrow> bool" where
  "is_dec_digit c \<longleftrightarrow> CHR ''0'' \<le> c \<and> c \<le> CHR ''9''"

lemma of_char_dec_digit [simp]: "d < 10 \<Longrightarrow> (of_char (dec_digit d) :: nat) = 48 + d"
  by (simp add: dec_digit_def)

lemma is_dec_digit_iff: "is_dec_digit c \<longleftrightarrow> 48 \<le> (of_char c :: nat) \<and> (of_char c :: nat) \<le> 57"
  by (simp add: is_dec_digit_def less_eq_char_def)

lemma dec_value_dec_nat: "dec_value (dec_nat n) = n"
proof (induction n rule: dec_nat.induct)
  case (1 n)
  show ?case
  proof (cases "n < 10")
    case True
    then show ?thesis by (subst dec_nat.simps) (simp add: dec_value_def)
  next
    case False
    with 1 have "dec_value (dec_nat (n div 10)) = n div 10" by simp
    then show ?thesis using False by (subst dec_nat.simps) (simp add: dec_value_def)
  qed
qed

lemma dec_nat_inject [simp]: "dec_nat n = dec_nat m \<longleftrightarrow> n = m"
  by (metis dec_value_dec_nat)

lemma dec_nat_digits: "c \<in> set (dec_nat n) \<Longrightarrow> is_dec_digit c"
proof (induction n rule: dec_nat.induct)
  case (1 n)
  then show ?case
    by (cases "n < 10") (auto simp: dec_nat.simps [of n] is_dec_digit_iff split: if_splits)
qed

lemma dec_nat_nonempty [simp]: "dec_nat n \<noteq> []"
  by (subst dec_nat.simps) simp

lemma dec_value_zeros: "dec_value (replicate k CHR ''0'' @ ds) = dec_value ds"
  by (induction k) (simp_all add: dec_value_def)

text \<open>A digit string without a leading zero is the spelling of its value.\<close>

lemma dec_value_snoc: "dec_value (ds @ [c]) = 10 * dec_value ds + (of_char c - 48)"
  by (simp add: dec_value_def)

lemma dec_digit_of_char: "is_dec_digit c \<Longrightarrow> dec_digit (of_char c - 48) = c \<and> (of_char c - 48 :: nat) < 10"
  by (auto simp: is_dec_digit_iff dec_digit_def)

lemma dec_digit_zero_iff: "d < 10 \<Longrightarrow> dec_digit d = CHR ''0'' \<longleftrightarrow> d = 0"
proof -
  assume "d < 10"
  have "dec_digit d = CHR ''0'' \<longleftrightarrow> (of_char (dec_digit d) :: nat) = of_char CHR ''0''" by (simp only: of_char_eq_iff)
  with \<open>d < 10\<close> show ?thesis by simp
qed

lemma dec_nat_positive: "0 < n \<Longrightarrow> hd (dec_nat n) \<noteq> CHR ''0''"
proof (induction n rule: dec_nat.induct)
  case (1 n)
  show ?case
  proof (cases "n < 10")
    case True
    with 1 show ?thesis by (subst dec_nat.simps) (simp add: dec_digit_zero_iff)
  next
    case False
    with 1 show ?thesis by (subst dec_nat.simps) auto
  qed
qed

lemma dec_nat_snoc: "0 < n \<Longrightarrow> d < 10 \<Longrightarrow> dec_nat (10 * n + d) = dec_nat n @ [dec_digit d]"
  by (subst dec_nat.simps) simp

lemma dec_value_positive:
  assumes "ds \<noteq> []" and "\<forall>c \<in> set ds. is_dec_digit c" and "hd ds \<noteq> CHR ''0''"
  shows "0 < dec_value ds"
  using assms
proof (induction ds rule: rev_induct)
  case (snoc c ds)
  show ?case
  proof (cases "ds = []")
    case True
    with snoc.prems have "dec_digit (of_char c - 48) = c" "(of_char c - 48 :: nat) < 10" "c \<noteq> CHR ''0''"
      using dec_digit_of_char by auto
    then have "(of_char c - 48 :: nat) \<noteq> 0" using dec_digit_zero_iff [of "of_char c - 48"] by simp
    then show ?thesis using True by (simp add: dec_value_def)
  qed (use snoc in \<open>simp add: dec_value_snoc\<close>)
qed simp

lemma dec_nat_dec_value:
  assumes "ds \<noteq> []" and "\<forall>c \<in> set ds. is_dec_digit c" and "length ds > 1 \<longrightarrow> hd ds \<noteq> CHR ''0''"
  shows "dec_nat (dec_value ds) = ds"
  using assms
proof (induction ds rule: rev_induct)
  case (snoc c ds)
  note c = dec_digit_of_char [of c]
  show ?case
  proof (cases "ds = []")
    case True
    with snoc.prems c show ?thesis by (subst dec_nat.simps) (simp add: dec_value_def)
  next
    case False
    with snoc.prems have "0 < dec_value ds" by (intro dec_value_positive) auto
    with False snoc c show ?thesis by (simp add: dec_value_snoc dec_nat_snoc)
  qed
qed simp

end
