(* ===== verification/EventLog.thy ===== *)
theory EventLog
  imports Canonical Decimal
begin

text \<open>
  The hash-chained event log (\<^verbatim>\<open>crates/engine-core/src/log.rs\<close>). The table \<^verbatim>\<open>event\<close> is the list of its rows; each
  SQL statement of the module is one definition over it. PostgreSQL is a parameter in three places:
  \<open>pg\<close> gives the error a statement fails with (constraints, lost connections), \<open>jsonb\<close> is what storing a value
  in a \<^verbatim>\<open>jsonb\<close> column does to it, and \<open>net\<close> is what a stream of rows delivers. The event id (a ULID) and the
  time are arguments; \<open>encode\<close> is the serde encoder of payloads.
\<close>

datatype event_error =
    EE_Db string
  | EE_Serialize string
  | EE_DocumentNotFound uuid
  | EE_ChainBroken int string
  | EE_PostCommitSnapshot string

record event_db =
  db_documents :: "uuid list"
  db_events :: "event list"

datatype statement =
    SelectDocument uuid
  | SelectHead uuid
  | InsertEvent event
  | SelectEvents uuid int
  | SelectRange uuid int int
  | SelectPage uuid int int int
  | SelectThrough uuid int
  | SelectAfter uuid int

type_synonym postgres = "statement \<Rightarrow> event_db \<Rightarrow> string option"
type_synonym row_stream = "event list \<Rightarrow> (string + event) list"

text \<open>\<^verbatim>\<open>i64\<close> arithmetic: \<^verbatim>\<open>+\<close> wraps in release builds, \<^verbatim>\<open>checked_add\<close> is \<^const>\<open>None\<close> on overflow.\<close>

definition wrap_i64 :: "int \<Rightarrow> int" where
  "wrap_i64 i = (i + 2 ^ 63) mod 2 ^ 64 - 2 ^ 63"

definition checked_add_i64 :: "int \<Rightarrow> int \<Rightarrow> int option" where
  "checked_add_i64 a b = (if - (2 ^ 63) \<le> a + b \<and> a + b < 2 ^ 63 then Some (a + b) else None)"

section \<open>Statements\<close>

definition run_statement :: "postgres \<Rightarrow> statement \<Rightarrow> event_db \<Rightarrow> 'a \<Rightarrow> event_error + 'a" where
  "run_statement pg stmt db a = (case pg stmt db of Some e \<Rightarrow> Inl (EE_Db e) | None \<Rightarrow> Inr a)"

text \<open>\<^verbatim>\<open>select * from event where document_id = $1 and seq >= $2 order by seq asc\<close>\<close>

definition select_events :: "event_db \<Rightarrow> uuid \<Rightarrow> int \<Rightarrow> event list" where
  "select_events db doc from_seq =
     sort_key ev_seq (filter (\<lambda>ev. ev_document_id ev = doc \<and> ev_seq ev \<ge> from_seq) (db_events db))"

text \<open>\<^verbatim>\<open>select seq, chain_hash from event where document_id = $1 order by seq desc limit 1\<close>\<close>

definition select_head :: "event_db \<Rightarrow> uuid \<Rightarrow> (int \<times> bytes) option" where
  "select_head db doc =
     (case rev (sort_key ev_seq (filter (\<lambda>ev. ev_document_id ev = doc) (db_events db))) of
        [] \<Rightarrow> None
      | ev # _ \<Rightarrow> Some (ev_seq ev, ev_chain_hash ev))"

definition select_document :: "event_db \<Rightarrow> uuid \<Rightarrow> uuid option" where
  "select_document db doc = (if doc \<in> set (db_documents db) then Some doc else None)"

section \<open>Append\<close>

definition append_in_tx ::
    "hash_fun \<Rightarrow> scalar_writer \<Rightarrow> postgres \<Rightarrow> (json \<Rightarrow> json) \<Rightarrow> (event_payload \<Rightarrow> string + json) \<Rightarrow> string \<Rightarrow> int
       \<Rightarrow> event_db \<Rightarrow> uuid \<Rightarrow> event_payload \<Rightarrow> uuid \<Rightarrow> event_error + (event \<times> event_db)" where
  "append_in_tx sha ser pg jsonb encode event_id now db document payload actor =
     (let etype = event_type_of payload; target = target_node_id payload in
      bind_res (map_err EE_Serialize (encode payload)) (\<lambda>value.
      let canonical = canonical_json ser value;
          content = content_hash sha (event_type_str etype) target canonical actor in
      bind_res (run_statement pg (SelectDocument document) db (select_document db document)) (\<lambda>found.
      if found = None then Inl (EE_DocumentNotFound document)
      else
        bind_res (run_statement pg (SelectHead document) db (select_head db document)) (\<lambda>prev.
        let (prev_seq, prev_hash) = (case prev of Some p \<Rightarrow> p | None \<Rightarrow> (0, ZERO_HASH));
            next_seq = wrap_i64 (prev_seq + 1);
            row = \<lparr>ev_id = event_id, ev_document_id = document, ev_seq = next_seq,
                   ev_event_type = event_type_str etype, ev_actor_id = actor, ev_target_node_id = target,
                   ev_payload = jsonb value, ev_content_hash = content, ev_prev_chain_hash = prev_hash,
                   ev_chain_hash = chain_hash sha content prev_hash, ev_created_at = now\<rparr> in
        run_statement pg (InsertEvent row) db (row, db\<lparr>db_events := db_events db @ [row]\<rparr>)))))"

text \<open>\<^verbatim>\<open>append\<close>: the transaction is dropped, and so rolled back, when \<^verbatim>\<open>append_in_tx\<close> fails. \<open>commit\<close> maps the table before
  and after to the error of the commit, if any, and the table it leaves; \<open>take\<close> is the error of taking a
  snapshot, if any (the snapshot itself is no part of the table). The background job of the other branch
  reads the log only.\<close>

definition requires_immediate_snapshot :: "event_payload \<Rightarrow> bool" where
  "requires_immediate_snapshot payload \<longleftrightarrow> (case payload of Deployed _ \<Rightarrow> True | _ \<Rightarrow> False)"

definition post_commit_snapshot ::
    "(event_db \<Rightarrow> uuid \<Rightarrow> string option) \<Rightarrow> event_db \<Rightarrow> uuid \<Rightarrow> event_payload list \<Rightarrow> event_error + unit" where
  "post_commit_snapshot take_snapshot db document payloads =
     (if list_ex requires_immediate_snapshot payloads then
        (case take_snapshot db document of None \<Rightarrow> Inr () | Some e \<Rightarrow> Inl (EE_PostCommitSnapshot e))
      else Inr ())"

definition append_event ::
    "hash_fun \<Rightarrow> scalar_writer \<Rightarrow> postgres \<Rightarrow> (json \<Rightarrow> json) \<Rightarrow> (event_payload \<Rightarrow> string + json)
       \<Rightarrow> (event_db \<Rightarrow> event_db \<Rightarrow> string option \<times> event_db) \<Rightarrow> (event_db \<Rightarrow> uuid \<Rightarrow> string option) \<Rightarrow> string \<Rightarrow> int
       \<Rightarrow> event_db \<Rightarrow> uuid \<Rightarrow> event_payload \<Rightarrow> uuid \<Rightarrow> (event_error + event) \<times> event_db" where
  "append_event sha ser pg jsonb encode commit take_snapshot event_id now db document payload actor =
     (case append_in_tx sha ser pg jsonb encode event_id now db document payload actor of
        Inl e \<Rightarrow> (Inl e, db)
      | Inr (inserted, db') \<Rightarrow>
          (case commit db db' of
             (Some e, db'') \<Rightarrow> (Inl (EE_Db e), db'')
           | (None, db'') \<Rightarrow>
               (bind_res (post_commit_snapshot take_snapshot db'' document [payload]) (\<lambda>_. Inr inserted), db'')))"

section \<open>Reads\<close>

definition select_range :: "event_db \<Rightarrow> uuid \<Rightarrow> int \<Rightarrow> int \<Rightarrow> event list" where
  "select_range db doc from_seq to_seq =
     sort_key ev_seq (filter (\<lambda>ev. ev_document_id ev = doc \<and> from_seq \<le> ev_seq ev \<and> ev_seq ev \<le> to_seq) (db_events db))"

definition read_range :: "postgres \<Rightarrow> event_db \<Rightarrow> uuid \<Rightarrow> int \<Rightarrow> int \<Rightarrow> event_error + event list" where
  "read_range pg db doc from_seq to_seq = run_statement pg (SelectRange doc from_seq to_seq) db (select_range db doc from_seq to_seq)"

definition read_range_page :: "postgres \<Rightarrow> event_db \<Rightarrow> uuid \<Rightarrow> int \<Rightarrow> int \<Rightarrow> int \<Rightarrow> event_error + event list" where
  "read_range_page pg db doc from_seq to_seq limit =
     (let n = max 1 (min limit 1001) in
      run_statement pg (SelectPage doc from_seq to_seq n) db (take (nat n) (select_range db doc from_seq to_seq)))"

definition read_since_snapshot :: "postgres \<Rightarrow> event_db \<Rightarrow> uuid \<Rightarrow> int \<Rightarrow> event_error + event list" where
  "read_since_snapshot pg db doc snapshot_seq =
     run_statement pg (SelectAfter doc snapshot_seq) db
       (sort_key ev_seq (filter (\<lambda>ev. ev_document_id ev = doc \<and> ev_seq ev > snapshot_seq) (db_events db)))"

section \<open>Verification\<close>

definition chain_broken :: "int \<Rightarrow> string \<Rightarrow> event_error + 'a" where
  "chain_broken seq detail = Inl (EE_ChainBroken seq detail)"

definition verify_event :: "hash_fun \<Rightarrow> scalar_writer \<Rightarrow> event \<Rightarrow> uuid \<Rightarrow> int \<Rightarrow> bytes \<Rightarrow> event_error + unit" where
  "verify_event sha ser event document expected_seq previous =
     (if ev_document_id event \<noteq> document then chain_broken (ev_seq event) ''document binding mismatch''
      else if ev_seq event \<noteq> expected_seq then
        chain_broken (ev_seq event)
          (''expected seq '' @ dec_int expected_seq @ '', found '' @ dec_int (ev_seq event) @ '' (gap or reorder)'')
      else
        (let canonical = canonical_json ser (ev_payload event);
             recomputed = content_hash sha (ev_event_type event) (ev_target_node_id event) canonical (ev_actor_id event) in
         if recomputed \<noteq> ev_content_hash event then
           chain_broken (ev_seq event) ''content_hash mismatch (type, target, payload, or actor altered)''
         else if ev_prev_chain_hash event \<noteq> previous then
           chain_broken (ev_seq event) (''prev_chain_hash does not match the prior event'' @ [CHR 0x27] @ ''s chain_hash'')
         else if chain_hash sha recomputed previous \<noteq> ev_chain_hash event then
           chain_broken (ev_seq event) ''chain_hash mismatch''
         else Inr ()))"

text \<open>The loop \<^verbatim>\<open>while let Some(ev) = events.try_next().await?\<close> over what is left of the stream.\<close>

fun verify_loop :: "hash_fun \<Rightarrow> scalar_writer \<Rightarrow> uuid \<Rightarrow> int \<Rightarrow> bytes \<Rightarrow> (string + event) list \<Rightarrow> event_error + unit" where
  "verify_loop sha ser document expected previous [] = Inr ()"
| "verify_loop sha ser document expected previous (Inl e # rows) = Inl (EE_Db e)"
| "verify_loop sha ser document expected previous (Inr ev # rows) =
     (case checked_add_i64 expected 1 of
        None \<Rightarrow> chain_broken (ev_seq ev) ''event sequence exceeds the supported range''
      | Some next_seq \<Rightarrow>
          bind_res (verify_event sha ser ev document next_seq previous) (\<lambda>_.
          verify_loop sha ser document next_seq (ev_chain_hash ev) rows))"

definition trusted_row :: "int \<Rightarrow> bytes \<Rightarrow> (string + event) list \<Rightarrow> event_error + (string + event) list" where
  "trusted_row trusted_seq trusted_hash rows =
     (case rows of
        Inl e # _ \<Rightarrow> Inl (EE_Db e)
      | Inr ev # rest \<Rightarrow>
          if ev_seq ev = trusted_seq \<and> ev_chain_hash ev = trusted_hash then Inr rest
          else if ev_seq ev = trusted_seq then
            chain_broken trusted_seq ''stored chain_hash differs from the trusted position''
          else chain_broken trusted_seq ''trusted position not found''
      | [] \<Rightarrow> chain_broken trusted_seq ''trusted position not found'')"

definition verify_from ::
    "hash_fun \<Rightarrow> scalar_writer \<Rightarrow> row_stream \<Rightarrow> event_db \<Rightarrow> uuid \<Rightarrow> int \<Rightarrow> bytes \<Rightarrow> event_error + unit" where
  "verify_from sha ser net db document trusted_seq trusted_hash =
     (if trusted_seq < 0 \<or> trusted_seq = 0 \<and> trusted_hash \<noteq> ZERO_HASH then
        chain_broken trusted_seq ''invalid trusted position (genesis must use 32 zero bytes)''
      else
        (let from_seq = (if trusted_seq = 0 then - (2 ^ 63) else trusted_seq);
             rows = net (select_events db document from_seq) in
         bind_res (if trusted_seq > 0 then trusted_row trusted_seq trusted_hash rows else Inr rows) (\<lambda>rows.
         verify_loop sha ser document trusted_seq trusted_hash rows)))"

definition verify_chain :: "hash_fun \<Rightarrow> scalar_writer \<Rightarrow> row_stream \<Rightarrow> event_db \<Rightarrow> uuid \<Rightarrow> event_error + unit" where
  "verify_chain sha ser net db document = verify_from sha ser net db document 0 ZERO_HASH"

section \<open>What an accepted chain is\<close>

definition doc_events :: "event_db \<Rightarrow> uuid \<Rightarrow> event list" where
  "doc_events db doc = sort_key ev_seq (filter (\<lambda>ev. ev_document_id ev = doc) (db_events db))"

definition seqs_in_range :: "event_db \<Rightarrow> bool" where
  "seqs_in_range db \<longleftrightarrow> (\<forall>ev \<in> set (db_events db). - (2 ^ 63) \<le> ev_seq ev \<and> ev_seq ev < 2 ^ 63)"

definition recomputed_content :: "hash_fun \<Rightarrow> scalar_writer \<Rightarrow> event \<Rightarrow> bytes" where
  "recomputed_content sha ser ev =
     content_hash sha (ev_event_type ev) (ev_target_node_id ev) (canonical_json ser (ev_payload ev)) (ev_actor_id ev)"

definition linked :: "hash_fun \<Rightarrow> scalar_writer \<Rightarrow> uuid \<Rightarrow> int \<Rightarrow> bytes \<Rightarrow> event list \<Rightarrow> bool" where
  "linked sha ser doc expected previous evs \<longleftrightarrow> verify_loop sha ser doc expected previous (map Inr evs) = Inr ()"

lemma verify_event_ok:
  "verify_event sha ser ev doc seq previous = Inr () \<longleftrightarrow>
     ev_document_id ev = doc \<and> ev_seq ev = seq \<and> ev_content_hash ev = recomputed_content sha ser ev
     \<and> ev_prev_chain_hash ev = previous \<and> ev_chain_hash ev = chain_hash sha (ev_content_hash ev) previous"
  by (auto simp: verify_event_def recomputed_content_def Let_def chain_broken_def)

lemma linked_Nil [simp]: "linked sha ser doc expected previous []"
  by (simp add: linked_def)

lemma checked_add_i64_Some: "checked_add_i64 a b = Some c \<longleftrightarrow> c = a + b \<and> - (2 ^ 63) \<le> c \<and> c < 2 ^ 63"
  by (auto simp: checked_add_i64_def)

lemma linked_Cons:
  "linked sha ser doc expected previous (ev # evs) \<longleftrightarrow>
     checked_add_i64 expected 1 = Some (expected + 1)
     \<and> verify_event sha ser ev doc (expected + 1) previous = Inr ()
     \<and> linked sha ser doc (expected + 1) (ev_chain_hash ev) evs"
  by (auto simp: linked_def result_simps chain_broken_def checked_add_i64_def split: option.splits if_splits)

definition head_hash :: "bytes \<Rightarrow> event list \<Rightarrow> bytes" where
  "head_hash previous evs = (if evs = [] then previous else ev_chain_hash (last evs))"

lemma verify_loop_append:
  "verify_loop sha ser doc expected previous (map Inr xs @ ys) = Inr () \<longleftrightarrow>
     linked sha ser doc expected previous xs
     \<and> verify_loop sha ser doc (expected + int (length xs)) (head_hash previous xs) ys = Inr ()"
proof (induction xs arbitrary: expected previous)
  case Nil
  then show ?case by (simp add: head_hash_def)
next
  case (Cons ev xs)
  have "head_hash (ev_chain_hash ev) xs = head_hash previous (ev # xs)" by (simp add: head_hash_def)
  moreover have "expected + 1 + int (length xs) = expected + int (length (ev # xs))" by simp
  ultimately show ?case
    using Cons.IH [of "expected + 1" "ev_chain_hash ev"]
    by (auto simp: linked_Cons result_simps chain_broken_def checked_add_i64_def add.assoc split: option.splits if_splits)
qed

lemma linked_append:
  "linked sha ser doc expected previous (xs @ ys) \<longleftrightarrow>
     linked sha ser doc expected previous xs
     \<and> linked sha ser doc (expected + int (length xs)) (head_hash previous xs) ys"
  using verify_loop_append [of sha ser doc expected previous xs "map Inr ys"] by (simp add: linked_def)

lemma linked_seqs: "linked sha ser doc expected previous evs \<Longrightarrow> map ev_seq evs = map (\<lambda>i. expected + 1 + int i) [0..<length evs]"
proof (induction evs rule: rev_induct)
  case (snoc ev evs)
  then show ?case by (auto simp: linked_append linked_Cons verify_event_ok)
qed simp

lemma linked_head: "linked sha ser doc expected previous evs \<Longrightarrow> evs \<noteq> [] \<Longrightarrow> ev_seq (last evs) = expected + int (length evs)"
  using linked_seqs [of sha ser doc expected previous evs]
  by (cases evs rule: rev_cases) auto

section \<open>Appending keeps the chain\<close>

lemma insort_key_last: "f y \<le> f x \<Longrightarrow> insort_key f y (zs @ [x]) = insort_key f y zs @ [x]"
  by (induction zs) auto

lemma sort_key_snoc: "(\<And>y. y \<in> set xs \<Longrightarrow> f y \<le> f x) \<Longrightarrow> sort_key f (xs @ [x]) = sort_key f xs @ [x]"
  by (induction xs) (simp_all add: insort_key_last)

lemma select_events_all: "seqs_in_range db \<Longrightarrow> select_events db doc (- (2 ^ 63)) = doc_events db doc"
  by (auto simp: select_events_def doc_events_def seqs_in_range_def intro!: arg_cong [where f = "sort_key ev_seq"] filter_cong)

lemma select_head_last:
  "select_head db doc = (if doc_events db doc = [] then None
     else Some (ev_seq (last (doc_events db doc)), ev_chain_hash (last (doc_events db doc))))"
  unfolding select_head_def doc_events_def [symmetric] by (cases "doc_events db doc" rule: rev_cases) simp_all

text \<open>The state the theorems are about: every stored sequence number is an \<^verbatim>\<open>i64\<close> and every document's rows form a
  chain from genesis.\<close>

definition log_ok :: "hash_fun \<Rightarrow> scalar_writer \<Rightarrow> event_db \<Rightarrow> bool" where
  "log_ok sha ser db \<longleftrightarrow> seqs_in_range db \<and> (\<forall>doc. linked sha ser doc 0 ZERO_HASH (doc_events db doc))"

lemma wrap_i64_id: "- (2 ^ 63) \<le> i \<Longrightarrow> i < 2 ^ 63 \<Longrightarrow> wrap_i64 i = i"
  by (simp add: wrap_i64_def)

lemma append_in_tx_row:
  assumes "append_in_tx sha ser pg jsonb encode event_id now db doc payload actor = Inr (ev, db')"
  shows "doc \<in> set (db_documents db) \<and> db' = db\<lparr>db_events := db_events db @ [ev]\<rparr> \<and> ev_document_id ev = doc
    \<and> ev_event_type ev = event_type_str (event_type_of payload) \<and> ev_target_node_id ev = target_node_id payload
    \<and> ev_actor_id ev = actor \<and> (\<exists>value. encode payload = Inr value \<and> ev_payload ev = jsonb value
      \<and> ev_content_hash ev = content_hash sha (ev_event_type ev) (ev_target_node_id ev) (canonical_json ser value) actor)
    \<and> ev_seq ev = wrap_i64 (int 1 + (if doc_events db doc = [] then 0 else ev_seq (last (doc_events db doc))))
    \<and> ev_prev_chain_hash ev = head_hash ZERO_HASH (doc_events db doc)
    \<and> ev_chain_hash ev = chain_hash sha (ev_content_hash ev) (ev_prev_chain_hash ev)"
  using assms
  by (auto simp: append_in_tx_def result_simps run_statement_def select_document_def Let_def select_head_last head_hash_def
      add.commute split: option.splits if_splits)

lemma doc_events_append:
  assumes "db' = db\<lparr>db_events := db_events db @ [ev]\<rparr>"
    and "\<And>x. x \<in> set (doc_events db (ev_document_id ev)) \<Longrightarrow> ev_seq x \<le> ev_seq ev"
  shows "doc_events db' doc = doc_events db doc @ (if doc = ev_document_id ev then [ev] else [])"
  using assms by (auto simp: doc_events_def intro!: sort_key_snoc)

lemma append_keeps_log_ok:
  assumes ok: "log_ok sha ser db"
    and app: "append_in_tx sha ser pg jsonb encode event_id now db doc payload actor = Inr (ev, db')"
    and jsonb: "\<And>v. encode payload = Inr v \<Longrightarrow> canonical_json ser (jsonb v) = canonical_json ser v"
    and room: "int (length (doc_events db doc)) + 1 < 2 ^ 63"
  shows "log_ok sha ser db' \<and> ev_seq ev = int (length (doc_events db doc)) + 1
    \<and> doc_events db' doc' = doc_events db doc' @ (if doc' = doc then [ev] else [])"
proof -
  let ?A = "doc_events db doc" and ?n = "int (length (doc_events db doc))"
  note row = append_in_tx_row [OF app]
  have A: "linked sha ser doc 0 ZERO_HASH ?A" using ok by (simp add: log_ok_def)
  have "(if ?A = [] then 0 else ev_seq (last ?A)) = ?n" using linked_head [OF A] by auto
  then have seq: "ev_seq ev = ?n + 1" using row room by (simp add: wrap_i64_id add.commute)
  have "map ev_seq ?A = map (\<lambda>i. 1 + int i) [0..<length ?A]" using linked_seqs [OF A] by simp
  then have below: "ev_seq x \<le> ev_seq ev" if "x \<in> set ?A" for x
    using that seq by (metis (no_types, lifting) add.commute add_mono_thms_linordered_semiring(2) atLeastLessThan_iff
        image_iff list.set_map of_nat_mono order_less_imp_le set_upt)
  have rows: "doc_events db' d = doc_events db d @ (if d = doc then [ev] else [])" for d
    using row below doc_events_append [of db' db ev d] by auto
  have "ev_content_hash ev = recomputed_content sha ser ev"
    using row jsonb by (auto simp: recomputed_content_def)
  then have "linked sha ser doc 0 ZERO_HASH (?A @ [ev])"
    using A row seq room by (simp add: linked_append linked_Cons verify_event_ok checked_add_i64_Some)
  moreover have "seqs_in_range db'" using ok row seq room by (auto simp: log_ok_def seqs_in_range_def)
  ultimately show ?thesis using ok seq rows by (auto simp: log_ok_def)
qed

section \<open>Tamper evidence\<close>

text \<open>What the hashes commit to: the type, the target (no target and the empty target are the same), the
  canonical payload and the actor of each event.\<close>

definition target_text :: "event \<Rightarrow> string" where
  "target_text ev = (case ev_target_node_id ev of None \<Rightarrow> [] | Some t \<Rightarrow> t)"

definition commitment :: "scalar_writer \<Rightarrow> event \<Rightarrow> string \<times> string \<times> bytes \<times> uuid" where
  "commitment ser ev = (ev_event_type ev, target_text ev, canonical_json ser (ev_payload ev), ev_actor_id ev)"

text \<open>The inputs of the hash function when an event is verified.\<close>

definition content_input :: "scalar_writer \<Rightarrow> event \<Rightarrow> bytes" where
  "content_input ser ev =
     feed (as_bytes (ev_event_type ev)) @ feed (as_bytes (target_text ev))
     @ feed (canonical_json ser (ev_payload ev)) @ feed (ev_actor_id ev)"

definition log_inputs :: "scalar_writer \<Rightarrow> event list \<Rightarrow> bytes list" where
  "log_inputs ser evs = concat (map (\<lambda>ev. [content_input ser ev, ev_content_hash ev @ ev_prev_chain_hash ev]) evs)"

text \<open>The lengths of the framed fields fit their 64-bit frame.\<close>

definition fits :: "scalar_writer \<Rightarrow> event \<Rightarrow> bool" where
  "fits ser ev \<longleftrightarrow> length (ev_event_type ev) < 2 ^ 64 \<and> length (target_text ev) < 2 ^ 64
     \<and> length (canonical_json ser (ev_payload ev)) < 2 ^ 64 \<and> length (ev_actor_id ev) < 2 ^ 64"

lemma recomputed_content_input: "recomputed_content sha ser ev = sha (content_input ser ev)"
  by (simp add: recomputed_content_def content_hash_def content_input_def target_text_def)

lemma content_input_inject:
  assumes "fits ser a" and "fits ser b" and "content_input ser a = content_input ser b"
  shows "commitment ser a = commitment ser b"
proof -
  have fed: "x = y \<and> xs = ys" if "feed x @ xs = feed y @ ys" "length x < 2 ^ 64" "length y < 2 ^ 64" for x y xs ys
    using feed_append_inject [OF that(2,3,1)] .
  have 1: "as_bytes (ev_event_type a) = as_bytes (ev_event_type b) \<and>
      feed (as_bytes (target_text a)) @ feed (canonical_json ser (ev_payload a)) @ feed (ev_actor_id a)
      = feed (as_bytes (target_text b)) @ feed (canonical_json ser (ev_payload b)) @ feed (ev_actor_id b)"
    using assms by (intro fed) (simp_all add: content_input_def fits_def)
  then have 2: "as_bytes (target_text a) = as_bytes (target_text b) \<and>
      feed (canonical_json ser (ev_payload a)) @ feed (ev_actor_id a)
      = feed (canonical_json ser (ev_payload b)) @ feed (ev_actor_id b)"
    using assms by (intro fed) (simp_all add: fits_def)
  then have 3: "canonical_json ser (ev_payload a) = canonical_json ser (ev_payload b)
      \<and> feed (ev_actor_id a) = feed (ev_actor_id b)"
    using assms by (intro fed) (simp_all add: fits_def)
  then have "ev_actor_id a = ev_actor_id b"
    using assms fed [of "ev_actor_id a" "[]" "ev_actor_id b" "[]"] by (simp add: fits_def)
  then show ?thesis using 1 2 3 by (simp add: commitment_def)
qed

lemma log_inputs_append: "log_inputs ser (xs @ ys) = log_inputs ser xs @ log_inputs ser ys"
  by (simp add: log_inputs_def)

lemma verified_event_inputs:
  assumes sha: "\<And>x. length (sha x) = 32"
    and a: "verify_event sha ser a doc seq prev = Inr ()" and b: "verify_event sha ser b doc' seq' prev' = Inr ()"
    and fit: "fits ser a" "fits ser b" and head: "ev_chain_hash a = ev_chain_hash b"
  shows "commitment ser a = commitment ser b \<and> prev = prev' \<or> collides sha (log_inputs ser [a]) (log_inputs ser [b])"
proof (rule disjCI)
  assume no: "\<not> collides sha (log_inputs ser [a]) (log_inputs ser [b])"
  have same: "x = y" if "sha x = sha y" "x \<in> set (log_inputs ser [a])" "y \<in> set (log_inputs ser [b])" for x y
    using no that by (auto simp: collides_def)
  have "sha (ev_content_hash a @ prev) = sha (ev_content_hash b @ prev')"
    using a b head by (auto simp: verify_event_ok chain_hash_def)
  then have "ev_content_hash a @ prev = ev_content_hash b @ prev'"
    by (rule same) (use a b in \<open>auto simp: verify_event_ok log_inputs_def\<close>)
  moreover have "length (ev_content_hash a) = length (ev_content_hash b)"
    using a b by (simp add: verify_event_ok recomputed_content_input sha)
  ultimately have eq: "ev_content_hash a = ev_content_hash b" "prev = prev'" by auto
  have "content_input ser a = content_input ser b"
    by (rule same) (use a b eq in \<open>auto simp: verify_event_ok log_inputs_def recomputed_content_input\<close>)
  then show "commitment ser a = commitment ser b \<and> prev = prev'" using content_input_inject fit eq by blast
qed

lemma head_hash_snoc [simp]: "head_hash previous (evs @ [ev]) = ev_chain_hash ev"
  by (simp add: head_hash_def)

lemma linked_same_head:
  assumes sha: "\<And>x. length (sha x) = 32"
  shows "length A = length B \<Longrightarrow> linked sha ser doc k p A \<Longrightarrow> linked sha ser doc' k' p' B \<Longrightarrow>
    list_all (fits ser) (A @ B) \<Longrightarrow> head_hash p A = head_hash p' B \<Longrightarrow>
    map (commitment ser) A = map (commitment ser) B \<or> collides sha (log_inputs ser A) (log_inputs ser B)"
proof (induction A arbitrary: B rule: rev_induct)
  case (snoc a A)
  then obtain b B' where B: "B = B' @ [b]" by (cases B rule: rev_cases) auto
  have "verify_event sha ser a doc (k + int (length A) + 1) (head_hash p A) = Inr ()"
    "verify_event sha ser b doc' (k' + int (length B') + 1) (head_hash p' B') = Inr ()"
    using snoc.prems B by (simp_all add: linked_append linked_Cons)
  from verified_event_inputs [OF sha this] snoc.prems B
  consider "commitment ser a = commitment ser b" "head_hash p A = head_hash p' B'"
    | "collides sha (log_inputs ser [a]) (log_inputs ser [b])"
    by auto
  then show ?case
  proof cases
    case 1
    have "map (commitment ser) A = map (commitment ser) B' \<or> collides sha (log_inputs ser A) (log_inputs ser B')"
      using snoc.prems B 1 by (intro snoc.IH) (auto simp: linked_append)
    then show ?thesis using 1 B collides_mono [of sha "log_inputs ser A" "log_inputs ser B'"] by (auto simp: log_inputs_append)
  next
    case 2
    then have "collides sha (log_inputs ser (A @ [a])) (log_inputs ser B)"
      by (rule collides_mono) (auto simp: B log_inputs_append)
    then show ?thesis ..
  qed
qed simp

section \<open>Audits from a trusted position\<close>

lemma sorted_key_filter_ge:
  "map f xs = map (\<lambda>i. 1 + int i) [0..<length xs] \<Longrightarrow> k \<le> length xs \<Longrightarrow>
     filter (\<lambda>x. f x \<ge> 1 + int k) xs = drop k xs"
proof -
  assume f: "map f xs = map (\<lambda>i. 1 + int i) [0..<length xs]" and k: "k \<le> length xs"
  have nth: "f (xs ! i) = 1 + int i" if "i < length xs" for i
    using arg_cong [OF f, of "\<lambda>l. l ! i"] that by simp
  have "filter (\<lambda>x. f x \<ge> 1 + int k) (take k xs) = []"
    using nth k by (auto simp: filter_empty_conv in_set_conv_nth)
  moreover have "filter (\<lambda>x. f x \<ge> 1 + int k) (drop k xs) = drop k xs"
    using nth k by (auto simp: filter_id_conv in_set_conv_nth)
  ultimately show ?thesis by (metis append_take_drop_id filter_append self_append_conv2)
qed

lemma select_events_filter: "select_events db doc k = filter (\<lambda>ev. ev_seq ev \<ge> k) (doc_events db doc)"
  unfolding select_events_def doc_events_def filter_sort [symmetric] by (simp add: conj_commute)

end
