(* ===== verification/Encoding.thy ===== *)
theory Encoding
  imports Canonical "HOL-Library.Code_Target_Nat"
begin

text \<open>
  Lowercase hexadecimal and strict base64 of the transparency log
  (\<^verbatim>\<open>crates/engine-core/src/transparency/encoding.rs\<close>) and the errors of the transparency modules
  (\<^verbatim>\<open>mod.rs\<close>, \<^verbatim>\<open>policy.rs\<close>). The decoders are
  strict: \<open>unhex_hex\<close> and \<open>unb64_b64\<close> are the round trips, \<open>hex_unhex\<close> and \<open>b64_unb64\<close> show that no
  second spelling of the same bytes is accepted. The 24-bit group of the code, a \<^verbatim>\<open>u32\<close>, is a number
  below \<open>2 ^ 24\<close>; the shifts of the code are multiplications and divisions by powers of two.
\<close>

datatype policy_error =
    PE_Json string
  | PE_Version nat
  | PE_Origin string
  | PE_LogKey string
  | PE_LogKeyKind
  | PE_LogKeyName string string
  | PE_WitnessKey string string
  | PE_WitnessKeyKind string
  | PE_WitnessName string string
  | PE_DuplicateWitnessName string
  | PE_DuplicateWitnessKey string
  | PE_WitnessIsLog string
  | PE_Operator string
  | PE_ThresholdZero
  | PE_ThresholdAboveWitnesses nat nat
  | PE_ThresholdAboveOperators nat nat
  | PE_FreshnessZero
  | PE_OnFailure string

datatype tr_error =
    TR_Hex string
  | TR_Base64 string
  | SizeOutOfRange nat nat
  | IndexOutOfRange nat nat
  | MissingNode nat nat
  | BadInclusionProof
  | BadConsistencyProof
  | TR_Storage string
  | MissingTile string
  | CorruptTile string
  | EntryTooLarge nat
  | MalformedKey string
  | KeyIdMismatch
  | UnsupportedKeyType byte
  | InvalidKeyName
  | SigningKey
  | WrongSignerKind
  | MalformedNote string
  | DuplicateSignature string
  | MalformedCheckpoint string
  | CheckpointExtension
  | InvalidOrigin string
  | WrongOrigin string string
  | MissingLogSignature
  | BadSignature string
  | InvalidLeaf string
  | InvalidBundle string
  | BundleVersion nat
  | BundleSizeMismatch nat nat
  | LeafMismatch
  | TR_Policy policy_error
  | SplitView nat
  | Inconsistent nat nat

definition hex :: "bytes \<Rightarrow> string" where
  "hex bs = concat (map (\<lambda>b. [''0123456789abcdef'' ! (unat b div 16), ''0123456789abcdef'' ! (unat b mod 16)]) bs)"

definition hex_value :: "char \<Rightarrow> tr_error + nat" where
  "hex_value c =
     (if CHR ''0'' \<le> c \<and> c \<le> CHR ''9'' then Inr (of_char c - 48)
      else if CHR ''a'' \<le> c \<and> c \<le> CHR ''f'' then Inr (of_char c - 97 + 10)
      else Inl (TR_Hex ''only lowercase hexadecimal digits are allowed''))"

fun unhex_pairs :: "string \<Rightarrow> tr_error + bytes" where
  "unhex_pairs (a # b # rest) =
     bind_res (hex_value a) (\<lambda>hi. bind_res (hex_value b) (\<lambda>lo.
       bind_res (unhex_pairs rest) (\<lambda>bs. Inr (word_of_nat (hi * 16 + lo) # bs))))"
| "unhex_pairs _ = Inr []"

definition unhex :: "string \<Rightarrow> tr_error + bytes" where
  "unhex text = (if length text mod 2 \<noteq> 0 then Inl (TR_Hex ''odd length'') else unhex_pairs text)"

definition unhex_array :: "nat \<Rightarrow> string \<Rightarrow> tr_error + bytes" where
  "unhex_array n text =
     bind_res (unhex text) (\<lambda>bs. if length bs = n then Inr bs else Inl (TR_Hex ''unexpected length''))"

definition B64 :: string where
  "B64 = ''ABCDEFGHIJKLMNOPQRSTUVWXYZabcdefghijklmnopqrstuvwxyz0123456789+/''"

definition b64_char :: "nat \<Rightarrow> nat \<Rightarrow> char" where
  "b64_char n i = B64 ! (n div 64 ^ (3 - i) mod 64)"

fun b64 :: "bytes \<Rightarrow> string" where
  "b64 (a # b # c # rest) =
     (let n = unat a * 65536 + unat b * 256 + unat c
      in [b64_char n 0, b64_char n 1, b64_char n 2, b64_char n 3] @ b64 rest)"
| "b64 [a, b] = (let n = unat a * 65536 + unat b * 256 in [b64_char n 0, b64_char n 1, b64_char n 2, CHR ''=''])"
| "b64 [a] = (let n = unat a * 65536 in [b64_char n 0, b64_char n 1, CHR ''='', CHR ''=''])"
| "b64 [] = []"

definition sextet :: "char \<Rightarrow> tr_error + nat" where
  "sextet c =
     (if CHR ''A'' \<le> c \<and> c \<le> CHR ''Z'' then Inr (of_char c - 65)
      else if CHR ''a'' \<le> c \<and> c \<le> CHR ''z'' then Inr (of_char c - 97 + 26)
      else if CHR ''0'' \<le> c \<and> c \<le> CHR ''9'' then Inr (of_char c - 48 + 52)
      else if c = CHR ''+'' then Inr 62
      else if c = CHR ''/'' then Inr 63
      else Inl (TR_Base64 ''character outside the standard alphabet''))"

fun sextets :: "string \<Rightarrow> nat \<Rightarrow> tr_error + nat" where
  "sextets [] n = Inr n"
| "sextets (c # cs) n = bind_res (sextet c) (\<lambda>v. sextets cs (n * 64 + v))"

text \<open>One group of four characters; \<open>last\<close> tells whether it is the final one.\<close>

definition unb64_quad :: "string \<Rightarrow> bool \<Rightarrow> tr_error + bytes" where
  "unb64_quad quad final =
     (let pad = length (takeWhile (\<lambda>c. c = CHR ''='') (rev quad)) in
      if pad > 2 \<or> (pad > 0 \<and> \<not> final) then Inl (TR_Base64 ''misplaced padding'')
      else
        bind_res (sextets (take (4 - pad) quad) 0) (\<lambda>v.
          let n = v * 64 ^ pad in
          if n mod 256 ^ pad \<noteq> 0 then Inl (TR_Base64 ''non-canonical final group'')
          else Inr (take (3 - pad)
                 [word_of_nat (n div 65536 mod 256), word_of_nat (n div 256 mod 256), word_of_nat (n mod 256)])))"

fun unb64_loop :: "string \<Rightarrow> tr_error + bytes" where
  "unb64_loop (a # b # c # d # rest) =
     bind_res (unb64_quad [a, b, c, d] (rest = [])) (\<lambda>xs.
       bind_res (unb64_loop rest) (\<lambda>ys. Inr (xs @ ys)))"
| "unb64_loop _ = Inr []"

definition unb64 :: "string \<Rightarrow> tr_error + bytes" where
  "unb64 text =
     (if length text mod 4 \<noteq> 0 then Inl (TR_Base64 ''length is not a multiple of four'') else unb64_loop text)"

section \<open>Digits\<close>

text \<open>A run of consecutive characters of an alphabet, checked on its members.\<close>

lemma char_run:
  assumes "list_all (\<lambda>i. alphabet ! (i + base) = char_of (i + start)) [0..<n]"
    and "start \<le> of_char c" and "of_char c < start + n"
  shows "c = alphabet ! (of_char c - start + base)"
proof -
  have "of_char c - start \<in> set [0..<n]" using assms(2,3) by auto
  with assms(1) have "alphabet ! (of_char c - start + base) = char_of (of_char c - start + start)"
    unfolding list_all_iff by blast
  also have "\<dots> = c" using assms(2) by simp
  finally show ?thesis by simp
qed

lemma char_run_nth:
  assumes "list_all (\<lambda>i. alphabet ! (i + base) = char_of (i + start)) [0..<n]"
    and "base \<le> v" and "v < base + n" and "start + n \<le> 256"
  shows "of_char (alphabet ! v) = v - base + start"
proof -
  have "v - base \<in> set [0..<n]" using assms(2,3) by auto
  with assms(1) have "alphabet ! (v - base + base) = char_of (v - base + start)"
    unfolding list_all_iff by blast
  then show ?thesis using assms(2-4) by simp
qed

lemma hex_runs:
  "list_all (\<lambda>i. ''0123456789abcdef'' ! (i + 0) = char_of (i + 48 :: nat)) [0..<10]"
  "list_all (\<lambda>i. ''0123456789abcdef'' ! (i + 10) = char_of (i + 97 :: nat)) [0..<6]"
  by code_simp+

lemma b64_runs:
  "list_all (\<lambda>i. B64 ! (i + 0) = char_of (i + 65 :: nat)) [0..<26]"
  "list_all (\<lambda>i. B64 ! (i + 26) = char_of (i + 97 :: nat)) [0..<26]"
  "list_all (\<lambda>i. B64 ! (i + 52) = char_of (i + 48 :: nat)) [0..<10]"
  by code_simp+

lemma b64_ends: "B64 ! 62 = CHR ''+'' \<and> B64 ! 63 = CHR ''/''"
  by (simp add: B64_def)

lemma hex_value_sound: "hex_value c = Inr v \<Longrightarrow> v < 16 \<and> c = ''0123456789abcdef'' ! v"
  using hex_runs [THEN char_run, of c] by (auto simp: hex_value_def less_eq_char_def split: if_splits)

lemma hex_value_complete: "v < 16 \<Longrightarrow> hex_value (''0123456789abcdef'' ! v) = Inr v"
  using hex_runs [THEN char_run_nth, of v] by (cases "v < 10") (auto simp: hex_value_def less_eq_char_def)

lemma sextet_sound: "sextet c = Inr v \<Longrightarrow> v < 64 \<and> c = B64 ! v"
  using b64_runs [THEN char_run, of c] b64_ends by (auto simp: sextet_def less_eq_char_def split: if_splits)

lemma sextet_complete: "v < 64 \<Longrightarrow> sextet (B64 ! v) = Inr v \<and> B64 ! v \<noteq> CHR ''=''"
proof -
  assume v: "v < 64"
  then consider "v < 26" | "26 \<le> v" "v < 52" | "52 \<le> v" "v < 62" | "v = 62" | "v = 63" by linarith
  then show ?thesis
  proof cases
    case 1
    from char_run_nth [OF b64_runs(1), of v] 1 have "of_char (B64 ! v) = v + 65" by simp
    with 1 show ?thesis by (auto simp: sextet_def less_eq_char_def)
  next
    case 2
    from char_run_nth [OF b64_runs(2), of v] 2 have "of_char (B64 ! v) = v - 26 + 97" by simp
    with 2 show ?thesis by (auto simp: sextet_def less_eq_char_def)
  next
    case 3
    from char_run_nth [OF b64_runs(3), of v] 3 have "of_char (B64 ! v) = v - 52 + 48" by simp
    with 3 show ?thesis by (auto simp: sextet_def less_eq_char_def)
  qed (auto simp: b64_ends sextet_def less_eq_char_def)
qed

lemma unat_byte: "unat (b :: byte) < 256"
  using unsigned_less [of b, where ?'a = nat] by simp

lemma byte_of_digits: "(word_of_nat (unat b div 16 * 16 + unat b mod 16) :: byte) = b"
  by simp

lemma unat_word_of_nat_byte: "n < 256 \<Longrightarrow> unat (word_of_nat n :: byte) = n"
  by (simp add: unat_of_nat take_bit_nat_eq_self)

section \<open>Hexadecimal\<close>

lemma unhex_hex: "unhex (hex bs) = Inr bs"
proof -
  have "unhex_pairs (hex bs) = Inr bs"
  proof (induction bs)
    case (Cons b bs)
    have "unat b div 16 < 16" using unat_byte [of b] by simp
    with Cons show ?case using byte_of_digits [of b]
      by (simp add: hex_def hex_value_complete del: of_nat_add of_nat_mult)
  qed (simp add: hex_def)
  moreover have "length (hex bs) mod 2 = 0" by (induction bs) (simp_all add: hex_def)
  ultimately show ?thesis by (simp add: unhex_def)
qed

lemma hex_unhex_pairs: "length t mod 2 = 0 \<Longrightarrow> unhex_pairs t = Inr bs \<Longrightarrow> hex bs = t"
proof (induction t arbitrary: bs rule: unhex_pairs.induct)
  case (1 a b tail)
  then obtain hi lo cs where hi: "hex_value a = Inr hi" and lo: "hex_value b = Inr lo"
    and cs: "unhex_pairs tail = Inr cs" and bs: "bs = word_of_nat (hi * 16 + lo) # cs"
    by (auto simp: result_simps)
  have "hex cs = tail" using 1 hi lo cs by simp
  moreover have "hi < 16" "lo < 16" using hex_value_sound hi lo by auto
  then have "unat (word_of_nat (hi * 16 + lo) :: byte) = hi * 16 + lo" by (intro unat_word_of_nat_byte) simp
  ultimately show ?case using hex_value_sound [OF hi] hex_value_sound [OF lo] bs by (simp add: hex_def)
qed (auto simp: hex_def)

lemma hex_unhex: "unhex t = Inr bs \<Longrightarrow> hex bs = t"
  using hex_unhex_pairs by (auto simp: unhex_def split: if_splits)

lemma length_hex [simp]: "length (hex bs) = 2 * length bs"
  by (induction bs) (simp_all add: hex_def)

section \<open>Base64\<close>

lemma base64_digits:
  assumes "n < 64 ^ 4"
  shows "(((n div 64 ^ 3 mod 64) * 64 + n div 64 ^ 2 mod 64) * 64 + n div 64 mod 64) * 64 + n mod 64 = (n :: nat)"
    and "((n div 64 ^ 3 mod 64) * 64 + n div 64 ^ 2 mod 64) * 64 + n div 64 mod 64 = n div 64"
    and "(n div 64 ^ 3 mod 64) * 64 + n div 64 ^ 2 mod 64 = n div 64 ^ 2"
proof -
  have q: "n div 64 ^ 2 = n div 64 div 64" "n div 64 ^ 3 = n div 64 div 64 div 64"
    by (simp_all add: div_mult2_eq [symmetric])
  have "n div 64 div 64 div 64 < 64" using assms by (simp add: div_mult2_eq [symmetric] less_mult_imp_div_less)
  then show "(n div 64 ^ 3 mod 64) * 64 + n div 64 ^ 2 mod 64 = n div 64 ^ 2"
    unfolding q by (simp add: mult.commute)
  then show "((n div 64 ^ 3 mod 64) * 64 + n div 64 ^ 2 mod 64) * 64 + n div 64 mod 64 = n div 64"
    unfolding q by (simp add: mult.commute)
  then show "(((n div 64 ^ 3 mod 64) * 64 + n div 64 ^ 2 mod 64) * 64 + n div 64 mod 64) * 64 + n mod 64 = n"
    by (metis div_mult_mod_eq)
qed

lemma sextet_b64_char: "sextet (b64_char n i) = Inr (n div 64 ^ (3 - i) mod 64)" "b64_char n i \<noteq> CHR ''=''"
  using sextet_complete [of "n div 64 ^ (3 - i) mod 64"] by (simp_all add: b64_char_def)

lemma sextets_b64_char:
  assumes "n < 64 ^ 4"
  shows "sextets [b64_char n 0, b64_char n 1, b64_char n 2, b64_char n 3] 0 = Inr n"
    and "sextets [b64_char n 0, b64_char n 1, b64_char n 2] 0 = Inr (n div 64)"
    and "sextets [b64_char n 0, b64_char n 1] 0 = Inr (n div 64 ^ 2)"
  using base64_digits [OF assms] by (simp_all add: sextet_b64_char)

lemma group_bytes:
  fixes a b c :: byte
  defines "n \<equiv> unat a * 65536 + unat b * 256 + unat c"
  shows "n < 64 ^ 4" "n div 65536 mod 256 = unat a" "n div 256 mod 256 = unat b" "n mod 256 = unat c"
proof -
  note lt = unat_byte [of a] unat_byte [of b] unat_byte [of c]
  show "n < 64 ^ 4" unfolding n_def using lt by simp
  define m where "m = unat a * 256 + unat b"
  have "n = m * 256 + unat c" by (simp add: n_def m_def)
  then have 1: "n div 256 = m" "n mod 256 = unat c" using lt by simp_all
  have "n div 65536 = n div 256 div 256" by (simp add: div_mult2_eq [symmetric])
  moreover have "m div 256 = unat a" "m mod 256 = unat b" using lt by (simp_all add: m_def)
  ultimately show "n div 65536 mod 256 = unat a" "n div 256 mod 256 = unat b" "n mod 256 = unat c"
    using 1 lt by simp_all
qed

lemma unb64_quad_full:
  "unb64_quad (b64 [a, b, c]) final = Inr [a, b, c]"
  using group_bytes [of a b c] sextets_b64_char(1) [OF group_bytes(1) [of a b c]]
  by (simp add: unb64_quad_def Let_def sextet_b64_char(2))

lemma unb64_quad_two: "unb64_quad (b64 [a, b]) True = Inr [a, b]"
proof -
  let ?n = "unat a * 65536 + unat b * 256"
  note g = group_bytes [of a b 0, simplified]
  have "?n div 64 * 64 = ?n" by (rule dvd_div_mult_self) (simp add: dvd_add)
  then show ?thesis using g sextets_b64_char(2) [of ?n]
    by (simp add: unb64_quad_def Let_def sextet_b64_char(2))
qed

lemma unb64_quad_one: "unb64_quad (b64 [a]) True = Inr [a]"
proof -
  let ?n = "unat a * 65536"
  note g = group_bytes [of a 0 0, simplified]
  have "?n div 64 ^ 2 * 64 ^ 2 = ?n" by (rule dvd_div_mult_self) simp
  then show ?thesis using g sextets_b64_char(3) [of ?n]
    by (simp add: unb64_quad_def Let_def sextet_b64_char(2))
qed

lemma unb64_b64: "unb64 (b64 bs) = Inr bs"
proof -
  have "unb64_loop (b64 bs) = Inr bs \<and> length (b64 bs) mod 4 = 0"
  proof (induction bs rule: b64.induct)
    case (1 a b c bs)
    have "b64 (a # b # c # bs) = b64 [a, b, c] @ b64 bs" by (simp add: Let_def)
    then show ?case using 1 unb64_quad_full [of a b c] by (simp add: Let_def)
  next
    case (2 a b)
    then show ?case using unb64_quad_two [of a b] by (simp add: Let_def)
  next
    case (3 a)
    then show ?case using unb64_quad_one [of a] by (simp add: Let_def)
  qed simp
  then show ?thesis by (simp add: unb64_def)
qed

text \<open>Conversely, what the decoder accepts is the encoding of what it returns.\<close>

lemma sextets_sound:
  assumes "sextets cs 0 = Inr v" and "length cs \<le> 4"
  shows "v < 64 ^ length cs \<and> (\<forall>i < length cs. cs ! i = B64 ! (v div 64 ^ (length cs - 1 - i) mod 64))"
proof -
  have "v < (m + 1) * 64 ^ length cs \<and> v div 64 ^ length cs = m
      \<and> (\<forall>i < length cs. cs ! i = B64 ! (v div 64 ^ (length cs - 1 - i) mod 64))"
    if "sextets cs m = Inr v" for cs m v
    using that
  proof (induction cs arbitrary: m)
    case (Cons c cs)
    then obtain d where d: "sextet c = Inr d" and rest: "sextets cs (m * 64 + d) = Inr v"
      by (auto simp: result_simps)
    have d64: "d < 64" and c: "c = B64 ! d" using sextet_sound [OF d] by auto
    note ih = Cons.IH [OF rest]
    have div: "v div 64 ^ length cs = m * 64 + d" using ih by blast
    have "v < (m * 64 + d + 1) * 64 ^ length cs" using ih by blast
    also have "\<dots> \<le> ((m + 1) * 64) * 64 ^ length cs" using d64 by (intro mult_right_mono) auto
    finally have lt: "v < (m + 1) * 64 ^ length (c # cs)" by (simp add: algebra_simps)
    have "v div 64 ^ length (c # cs) = v div 64 ^ length cs div 64" by (simp add: div_mult2_eq [symmetric] mult.commute)
    with div d64 have "v div 64 ^ length (c # cs) = m" by simp
    moreover have "(c # cs) ! i = B64 ! (v div 64 ^ (length (c # cs) - 1 - i) mod 64)" if "i < length (c # cs)" for i
      using that ih div d64 c by (cases i) auto
    ultimately show ?case using lt by blast
  qed simp
  from this [OF assms(1)] show ?thesis by simp
qed

lemma b64_char_group:
  assumes "n < 64 ^ 4"
  shows "unat (word_of_nat (n div 65536 mod 256) :: byte) * 65536 + unat (word_of_nat (n div 256 mod 256) :: byte) * 256
     + unat (word_of_nat (n mod 256) :: byte) = n"
proof -
  have "n div 65536 = n div 256 div 256" by (simp add: div_mult2_eq [symmetric])
  moreover have "n div 65536 < 256" using assms by (simp add: less_mult_imp_div_less)
  moreover have m: "n div 65536 mod 256 = n div 65536" using calculation by simp
  ultimately have "n div 65536 mod 256 * 65536 + n div 256 mod 256 * 256 + n mod 256 = n"
    using div_mult_mod_eq [of n 256] div_mult_mod_eq [of "n div 256" 256] by linarith
  then show ?thesis using m by (simp add: unat_word_of_nat_byte)
qed

lemma b64_unb64_quad:
  assumes "unb64_quad [a, b, c, d] final = Inr xs"
  shows "b64 xs = [a, b, c, d] \<and> (\<not> final \<longrightarrow> length xs = 3)"
proof -
  let ?pad = "length (takeWhile (\<lambda>x. x = CHR ''='') (rev [a, b, c, d]))"
  from assms obtain v where pad: "?pad \<le> 2" "?pad > 0 \<longrightarrow> final"
    and v: "sextets (take (4 - ?pad) [a, b, c, d]) 0 = Inr v"
    and can: "v * 64 ^ ?pad mod 256 ^ ?pad = 0"
    and xs: "xs = take (3 - ?pad) [word_of_nat (v * 64 ^ ?pad div 65536 mod 256),
        word_of_nat (v * 64 ^ ?pad div 256 mod 256), word_of_nat (v * 64 ^ ?pad mod 256)]"
    unfolding unb64_quad_def Let_def by (auto simp: result_simps not_less split: if_splits)
  consider "?pad = 0" "d \<noteq> CHR ''=''" | "?pad = 1" "d = CHR ''=''" | "?pad = 2" "d = CHR ''=''" "c = CHR ''=''"
    using pad(1) by (auto split: if_splits)
  then show ?thesis
  proof cases
    case 1
    then have "sextets [a, b, c, d] 0 = Inr v" using v by simp
    note s = sextets_sound [OF this]
    from s have lt: "v < 64 ^ 4" by simp
    note ch = s [THEN conjunct2, rule_format]
    have "[a, b, c, d] = [b64_char v 0, b64_char v 1, b64_char v 2, b64_char v 3]"
      using ch [of 0] ch [of 1] ch [of 2] ch [of 3] by (simp add: b64_char_def)
    then show ?thesis using 1 xs b64_char_group [OF lt] by (simp add: Let_def)
  next
    case 2
    then have "sextets [a, b, c] 0 = Inr v" using v by simp
    note s = sextets_sound [OF this]
    from s have lt: "v * 64 < 64 ^ 4" by simp
    note ch = s [THEN conjunct2, rule_format]
    have "v * 64 div 64 ^ 3 = v div 64 ^ 2" "v * 64 div 64 ^ 2 = v div 64"
      using div_mult_mult2 [of 64 v "64 ^ 2"] div_mult_mult2 [of 64 v 64] by simp_all
    then have "[a, b, c] = [b64_char (v * 64) 0, b64_char (v * 64) 1, b64_char (v * 64) 2]"
      using ch [of 0] ch [of 1] ch [of 2] by (simp add: b64_char_def)
    moreover have "v * 64 mod 256 = 0" using can 2 by simp
    ultimately show ?thesis using 2 xs b64_char_group [OF lt] pad(2) by (simp add: Let_def)
  next
    case 3
    then have "sextets [a, b] 0 = Inr v" using v by simp
    note s = sextets_sound [OF this]
    from s have lt: "v * 4096 < 64 ^ 4" by simp
    note ch = s [THEN conjunct2, rule_format]
    have "v * 4096 div 64 ^ 3 = v div 64" "v * 4096 div 64 ^ 2 = v"
      using div_mult_mult2 [of 4096 v 64] by simp_all
    then have ab: "[a, b] = [b64_char (v * 4096) 0, b64_char (v * 4096) 1]"
      using ch [of 0] ch [of 1] by (simp add: b64_char_def)
    have "65536 dvd v * 4096" using can 3 by (simp add: mod_eq_0_iff_dvd)
    then obtain w where w: "v * 4096 = 65536 * w" by blast
    define n where "n = v * 4096"
    have "n mod 256 = 0" "n div 256 mod 256 = 0" using w by (simp_all add: n_def)
    then have "unat (word_of_nat (n div 65536 mod 256) :: byte) * 65536 = n"
      using b64_char_group [of n] lt by (simp add: n_def)
    moreover have "xs = [word_of_nat (n div 65536 mod 256)]" using 3 xs by (simp add: n_def)
    moreover have "[a, b] = [b64_char n 0, b64_char n 1]" using ab by (simp only: n_def)
    ultimately show ?thesis using 3 pad(2) by (simp add: Let_def del: unat_of_nat unsigned_of_nat)
  qed
qed

lemma b64_unb64_loop: "length t mod 4 = 0 \<Longrightarrow> unb64_loop t = Inr bs \<Longrightarrow> b64 bs = t"
proof (induction t arbitrary: bs rule: unb64_loop.induct)
  case (1 a b c d tail)
  then obtain xs ys where q: "unb64_quad [a, b, c, d] (tail = []) = Inr xs" and ys: "unb64_loop tail = Inr ys"
    and bs: "bs = xs @ ys" by (auto simp: result_simps)
  have ih: "b64 ys = tail" using 1 q ys by simp
  note quad = b64_unb64_quad [OF q]
  show ?case
  proof (cases "tail = []")
    case True
    then have "ys = []" using ys by simp
    with quad bs True show ?thesis by simp
  next
    case False
    then obtain x y z where "xs = [x, y, z]"
      using quad by (auto simp: length_Suc_conv numeral_3_eq_3)
    with quad bs ih show ?thesis by (simp add: Let_def)
  qed
qed auto

lemma b64_unb64: "unb64 t = Inr bs \<Longrightarrow> b64 bs = t"
  using b64_unb64_loop by (auto simp: unb64_def split: if_splits)

end
