(* ===== verification/Merkle.thy ===== *)
theory Merkle
  imports Encoding
begin

text \<open>
  RFC 6962 tree heads and proofs (\<^verbatim>\<open>crates/engine-core/src/transparency/merkle.rs\<close>). The trait
  \<^verbatim>\<open>HashSource\<close> is the record \<open>hash_source\<close>; what its implementations promise is the locale
  \<open>stored_tree\<close>, in which the results of \<^verbatim>\<open>tree_root\<close>, \<^verbatim>\<open>inclusion_proof\<close> and
  \<^verbatim>\<open>consistency_proof\<close> are derived once. \<^verbatim>\<open>u64\<close> sizes are natural numbers: every sum and difference of the
  code stays between 0 and the tree size. A call that the code cannot make (\<^verbatim>\<open>split(0)\<close>, which
  underflows) is the error \<open>MissingNode 64 0\<close>, a level no \<^verbatim>\<open>u64\<close> tree has.
\<close>

type_synonym hash = bytes

section \<open>Hashing and tree heads\<close>

definition MAX_PROOF_LEN :: nat where "MAX_PROOF_LEN = 65"

definition empty_root :: "hash_fun \<Rightarrow> hash" where "empty_root sha = sha []"
definition leaf_hash :: "hash_fun \<Rightarrow> bytes \<Rightarrow> hash" where "leaf_hash sha entry = sha (0 # entry)"
definition node_hash :: "hash_fun \<Rightarrow> hash \<Rightarrow> hash \<Rightarrow> hash" where "node_hash sha l r = sha (1 # l @ r)"

text \<open>\<open>ilog2 n\<close> is \<^verbatim>\<open>63 - n.leading_zeros()\<close> for a positive \<^verbatim>\<open>u64\<close>, and \<^verbatim>\<open>n.trailing_zeros()\<close> for a power
  of two.\<close>

fun ilog2 :: "nat \<Rightarrow> nat" where
  "ilog2 n = (if n < 2 then 0 else Suc (ilog2 (n div 2)))"

declare ilog2.simps [simp del]

definition is_power_of_two :: "nat \<Rightarrow> bool" where
  "is_power_of_two n \<longleftrightarrow> n \<noteq> 0 \<and> 2 ^ ilog2 n = n"

definition split_at :: "nat \<Rightarrow> nat" where
  "split_at n = 2 ^ ilog2 (n - 1)"

record hash_source =
  hs_size :: nat
  hs_node :: "nat \<Rightarrow> nat \<Rightarrow> tr_error + hash"

lemma ilog2_bounds: "0 < n \<Longrightarrow> 2 ^ ilog2 n \<le> n \<and> n < 2 ^ Suc (ilog2 n)"
proof (induction n rule: ilog2.induct)
  case (1 n)
  show ?case
  proof (cases "n < 2")
    case True
    with 1 show ?thesis by (simp add: ilog2.simps)
  next
    case False
    with 1 have "2 ^ ilog2 (n div 2) \<le> n div 2 \<and> n div 2 < 2 ^ Suc (ilog2 (n div 2))" by simp
    with False show ?thesis by (subst (1 2) ilog2.simps) auto
  qed
qed

lemma split_at_bounds: "2 \<le> n \<Longrightarrow> 0 < split_at n \<and> split_at n < n \<and> n \<le> 2 * split_at n"
  using ilog2_bounds [of "n - 1"] by (auto simp: split_at_def)

function range_hash :: "hash_fun \<Rightarrow> hash_source \<Rightarrow> nat \<Rightarrow> nat \<Rightarrow> tr_error + hash" where
  "range_hash sha src lo n =
     (if is_power_of_two n \<and> lo mod n = 0 then hs_node src (ilog2 n) (lo div n)
      else if n < 2 then Inl (MissingNode 64 0)
      else
        (let k = split_at n in
         bind_res (range_hash sha src lo k) (\<lambda>l.
         bind_res (range_hash sha src (lo + k) (n - k)) (\<lambda>r. Inr (node_hash sha l r)))))"
  by pat_completeness auto
termination
  by (relation "measure (\<lambda>(sha, src, lo, n). n)") (use split_at_bounds in auto)

declare range_hash.simps [simp del]

definition check_size :: "hash_source \<Rightarrow> nat \<Rightarrow> tr_error + unit" where
  "check_size src n = (if n > hs_size src then Inl (SizeOutOfRange n (hs_size src)) else Inr ())"

definition tree_root :: "hash_fun \<Rightarrow> hash_source \<Rightarrow> nat \<Rightarrow> tr_error + hash" where
  "tree_root sha src n =
     bind_res (check_size src n) (\<lambda>_. if n = 0 then Inr (empty_root sha) else range_hash sha src 0 n)"

section \<open>Proof generation\<close>

text \<open>The two loops push onto a vector that is reversed at the end: each turn appends behind the rest.\<close>

function inclusion_loop :: "hash_fun \<Rightarrow> hash_source \<Rightarrow> nat \<Rightarrow> nat \<Rightarrow> nat \<Rightarrow> tr_error + hash list" where
  "inclusion_loop sha src lo n m =
     (if n \<le> 1 then Inr []
      else
        (let k = split_at n in
         if m < k then
           bind_res (range_hash sha src (lo + k) (n - k)) (\<lambda>h.
           bind_res (inclusion_loop sha src lo k m) (\<lambda>path. Inr (path @ [h])))
         else
           bind_res (range_hash sha src lo k) (\<lambda>h.
           bind_res (inclusion_loop sha src (lo + k) (n - k) (m - k)) (\<lambda>path. Inr (path @ [h])))))"
  by pat_completeness auto
termination
  by (relation "measure (\<lambda>(sha, src, lo, n, m). n)") (use split_at_bounds in auto)

declare inclusion_loop.simps [simp del]

definition inclusion_proof :: "hash_fun \<Rightarrow> hash_source \<Rightarrow> nat \<Rightarrow> nat \<Rightarrow> tr_error + hash list" where
  "inclusion_proof sha src index n =
     bind_res (check_size src n) (\<lambda>_.
       if index \<ge> n then Inl (IndexOutOfRange index n) else inclusion_loop sha src 0 n index)"

function consistency_loop ::
    "hash_fun \<Rightarrow> hash_source \<Rightarrow> nat \<Rightarrow> nat \<Rightarrow> nat \<Rightarrow> bool \<Rightarrow> tr_error + hash list" where
  "consistency_loop sha src lo n m whole =
     (if m = n then
        (if whole then Inr [] else bind_res (range_hash sha src lo n) (\<lambda>h. Inr [h]))
      else if n < 2 then Inl (MissingNode 64 0)
      else
        (let k = split_at n in
         if m \<le> k then
           bind_res (range_hash sha src (lo + k) (n - k)) (\<lambda>h.
           bind_res (consistency_loop sha src lo k m whole) (\<lambda>proof. Inr (proof @ [h])))
         else
           bind_res (range_hash sha src lo k) (\<lambda>h.
           bind_res (consistency_loop sha src (lo + k) (n - k) (m - k) False) (\<lambda>proof. Inr (proof @ [h])))))"
  by pat_completeness auto
termination
  by (relation "measure (\<lambda>(sha, src, lo, n, m, whole). n)") (use split_at_bounds in auto)

declare consistency_loop.simps [simp del]

definition consistency_proof :: "hash_fun \<Rightarrow> hash_source \<Rightarrow> nat \<Rightarrow> nat \<Rightarrow> tr_error + hash list" where
  "consistency_proof sha src first second =
     bind_res (check_size src second) (\<lambda>_.
       if first > second then Inl (SizeOutOfRange first second)
       else if first = 0 \<or> first = second then Inr []
       else consistency_loop sha src 0 second first True)"

section \<open>Verification\<close>

text \<open>\<^verbatim>\<open>while fnode & 1 == 0 && fnode != 0\<close> and \<^verbatim>\<open>while fnode & 1 == 1\<close>: both shift the pair to the right.\<close>

function strip_zeros :: "nat \<Rightarrow> nat \<Rightarrow> nat \<times> nat" where
  "strip_zeros fnode snode =
     (if even fnode \<and> fnode \<noteq> 0 then strip_zeros (fnode div 2) (snode div 2) else (fnode, snode))"
  by pat_completeness auto
termination
  by (relation "measure fst") auto

function strip_ones :: "nat \<Rightarrow> nat \<Rightarrow> nat \<times> nat" where
  "strip_ones fnode snode =
     (if odd fnode then strip_ones (fnode div 2) (snode div 2) else (fnode, snode))"
  by pat_completeness auto
termination
  by (relation "measure fst") (auto elim: oddE)

declare strip_zeros.simps [simp del] strip_ones.simps [simp del]

fun inclusion_steps :: "hash_fun \<Rightarrow> nat \<Rightarrow> nat \<Rightarrow> hash \<Rightarrow> hash list \<Rightarrow> (nat \<times> hash) option" where
  "inclusion_steps sha fnode snode h [] = Some (snode, h)"
| "inclusion_steps sha fnode snode h (sibling # proof) =
     (if snode = 0 then None
      else if odd fnode \<or> fnode = snode then
        (let (f, s) = strip_zeros fnode snode
         in inclusion_steps sha (f div 2) (s div 2) (node_hash sha sibling h) proof)
      else inclusion_steps sha (fnode div 2) (snode div 2) (node_hash sha h sibling) proof)"

definition verify_inclusion ::
    "hash_fun \<Rightarrow> hash \<Rightarrow> nat \<Rightarrow> nat \<Rightarrow> hash list \<Rightarrow> hash \<Rightarrow> tr_error + unit" where
  "verify_inclusion sha leaf index n proof root =
     (if index \<ge> n then Inl (IndexOutOfRange index n)
      else if length proof > MAX_PROOF_LEN then Inl BadInclusionProof
      else
        (case inclusion_steps sha index (n - 1) leaf proof of
           None \<Rightarrow> Inl BadInclusionProof
         | Some (snode, h) \<Rightarrow> if snode = 0 \<and> h = root then Inr () else Inl BadInclusionProof))"

fun consistency_steps ::
    "hash_fun \<Rightarrow> nat \<Rightarrow> nat \<Rightarrow> hash \<Rightarrow> hash \<Rightarrow> hash list \<Rightarrow> (nat \<times> hash \<times> hash) option" where
  "consistency_steps sha fnode snode h1 h2 [] = Some (snode, h1, h2)"
| "consistency_steps sha fnode snode h1 h2 (sibling # proof) =
     (if snode = 0 then None
      else if odd fnode \<or> fnode = snode then
        (let (f, s) = strip_zeros fnode snode
         in consistency_steps sha (f div 2) (s div 2) (node_hash sha sibling h1) (node_hash sha sibling h2) proof)
      else consistency_steps sha (fnode div 2) (snode div 2) h1 (node_hash sha h2 sibling) proof)"

definition verify_consistency ::
    "hash_fun \<Rightarrow> nat \<Rightarrow> nat \<Rightarrow> hash \<Rightarrow> hash \<Rightarrow> hash list \<Rightarrow> tr_error + unit" where
  "verify_consistency sha first second first_root second_root proof =
     (if first > second \<or> length proof > MAX_PROOF_LEN then Inl BadConsistencyProof
      else if first = second then
        (if proof = [] \<and> first_root = second_root then Inr () else Inl BadConsistencyProof)
      else if first = 0 then
        (if proof = [] \<and> first_root = empty_root sha then Inr () else Inl BadConsistencyProof)
      else
        (case (if is_power_of_two first then [first_root] else []) @ proof of
           [] \<Rightarrow> Inl BadConsistencyProof
         | start # rest_path \<Rightarrow>
             (let (f, s) = strip_ones (first - 1) (second - 1) in
              case consistency_steps sha f s start start rest_path of
                None \<Rightarrow> Inl BadConsistencyProof
              | Some (snode, h1, h2) \<Rightarrow>
                  if snode = 0 \<and> h1 = first_root \<and> h2 = second_root then Inr () else Inl BadConsistencyProof)))"

section \<open>The tree in memory\<close>

type_synonym memory_tree = "hash list list"

text \<open>The carry loop of \<^verbatim>\<open>append_leaf_hash\<close>; the recursion goes up one level while a level got an even length.\<close>

fun push_level :: "hash_fun \<Rightarrow> hash \<Rightarrow> memory_tree \<Rightarrow> memory_tree" where
  "push_level sha h [] = [[h]]"
| "push_level sha h (level # levels) =
     (let level' = level @ [h] in
      if even (length level')
      then level' # push_level sha (node_hash sha (last level) h) levels
      else level' # levels)"

definition append_leaf_hash :: "hash_fun \<Rightarrow> memory_tree \<Rightarrow> hash \<Rightarrow> memory_tree \<times> nat" where
  "append_leaf_hash sha t h = (push_level sha h t, length (hd (push_level sha h t)) - 1)"

definition append_entry :: "hash_fun \<Rightarrow> memory_tree \<Rightarrow> bytes \<Rightarrow> memory_tree \<times> nat" where
  "append_entry sha t entry = append_leaf_hash sha t (leaf_hash sha entry)"

definition memory_source :: "memory_tree \<Rightarrow> hash_source" where
  "memory_source t =
     \<lparr>hs_size = (case t of [] \<Rightarrow> 0 | leaves # _ \<Rightarrow> length leaves),
      hs_node = (\<lambda>level index. ok_or (Option.bind (nth_opt t level) (\<lambda>l. nth_opt l index)) (MissingNode level index))\<rparr>"

definition memory_root :: "hash_fun \<Rightarrow> memory_tree \<Rightarrow> tr_error + hash" where
  "memory_root sha t = tree_root sha (memory_source t) (hs_size (memory_source t))"

end
