(* ===== verification/Merkle_Proofs.thy ===== *)
theory Merkle_Proofs
  imports Merkle
begin

text \<open>
  Correctness of the Merkle proofs. \<open>mth\<close> is the tree hash of RFC 6962, from the top down. The verifiers work
  from the bottom up; the bridge is \<open>mth_pair_up\<close>: hashing neighbours in pairs and promoting an odd last
  node does not change the tree hash. Completeness says that generated proofs verify; soundness that an
  accepted proof is true or exhibits two different inputs of the hash function, both computed by the
  verifier or by the tree, with the same hash.
\<close>

section \<open>The tree hash\<close>

function mth :: "hash_fun \<Rightarrow> hash list \<Rightarrow> hash" where
  "mth sha L =
     (if L = [] then empty_root sha
      else if length L = 1 then hd L
      else node_hash sha (mth sha (take (split_at (length L)) L)) (mth sha (drop (split_at (length L)) L)))"
  by pat_completeness auto
termination
proof (relation "measure (length \<circ> snd)", goal_cases)
  case (2 sha L)
  then have "2 \<le> length L" by (cases L) (auto simp: not_less_eq_eq Suc_le_eq)
  with split_at_bounds [of "length L"] show ?case by auto
next
  case (3 sha L)
  then have "2 \<le> length L" by (cases L) (auto simp: not_less_eq_eq Suc_le_eq)
  with split_at_bounds [of "length L"] show ?case by auto
qed auto

declare mth.simps [simp del]

lemma mth_simps [simp]: "mth sha [] = empty_root sha" "mth sha [x] = x"
  by (simp_all add: mth.simps)

lemma mth_split:
  "2 \<le> length L \<Longrightarrow>
     mth sha L = node_hash sha (mth sha (take (split_at (length L)) L)) (mth sha (drop (split_at (length L)) L))"
  by (subst mth.simps) auto

fun pair_up :: "hash_fun \<Rightarrow> hash list \<Rightarrow> hash list" where
  "pair_up sha (a # b # L) = node_hash sha a b # pair_up sha L"
| "pair_up sha [a] = [a]"
| "pair_up sha [] = []"

lemma length_pair_up [simp]: "length (pair_up sha L) = (length L + 1) div 2"
  by (induction sha L rule: pair_up.induct) auto

lemma pair_up_append: "even (length A) \<Longrightarrow> pair_up sha (A @ B) = pair_up sha A @ pair_up sha B"
  by (induction sha A rule: pair_up.induct) auto

lemma pair_up_take_drop:
  "take k (pair_up sha L) = pair_up sha (take (2 * k) L)" "drop k (pair_up sha L) = pair_up sha (drop (2 * k) L)"
proof -
  have "take k (pair_up sha L) = pair_up sha (take (2 * k) L) \<and> drop k (pair_up sha L) = pair_up sha (drop (2 * k) L)"
  proof (cases "2 * k \<le> length L")
    case True
    have "pair_up sha L = pair_up sha (take (2 * k) L) @ pair_up sha (drop (2 * k) L)"
      using pair_up_append [of "take (2 * k) L" sha "drop (2 * k) L"] True by simp
    moreover have "length (pair_up sha (take (2 * k) L)) = k" using True by simp
    ultimately show ?thesis by (metis append_eq_conv_conj)
  qed auto
  then show "take k (pair_up sha L) = pair_up sha (take (2 * k) L)" "drop k (pair_up sha L) = pair_up sha (drop (2 * k) L)"
    by auto
qed

lemma pair_up_nth:
  "i < length L div 2 \<Longrightarrow> pair_up sha L ! i = node_hash sha (L ! (2 * i)) (L ! (2 * i + 1))"
  by (induction sha L arbitrary: i rule: pair_up.induct) (auto simp: nth_Cons split: nat.split)

lemma pair_up_last: "odd (length L) \<Longrightarrow> pair_up sha L ! (length L div 2) = last L"
proof (induction sha L rule: pair_up.induct)
  case (1 sha a b L)
  then show ?case by (cases L) auto
qed auto

lemma pair_up_promoted: "L \<noteq> [] \<Longrightarrow> even (length L - 1) \<Longrightarrow> pair_up sha L ! ((length L - 1) div 2) = L ! (length L - 1)"
  using pair_up_last [of L sha]
  by (metis even_Suc even_Suc_div_two last_conv_nth length_greater_0_conv Suc_pred')

lemma ilog2_double: "0 < n \<Longrightarrow> ilog2 (2 * n) = Suc (ilog2 n)"
  by (subst ilog2.simps) simp

lemma split_at_double: "2 < n \<Longrightarrow> split_at n = 2 * split_at ((n + 1) div 2)"
proof -
  assume n: "2 < n"
  then have "ilog2 (n - 1) = Suc (ilog2 ((n - 1) div 2))" by (subst ilog2.simps) simp
  moreover have "(n + 1) div 2 - 1 = (n - 1) div 2" using n by presburger
  ultimately show ?thesis by (simp add: split_at_def)
qed

lemma split_at_two [simp]: "split_at 2 = 1" "split_at (Suc (Suc 0)) = 1"
  by (simp_all add: split_at_def ilog2.simps)

lemma mth_pair_up: "mth sha (pair_up sha L) = mth sha L"
proof (induction "length L" arbitrary: L rule: less_induct)
  case less
  consider "length L \<le> 1" | "length L = 2" | "2 < length L" by linarith
  then show ?case
  proof cases
    case 1
    then show ?thesis by (cases L) (auto simp: le_Suc_eq)
  next
    case 2
    then obtain a b where "L = [a, b]" by (auto simp: length_Suc_conv numeral_2_eq_2)
    then show ?thesis by (simp add: mth_split)
  next
    case 3
    let ?k = "split_at (length L)" and ?k' = "split_at ((length L + 1) div 2)"
    have k: "?k = 2 * ?k'" by (rule split_at_double [OF 3])
    have b: "0 < ?k" "?k < length L" using split_at_bounds [of "length L"] 3 by auto
    have "mth sha (pair_up sha L) = node_hash sha (mth sha (take ?k' (pair_up sha L))) (mth sha (drop ?k' (pair_up sha L)))"
      using mth_split [of "pair_up sha L" sha] 3 by simp
    also have "\<dots> = node_hash sha (mth sha (take ?k L)) (mth sha (drop ?k L))"
      unfolding pair_up_take_drop using less [of "take ?k L"] less [of "drop ?k L"] b k by simp
    also have "\<dots> = mth sha L" using mth_split [of L sha] 3 by simp
    finally show ?thesis .
  qed
qed

section \<open>Audit paths\<close>

function rfc_path :: "hash_fun \<Rightarrow> nat \<Rightarrow> hash list \<Rightarrow> hash list" where
  "rfc_path sha m L =
     (if length L \<le> 1 then []
      else
        (let k = split_at (length L) in
         if m < k then rfc_path sha m (take k L) @ [mth sha (drop k L)]
         else rfc_path sha (m - k) (drop k L) @ [mth sha (take k L)]))"
  by pat_completeness auto
termination
proof (relation "measure (\<lambda>(sha, m, L). length L)", goal_cases)
  case (2 sha m L k)
  with split_at_bounds [of "length L"] show ?case by auto
next
  case (3 sha m L k)
  with split_at_bounds [of "length L"] show ?case by auto
qed auto

declare rfc_path.simps [simp del]

lemma rfc_path_left:
  "2 \<le> length L \<Longrightarrow> m < split_at (length L) \<Longrightarrow>
     rfc_path sha m L = rfc_path sha m (take (split_at (length L)) L) @ [mth sha (drop (split_at (length L)) L)]"
  by (subst rfc_path.simps) (simp add: Let_def)

lemma rfc_path_right:
  "2 \<le> length L \<Longrightarrow> \<not> m < split_at (length L) \<Longrightarrow>
     rfc_path sha m L =
       rfc_path sha (m - split_at (length L)) (drop (split_at (length L)) L) @ [mth sha (take (split_at (length L)) L)]"
  by (subst rfc_path.simps) (simp add: Let_def)

definition sibling :: "nat \<Rightarrow> hash list \<Rightarrow> hash list" where
  "sibling m L = (if odd m then [L ! (m - 1)] else if m + 1 < length L then [L ! (m + 1)] else [])"

lemma sibling_take: "even k \<Longrightarrow> m < k \<Longrightarrow> k \<le> length L \<Longrightarrow> sibling m (take k L) = sibling m L"
  by (auto simp: sibling_def) presburger+

lemma sibling_drop: "even k \<Longrightarrow> k \<le> m \<Longrightarrow> m < length L \<Longrightarrow> sibling (m - k) (drop k L) = sibling m L"
  by (auto simp: sibling_def elim!: oddE)

lemma rfc_path_up:
  "2 \<le> length L \<Longrightarrow> m < length L \<Longrightarrow> rfc_path sha m L = sibling m L @ rfc_path sha (m div 2) (pair_up sha L)"
proof (induction "length L" arbitrary: L m rule: less_induct)
  case less
  show ?case
  proof (cases "length L = 2")
    case True
    then obtain a b where "L = [a, b]" by (auto simp: length_Suc_conv numeral_2_eq_2)
    with less.prems show ?thesis
      by (auto simp: rfc_path.simps Let_def sibling_def less_Suc_eq numeral_2_eq_2)
  next
    case False
    then have n: "2 < length L" using less.prems by simp
    let ?k = "split_at (length L)" and ?k' = "split_at ((length L + 1) div 2)"
    have k: "?k = 2 * ?k'" by (rule split_at_double [OF n])
    have b: "0 < ?k" "?k < length L" using split_at_bounds [of "length L"] n by auto
    have up: "2 \<le> length (pair_up sha L)" using n by simp
    show ?thesis
    proof (cases "m < ?k")
      case True
      have "rfc_path sha m (take ?k L) = sibling m L @ rfc_path sha (m div 2) (pair_up sha (take ?k L))"
        using less.hyps [of "take ?k L" m] b k True sibling_take [of ?k m L] by simp
      note eq = this
      have half: "m div 2 < split_at (length (pair_up sha L))" using True k by simp
      have "rfc_path sha m L = rfc_path sha m (take ?k L) @ [mth sha (drop ?k L)]"
        by (rule rfc_path_left [OF less.prems(1) True])
      also have "\<dots> = sibling m L @ rfc_path sha (m div 2) (take ?k' (pair_up sha L)) @ [mth sha (drop ?k' (pair_up sha L))]"
        by (simp only: eq pair_up_take_drop mth_pair_up append_assoc) (simp only: k)
      also have "\<dots> = sibling m L @ rfc_path sha (m div 2) (pair_up sha L)"
        using rfc_path_left [OF up half, of sha] by (simp only: length_pair_up)
      finally show ?thesis .
    next
      case False
      have "rfc_path sha (m - ?k) (drop ?k L) = sibling m L @ rfc_path sha ((m - ?k) div 2) (pair_up sha (drop ?k L))"
      proof (cases "length (drop ?k L) = 1")
        case True
        then have "m = ?k" "length L = ?k + 1" using False less.prems b by auto
        moreover have "rfc_path sha j X = []" if "length X \<le> 1" for j X using that by (simp add: rfc_path.simps)
        ultimately show ?thesis using k b by (simp add: sibling_def)
      next
        case ge: False
        then have "2 \<le> length (drop ?k L)" using b by auto
        moreover have "m - ?k < length (drop ?k L)" using less.prems b False by simp
        moreover have "length (drop ?k L) < length L" using b by simp
        ultimately show ?thesis using less.hyps [of "drop ?k L" "m - ?k"] sibling_drop [of ?k m L] False less.prems k by simp
      qed
      note eq = this
      have half: "\<not> m div 2 < split_at (length (pair_up sha L))" and idx: "(m - ?k) div 2 = m div 2 - ?k'"
        using k False by auto
      have "rfc_path sha m L = rfc_path sha (m - ?k) (drop ?k L) @ [mth sha (take ?k L)]"
        by (rule rfc_path_right [OF less.prems(1) False])
      also have "\<dots> = sibling m L @ rfc_path sha (m div 2 - ?k') (drop ?k' (pair_up sha L)) @ [mth sha (take ?k' (pair_up sha L))]"
        by (simp only: eq idx pair_up_take_drop mth_pair_up append_assoc) (simp only: k)
      also have "\<dots> = sibling m L @ rfc_path sha (m div 2) (pair_up sha L)"
        using rfc_path_right [OF up half, of sha] by (simp only: length_pair_up)
      finally show ?thesis .
    qed
  qed
qed

section \<open>Inclusion\<close>

definition included :: "hash_fun \<Rightarrow> nat \<Rightarrow> nat \<Rightarrow> hash \<Rightarrow> hash list \<Rightarrow> hash \<Rightarrow> bool" where
  "included sha f s h p r \<longleftrightarrow> inclusion_steps sha f s h p = Some (0, r)"

lemma strip_zeros_odd [simp]: "odd f \<Longrightarrow> strip_zeros f s = (f, s)"
  by (simp add: strip_zeros.simps)

lemma strip_zeros_double: "0 < a \<Longrightarrow> strip_zeros (2 * a) (2 * a) = strip_zeros a a"
  by (subst strip_zeros.simps) simp

lemma included_Nil [simp]: "included sha f s h [] r \<longleftrightarrow> s = 0 \<and> h = r"
  by (auto simp: included_def)

lemma included_zero [simp]: "\<not> included sha f 0 h (x # p) r"
  by (simp add: included_def)

lemma included_odd:
  "odd f \<Longrightarrow> s \<noteq> 0 \<Longrightarrow> included sha f s h (x # p) r \<longleftrightarrow> included sha (f div 2) (s div 2) (node_hash sha x h) p r"
  by (simp add: included_def)

lemma included_even:
  "even f \<Longrightarrow> f < s \<Longrightarrow> included sha f s h (x # p) r \<longleftrightarrow> included sha (f div 2) (s div 2) (node_hash sha h x) p r"
  by (simp add: included_def)

lemma included_edge: "even f \<Longrightarrow> 0 < f \<Longrightarrow> included sha f f h p r \<longleftrightarrow> included sha (f div 2) (f div 2) h p r"
proof -
  assume "even f" "0 < f"
  then obtain a where a: "f = 2 * a" "0 < a" by (auto elim!: evenE)
  then show ?thesis by (cases p) (simp_all add: included_def strip_zeros_double)
qed

lemma last_index_half: "L \<noteq> [] \<Longrightarrow> length (pair_up sha L) - 1 = (length L - 1) div 2"
  by (cases L) auto

lemma inclusion_complete:
  "m < length L \<Longrightarrow> included sha m (length L - 1) (L ! m) (rfc_path sha m L) (mth sha L)"
proof (induction "length L" arbitrary: L m rule: less_induct)
  case less
  show ?case
  proof (cases "length L = 1")
    case True
    with less.prems show ?thesis by (auto simp: length_Suc_conv rfc_path.simps)
  next
    case False
    then have n: "2 \<le> length L" using less.prems by linarith
    then have "L \<noteq> []" by auto
    let ?U = "pair_up sha L"
    have ih: "included sha (m div 2) ((length L - 1) div 2) (?U ! (m div 2)) (rfc_path sha (m div 2) ?U) (mth sha L)"
      using less.hyps [of ?U "m div 2"] n less.prems last_index_half [OF \<open>L \<noteq> []\<close>, of sha] by (simp add: mth_pair_up)
    note up = rfc_path_up [OF n less.prems, of sha]
    consider "odd m" | "even m" "m + 1 < length L" | "even m" "m + 1 = length L" using less.prems by linarith
    then show ?thesis
    proof cases
      case 1
      then obtain i where i: "m = 2 * i + 1" by (auto elim: oddE)
      then have "?U ! i = node_hash sha (L ! (m - 1)) (L ! m)" using pair_up_nth [of i L sha] less.prems by simp
      then show ?thesis using ih up 1 i n by (simp add: included_odd sibling_def)
    next
      case 2
      then obtain i where i: "m = 2 * i" by (auto elim: evenE)
      then have "?U ! i = node_hash sha (L ! m) (L ! (m + 1))" using pair_up_nth [of i L sha] 2 by simp
      then show ?thesis using ih up 2 i n by (simp add: included_even sibling_def)
    next
      case 3
      then have "?U ! (m div 2) = L ! m" using pair_up_promoted [OF \<open>L \<noteq> []\<close>, of sha] by (metis add_diff_cancel_right')
      moreover have "0 < m" "length L - 1 = m" using 3 n by auto
      ultimately show ?thesis using ih up 3 included_edge [of m] by (simp add: sibling_def)
    qed
  qed
qed

lemma rfc_path_length: "length L \<le> 2 ^ t \<Longrightarrow> m < length L \<Longrightarrow> length (rfc_path sha m L) \<le> t"
proof (induction t arbitrary: L m)
  case 0
  then show ?case by (simp add: rfc_path.simps)
next
  case (Suc t)
  show ?case
  proof (cases "2 \<le> length L")
    case True
    have "length (sibling m L) \<le> 1" by (simp add: sibling_def)
    moreover have "length (rfc_path sha (m div 2) (pair_up sha L)) \<le> t" using Suc by (intro Suc.IH) auto
    ultimately show ?thesis using rfc_path_up [OF True Suc.prems(2), of sha] by simp
  qed (simp add: rfc_path.simps)
qed

subsection \<open>Soundness\<close>

text \<open>The inputs of the hash function: those of the verifier and those of the tree above \<open>L\<close>.\<close>

fun steps_inputs :: "hash_fun \<Rightarrow> nat \<Rightarrow> nat \<Rightarrow> hash \<Rightarrow> hash list \<Rightarrow> bytes list" where
  "steps_inputs sha f s h [] = []"
| "steps_inputs sha f s h (x # p) =
     (if s = 0 then []
      else if odd f \<or> f = s then
        (let (f', s') = strip_zeros f s in (1 # x @ h) # steps_inputs sha (f' div 2) (s' div 2) (node_hash sha x h) p)
      else (1 # h @ x) # steps_inputs sha (f div 2) (s div 2) (node_hash sha h x) p)"

fun level_inputs :: "hash list \<Rightarrow> bytes list" where
  "level_inputs (a # b # L) = (1 # a @ b) # level_inputs L"
| "level_inputs _ = []"

function tree_inputs :: "hash_fun \<Rightarrow> hash list \<Rightarrow> bytes list" where
  "tree_inputs sha L = (if length L \<le> 1 then [] else level_inputs L @ tree_inputs sha (pair_up sha L))"
  by pat_completeness auto
termination
  by (relation "measure (length \<circ> snd)") auto

declare tree_inputs.simps [simp del]

definition hashes :: "hash list \<Rightarrow> bool" where
  "hashes L \<longleftrightarrow> list_all (\<lambda>h. length h = 32) L"

lemma hashes_pair_up: "(\<And>x. length (sha x) = 32) \<Longrightarrow> hashes L \<Longrightarrow> hashes (pair_up sha L)"
  by (induction sha L rule: pair_up.induct) (auto simp: hashes_def node_hash_def)

lemma level_inputs_mem: "i < length L div 2 \<Longrightarrow> 1 # L ! (2 * i) @ L ! (2 * i + 1) \<in> set (level_inputs L)"
proof (induction L arbitrary: i rule: level_inputs.induct)
  case (1 a b L)
  then show ?case by (cases i) auto
qed auto

text \<open>One level up: two equal parents have equal children, or a collision.\<close>

lemma sound_step:
  assumes "node_hash sha a b = pair_up sha L ! i \<or> collides sha ins (tree_inputs sha (pair_up sha L))"
    and "i < length L div 2" and "length a = length (L ! (2 * i))"
  shows "a = L ! (2 * i) \<and> b = L ! (2 * i + 1) \<or> collides sha ((1 # a @ b) # ins) (tree_inputs sha L)"
proof -
  have inputs: "tree_inputs sha L = level_inputs L @ tree_inputs sha (pair_up sha L)"
    using assms(2) by (subst tree_inputs.simps) auto
  from assms(1) show ?thesis
  proof
    assume "node_hash sha a b = pair_up sha L ! i"
    then have "sha (1 # a @ b) = sha (1 # L ! (2 * i) @ L ! (2 * i + 1))"
      using pair_up_nth [OF assms(2), of sha] by (simp add: node_hash_def)
    moreover have "1 # L ! (2 * i) @ L ! (2 * i + 1) \<in> set (tree_inputs sha L)"
      using level_inputs_mem [OF assms(2)] by (simp add: inputs)
    ultimately have "1 # a @ b = 1 # L ! (2 * i) @ L ! (2 * i + 1) \<or> collides sha ((1 # a @ b) # ins) (tree_inputs sha L)"
      unfolding collides_def by (meson list.set_intros(1))
    then show ?thesis using assms(3) by auto
  next
    assume "collides sha ins (tree_inputs sha (pair_up sha L))"
    then have "collides sha ((1 # a @ b) # ins) (tree_inputs sha L)"
      by (rule collides_mono) (auto simp: inputs)
    then show ?thesis by blast
  qed
qed

lemma tree_inputs_up: "collides sha ins (tree_inputs sha (pair_up sha L)) \<Longrightarrow> collides sha ins (tree_inputs sha L)"
proof (rule collides_mono [OF _ subset_refl])
  have "length (pair_up sha L) \<le> 1" if "length L \<le> 1" using that by simp
  then show "set (tree_inputs sha (pair_up sha L)) \<subseteq> set (tree_inputs sha L)"
    using tree_inputs.simps [of sha L] tree_inputs.simps [of sha "pair_up sha L"] by (cases "length L \<le> 1") simp_all
qed

lemma steps_inputs_edge: "even f \<Longrightarrow> 0 < f \<Longrightarrow> steps_inputs sha f f h p = steps_inputs sha (f div 2) (f div 2) h p"
proof -
  assume "even f" "0 < f"
  then obtain a where a: "f = 2 * a" "0 < a" by (auto elim!: evenE)
  then show ?thesis by (cases p) (simp_all add: strip_zeros_double)
qed

lemma inclusion_sound:
  assumes sha: "\<And>x. length (sha x) = 32"
  shows "m < length L \<Longrightarrow> hashes L \<Longrightarrow> hashes p \<Longrightarrow> length h = 32 \<Longrightarrow>
    included sha m (length L - 1) h p (mth sha L) \<Longrightarrow>
    h = L ! m \<or> collides sha (steps_inputs sha m (length L - 1) h p) (tree_inputs sha L)"
proof (induction "length L" arbitrary: L m p h rule: less_induct)
  case less
  show ?case
  proof (cases "length L = 1")
    case True
    then obtain x where "L = [x]" by (auto simp: length_Suc_conv)
    with less.prems show ?thesis by (cases p) auto
  next
    case False
    then have n: "2 \<le> length L" and ne: "L \<noteq> []" using less.prems by auto
    let ?U = "pair_up sha L" and ?s = "length L - 1"
    have len: "length (L ! j) = 32" if "j < length L" for j using less.prems that by (simp add: hashes_def list_all_length)
    have ih: "h' = ?U ! (m div 2) \<or> collides sha (steps_inputs sha (m div 2) (?s div 2) h' p') (tree_inputs sha ?U)"
      if "included sha (m div 2) (?s div 2) h' p' (mth sha L)" "length h' = 32" "hashes p'" for h' p'
      using less.hyps [of ?U "m div 2" p' h'] that n less.prems hashes_pair_up [OF sha] last_index_half [OF ne, of sha]
      by (simp add: mth_pair_up)
    consider "odd m" | "even m" "m < ?s" | "even m" "m = ?s" using less.prems by linarith
    then show ?thesis
    proof cases
      case 1
      with less.prems n obtain x q where p: "p = x # q" by (cases p) auto
      from 1 obtain i where i: "m = 2 * i + 1" by (auto elim: oddE)
      have "node_hash sha x h = ?U ! i \<or> collides sha (steps_inputs sha i (?s div 2) (node_hash sha x h) q) (tree_inputs sha ?U)"
        using ih [of "node_hash sha x h" q] less.prems p i n by (auto simp: included_odd node_hash_def sha hashes_def)
      from sound_step [OF this] show ?thesis using i less.prems p len [of "2 * i"] n by (auto simp: hashes_def)
    next
      case 2
      with less.prems n obtain x q where p: "p = x # q" by (cases p) auto
      from 2 obtain i where i: "m = 2 * i" by (auto elim: evenE)
      have "node_hash sha h x = ?U ! i \<or> collides sha (steps_inputs sha i (?s div 2) (node_hash sha h x) q) (tree_inputs sha ?U)"
        using ih [of "node_hash sha h x" q] less.prems p i 2 by (auto simp: included_even node_hash_def sha hashes_def)
      from sound_step [OF this] show ?thesis using i less.prems p len [of "2 * i"] 2 by auto
    next
      case 3
      then have "?U ! (m div 2) = L ! m" using pair_up_promoted [OF ne] by simp
      moreover have "h = ?U ! (m div 2) \<or> collides sha (steps_inputs sha (m div 2) (?s div 2) h p) (tree_inputs sha ?U)"
        using less.prems 3 n included_edge [of m sha h p] by (intro ih) auto
      ultimately show ?thesis using 3 n steps_inputs_edge [of m sha h p] tree_inputs_up by auto
    qed
  qed
qed

end
