(* ===== verification/Merkle_Consistency.thy ===== *)
theory Merkle_Consistency
  imports Merkle_Proofs
begin

text \<open>
  Consistency proofs. \<open>rfc_sub\<close> is the sub-proof of RFC 6962, from the top down, with which the generated
  proofs are compared; the verifier of \<open>verify_consistency\<close> goes up the two trees at once. The lemmas have
  the shape of those on inclusion: completeness, the length of a proof, and soundness up to an
  exhibited collision.
\<close>

section \<open>The steps of the verifier\<close>

definition consistent :: "hash_fun \<Rightarrow> nat \<Rightarrow> nat \<Rightarrow> hash \<Rightarrow> hash \<Rightarrow> hash list \<Rightarrow> hash \<Rightarrow> hash \<Rightarrow> bool" where
  "consistent sha f s h1 h2 p r1 r2 \<longleftrightarrow> consistency_steps sha f s h1 h2 p = Some (0, r1, r2)"

lemma consistent_Nil [simp]: "consistent sha f s h1 h2 [] r1 r2 \<longleftrightarrow> s = 0 \<and> h1 = r1 \<and> h2 = r2"
  by (auto simp: consistent_def)

lemma consistent_zero [simp]: "\<not> consistent sha f 0 h1 h2 (x # p) r1 r2"
  by (simp add: consistent_def)

lemma consistent_odd:
  "odd f \<Longrightarrow> s \<noteq> 0 \<Longrightarrow> consistent sha f s h1 h2 (x # p) r1 r2 \<longleftrightarrow>
     consistent sha (f div 2) (s div 2) (node_hash sha x h1) (node_hash sha x h2) p r1 r2"
  by (simp add: consistent_def)

lemma consistent_even:
  "even f \<Longrightarrow> f < s \<Longrightarrow> consistent sha f s h1 h2 (x # p) r1 r2 \<longleftrightarrow>
     consistent sha (f div 2) (s div 2) h1 (node_hash sha h2 x) p r1 r2"
  by (simp add: consistent_def)

lemma consistent_edge:
  "even f \<Longrightarrow> 0 < f \<Longrightarrow> consistent sha f f h1 h2 p r1 r2 \<longleftrightarrow> consistent sha (f div 2) (f div 2) h1 h2 p r1 r2"
proof -
  assume "even f" "0 < f"
  then obtain a where a: "f = 2 * a" "0 < a" by (auto elim!: evenE)
  then show ?thesis by (cases p) (simp_all add: consistent_def strip_zeros_double)
qed

text \<open>The first tree at a level: the nodes of the second before \<open>f\<close>, and its own last node \<open>h\<close>.\<close>

lemma pair_up_prefix_odd:
  assumes "odd f" and "f < length L"
  shows "pair_up sha (take f L @ [h]) = take (f div 2) (pair_up sha L) @ [node_hash sha (L ! (f - 1)) h]"
proof -
  obtain i where i: "f = 2 * i + 1" using assms(1) by (auto elim: oddE)
  have "take f L @ [h] = take (2 * i) L @ [L ! (f - 1), h]"
    using i assms(2) take_Suc_conv_app_nth [of "2 * i" L] by simp
  then show ?thesis using i assms(2) by (simp add: pair_up_append pair_up_take_drop)
qed

lemma pair_up_prefix_even:
  assumes "even f" and "f < length L"
  shows "pair_up sha (take f L @ [h]) = take (f div 2) (pair_up sha L) @ [h]"
  using assms by (auto simp: pair_up_append pair_up_take_drop)

lemma consistency_complete:
  "f < length L \<Longrightarrow>
     consistent sha f (length L - 1) h (L ! f) (rfc_path sha f L) (mth sha (take f L @ [h])) (mth sha L)"
proof (induction "length L" arbitrary: L f h rule: less_induct)
  case less
  show ?case
  proof (cases "length L = 1")
    case True
    with less.prems show ?thesis by (auto simp: length_Suc_conv rfc_path.simps)
  next
    case False
    then have n: "2 \<le> length L" and ne: "L \<noteq> []" using less.prems by auto
    let ?U = "pair_up sha L" and ?s = "length L - 1"
    have ih: "consistent sha (f div 2) (?s div 2) h' (?U ! (f div 2)) (rfc_path sha (f div 2) ?U)
        (mth sha (take (f div 2) ?U @ [h'])) (mth sha L)" for h'
      using less.hyps [of ?U "f div 2" h'] n less.prems last_index_half [OF ne, of sha] by (simp add: mth_pair_up)
    note up = rfc_path_up [OF n less.prems, of sha]
    have first: "mth sha (take f L @ [h]) = mth sha (pair_up sha (take f L @ [h]))" by (simp add: mth_pair_up)
    consider "odd f" | "even f" "f + 1 < length L" | "even f" "f + 1 = length L" using less.prems by linarith
    then show ?thesis
    proof cases
      case 1
      then obtain i where i: "f = 2 * i + 1" by (auto elim: oddE)
      then have "?U ! i = node_hash sha (L ! (f - 1)) (L ! f)" using pair_up_nth [of i L sha] less.prems by simp
      then show ?thesis using ih [of "node_hash sha (L ! (f - 1)) h"] up 1 i n
        unfolding first pair_up_prefix_odd [OF 1 less.prems] by (simp add: consistent_odd sibling_def)
    next
      case 2
      then obtain i where i: "f = 2 * i" by (auto elim: evenE)
      then have "?U ! i = node_hash sha (L ! f) (L ! (f + 1))" using pair_up_nth [of i L sha] 2 by simp
      then show ?thesis using ih [of h] up 2 i n
        unfolding first pair_up_prefix_even [OF 2(1) less.prems] by (simp add: consistent_even sibling_def)
    next
      case 3
      then have s: "?s = f" and f: "0 < f" using n by auto
      then have "?U ! (f div 2) = L ! f" using pair_up_promoted [OF ne, of sha] 3 by simp
      then show ?thesis using ih [of h] up 3 s consistent_edge [OF 3(1) f]
        unfolding first pair_up_prefix_even [OF 3(1) less.prems] by (simp add: sibling_def)
    qed
  qed
qed

lemma consistency_sound:
  assumes sha: "\<And>x. length (sha x) = 32"
  shows "f < length L \<Longrightarrow> hashes L \<Longrightarrow> hashes p \<Longrightarrow> length h2 = 32 \<Longrightarrow>
    consistent sha f (length L - 1) h1 h2 p r1 (mth sha L) \<Longrightarrow>
    h2 = L ! f \<and> r1 = mth sha (take f L @ [h1])
    \<or> collides sha (steps_inputs sha f (length L - 1) h2 p) (tree_inputs sha L)"
proof (induction "length L" arbitrary: L f p h1 h2 rule: less_induct)
  case less
  show ?case
  proof (cases "length L = 1")
    case True
    then obtain x where "L = [x]" by (auto simp: length_Suc_conv)
    with less.prems show ?thesis by (cases p) auto
  next
    case False
    then have n: "2 \<le> length L" and ne: "L \<noteq> []" using less.prems by auto
    let ?U = "pair_up sha L" and ?s = "length L - 1"
    have len: "length (L ! j) = 32" if "j < length L" for j using less.prems that by (simp add: hashes_def list_all_length)
    have ih: "h2' = ?U ! (f div 2) \<and> r1 = mth sha (take (f div 2) ?U @ [h1'])
        \<or> collides sha (steps_inputs sha (f div 2) (?s div 2) h2' p') (tree_inputs sha ?U)"
      if "consistent sha (f div 2) (?s div 2) h1' h2' p' r1 (mth sha L)" "length h2' = 32" "hashes p'" for h1' h2' p'
      using less.hyps [of ?U "f div 2" p' h2' h1'] that n less.prems hashes_pair_up [OF sha] last_index_half [OF ne, of sha]
      by (simp add: mth_pair_up)
    have not_up: "collides sha (y # ys) (tree_inputs sha L)" if "collides sha ys (tree_inputs sha ?U)" for y ys
      using tree_inputs_up [OF that] by (auto simp: collides_def)
    have first: "mth sha (take f L @ [h1]) = mth sha (pair_up sha (take f L @ [h1]))" by (simp add: mth_pair_up)
    consider "odd f" | "even f" "f < ?s" | "even f" "f = ?s" using less.prems by linarith
    then show ?thesis
    proof cases
      case 1
      with less.prems n obtain x q where p: "p = x # q" by (cases p) auto
      from 1 obtain i where i: "f = 2 * i + 1" by (auto elim: oddE)
      have r: "node_hash sha x h2 = ?U ! i \<and> r1 = mth sha (take (f div 2) ?U @ [node_hash sha x h1])
          \<or> collides sha (steps_inputs sha i (?s div 2) (node_hash sha x h2) q) (tree_inputs sha ?U)"
        using ih [of "node_hash sha x h1" "node_hash sha x h2" q] less.prems p i n
        by (auto simp: consistent_odd node_hash_def sha hashes_def)
      then have "x = L ! (f - 1) \<and> h2 = L ! f \<or> collides sha (steps_inputs sha f ?s h2 p) (tree_inputs sha L)"
        using sound_step [of sha x h2 L i "steps_inputs sha i (?s div 2) (node_hash sha x h2) q"] i less.prems p len [of "2 * i"] n
        by (auto simp: hashes_def)
      then show ?thesis using r first pair_up_prefix_odd [OF 1 less.prems(1), of sha h1] not_up p i n by auto
    next
      case 2
      with less.prems n obtain x q where p: "p = x # q" by (cases p) auto
      from 2 obtain i where i: "f = 2 * i" by (auto elim: evenE)
      have r: "node_hash sha h2 x = ?U ! i \<and> r1 = mth sha (take (f div 2) ?U @ [h1])
          \<or> collides sha (steps_inputs sha i (?s div 2) (node_hash sha h2 x) q) (tree_inputs sha ?U)"
        using ih [of h1 "node_hash sha h2 x" q] less.prems p i 2
        by (auto simp: consistent_even node_hash_def sha hashes_def)
      then have "h2 = L ! f \<and> x = L ! (f + 1) \<or> collides sha (steps_inputs sha f ?s h2 p) (tree_inputs sha L)"
        using sound_step [of sha h2 x L i "steps_inputs sha i (?s div 2) (node_hash sha h2 x) q"] i less.prems p len [of "2 * i"] 2
        by auto
      then show ?thesis using r first pair_up_prefix_even [OF 2(1) less.prems(1), of sha h1] not_up p i 2 by auto
    next
      case 3
      then have "?U ! (f div 2) = L ! f" using pair_up_promoted [OF ne] by simp
      moreover have "h2 = ?U ! (f div 2) \<and> r1 = mth sha (take (f div 2) ?U @ [h1])
          \<or> collides sha (steps_inputs sha (f div 2) (?s div 2) h2 p) (tree_inputs sha ?U)"
        using less.prems 3 n consistent_edge [of f sha h1 h2 p] by (intro ih) auto
      ultimately show ?thesis
        using 3 n steps_inputs_edge [of f sha h2 p] tree_inputs_up first pair_up_prefix_even [OF 3(1) less.prems(1), of sha h1]
        by auto
    qed
  qed
qed

section \<open>Generated consistency proofs\<close>

function rfc_sub :: "hash_fun \<Rightarrow> nat \<Rightarrow> hash list \<Rightarrow> bool \<Rightarrow> hash list" where
  "rfc_sub sha m L whole =
     (if m = length L then (if whole then [] else [mth sha L])
      else if length L < 2 then []
      else
        (let k = split_at (length L) in
         if m \<le> k then rfc_sub sha m (take k L) whole @ [mth sha (drop k L)]
         else rfc_sub sha (m - k) (drop k L) False @ [mth sha (take k L)]))"
  by pat_completeness auto
termination
proof (relation "measure (\<lambda>(sha, m, L, whole). length L)", goal_cases)
  case (2 sha m L whole k)
  with split_at_bounds [of "length L"] show ?case by auto
next
  case (3 sha m L whole k)
  with split_at_bounds [of "length L"] show ?case by auto
qed auto

declare rfc_sub.simps [simp del]

lemma rfc_sub_full [simp]: "m = length L \<Longrightarrow> rfc_sub sha m L whole = (if whole then [] else [mth sha L])"
  by (simp add: rfc_sub.simps)

lemma rfc_sub_left:
  "m < length L \<Longrightarrow> 2 \<le> length L \<Longrightarrow> m \<le> split_at (length L) \<Longrightarrow>
     rfc_sub sha m L whole = rfc_sub sha m (take (split_at (length L)) L) whole @ [mth sha (drop (split_at (length L)) L)]"
  by (subst rfc_sub.simps) (simp add: Let_def)

lemma rfc_sub_right:
  "m < length L \<Longrightarrow> 2 \<le> length L \<Longrightarrow> \<not> m \<le> split_at (length L) \<Longrightarrow>
     rfc_sub sha m L whole =
       rfc_sub sha (m - split_at (length L)) (drop (split_at (length L)) L) False @ [mth sha (take (split_at (length L)) L)]"
  by (subst rfc_sub.simps) (simp add: Let_def)

lemma even_split: "2 < n \<Longrightarrow> even (split_at n)"
  using split_at_double by simp

text \<open>For an odd size the proof is the audit path of the last leaf, behind that leaf unless the verifier has it.\<close>

lemma rfc_sub_odd:
  "odd m \<Longrightarrow> m < length L \<or> m = 1 \<and> length L = 1 \<Longrightarrow>
     rfc_sub sha m L whole = (if whole \<and> m = 1 then [] else [L ! (m - 1)]) @ rfc_path sha (m - 1) L"
proof (induction "length L" arbitrary: L m whole rule: less_induct)
  case less
  show ?case
  proof (cases "length L = 1")
    case True
    then obtain x where "L = [x]" by (auto simp: length_Suc_conv)
    with less.prems show ?thesis by (auto simp: rfc_path.simps)
  next
    case False
    then have n: "2 \<le> length L" and m: "m < length L" "0 < m" using less.prems by (auto elim: oddE)
    let ?k = "split_at (length L)"
    have b: "0 < ?k" "?k < length L" using split_at_bounds [OF n] by auto
    show ?thesis
    proof (cases "m \<le> ?k")
      case True
      have "m < length (take ?k L) \<or> m = 1 \<and> length (take ?k L) = 1"
      proof (cases "length L = 2")
        case True
        then show ?thesis using less.prems m by (auto simp: less_Suc_eq numeral_2_eq_2)
      next
        case False
        then have "even ?k" using even_split n by simp
        then have "m \<noteq> ?k" using less.prems by auto
        then show ?thesis using True b by simp
      qed
      then have "rfc_sub sha m (take ?k L) whole
          = (if whole \<and> m = 1 then [] else [L ! (m - 1)]) @ rfc_path sha (m - 1) (take ?k L)"
        using less.hyps [of "take ?k L" m whole] b less.prems m True by simp
      then show ?thesis using rfc_sub_left [OF m(1) n True] rfc_path_left [OF n, of "m - 1"] True m by simp
    next
      case False
      then have n3: "2 < length L" using m n by (cases "length L = 2") auto
      then have "even ?k" by (rule even_split)
      then have "odd (m - ?k)" using less.prems False by simp
      then have "rfc_sub sha (m - ?k) (drop ?k L) False = [L ! (m - 1)] @ rfc_path sha (m - ?k - 1) (drop ?k L)"
        using less.hyps [of "drop ?k L" "m - ?k" False] b m False less_diff_iff [of ?k m "length L"]
        by (auto simp: not_le)
      then show ?thesis using rfc_sub_right [OF m(1) n False] rfc_path_right [OF n, of "m - 1"] False b by simp
    qed
  qed
qed

lemma rfc_sub_even:
  "even m \<Longrightarrow> 0 < m \<Longrightarrow> m < length L \<Longrightarrow> rfc_sub sha m L whole = rfc_sub sha (m div 2) (pair_up sha L) whole"
proof (induction "length L" arbitrary: L m whole rule: less_induct)
  case less
  then have n: "2 < length L" by (auto elim!: evenE)
  let ?k = "split_at (length L)" and ?k' = "split_at ((length L + 1) div 2)" and ?U = "pair_up sha L"
  have k: "?k = 2 * ?k'" by (rule split_at_double [OF n])
  have b: "0 < ?k" "?k < length L" using split_at_bounds [of "length L"] n by auto
  have up: "m div 2 < length ?U" "2 \<le> length ?U" "split_at (length ?U) = ?k'" using less.prems n by auto
  show ?case
  proof (cases "m \<le> ?k")
    case True
    have "rfc_sub sha m (take ?k L) whole = rfc_sub sha (m div 2) (pair_up sha (take ?k L)) whole"
    proof (cases "m = ?k")
      case True
      then show ?thesis using b k by (simp add: mth_pair_up)
    next
      case False
      show ?thesis by (rule less.hyps) (use less.prems b True False in auto)
    qed
    note eq = this
    have half: "m div 2 \<le> split_at (length ?U)" using True k up(3) by simp
    have "rfc_sub sha m L whole = rfc_sub sha m (take ?k L) whole @ [mth sha (drop ?k L)]"
      using n by (intro rfc_sub_left [OF less.prems(3) _ True]) simp
    also have "\<dots> = rfc_sub sha (m div 2) (take ?k' ?U) whole @ [mth sha (drop ?k' ?U)]"
      by (simp only: eq pair_up_take_drop mth_pair_up) (simp only: k)
    also have "\<dots> = rfc_sub sha (m div 2) ?U whole"
      using rfc_sub_left [OF up(1,2) half] by (simp only: up(3))
    finally show ?thesis .
  next
    case False
    have "rfc_sub sha (m - ?k) (drop ?k L) False = rfc_sub sha ((m - ?k) div 2) (pair_up sha (drop ?k L)) False"
    proof (rule less.hyps)
      show "even (m - ?k)" using less.prems k False by simp
    qed (use less.prems b False in auto)
    note eq = this
    have half: "\<not> m div 2 \<le> split_at (length ?U)" and idx: "(m - ?k) div 2 = m div 2 - ?k'"
      using k False less.prems up(3) by auto
    have "rfc_sub sha m L whole = rfc_sub sha (m - ?k) (drop ?k L) False @ [mth sha (take ?k L)]"
      using n by (intro rfc_sub_right [OF less.prems(3) _ False]) simp
    also have "\<dots> = rfc_sub sha (m div 2 - ?k') (drop ?k' ?U) False @ [mth sha (take ?k' ?U)]"
      by (simp only: eq idx pair_up_take_drop mth_pair_up) (simp only: k)
    also have "\<dots> = rfc_sub sha (m div 2) ?U whole"
      using rfc_sub_right [OF up(1,2) half] by (simp only: up(3))
    finally show ?thesis .
  qed
qed

lemma strip_ones_even [simp]: "even f \<Longrightarrow> strip_ones f s = (f, s)"
  by (simp add: strip_ones.simps)

lemma strip_ones_odd: "odd f \<Longrightarrow> strip_ones f s = strip_ones (f div 2) (s div 2)"
  by (subst strip_ones.simps) simp

lemma power_of_two_odd: "odd m \<Longrightarrow> is_power_of_two m \<longleftrightarrow> m = 1"
proof -
  assume m: "odd m"
  have "ilog2 1 = 0" by (subst ilog2.simps) simp
  moreover have "m = 1" if "2 ^ ilog2 m = m" 
    using that m by (cases "ilog2 m") (simp, metis dvd_triv_left power_Suc)
  ultimately show ?thesis by (auto simp: is_power_of_two_def)
qed

lemma power_of_two_double: "0 < m \<Longrightarrow> is_power_of_two (2 * m) \<longleftrightarrow> is_power_of_two m"
  by (auto simp: is_power_of_two_def ilog2_double)

lemma mth_prefix_up: "even m \<Longrightarrow> mth sha (take (m div 2) (pair_up sha L)) = mth sha (take m L)"
  by (auto simp: pair_up_take_drop mth_pair_up)

text \<open>What the verifier starts from: the first root when the first size is a power of two, then the proof.\<close>

definition consistency_path :: "hash_fun \<Rightarrow> nat \<Rightarrow> hash list \<Rightarrow> hash list" where
  "consistency_path sha m L = (if is_power_of_two m then [mth sha (take m L)] else []) @ rfc_sub sha m L True"

lemma consistency_path_odd:
  assumes "odd m" and "m < length L"
  shows "consistency_path sha m L = L ! (m - 1) # rfc_path sha (m - 1) L"
proof -
  have "take 1 L = [L ! 0]" using assms by (cases L) auto
  then show ?thesis
    using assms rfc_sub_odd [of m L sha True] power_of_two_odd [OF assms(1)] by (auto simp: consistency_path_def)
qed

lemma consistency_path_even:
  assumes "even m" and "0 < m" and "m < length L"
  shows "consistency_path sha m L = consistency_path sha (m div 2) (pair_up sha L)"
  using assms rfc_sub_even [OF assms, of sha True] power_of_two_double [of "m div 2"] mth_prefix_up [of m sha L]
  by (auto simp: consistency_path_def)

lemma consistency_path_verifies:
  assumes "0 < m" and "m < length L"
  shows "\<exists>start p. consistency_path sha m L = start # p
    \<and> (\<forall>f s. strip_ones (m - 1) (length L - 1) = (f, s) \<longrightarrow>
         consistent sha f s start start p (mth sha (take m L)) (mth sha L))"
  using assms
proof (induction m arbitrary: L rule: less_induct)
  case (less m)
  show ?case
  proof (cases "even m")
    case False
    have "take (m - 1) L @ [L ! (m - 1)] = take m L"
      using less.prems take_Suc_conv_app_nth [of "m - 1" L] by simp
    then show ?thesis
      using consistency_path_odd [OF False less.prems(2), of sha] consistency_complete [of "m - 1" L sha "L ! (m - 1)"]
        False less.prems by simp
  next
    case True
    have ne: "L \<noteq> []" using less.prems by auto
    have half: "m div 2 < m" "0 < m div 2" "m div 2 < length (pair_up sha L)"
      using True less.prems by (auto elim!: evenE)
    have "strip_ones (m - 1) (length L - 1) = strip_ones (m div 2 - 1) (length (pair_up sha L) - 1)"
    proof -
      have "odd (m - 1)" "(m - 1) div 2 = m div 2 - 1" using True less.prems by (auto elim!: evenE)
      then show ?thesis using strip_ones_odd [of "m - 1" "length L - 1"] last_index_half [OF ne, of sha] by simp
    qed
    then show ?thesis
      using less.IH [OF half(1,2,3)] consistency_path_even [OF True less.prems, of sha] mth_prefix_up [OF True, of sha L]
      by (simp add: mth_pair_up)
  qed
qed

lemma rfc_sub_length: "0 < m \<Longrightarrow> m < length L \<Longrightarrow> length L \<le> 2 ^ t \<Longrightarrow> length (rfc_sub sha m L True) \<le> Suc t"
proof (induction m arbitrary: L t rule: less_induct)
  case (less m)
  show ?case
  proof (cases "even m")
    case False
    then have "length (rfc_sub sha m L True) \<le> Suc (length (rfc_path sha (m - 1) L))"
      using less.prems rfc_sub_odd [of m L sha True] by simp
    moreover have "length (rfc_path sha (m - 1) L) \<le> t" using less.prems by (intro rfc_path_length) auto
    ultimately show ?thesis by simp
  next
    case True
    obtain u where t: "t = Suc u" using less.prems True by (cases t) (auto elim!: evenE)
    have half: "m div 2 < m" "0 < m div 2" "m div 2 < length (pair_up sha L)" "length (pair_up sha L) \<le> 2 ^ u"
      using True less.prems t by (auto elim!: evenE)
    from less.IH [OF half] show ?thesis using rfc_sub_even [OF True less.prems(1,2), of sha True] t by simp
  qed
qed

lemma strip_ones_sound:
  assumes sha: "\<And>x. length (sha x) = 32"
  shows "f < length L \<Longrightarrow> hashes L \<Longrightarrow> hashes p \<Longrightarrow> length start = 32 \<Longrightarrow>
    strip_ones f (length L - 1) = (f', s') \<Longrightarrow> consistent sha f' s' start start p r1 (mth sha L) \<Longrightarrow>
    r1 = mth sha (take (f + 1) L) \<or> collides sha (steps_inputs sha f' s' start p) (tree_inputs sha L)"
proof (induction f arbitrary: L rule: less_induct)
  case (less f)
  have ne: "L \<noteq> []" using less.prems by auto
  show ?case
  proof (cases "even f")
    case True
    with less.prems have "start = L ! f \<and> r1 = mth sha (take f L @ [start])
        \<or> collides sha (steps_inputs sha f (length L - 1) start p) (tree_inputs sha L)"
      by (intro consistency_sound [OF sha]) auto
    then show ?thesis using True less.prems by (auto simp: take_Suc_conv_app_nth)
  next
    case False
    let ?U = "pair_up sha L"
    have half: "f div 2 < f" "f div 2 < length ?U" using False less.prems by (auto elim!: oddE)
    have "r1 = mth sha (take (f div 2 + 1) ?U) \<or> collides sha (steps_inputs sha f' s' start p) (tree_inputs sha ?U)"
      using less.prems False half hashes_pair_up [OF sha] last_index_half [OF ne, of sha] strip_ones_odd [OF False]
      by (intro less.IH) (auto simp: mth_pair_up)
    moreover have "f div 2 + 1 = (f + 1) div 2" using False by (auto elim: oddE)
    then have "mth sha (take (f div 2 + 1) ?U) = mth sha (take (f + 1) L)" using mth_prefix_up [of "f + 1" sha L] False by simp
    ultimately show ?thesis using tree_inputs_up by auto
  qed
qed

end
