(* ===== verification/Merkle_Tree.thy ===== *)
theory Merkle_Tree
  imports Merkle_Consistency
begin

text \<open>
  What an implementation of \<^verbatim>\<open>HashSource\<close> promises, as the locale \<open>stored_tree\<close>: its size is that of a list of
  leaf hashes, and every complete subtree is served with the RFC 6962 hash of its leaves. Tree heads,
  inclusion proofs and consistency proofs read from such a source are those of the list, and
  \<^verbatim>\<open>verify_inclusion\<close> and \<^verbatim>\<open>verify_consistency\<close> accept them. \<^verbatim>\<open>MemoryTree\<close> is an instance: its levels refine the
  list of the leaf hashes appended so far.
\<close>

section \<open>The contract of a hash source\<close>

locale stored_tree =
  fixes sha :: hash_fun and src :: hash_source and L :: "hash list"
  assumes size_law: "hs_size src = length L"
    and node_law: "(i + 1) * 2 ^ l \<le> length L \<Longrightarrow>
          hs_node src l i = Inr (mth sha (take (2 ^ l) (drop (i * 2 ^ l) L)))"
begin

lemma range_hash_mth:
  "0 < n \<Longrightarrow> lo + n \<le> length L \<Longrightarrow> range_hash sha src lo n = Inr (mth sha (take n (drop lo L)))"
proof (induction n arbitrary: lo rule: less_induct)
  case (less n)
  show ?case
  proof (cases "is_power_of_two n \<and> lo mod n = 0")
    case True
    then have n: "2 ^ ilog2 n = n" and lo: "lo div n * n = lo" by (auto simp: is_power_of_two_def)
    then have "(lo div n + 1) * 2 ^ ilog2 n \<le> length L" using less.prems by simp
    from node_law [OF this] show ?thesis using True n lo by (subst range_hash.simps) simp
  next
    case False
    have "is_power_of_two 1" by (simp add: power_of_two_odd)
    with False less.prems have n: "2 \<le> n" by (cases "n = 1") auto
    let ?k = "split_at n"
    have k: "0 < ?k" "?k < n" using split_at_bounds [OF n] by auto
    have left: "range_hash sha src lo ?k = Inr (mth sha (take ?k (drop lo L)))"
      using less.IH [of ?k lo] less.prems k by simp
    have right: "range_hash sha src (lo + ?k) (n - ?k) = Inr (mth sha (take (n - ?k) (drop (lo + ?k) L)))"
      using less.IH [of "n - ?k" "lo + ?k"] less.prems k by simp
    have "mth sha (take n (drop lo L))
        = node_hash sha (mth sha (take ?k (drop lo L))) (mth sha (take (n - ?k) (drop (lo + ?k) L)))"
      using mth_split [of "take n (drop lo L)" sha] less.prems n k
      by (simp add: min_absorb1 min_absorb2 drop_take add.commute)
    then show ?thesis using False n by (subst range_hash.simps) (auto simp: left right Let_def)
  qed
qed

lemma tree_root_mth: "n \<le> length L \<Longrightarrow> tree_root sha src n = Inr (mth sha (take n L))"
  using range_hash_mth [of n 0] by (cases "n = 0") (auto simp: tree_root_def check_size_def size_law)

lemma tree_root_out_of_range: "length L < n \<Longrightarrow> tree_root sha src n = Inl (SizeOutOfRange n (length L))"
  by (simp add: tree_root_def check_size_def size_law)

lemma inclusion_loop_path:
  "m < n \<Longrightarrow> lo + n \<le> length L \<Longrightarrow> inclusion_loop sha src lo n m = Inr (rfc_path sha m (take n (drop lo L)))"
proof (induction n arbitrary: lo m rule: less_induct)
  case (less n)
  show ?case
  proof (cases "n \<le> 1")
    case True
    then show ?thesis using less.prems by (subst inclusion_loop.simps, subst rfc_path.simps) simp
  next
    case False
    then have n: "2 \<le> n" by simp
    let ?k = "split_at n" and ?M = "take n (drop lo L)"
    have k: "0 < ?k" "?k < n" using split_at_bounds [OF n] by auto
    have M: "length ?M = n" "2 \<le> length ?M" using less.prems n by auto
    have halves: "take ?k ?M = take ?k (drop lo L)" "drop ?k ?M = take (n - ?k) (drop (lo + ?k) L)"
      using k by (simp_all add: min_absorb1 min_absorb2 drop_take add.commute)
    have left: "range_hash sha src lo ?k = Inr (mth sha (take ?k (drop lo L)))"
      and right: "range_hash sha src (lo + ?k) (n - ?k) = Inr (mth sha (take (n - ?k) (drop (lo + ?k) L)))"
      using range_hash_mth [of ?k lo] range_hash_mth [of "n - ?k" "lo + ?k"] less.prems k by auto
    show ?thesis
    proof (cases "m < ?k")
      case True
      have "rfc_path sha m ?M = rfc_path sha m (take ?k (drop lo L)) @ [mth sha (take (n - ?k) (drop (lo + ?k) L))]"
        using rfc_path_left [OF M(2), of m sha] True by (simp only: M(1) halves)
      moreover have "inclusion_loop sha src lo ?k m = Inr (rfc_path sha m (take ?k (drop lo L)))"
        using less.IH [of ?k m lo] less.prems k True by simp
      ultimately show ?thesis using False True right by (subst inclusion_loop.simps) (simp add: Let_def)
    next
      case False
      have "rfc_path sha m ?M
          = rfc_path sha (m - ?k) (take (n - ?k) (drop (lo + ?k) L)) @ [mth sha (take ?k (drop lo L))]"
        using rfc_path_right [OF M(2), of m sha] False by (simp only: M(1) halves not_False_eq_True)
      moreover have "inclusion_loop sha src (lo + ?k) (n - ?k) (m - ?k)
          = Inr (rfc_path sha (m - ?k) (take (n - ?k) (drop (lo + ?k) L)))"
        using less.IH [of "n - ?k" "m - ?k" "lo + ?k"] less.prems k False by simp
      ultimately show ?thesis using False n left by (subst inclusion_loop.simps) (simp add: Let_def)
    qed
  qed
qed

lemma inclusion_proof_path:
  "m < n \<Longrightarrow> n \<le> length L \<Longrightarrow> inclusion_proof sha src m n = Inr (rfc_path sha m (take n L))"
  using inclusion_loop_path [of m n 0] by (simp add: inclusion_proof_def check_size_def size_law)

lemma consistency_loop_sub:
  "0 < m \<Longrightarrow> m \<le> n \<Longrightarrow> lo + n \<le> length L \<Longrightarrow>
     consistency_loop sha src lo n m whole = Inr (rfc_sub sha m (take n (drop lo L)) whole)"
proof (induction n arbitrary: lo m whole rule: less_induct)
  case (less n)
  show ?case
  proof (cases "m = n")
    case True
    then show ?thesis using less.prems range_hash_mth [of n lo] by (subst consistency_loop.simps) simp
  next
    case False
    then have n: "2 \<le> n" using less.prems by simp
    let ?k = "split_at n" and ?M = "take n (drop lo L)"
    have k: "0 < ?k" "?k < n" using split_at_bounds [OF n] by auto
    have M: "length ?M = n" "2 \<le> length ?M" "m < length ?M" using less.prems n False by auto
    have halves: "take ?k ?M = take ?k (drop lo L)" "drop ?k ?M = take (n - ?k) (drop (lo + ?k) L)"
      using k by (simp_all add: min_absorb1 min_absorb2 drop_take add.commute)
    have left: "range_hash sha src lo ?k = Inr (mth sha (take ?k (drop lo L)))"
      and right: "range_hash sha src (lo + ?k) (n - ?k) = Inr (mth sha (take (n - ?k) (drop (lo + ?k) L)))"
      using range_hash_mth [of ?k lo] range_hash_mth [of "n - ?k" "lo + ?k"] less.prems k by auto
    show ?thesis
    proof (cases "m \<le> ?k")
      case True
      have "rfc_sub sha m ?M whole
          = rfc_sub sha m (take ?k (drop lo L)) whole @ [mth sha (take (n - ?k) (drop (lo + ?k) L))]"
        using rfc_sub_left [OF M(3,2), of sha whole] True by (simp only: M(1) halves)
      moreover have "consistency_loop sha src lo ?k m whole = Inr (rfc_sub sha m (take ?k (drop lo L)) whole)"
        using less.IH [of ?k m lo whole] less.prems k True by simp
      ultimately show ?thesis using False True n right by (subst consistency_loop.simps) (simp add: Let_def)
    next
      case no: False
      have "rfc_sub sha m ?M whole
          = rfc_sub sha (m - ?k) (take (n - ?k) (drop (lo + ?k) L)) False @ [mth sha (take ?k (drop lo L))]"
        using rfc_sub_right [OF M(3,2), of sha whole] no by (simp only: M(1) halves not_False_eq_True)
      moreover have "consistency_loop sha src (lo + ?k) (n - ?k) (m - ?k) False
          = Inr (rfc_sub sha (m - ?k) (take (n - ?k) (drop (lo + ?k) L)) False)"
        using less.IH [of "n - ?k" "m - ?k" "lo + ?k" False] less.prems k no by simp
      ultimately show ?thesis using False no n left by (subst consistency_loop.simps) (simp add: Let_def)
    qed
  qed
qed

lemma consistency_proof_sub:
  "0 < m \<Longrightarrow> m < n \<Longrightarrow> n \<le> length L \<Longrightarrow> consistency_proof sha src m n = Inr (rfc_sub sha m (take n L) True)"
  using consistency_loop_sub [of m n 0 True] by (simp add: consistency_proof_def check_size_def size_law)

lemma inclusion_proof_verifies:
  assumes "m < n" and "n \<le> length L" and "n \<le> 2 ^ 64"
  shows "\<exists>proof. inclusion_proof sha src m n = Inr proof
    \<and> verify_inclusion sha (L ! m) m n proof (mth sha (take n L)) = Inr ()"
proof -
  let ?M = "take n L"
  have M: "length ?M = n" "?M ! m = L ! m" using assms by auto
  then have "included sha m (n - 1) (L ! m) (rfc_path sha m ?M) (mth sha ?M)"
    using inclusion_complete [of m ?M sha] assms by simp
  moreover have "length (rfc_path sha m ?M) \<le> MAX_PROOF_LEN"
    using rfc_path_length [of ?M 64 m sha] M assms by (simp add: MAX_PROOF_LEN_def)
  ultimately have "verify_inclusion sha (L ! m) m n (rfc_path sha m ?M) (mth sha ?M) = Inr ()"
    using assms by (simp add: verify_inclusion_def included_def)
  then show ?thesis using inclusion_proof_path [OF assms(1,2)] by blast
qed

lemma consistency_proof_verifies:
  assumes "m \<le> n" and "n \<le> length L" and "n \<le> 2 ^ 64"
  shows "\<exists>proof. consistency_proof sha src m n = Inr proof
    \<and> verify_consistency sha m n (mth sha (take m L)) (mth sha (take n L)) proof = Inr ()"
proof (cases "m = 0 \<or> m = n")
  case True
  then have "consistency_proof sha src m n = Inr []"
    using assms by (auto simp: consistency_proof_def check_size_def size_law)
  moreover have "verify_consistency sha m n (mth sha (take m L)) (mth sha (take n L)) [] = Inr ()"
    using True assms by (auto simp: verify_consistency_def)
  ultimately show ?thesis by blast
next
  case False
  then have m: "0 < m" "m < n" using assms by auto
  let ?M = "take n L"
  have M: "length ?M = n" "m < length ?M" "take m ?M = take m L" using assms m by auto
  obtain start p where path: "consistency_path sha m ?M = start # p"
    and ok: "\<And>f s. strip_ones (m - 1) (n - 1) = (f, s) \<Longrightarrow> consistent sha f s start start p (mth sha (take m L)) (mth sha ?M)"
    using consistency_path_verifies [OF m(1) M(2), of sha] M by auto
  have "length (rfc_sub sha m ?M True) \<le> MAX_PROOF_LEN"
    using rfc_sub_length [OF m(1) M(2), of 64 sha] M assms by (simp add: MAX_PROOF_LEN_def)
  then have "verify_consistency sha m n (mth sha (take m L)) (mth sha ?M) (rfc_sub sha m ?M True) = Inr ()"
    using m M path ok
    by (auto simp: verify_consistency_def consistency_path_def consistent_def split: prod.splits)
  then show ?thesis using consistency_proof_sub [OF m assms(2)] by blast
qed

end

text \<open>Two sources of the same leaves answer alike, errors included.\<close>

lemma same_tree:
  assumes a: "stored_tree sha src L" and b: "stored_tree sha src' L"
  shows "tree_root sha src n = tree_root sha src' n \<and> inclusion_proof sha src m n = inclusion_proof sha src' m n
    \<and> consistency_proof sha src m n = consistency_proof sha src' m n"
proof (cases "n \<le> length L")
  case True
  have "consistency_proof sha src m n = consistency_proof sha src' m n"
  proof (cases "0 < m \<and> m < n")
    case mid: True
    then show ?thesis using True stored_tree.consistency_proof_sub [OF a] stored_tree.consistency_proof_sub [OF b] by simp
  next
    case False
    then show ?thesis using True stored_tree.size_law [OF a] stored_tree.size_law [OF b]
      by (auto simp: consistency_proof_def check_size_def)
  qed
  moreover have "inclusion_proof sha src m n = inclusion_proof sha src' m n"
  proof (cases "m < n")
    case mid: True
    then show ?thesis using True stored_tree.inclusion_proof_path [OF a] stored_tree.inclusion_proof_path [OF b] by simp
  next
    case False
    then show ?thesis using True stored_tree.size_law [OF a] stored_tree.size_law [OF b]
      by (simp add: inclusion_proof_def check_size_def)
  qed
  ultimately show ?thesis using True stored_tree.tree_root_mth [OF a] stored_tree.tree_root_mth [OF b] by simp
next
  case False
  then show ?thesis using stored_tree.size_law [OF a] stored_tree.size_law [OF b]
    by (simp add: tree_root_def inclusion_proof_def consistency_proof_def check_size_def)
qed

section \<open>The tree in memory\<close>

text \<open>The levels that \<^verbatim>\<open>MemoryTree\<close> keeps for a list of leaf hashes: each holds the hashes of the complete pairs
  of the one below.\<close>

fun full_pairs :: "hash_fun \<Rightarrow> hash list \<Rightarrow> hash list" where
  "full_pairs sha (a # b # L) = node_hash sha a b # full_pairs sha L"
| "full_pairs sha _ = []"

lemma length_full_pairs [simp]: "length (full_pairs sha L) = length L div 2"
  by (induction sha L rule: full_pairs.induct) auto

lemma full_pairs_prefix: "full_pairs sha L = take (length L div 2) (pair_up sha L)"
  by (induction sha L rule: full_pairs.induct) auto

lemma full_pairs_snoc:
  "full_pairs sha (L @ [h]) = (if odd (length L) then full_pairs sha L @ [node_hash sha (last L) h] else full_pairs sha L)"
proof (induction sha L rule: full_pairs.induct)
  case (1 sha a b L)
  then show ?case by (cases L) auto
qed auto

function levels_of :: "hash_fun \<Rightarrow> hash list \<Rightarrow> memory_tree" where
  "levels_of sha L = (if L = [] then [] else L # levels_of sha (full_pairs sha L))"
  by pat_completeness auto
termination
  by (relation "measure (length \<circ> snd)") (auto simp: div_less_dividend)

declare levels_of.simps [simp del]

lemma levels_of_simps [simp]:
  "levels_of sha [] = []"
  "L \<noteq> [] \<Longrightarrow> levels_of sha L = L # levels_of sha (full_pairs sha L)"
  by (simp_all add: levels_of.simps)

lemma push_level_levels: "push_level sha h (levels_of sha L) = levels_of sha (L @ [h])"
proof (induction sha L arbitrary: h rule: levels_of.induct)
  case (1 sha L)
  then show ?case by (cases "L = []") (auto simp: full_pairs_snoc Let_def)
qed

lemma levels_of_node:
  "(i + 1) * 2 ^ l \<le> length L \<Longrightarrow>
     \<exists>level. nth_opt (levels_of sha L) l = Some level
       \<and> nth_opt level i = Some (mth sha (take (2 ^ l) (drop (i * 2 ^ l) L)))"
proof (induction l arbitrary: L)
  case 0
  then have "L \<noteq> []" "i < length L" by auto
  then show ?case by (auto simp: nth_opt_def take_Suc_conv_app_nth Cons_nth_drop_Suc [symmetric])
next
  case (Suc l)
  then have ne: "L \<noteq> []" and half: "(i + 1) * 2 ^ l \<le> length (full_pairs sha L)" by auto
  have "take (2 ^ l) (drop (i * 2 ^ l) (full_pairs sha L)) = take (2 ^ l) (drop (i * 2 ^ l) (pair_up sha L))"
    using half by (simp add: full_pairs_prefix drop_take min_absorb1)
  also have "\<dots> = pair_up sha (take (2 * 2 ^ l) (drop (2 * (i * 2 ^ l)) L))" by (simp only: pair_up_take_drop)
  finally have "mth sha (take (2 ^ l) (drop (i * 2 ^ l) (full_pairs sha L))) = mth sha (take (2 ^ Suc l) (drop (i * 2 ^ Suc l) L))"
    by (simp add: mth_pair_up mult.left_commute)
  with Suc.IH [OF half] ne show ?case by (auto simp: nth_opt_def split: if_splits)
qed

interpretation mem: stored_tree sha "memory_source (levels_of sha L)" L for sha L
proof
  show "hs_size (memory_source (levels_of sha L)) = length L"
    by (cases "L = []") (auto simp: memory_source_def)
  show "hs_node (memory_source (levels_of sha L)) l i = Inr (mth sha (take (2 ^ l) (drop (i * 2 ^ l) L)))"
    if "(i + 1) * 2 ^ l \<le> length L" for i l
    using levels_of_node [OF that, of sha] by (auto simp: memory_source_def)
qed

end
