(* ===== verification/EventMerkle.thy ===== *)
theory EventMerkle
  imports EventLog Merkle_Tree
begin

text \<open>
  The audit tree over event contents: the streaming accumulator of
  \<^verbatim>\<open>crates/engine-core/src/event_merkle.rs\<close> and the inclusion proofs of the endpoint \<^verbatim>\<open>merkle_proof\<close> in
  \<^verbatim>\<open>crates/engine-api/src/audit.rs\<close>. Each odd layer is padded with a sibling of 32 zero bytes, so this is
  not the RFC 6962 tree. \<open>padded_root\<close> is the tree by layers; the accumulator keeps one optional peak per
  level, like the digits of a binary counter.
\<close>

section \<open>The streaming accumulator\<close>

definition event_leaf :: "hash_fun \<Rightarrow> bytes \<Rightarrow> hash" where
  "event_leaf sha content = sha (0 # content)"

definition event_parent :: "hash_fun \<Rightarrow> hash \<Rightarrow> hash \<Rightarrow> hash" where
  "event_parent sha l r = sha (1 # l @ r)"

type_synonym accumulator = "hash option list"

fun carry_peak :: "hash_fun \<Rightarrow> hash \<Rightarrow> accumulator \<Rightarrow> accumulator" where
  "carry_peak sha h [] = [Some h]"
| "carry_peak sha h (None # acc) = Some h # acc"
| "carry_peak sha h (Some l # acc) = None # carry_peak sha (event_parent sha l h) acc"

definition acc_push :: "hash_fun \<Rightarrow> accumulator \<Rightarrow> bytes \<Rightarrow> accumulator" where
  "acc_push sha acc content = carry_peak sha (event_leaf sha content) acc"

text \<open>\<open>raise_peak\<close> is the inner loop of \<^verbatim>\<open>root\<close>, one turn per level between the height of the right part and the
  next peak.\<close>

fun raise_peak :: "hash_fun \<Rightarrow> nat \<Rightarrow> hash \<Rightarrow> hash" where
  "raise_peak sha 0 right = right"
| "raise_peak sha (Suc n) right = raise_peak sha n (event_parent sha right ZERO_HASH)"

fun root_loop :: "hash_fun \<Rightarrow> nat \<Rightarrow> (hash \<times> nat) option \<Rightarrow> accumulator \<Rightarrow> (hash \<times> nat) option" where
  "root_loop sha level result [] = result"
| "root_loop sha level result (None # acc) = root_loop sha (Suc level) result acc"
| "root_loop sha level None (Some peak # acc) = root_loop sha (Suc level) (Some (peak, level)) acc"
| "root_loop sha level (Some (right, height)) (Some peak # acc) =
     root_loop sha (Suc level) (Some (event_parent sha peak (raise_peak sha (level - height) right), Suc level)) acc"

definition acc_root :: "hash_fun \<Rightarrow> accumulator \<Rightarrow> hash" where
  "acc_root sha acc = (case root_loop sha 0 None acc of Some (h, _) \<Rightarrow> h | None \<Rightarrow> ZERO_HASH)"

text \<open>The rows of \<^verbatim>\<open>root_in_connection\<close>, ordered by \<^verbatim>\<open>seq\<close>, arrive one by one; a failed row is a database error.\<close>

fun push_rows :: "hash_fun \<Rightarrow> accumulator \<Rightarrow> (string + event) list \<Rightarrow> event_error + accumulator" where
  "push_rows sha acc [] = Inr acc"
| "push_rows sha acc (Inl e # rows) = Inl (EE_Db e)"
| "push_rows sha acc (Inr ev # rows) = push_rows sha (acc_push sha acc (ev_content_hash ev)) rows"

definition events_through :: "event_db \<Rightarrow> uuid \<Rightarrow> int \<Rightarrow> event list" where
  "events_through db doc through_seq =
     sort_key ev_seq (filter (\<lambda>ev. ev_document_id ev = doc \<and> ev_seq ev \<le> through_seq) (db_events db))"

definition root_in_connection :: "hash_fun \<Rightarrow> row_stream \<Rightarrow> event_db \<Rightarrow> uuid \<Rightarrow> int \<Rightarrow> event_error + hash" where
  "root_in_connection sha net db doc through_seq =
     bind_res (push_rows sha [] (net (events_through db doc through_seq))) (\<lambda>acc. Inr (acc_root sha acc))"

section \<open>Inclusion proofs\<close>

text \<open>\<^verbatim>\<open>leaf_hash\<close> and \<^verbatim>\<open>node_hash\<close> of the endpoint are the functions \<^const>\<open>event_leaf\<close> and \<^const>\<open>event_parent\<close>.\<close>

fun layer_pairs :: "hash_fun \<Rightarrow> hash list \<Rightarrow> hash list" where
  "layer_pairs sha (a # b # layer) = event_parent sha a b # layer_pairs sha layer"
| "layer_pairs sha _ = []"

lemma length_layer_pairs [simp]: "length (layer_pairs sha layer) = length layer div 2"
  by (induction sha layer rule: layer_pairs.induct) auto

definition pad_layer :: "hash list \<Rightarrow> hash list" where
  "pad_layer layer = (if odd (length layer) then layer @ [ZERO_HASH] else layer)"

lemma layer_pairs_Nil_iff: "layer_pairs sha L = [] \<longleftrightarrow> length L \<le> 1"
  by (cases "(sha, L)" rule: layer_pairs.cases) auto

lemma even_nonempty: "even (length L) \<Longrightarrow> L \<noteq> [] \<Longrightarrow> 2 \<le> length L"
  by (cases L; cases "tl L") auto

lemma layer_shrinks: "2 \<le> length layer \<Longrightarrow> length (layer_pairs sha (pad_layer layer)) < length layer"
  by (auto simp: pad_layer_def elim!: oddE)

text \<open>\<^const>\<open>None\<close> is a panic: an index outside the layer.\<close>

function path_loop :: "hash_fun \<Rightarrow> hash list \<Rightarrow> nat \<Rightarrow> (hash \<times> (hash \<times> bool) list) option" where
  "path_loop sha layer index =
     (if length layer \<le> 1 then map_option (\<lambda>h. (h, [])) (nth_opt layer 0)
      else
        (let layer' = pad_layer layer; sibling_index = (if even index then index + 1 else index - 1) in
         Option.bind (nth_opt layer' sibling_index) (\<lambda>sib.
         map_option (\<lambda>(root, path). (root, (sib, sibling_index < index) # path))
           (path_loop sha (layer_pairs sha layer') (index div 2)))))"
  by pat_completeness auto
termination
  by (relation "measure (\<lambda>(sha, layer, index). length layer)") (use layer_shrinks in auto)

declare path_loop.simps [simp del]

definition inclusion_path :: "hash_fun \<Rightarrow> hash list \<Rightarrow> nat \<Rightarrow> (hash \<times> (string \<times> bool) list) option" where
  "inclusion_path sha leaves target =
     (if leaves = [] then Some (ZERO_HASH, [])
      else map_option (\<lambda>(root, path). (root, map (\<lambda>(s, left). (hex_lower s, left)) path)) (path_loop sha leaves target))"

datatype proof_error = PE_Db string | PE_NotFound | PE_Internal string

record merkle_proof_result =
  mp_event_id :: string
  mp_seq :: int
  mp_through_seq :: int
  mp_leaf :: string
  mp_path :: "(string \<times> bool) list"
  mp_root :: string

text \<open>\<^verbatim>\<open>merkle_proof\<close> from the query for the covered events on: the caller was authorised and the latest snapshot, which covers the
  events up to \<open>through_seq\<close> and may have stored their root, was loaded. The outer \<^const>\<open>None\<close> is a panic.\<close>

definition merkle_proof ::
    "hash_fun \<Rightarrow> postgres \<Rightarrow> event_db \<Rightarrow> uuid \<Rightarrow> int \<Rightarrow> hash option \<Rightarrow> string \<Rightarrow> (proof_error + merkle_proof_result) option" where
  "merkle_proof sha pg db doc through_seq stored_root event_id =
     (case pg (SelectThrough doc through_seq) db of
        Some e \<Rightarrow> Some (Inl (PE_Db e))
      | None \<Rightarrow>
          (let rows = events_through db doc through_seq;
               leaves = map (\<lambda>ev. event_leaf sha (ev_content_hash ev)) rows in
           case find (\<lambda>i. ev_id (rows ! i) = event_id) [0..<length rows] of
             None \<Rightarrow> Some (Inl PE_NotFound)
           | Some target \<Rightarrow>
               map_option (\<lambda>(root, path).
                 if stored_root \<noteq> None \<and> stored_root \<noteq> Some root
                 then Inl (PE_Internal ''snapshot event Merkle root differs from proof'')
                 else Inr \<lparr>mp_event_id = event_id, mp_seq = ev_seq (rows ! target), mp_through_seq = through_seq,
                           mp_leaf = hex_lower (leaves ! target), mp_path = path, mp_root = hex_lower root\<rparr>)
                 (inclusion_path sha leaves target)))"

section \<open>The tree by layers\<close>

function padded_root :: "hash_fun \<Rightarrow> hash list \<Rightarrow> hash" where
  "padded_root sha layer =
     (if layer = [] then ZERO_HASH else if length layer = 1 then hd layer
      else padded_root sha (layer_pairs sha (pad_layer layer)))"
  by pat_completeness auto
termination
proof (relation "measure (length \<circ> snd)", goal_cases)
  case (2 sha layer)
  then have "2 \<le> length layer" by (cases layer) (auto simp: not_less_eq_eq Suc_le_eq)
  then show ?case using layer_shrinks by simp
qed simp

declare padded_root.simps [simp del]

lemma padded_root_simps [simp]: "padded_root sha [] = ZERO_HASH" "padded_root sha [h] = h"
  by (simp_all add: padded_root.simps)

lemma padded_root_up: "2 \<le> length layer \<Longrightarrow> padded_root sha layer = padded_root sha (layer_pairs sha (pad_layer layer))"
  by (subst padded_root.simps) auto

text \<open>The peaks the accumulator holds for a list of leaves.\<close>

function peaks :: "hash_fun \<Rightarrow> hash list \<Rightarrow> accumulator" where
  "peaks sha L =
     (if L = [] then []
      else (if odd (length L) then Some (last L) else None) # peaks sha (layer_pairs sha L))"
  by pat_completeness auto
termination
  by (relation "measure (length \<circ> snd)") (auto simp: div_less_dividend)

declare peaks.simps [simp del]

lemma peaks_simps [simp]:
  "peaks sha [] = []"
  "L \<noteq> [] \<Longrightarrow> peaks sha L = (if odd (length L) then Some (last L) else None) # peaks sha (layer_pairs sha L)"
  by (simp_all add: peaks.simps)

lemma layer_pairs_snoc:
  "layer_pairs sha (L @ [h]) = (if odd (length L) then layer_pairs sha L @ [event_parent sha (last L) h] else layer_pairs sha L)"
proof (induction sha L rule: layer_pairs.induct)
  case (1 sha a b L)
  then show ?case by (cases L) auto
qed auto

lemma carry_peaks: "carry_peak sha h (peaks sha L) = peaks sha (L @ [h])"
proof (induction sha L arbitrary: h rule: peaks.induct)
  case (1 sha L)
  then show ?case by (cases "L = []") (auto simp: layer_pairs_snoc)
qed

lemma acc_push_all: "fold (\<lambda>c acc. acc_push sha acc c) contents (peaks sha L) = peaks sha (L @ map (event_leaf sha) contents)"
  by (induction contents arbitrary: L) (simp_all add: acc_push_def carry_peaks del: peaks_simps)

lemma raise_peak_snoc: "raise_peak sha (Suc n) right = event_parent sha (raise_peak sha n right) ZERO_HASH"
  by (induction n arbitrary: right) auto

lemma root_loop_right:
  "L \<noteq> [] \<Longrightarrow> height \<le> level \<Longrightarrow> root_loop sha level (Some (right, height)) (peaks sha L) = Some (h, n) \<Longrightarrow>
     h = padded_root sha (L @ [raise_peak sha (level - height) right])"
proof (induction sha L arbitrary: level right height rule: peaks.induct)
  case (1 sha L)
  let ?right = "raise_peak sha (level - height) right" and ?up = "layer_pairs sha L"
  have two: "2 \<le> length (L @ [?right])" using 1 by (cases L) auto
  show ?case
  proof (cases "odd (length L)")
    case True
    let ?new = "event_parent sha (last L) ?right"
    have up: "layer_pairs sha (pad_layer (L @ [?right])) = ?up @ [?new]" using True by (simp add: pad_layer_def layer_pairs_snoc)
    have loop: "root_loop sha (Suc level) (Some (?new, Suc level)) (peaks sha ?up) = Some (h, n)" using 1 True by simp
    show ?thesis
    proof (cases "?up = []")
      case True
      then show ?thesis using loop up padded_root_up [OF two, of sha] by simp
    next
      case False
      from 1 (1) [OF 1 (2) False _ loop] show ?thesis using padded_root_up [OF two, of sha] up by simp
    qed
  next
    case False
    have "layer_pairs sha ((L @ [?right]) @ [ZERO_HASH]) = ?up @ [event_parent sha ?right ZERO_HASH]"
      using False by (subst layer_pairs_snoc) (simp add: layer_pairs_snoc)
    then have up: "layer_pairs sha (pad_layer (L @ [?right])) = ?up @ [raise_peak sha (Suc level - height) right]"
      using False 1 (3) by (simp add: pad_layer_def Suc_diff_le raise_peak_snoc del: raise_peak.simps)
    have loop: "root_loop sha (Suc level) (Some (right, height)) (peaks sha ?up) = Some (h, n)" using 1 False by simp
    have "?up \<noteq> []" using two False by (cases "length L = 1") (auto simp: layer_pairs_Nil_iff)
    from 1 (1) [OF 1 (2) this _ loop] 1 (3) show ?thesis using padded_root_up [OF two, of sha] up by simp
  qed
qed

lemma root_loop_peaks: "root_loop sha level None (peaks sha L) = Some (h, n) \<Longrightarrow> h = padded_root sha L"
proof (induction sha L arbitrary: level rule: peaks.induct)
  case (1 sha L)
  let ?up = "layer_pairs sha L"
  have ne: "L \<noteq> []" using 1 by auto
  show ?case
  proof (cases "odd (length L)")
    case True
    have loop: "root_loop sha (Suc level) (Some (last L, level)) (peaks sha ?up) = Some (h, n)" using 1 True ne by simp
    show ?thesis
    proof (cases "?up = []")
      case True
      then have "L = [last L]" using ne by (cases L) (auto simp: layer_pairs_Nil_iff)
      then show ?thesis using loop True by (metis option.inject padded_root_simps(2) peaks_simps(1) prod.inject root_loop.simps(1))
    next
      case False
      then have two: "2 \<le> length L" by (simp add: layer_pairs_Nil_iff)
      have "layer_pairs sha (pad_layer L) = ?up @ [event_parent sha (last L) ZERO_HASH]"
        using True by (simp add: pad_layer_def layer_pairs_snoc)
      then show ?thesis using root_loop_right [OF False _ loop] padded_root_up [OF two, of sha] by simp
    qed
  next
    case False
    then have two: "2 \<le> length L" using ne by (simp add: even_nonempty)
    have "root_loop sha (Suc level) None (peaks sha ?up) = Some (h, n)" using 1 False ne by simp
    from 1 (1) [OF ne this] show ?thesis using padded_root_up [OF two, of sha] False by (simp add: pad_layer_def)
  qed
qed

lemma root_loop_nonempty: "L \<noteq> [] \<or> result \<noteq> None \<Longrightarrow> root_loop sha level result (peaks sha L) \<noteq> None"
proof (induction sha L arbitrary: level result rule: peaks.induct)
  case (1 sha L)
  show ?case
  proof (cases "L = []")
    case False
    have "layer_pairs sha L \<noteq> [] \<or> odd (length L)" using False even_nonempty [of L] by (auto simp: layer_pairs_Nil_iff)
    then show ?thesis using False 1 by (cases result) auto
  qed (use 1 in simp)
qed

lemma acc_root_peaks: "acc_root sha (peaks sha L) = padded_root sha L"
proof (cases "L = []")
  case False
  then obtain h n where "root_loop sha 0 None (peaks sha L) = Some (h, n)" using root_loop_nonempty [of L None sha 0] by auto
  then show ?thesis using root_loop_peaks by (auto simp: acc_root_def)
qed (simp add: acc_root_def)

section \<open>Paths\<close>

text \<open>How a client recomputes the root from a leaf and a path (\<^verbatim>\<open>MerkleProof\<close>, \<^verbatim>\<open>ProofStep\<close>).\<close>

fun recompute :: "hash_fun \<Rightarrow> hash \<Rightarrow> (hash \<times> bool) list \<Rightarrow> hash" where
  "recompute sha h [] = h"
| "recompute sha h ((sib, left) # path) =
     recompute sha (if left then event_parent sha sib h else event_parent sha h sib) path"

lemma layer_pairs_nth: "i < length L div 2 \<Longrightarrow> layer_pairs sha L ! i = event_parent sha (L ! (2 * i)) (L ! (2 * i + 1))"
  by (induction sha L arbitrary: i rule: layer_pairs.induct) (auto simp: nth_Cons split: nat.split)

lemma path_loop_recomputes:
  "target < length layer \<Longrightarrow>
     \<exists>path. path_loop sha layer target = Some (padded_root sha layer, path)
       \<and> recompute sha (layer ! target) path = padded_root sha layer"
proof (induction sha layer target rule: path_loop.induct)
  case (1 sha layer index)
  show ?case
  proof (cases "length layer \<le> 1")
    case True
    then obtain h where "layer = [h]" using 1 by (cases layer) auto
    then show ?thesis using 1 by (subst path_loop.simps) (simp add: nth_opt_def)
  next
    case False
    then have two: "2 \<le> length layer" by simp
    let ?P = "pad_layer layer" and ?i = "index div 2" and ?sib = "if even index then index + 1 else index - 1"
    have P: "even (length ?P)" "length layer \<le> length ?P" "?P ! index = layer ! index"
      using 1 (2) by (auto simp: pad_layer_def nth_append)
    have idx: "index < length ?P" using 1 (2) P(2) by simp
    have sib: "?sib < length ?P" using idx P(1) by (cases "even index") (presburger, simp)
    have half: "?i < length ?P div 2" using idx P(1) by presburger
    let ?U = "layer_pairs sha ?P"
    have "?U ! ?i = (if even index then event_parent sha (layer ! index) (?P ! ?sib) else event_parent sha (?P ! ?sib) (layer ! index))"
      using layer_pairs_nth [OF half, of sha] P(3) by (auto elim!: evenE oddE)
    moreover obtain path where "path_loop sha ?U ?i = Some (padded_root sha ?U, path)"
      "recompute sha (?U ! ?i) path = padded_root sha ?U"
      using 1 (1) [OF False refl refl _] sib half by (auto simp: nth_opt_def)
    moreover have "?sib < index \<longleftrightarrow> odd index" by (auto elim: oddE)
    ultimately show ?thesis
      using False sib padded_root_up [OF two, of sha]
      by (subst path_loop.simps) (auto simp: Let_def nth_opt_def)
  qed
qed

lemma inclusion_path_recomputes:
  assumes "target < length leaves"
  shows "\<exists>path. inclusion_path sha leaves target = Some (padded_root sha leaves, map (\<lambda>(s, left). (hex_lower s, left)) path)
    \<and> recompute sha (leaves ! target) path = padded_root sha leaves"
  using path_loop_recomputes [OF assms, of sha] assms by (auto simp: inclusion_path_def)

lemma push_rows_map: "push_rows sha acc (map Inr evs) = Inr (fold (\<lambda>c acc. acc_push sha acc c) (map ev_content_hash evs) acc)"
  by (induction evs arbitrary: acc) simp_all

lemma root_in_connection_padded:
  "root_in_connection sha (map Inr) db doc through_seq
     = Inr (padded_root sha (map (\<lambda>ev. event_leaf sha (ev_content_hash ev)) (events_through db doc through_seq)))"
  using acc_push_all [of sha _ "[]"] by (simp add: root_in_connection_def push_rows_map acc_root_peaks comp_def)

end
