(* ===== verification/Log_Properties.thy ===== *)
theory Log_Properties
  imports EventMerkle Sample
begin

text \<open>
  The properties of the event log: a table written by \<^verbatim>\<open>append_in_tx\<close> alone verifies, a verified head commits to
  the whole history, an audit may resume from a trusted position, and a failed audit names the first bad
  row.
\<close>

section \<open>Tables written by appends\<close>

text \<open>A table filled by \<^verbatim>\<open>append_in_tx\<close> alone. Each appended payload is one whose canonical form survives the \<^verbatim>\<open>jsonb\<close> column, which
  \<^verbatim>\<open>log.rs\<close> says of string and object payloads; a number such as \<^verbatim>\<open>1.0\<close> may change there.\<close>

inductive appended ::
    "hash_fun \<Rightarrow> scalar_writer \<Rightarrow> postgres \<Rightarrow> (json \<Rightarrow> json) \<Rightarrow> (event_payload \<Rightarrow> string + json) \<Rightarrow> uuid list \<Rightarrow> event_db \<Rightarrow> bool"
  for sha ser pg jsonb encode docs where
  fresh: "appended sha ser pg jsonb encode docs \<lparr>db_documents = docs, db_events = []\<rparr>"
| append: "appended sha ser pg jsonb encode docs db \<Longrightarrow>
    append_in_tx sha ser pg jsonb encode event_id now db doc payload actor = Inr (ev, db') \<Longrightarrow>
    encode payload = Inr v \<Longrightarrow> canonical_json ser (jsonb v) = canonical_json ser v \<Longrightarrow>
    int (length (doc_events db doc)) + 1 < 2 ^ 63 \<Longrightarrow> appended sha ser pg jsonb encode docs db'"

lemma log_ok_fresh: "log_ok sha ser \<lparr>db_documents = docs, db_events = []\<rparr>"
  by (simp add: log_ok_def seqs_in_range_def doc_events_def)

lemma appended_log_ok:
  assumes "appended sha ser pg jsonb encode docs db"
  shows "log_ok sha ser db"
  using assms
proof induction
  case fresh
  show ?case by (rule log_ok_fresh)
next
  case (append db event_id now doc payload actor ev db' v)
  have "canonical_json ser (jsonb w) = canonical_json ser w" if "encode payload = Inr w" for w
    using that append.hyps(3,4) by simp
  from append_keeps_log_ok [OF append.IH append.hyps(2) this append.hyps(5)] show ?case by simp
qed

lemma verify_chain_linked:
  "seqs_in_range db \<Longrightarrow> verify_chain sha ser (map Inr) db doc = Inr () \<longleftrightarrow> linked sha ser doc 0 ZERO_HASH (doc_events db doc)"
  by (simp add: verify_chain_def verify_from_def linked_def select_events_all [simplified])

text \<open>C19: Starting from an empty table, any sequence of successful \<^verbatim>\<open>append_in_tx\<close> calls, interleaved over any
  documents, leaves every document's log verifiable from genesis, and its sequence numbers are exactly
  1 to the number of its events. PostgreSQL may fail any statement; of its \<^verbatim>\<open>jsonb\<close> column it is assumed, for the appended payloads
  only, that storing them keeps their canonical form, and each log stays below \<open>2 ^ 63\<close> events.\<close>

theorem appended_logs_verify:
  assumes "appended sha ser pg jsonb encode docs db"
  shows "verify_chain sha ser (map Inr) db doc = Inr ()
    \<and> map ev_seq (doc_events db doc) = map (\<lambda>i. int i + 1) [0..<length (doc_events db doc)]"
proof -
  have "log_ok sha ser db" using appended_log_ok [OF assms] .
  then show ?thesis
    using verify_chain_linked [of db sha ser doc] linked_seqs [of sha ser doc 0 ZERO_HASH "doc_events db doc"]
    by (simp add: log_ok_def add.commute)
qed

definition sample_encode :: "event_payload \<Rightarrow> string + json" where
  "sample_encode payload = (case payload of NodeDeleted n \<Rightarrow> Inr (JStr n) | _ \<Rightarrow> Inl ''unsupported'')"

definition no_faults :: postgres where
  "no_faults stmt db = None"

definition sample_db :: event_db where
  "sample_db = \<lparr>db_documents = [[1], [2]], db_events = []\<rparr>"

definition sample_append :: "event_db \<Rightarrow> uuid \<Rightarrow> node_id \<Rightarrow> event_db" where
  "sample_append db doc n =
     (case append_in_tx sample_sha sample_ser no_faults id sample_encode n 0 db doc (NodeDeleted n) [7] of
        Inr (_, db') \<Rightarrow> db' | Inl _ \<Rightarrow> db)"

definition sample_table :: event_db where
  "sample_table = sample_append (sample_append (sample_append sample_db [1] ''a'') [2] ''b'') [1] ''c''"

lemma sample_append_appended:
  assumes "appended sample_sha sample_ser no_faults id sample_encode docs db"
    and "int (length (doc_events db doc)) + 1 < 2 ^ 63"
  shows "appended sample_sha sample_ser no_faults id sample_encode docs (sample_append db doc n)"
  using assms by (auto simp: sample_append_def sample_encode_def split: sum.splits intro: append [where v = "JStr n"])

lemma sample_steps:
  "let t = sample_append sample_db [1] ''a''; u = sample_append t [2] ''b'' in
     length (doc_events t [2]) = 0 \<and> length (doc_events u [1]) = 1"
  by code_simp

text \<open>The log of document \<open>[1]\<close>, copied to another document under other event ids, and the table without its
  first row.\<close>

definition sample_copy :: "event_db \<Rightarrow> event_db" where
  "sample_copy db = db\<lparr>db_events :=
     map (\<lambda>ev. ev\<lparr>ev_id := CHR ''x'' # ev_id ev, ev_document_id := 3 # ev_document_id ev\<rparr>) (db_events db)\<rparr>"

definition sample_gap :: "event_db \<Rightarrow> event_db" where
  "sample_gap db = db\<lparr>db_events := tl (db_events db)\<rparr>"

lemma sample_table_facts:
  "let t = sample_table; u = sample_copy t; v = sample_gap t in
     length (doc_events t [1]) = 2 \<and> seqs_in_range t \<and> seqs_in_range u
     \<and> verify_chain sample_sha sample_ser (map Inr) u [3, 1] = Inr () \<and> select_head t [1] = select_head u [3, 1]
     \<and> list_all (fits sample_ser) (doc_events t [1] @ doc_events u [3, 1])
     \<and> linked sample_sha sample_ser [1] 0 ZERO_HASH (take 1 (doc_events t [1]))
     \<and> map ev_id (events_through t [1] 2) = [''a'', ''c'']
     \<and> seqs_in_range v
     \<and> verify_chain sample_sha sample_ser (map Inr) v [1]
         = Inl (EE_ChainBroken 2 ''expected seq 1, found 2 (gap or reorder)'')"
  by code_simp

lemmas sample_table_eval = sample_table_facts [unfolded Let_def]

lemma sample_table_appended:
  "appended sample_sha sample_ser no_faults id sample_encode [[1], [2]] sample_table"
proof -
  have "appended sample_sha sample_ser no_faults id sample_encode [[1], [2]] sample_db"
    unfolding sample_db_def by (rule fresh)
  moreover have "length (doc_events sample_db [1]) = 0" by (simp add: sample_db_def doc_events_def)
  ultimately show ?thesis
    using sample_steps unfolding sample_table_def Let_def by (intro sample_append_appended) simp_all
qed

theorem appended_logs_verify_witness:
  "verify_chain sample_sha sample_ser (map Inr) sample_table [1] = Inr () \<and> map ev_seq (doc_events sample_table [1]) = [1, 2]"
  using appended_logs_verify [OF sample_table_appended, of "[1]"] sample_table_eval by (simp add: upt_rec numeral_2_eq_2)

lemma sample_table_verifies: "verify_chain sample_sha sample_ser (map Inr) sample_table [1] = Inr ()"
  using appended_log_ok [OF sample_table_appended] by (simp add: log_ok_def verify_chain_linked)

section \<open>What a verified head commits to\<close>

text \<open>A stream delivers the rows, or some first rows and then an error.\<close>

definition faithful_stream :: "row_stream \<Rightarrow> bool" where
  "faithful_stream net \<longleftrightarrow>
     (\<forall>rows. net rows = map Inr rows \<or> (\<exists>n e. net rows = map Inr (take n rows) @ [Inl e]))"

lemma faithful_verify_chain:
  assumes "faithful_stream net" and "verify_chain sha ser net db doc = Inr ()" and "seqs_in_range db"
  shows "linked sha ser doc 0 ZERO_HASH (doc_events db doc)"
proof -
  let ?rows = "doc_events db doc"
  have ok: "verify_loop sha ser doc 0 ZERO_HASH (net ?rows) = Inr ()"
    using assms(2,3) by (simp add: verify_chain_def verify_from_def select_events_all [simplified])
  have "\<not> (\<exists>n e. net ?rows = map Inr (take n ?rows) @ [Inl e])"
  proof
    assume "\<exists>n e. net ?rows = map Inr (take n ?rows) @ [Inl e]"
    then show False using ok verify_loop_append [of sha ser doc 0 ZERO_HASH] by auto
  qed
  then have "net ?rows = map Inr ?rows" using assms(1) unfolding faithful_stream_def by blast
  with ok show ?thesis by (simp add: linked_def)
qed

lemma linked_select_head:
  assumes "linked sha ser doc 0 ZERO_HASH (doc_events db doc)"
  shows "select_head db doc = (if doc_events db doc = [] then None
    else Some (int (length (doc_events db doc)), head_hash ZERO_HASH (doc_events db doc)))"
  using linked_head [OF assms] by (simp add: select_head_last head_hash_def)

text \<open>C2: Tamper evidence: if two logs both pass \<^verbatim>\<open>verify_chain\<close> and have the same head (sequence number and chain
  hash), then event by event they carry the same type, the same target (no target and the empty one count as the same), the same
  canonical payload and the same actor; otherwise the inputs that the two audits hash contain a collision. No hashed field may
  have \<open>2 ^ 64\<close> bytes or more. So whoever retains the head of a log detects any later change of these fields and any
  insertion, removal or reordering of events that differ in them. The id, the document and the time of an event are
  not hashed and not covered.\<close>

theorem chain_head_commits_history:
  assumes sha: "\<And>x. length (sha x) = 32"
    and net: "faithful_stream net"
    and rows: "seqs_in_range db" "seqs_in_range db'"
    and fit: "list_all (fits ser) (doc_events db doc @ doc_events db' doc')"
    and ok: "verify_chain sha ser net db doc = Inr ()" "verify_chain sha ser net db' doc' = Inr ()"
    and head: "select_head db doc = select_head db' doc'"
  shows "map (\<lambda>ev. (ev_event_type ev, case ev_target_node_id ev of None \<Rightarrow> [] | Some t \<Rightarrow> t, canonical_json ser (ev_payload ev), ev_actor_id ev))
      (doc_events db doc)
    = map (\<lambda>ev. (ev_event_type ev, case ev_target_node_id ev of None \<Rightarrow> [] | Some t \<Rightarrow> t, canonical_json ser (ev_payload ev), ev_actor_id ev))
      (doc_events db' doc')
    \<or> collides sha (log_inputs ser (doc_events db doc)) (log_inputs ser (doc_events db' doc'))"
proof -
  have A: "linked sha ser doc 0 ZERO_HASH (doc_events db doc)" and B: "linked sha ser doc' 0 ZERO_HASH (doc_events db' doc')"
    using faithful_verify_chain [OF net] ok rows by auto
  have "length (doc_events db doc) = length (doc_events db' doc')
      \<and> head_hash ZERO_HASH (doc_events db doc) = head_hash ZERO_HASH (doc_events db' doc')"
    using head linked_select_head [OF A] linked_select_head [OF B] by (auto simp: head_hash_def split: if_splits)
  then show ?thesis using linked_same_head [OF sha _ A B fit] unfolding commitment_def [abs_def] target_text_def by blast
qed

theorem chain_head_commits_history_witness:
  "map (\<lambda>ev. (ev_event_type ev, case ev_target_node_id ev of None \<Rightarrow> [] | Some t \<Rightarrow> t, canonical_json sample_ser (ev_payload ev), ev_actor_id ev))
      (doc_events sample_table [1])
    = map (\<lambda>ev. (ev_event_type ev, case ev_target_node_id ev of None \<Rightarrow> [] | Some t \<Rightarrow> t, canonical_json sample_ser (ev_payload ev), ev_actor_id ev))
      (doc_events (sample_copy sample_table) [3, 1])
   \<or> collides sample_sha (log_inputs sample_ser (doc_events sample_table [1])) (log_inputs sample_ser (doc_events (sample_copy sample_table) [3, 1]))"
proof (rule chain_head_commits_history)
  show "length (sample_sha x) = 32" for x by (simp add: sample_sha_def)
  show "faithful_stream (map Inr)" by (simp add: faithful_stream_def)
  show "verify_chain sample_sha sample_ser (map Inr) sample_table [1] = Inr ()" by (rule sample_table_verifies)
qed (use sample_table_eval in auto)

section \<open>Audits from a trusted position\<close>

text \<open>An audit may resume: when the first events of a log were already verified, \<^verbatim>\<open>verify_from\<close> at the last of them
  accepts exactly when \<^verbatim>\<open>verify_chain\<close> accepts the whole log.\<close>

theorem suffix_audit_is_complete:
  assumes rows: "seqs_in_range db" "doc_events db doc = xs @ ys" and "xs \<noteq> []"
    and xs: "linked sha ser doc 0 ZERO_HASH xs"
  shows "verify_from sha ser (map Inr) db doc (int (length xs)) (head_hash ZERO_HASH xs) = Inr ()
    \<longleftrightarrow> verify_chain sha ser (map Inr) db doc = Inr ()"
proof -
  let ?n = "int (length xs)"
  have last: "ev_seq (last xs) = ?n" using linked_head [OF xs] assms(3) by simp
  have "map ev_seq xs = map (\<lambda>i. 1 + int i) [0..<length xs]" using linked_seqs [OF xs] by simp
  then have "filter (\<lambda>ev. 1 + int (length xs - 1) \<le> ev_seq ev) xs = drop (length xs - 1) xs"
    by (rule sorted_key_filter_ge) simp
  moreover have "drop (length xs - 1) xs = [last xs]" "1 + int (length xs - 1) = ?n"
    using assms(3) by (cases xs rule: rev_cases; simp)+
  ultimately have "filter (\<lambda>ev. ?n \<le> ev_seq ev) xs = [last xs]" by simp
  moreover have "sorted (map ev_seq (xs @ ys))" using rows(2) by (metis doc_events_def sorted_sort_key)
  then have "?n \<le> ev_seq y" if "y \<in> set ys" for y
    using that last last_in_set [OF assms(3)] by (auto simp: sorted_append)
  then have "filter (\<lambda>ev. ?n \<le> ev_seq ev) ys = ys" by simp
  ultimately have "select_events db doc ?n = last xs # ys" by (simp add: select_events_filter rows(2))
  then have "verify_from sha ser (map Inr) db doc ?n (head_hash ZERO_HASH xs) = Inr ()
      \<longleftrightarrow> linked sha ser doc ?n (head_hash ZERO_HASH xs) ys"
    using assms(3) last by (simp add: verify_from_def trusted_row_def head_hash_def linked_def)
  also have "\<dots> \<longleftrightarrow> verify_chain sha ser (map Inr) db doc = Inr ()"
    using xs by (simp add: verify_chain_linked [OF rows(1)] rows(2) linked_append)
  finally show ?thesis .
qed

theorem suffix_audit_is_complete_witness:
  "verify_from sample_sha sample_ser (map Inr) sample_table [1] 1 (head_hash ZERO_HASH (take 1 (doc_events sample_table [1]))) = Inr ()
   \<longleftrightarrow> verify_chain sample_sha sample_ser (map Inr) sample_table [1] = Inr ()"
proof -
  let ?xs = "take 1 (doc_events sample_table [1])"
  have "length ?xs = 1" using sample_table_eval by simp
  moreover from this have "?xs \<noteq> []" by auto
  ultimately show ?thesis
    using sample_table_eval suffix_audit_is_complete [of sample_table "[1]" ?xs "drop 1 (doc_events sample_table [1])" sample_sha sample_ser]
    by (simp only: append_take_drop_id) simp
qed

section \<open>The report of a failed audit\<close>

lemma verify_loop_error:
  "verify_loop sha ser doc expected previous (map Inr rows) = Inl err \<Longrightarrow>
     \<exists>xs ev ys detail. rows = xs @ ev # ys \<and> linked sha ser doc expected previous xs
       \<and> \<not> linked sha ser doc expected previous (xs @ [ev]) \<and> err = EE_ChainBroken (ev_seq ev) detail"
proof (induction rows arbitrary: expected previous)
  case (Cons ev rows)
  show ?case
  proof (cases "linked sha ser doc expected previous [ev]")
    case True
    then have "verify_loop sha ser doc (expected + 1) (ev_chain_hash ev) (map Inr rows) = Inl err"
      using Cons.prems by (auto simp: linked_Cons)
    from Cons.IH [OF this] obtain xs ev' ys detail where
      "rows = xs @ ev' # ys" "linked sha ser doc (expected + 1) (ev_chain_hash ev) xs"
      "\<not> linked sha ser doc (expected + 1) (ev_chain_hash ev) (xs @ [ev'])" "err = EE_ChainBroken (ev_seq ev') detail"
      by blast
    then have "ev # rows = (ev # xs) @ ev' # ys" "linked sha ser doc expected previous (ev # xs)"
      "\<not> linked sha ser doc expected previous ((ev # xs) @ [ev'])" "err = EE_ChainBroken (ev_seq ev') detail"
      using True by (auto simp: linked_Cons)
    then show ?thesis by blast
  next
    case False
    have "\<exists>detail. err = EE_ChainBroken (ev_seq ev) detail"
      using False Cons.prems
      by (auto simp: linked_Cons result_simps verify_event_def chain_broken_def Let_def checked_add_i64_def split: option.splits if_splits)
    then obtain detail where "err = EE_ChainBroken (ev_seq ev) detail" ..
    with False have "ev # rows = [] @ ev # rows \<and> linked sha ser doc expected previous []
        \<and> \<not> linked sha ser doc expected previous ([] @ [ev]) \<and> err = EE_ChainBroken (ev_seq ev) detail"
      by simp
    then show ?thesis by blast
  qed
qed simp

text \<open>When \<^verbatim>\<open>verify_chain\<close> fails on a delivered log, the error is \<^verbatim>\<open>ChainBroken\<close> with the sequence number of the first
  row at which the log stops being a chain: all rows before it verify, and with it they do not.\<close>

theorem failed_audit_names_first_bad_row:
  assumes "seqs_in_range db" and "verify_chain sha ser (map Inr) db doc = Inl err"
  shows "\<exists>xs ev ys detail. doc_events db doc = xs @ ev # ys \<and> linked sha ser doc 0 ZERO_HASH xs
    \<and> \<not> linked sha ser doc 0 ZERO_HASH (xs @ [ev]) \<and> err = EE_ChainBroken (ev_seq ev) detail"
  using assms by (intro verify_loop_error) (simp add: verify_chain_def verify_from_def select_events_all [simplified])

theorem failed_audit_names_first_bad_row_witness:
  "\<exists>xs ev ys detail. doc_events (sample_gap sample_table) [1] = xs @ ev # ys
    \<and> EE_ChainBroken 2 ''expected seq 1, found 2 (gap or reorder)'' = EE_ChainBroken (ev_seq ev) detail"
proof -
  have "seqs_in_range (sample_gap sample_table)" "verify_chain sample_sha sample_ser (map Inr) (sample_gap sample_table) [1]
      = Inl (EE_ChainBroken 2 ''expected seq 1, found 2 (gap or reorder)'')"
    using sample_table_eval by blast+
  from failed_audit_names_first_bad_row [OF this] show ?thesis by blast
qed

section \<open>Audit proofs\<close>

text \<open>C20: The streaming accumulator refines the layered tree: pushing contents one by one and asking for the root
  gives the root of the tree whose every odd layer is padded with 32 zero bytes, for any number of events.\<close>

theorem accumulator_refines_layered_tree:
  "acc_root sha (fold (\<lambda>c acc. acc_push sha acc c) contents []) = padded_root sha (map (event_leaf sha) contents)"
  using acc_push_all [of sha contents "[]"] by (simp add: acc_root_peaks)

text \<open>C30: The answer of \<^verbatim>\<open>merkle_proof\<close> once the caller is authorised and the latest snapshot is loaded, on every branch. If the
  query for the covered events fails, the answer is that error; if the event is not among them, it is \<^verbatim>\<open>NotFound\<close>; if the snapshot
  stored an event root other than the one that \<^verbatim>\<open>root_in_connection\<close> streams over the same events, it is an internal error; otherwise it
  is a proof: the root it reports is the streamed one, and a client that hashes the leaf of the event up the path arrives at that root.
  No index panics.\<close>

theorem audit_proofs_recompute_the_root:
  assumes "root_in_connection sha (map Inr) db doc through_seq = Inr root"
  shows "case pg (SelectThrough doc through_seq) db of
      Some e \<Rightarrow> merkle_proof sha pg db doc through_seq stored event_id = Some (Inl (PE_Db e))
    | None \<Rightarrow>
        if event_id \<notin> ev_id ` set (events_through db doc through_seq)
        then merkle_proof sha pg db doc through_seq stored event_id = Some (Inl PE_NotFound)
        else if stored \<notin> {None, Some root}
        then \<exists>detail. merkle_proof sha pg db doc through_seq stored event_id = Some (Inl (PE_Internal detail))
        else \<exists>ev res path. ev \<in> set (events_through db doc through_seq) \<and> ev_id ev = event_id
          \<and> merkle_proof sha pg db doc through_seq stored event_id = Some (Inr res)
          \<and> mp_seq res = ev_seq ev \<and> mp_leaf res = hex_lower (event_leaf sha (ev_content_hash ev))
          \<and> mp_path res = map (\<lambda>(s, left). (hex_lower s, left)) path \<and> mp_root res = hex_lower root
          \<and> recompute sha (event_leaf sha (ev_content_hash ev)) path = root"
proof (cases "pg (SelectThrough doc through_seq) db")
  case (Some e)
  then show ?thesis by (simp add: merkle_proof_def)
next
  case pg: None
  let ?rows = "events_through db doc through_seq"
  let ?leaves = "map (\<lambda>ev. event_leaf sha (ev_content_hash ev)) ?rows"
  have root: "root = padded_root sha ?leaves" using assms by (simp add: root_in_connection_padded)
  show ?thesis
  proof (cases "find (\<lambda>i. ev_id (?rows ! i) = event_id) [0..<length ?rows]")
    case None
    then have "event_id \<notin> ev_id ` set ?rows" by (auto simp: find_None_iff in_set_conv_nth)
    with None pg show ?thesis by (simp add: merkle_proof_def)
  next
    case (Some i)
    then have lt: "i < length ?rows" and eq: "ev_id (?rows ! i) = event_id" by (auto simp: find_Some_iff)
    then have mem: "event_id \<in> ev_id ` set ?rows" by force
    obtain path where path: "inclusion_path sha ?leaves i = Some (root, map (\<lambda>(s, left). (hex_lower s, left)) path)"
      "recompute sha (?leaves ! i) path = root"
      using inclusion_path_recomputes [of i ?leaves sha] lt root by auto
    have answer: "merkle_proof sha pg db doc through_seq stored event_id = Some (
        if stored \<notin> {None, Some root} then Inl (PE_Internal ''snapshot event Merkle root differs from proof'')
        else Inr \<lparr>mp_event_id = event_id, mp_seq = ev_seq (?rows ! i), mp_through_seq = through_seq,
          mp_leaf = hex_lower (?leaves ! i), mp_path = map (\<lambda>(s, left). (hex_lower s, left)) path, mp_root = hex_lower root\<rparr>)"
      using pg Some path(1) by (simp add: merkle_proof_def Let_def)
    show ?thesis
    proof (cases "stored \<in> {None, Some root}")
      case True
      then show ?thesis unfolding answer pg using mem nth_mem [OF lt] eq lt path(2)
        by (simp only: option.case True not_True_eq_False if_False if_not_P mem) (intro exI [of _ "?rows ! i"], auto)
    next
      case False
      then show ?thesis unfolding answer pg using mem by simp
    qed
  qed
qed

theorem audit_proofs_recompute_the_root_witness:
  "\<exists>root ev res path. ev \<in> set (events_through sample_table [1] 2) \<and> ev_id ev = ''c''
    \<and> merkle_proof sample_sha no_faults sample_table [1] 2 None ''c'' = Some (Inr res)
    \<and> mp_path res = map (\<lambda>(s, left). (hex_lower s, left)) path \<and> mp_root res = hex_lower root
    \<and> recompute sample_sha (event_leaf sample_sha (ev_content_hash ev)) path = root"
proof -
  have "ev_id ` set (events_through sample_table [1] 2) = {''a'', ''c''}"
    using sample_table_eval by (metis list.set_map list.simps(15) empty_set)
  then have c: "''c'' \<in> ev_id ` set (events_through sample_table [1] 2)" by simp
  have f: "no_faults (SelectThrough [1] 2) sample_table = None" by (simp add: no_faults_def)
  show ?thesis
    using audit_proofs_recompute_the_root [OF root_in_connection_padded [of sample_sha sample_table "[1]" 2],
      where pg = no_faults and stored = None and event_id = "''c''"] c
    unfolding f by auto
qed

end
