(* ===== verification/Text.thy ===== *)
theory Text
  imports Encoding Decimal
begin

text \<open>
  The operations of \<^verbatim>\<open>str\<close> the text formats of the transparency log use (\<^verbatim>\<open>strip_prefix\<close>, \<^verbatim>\<open>strip_suffix\<close>, \<^verbatim>\<open>split\<close>,
  \<^verbatim>\<open>splitn\<close>, \<^verbatim>\<open>split_once\<close>, \<^verbatim>\<open>rfind\<close>, \<^verbatim>\<open>contains\<close>), UTF-8 validity as \<^verbatim>\<open>str::from_utf8\<close> decides it and
  \<^verbatim>\<open>char::is_control\<close>, with the lemmas that undo a concatenation.
\<close>

section \<open>Operations\<close>

abbreviation nl :: char where "nl \<equiv> CHR 0x0A"

definition strip_prefix :: "'a list \<Rightarrow> 'a list \<Rightarrow> 'a list option" where
  "strip_prefix p s = (if take (length p) s = p then Some (drop (length p) s) else None)"

definition strip_suffix :: "'a list \<Rightarrow> 'a list \<Rightarrow> 'a list option" where
  "strip_suffix p s =
     (if length p \<le> length s \<and> drop (length s - length p) s = p then Some (take (length s - length p) s) else None)"

fun contains_str :: "string \<Rightarrow> string \<Rightarrow> bool" where
  "contains_str p [] = (p = [])"
| "contains_str p (c # s) = (take (length p) (c # s) = p \<or> contains_str p s)"

text \<open>\<^verbatim>\<open>split(c)\<close> and \<^verbatim>\<open>split_once(c)\<close>.\<close>

fun split_on :: "char \<Rightarrow> string \<Rightarrow> string list" where
  "split_on c [] = [[]]"
| "split_on c (x # s) =
     (if x = c then [] # split_on c s
      else (case split_on c s of [] \<Rightarrow> [[x]] | l # ls \<Rightarrow> (x # l) # ls))"

definition split_once :: "char \<Rightarrow> string \<Rightarrow> (string \<times> string) option" where
  "split_once c s =
     (if c \<in> set s then Some (takeWhile (\<lambda>x. x \<noteq> c) s, tl (dropWhile (\<lambda>x. x \<noteq> c) s)) else None)"

text \<open>\<^verbatim>\<open>splitn(3, c)\<close> when it yields three parts.\<close>

definition split3 :: "char \<Rightarrow> string \<Rightarrow> (string \<times> string \<times> string) option" where
  "split3 c s =
     (case split_once c s of
        None \<Rightarrow> None
      | Some (a, rest) \<Rightarrow> (case split_once c rest of None \<Rightarrow> None | Some (b, d) \<Rightarrow> Some (a, b, d)))"

text \<open>\<^verbatim>\<open>rfind("\n\n")\<close>.\<close>

fun rfind_blank :: "string \<Rightarrow> nat option" where
  "rfind_blank (a # b # s) =
     (case rfind_blank (b # s) of
        Some i \<Rightarrow> Some (Suc i)
      | None \<Rightarrow> if a = nl \<and> b = nl then Some 0 else None)"
| "rfind_blank _ = None"

text \<open>\<^verbatim>\<open>str::from_utf8\<close> accepts exactly these byte sequences.\<close>

definition byte_in :: "nat \<Rightarrow> nat \<Rightarrow> char \<Rightarrow> bool" where
  "byte_in lo hi c \<longleftrightarrow> lo \<le> (of_char c :: nat) \<and> (of_char c :: nat) \<le> hi"

definition conts :: "nat \<Rightarrow> string \<Rightarrow> bool" where
  "conts k s \<longleftrightarrow> k \<le> length s \<and> list_all is_cont (take k s)"

text \<open>The length of the first scalar, if it is well-formed: no overlong forms, no surrogates, at most U+10FFFF.\<close>

fun utf8_len :: "string \<Rightarrow> nat option" where
  "utf8_len [] = None"
| "utf8_len (a # s) =
     (if byte_in 0 127 a then Some 1
      else if byte_in 194 223 a \<and> conts 1 s then Some 2
      else if byte_in 224 239 a \<and> conts 2 s
              \<and> (of_char a = (224::nat) \<longrightarrow> byte_in 160 191 (hd s)) \<and> (of_char a = (237::nat) \<longrightarrow> byte_in 128 159 (hd s))
        then Some 3
      else if byte_in 240 244 a \<and> conts 3 s
              \<and> (of_char a = (240::nat) \<longrightarrow> byte_in 144 191 (hd s)) \<and> (of_char a = (244::nat) \<longrightarrow> byte_in 128 143 (hd s))
        then Some 4
      else None)"

function utf8_valid :: "string \<Rightarrow> bool" where
  "utf8_valid s = (s = [] \<or> (case utf8_len s of None \<Rightarrow> False | Some n \<Rightarrow> utf8_valid (drop n s)))"
  by pat_completeness auto
termination
proof (relation "measure length", goal_cases)
  case (2 s n)
  then show ?case by (cases s) (auto split: if_splits)
qed simp

declare utf8_valid.simps [simp del]

text \<open>\<^verbatim>\<open>char::is_control\<close> (general category Cc) on an encoded scalar.\<close>

definition is_control :: "string \<Rightarrow> bool" where
  "is_control ch \<longleftrightarrow>
     (let b = map of_char ch :: nat list in
      (\<exists>x. b = [x] \<and> (x < 32 \<or> x = 127)) \<or> (\<exists>x. b = [194, x] \<and> 128 \<le> x \<and> x < 160))"

lemma is_control_code [code]:
  "is_control ch =
     (case map of_char ch :: nat list of
        [x] \<Rightarrow> x < 32 \<or> x = 127 | [y, x] \<Rightarrow> y = 194 \<and> 128 \<le> x \<and> x < 160 | _ \<Rightarrow> False)"
  by (auto simp: is_control_def Let_def split: list.splits)

section \<open>Undoing a concatenation\<close>

lemma strip_prefix_append [simp]: "strip_prefix p (p @ s) = Some s"
  by (simp add: strip_prefix_def)

lemma strip_prefix_Some: "strip_prefix p s = Some t \<longleftrightarrow> s = p @ t"
  by (auto simp: strip_prefix_def) (metis append_take_drop_id)

lemma strip_suffix_append [simp]: "strip_suffix p (s @ p) = Some s"
  by (simp add: strip_suffix_def)

lemma strip_suffix_Some: "strip_suffix p s = Some t \<longleftrightarrow> s = t @ p"
  by (auto simp: strip_suffix_def) (metis append_take_drop_id)

lemma split_once_append: "c \<notin> set a \<Longrightarrow> split_once c (a @ c # b) = Some (a, b)"
proof -
  assume "c \<notin> set a"
  then have "takeWhile (\<lambda>x. x \<noteq> c) (a @ c # b) = a" "dropWhile (\<lambda>x. x \<noteq> c) (a @ c # b) = c # b"
    by (induction a) auto
  then show ?thesis by (simp add: split_once_def)
qed

lemma split_once_Some: "split_once c s = Some (a, b) \<longleftrightarrow> s = a @ c # b \<and> c \<notin> set a"
proof
  assume r: "split_once c s = Some (a, b)"
  then have "c \<in> set s" by (auto simp: split_once_def split: if_splits)
  then obtain x y where "s = x @ c # y" "c \<notin> set x" using split_list_first by metis
  with r split_once_append [of c x y] show "s = a @ c # b \<and> c \<notin> set a" by auto
qed (auto simp: split_once_append)

lemma split3_Some: "split3 c s = Some (x, y, z) \<longleftrightarrow> s = x @ c # y @ c # z \<and> c \<notin> set x \<and> c \<notin> set y"
proof
  assume "s = x @ c # y @ c # z \<and> c \<notin> set x \<and> c \<notin> set y"
  then show "split3 c s = Some (x, y, z)" by (simp add: split3_def split_once_append)
qed (auto simp: split3_def split_once_Some split: option.splits)

lemma split_on_nonempty [simp]: "split_on c s \<noteq> []"
  by (induction s) (auto split: list.splits)

lemma split_on_single: "c \<notin> set s \<Longrightarrow> split_on c s = [s]"
  by (induction s) auto

lemma split_on_append: "c \<notin> set a \<Longrightarrow> split_on c (a @ c # s) = a # split_on c s"
  by (induction a) auto

lemma split_on_join:
  "ls \<noteq> [] \<Longrightarrow> (\<And>l. l \<in> set ls \<Longrightarrow> c \<notin> set l) \<Longrightarrow> split_on c (join [c] ls) = ls"
proof (induction ls)
  case (Cons l ls)
  then show ?case by (cases ls) (auto simp: split_on_single split_on_append)
qed simp

lemma join_split_on: "join [c] (split_on c s) = s \<and> (\<forall>l \<in> set (split_on c s). c \<notin> set l)"
proof (induction s)
  case (Cons x s)
  then show ?case by (cases "split_on c s"; cases "tl (split_on c s)") (auto split: list.splits)
qed simp

lemma rfind_blank_Some: "rfind_blank s = Some i \<Longrightarrow> s = take i s @ [nl, nl] @ drop (i + 2) s"
proof (induction s arbitrary: i rule: rfind_blank.induct)
  case (1 a b s)
  then show ?case by (auto split: option.splits if_splits)
qed auto

lemma rfind_blank_lines:
  assumes "\<And>l. l \<in> set ls \<Longrightarrow> l \<noteq> [] \<and> nl \<notin> set l"
  shows "rfind_blank (concat (map (\<lambda>l. l @ [nl]) ls)) = None"
proof -
  have line: "rfind_blank (l @ nl # s) = None" if "nl \<notin> set l" "rfind_blank (nl # s) = None" for l s
    using that
  proof (induction l)
    case (Cons x l)
    then show ?case by (cases l) auto
  qed simp
  have "rfind_blank (nl # concat (map (\<lambda>l. l @ [nl]) ls)) = None" if "\<And>l. l \<in> set ls \<Longrightarrow> l \<noteq> [] \<and> nl \<notin> set l" for ls
    using that
  proof (induction ls)
    case (Cons l ls)
    have "l \<noteq> [] \<and> nl \<notin> set l" by (rule Cons.prems) simp
    then obtain x l' where l: "l = x # l'" "x \<noteq> nl" "nl \<notin> set l" by (cases l) auto
    then have "rfind_blank (l @ nl # concat (map (\<lambda>l. l @ [nl]) ls)) = None" using Cons by (intro line) auto
    with l show ?case by simp
  qed simp
  from this [of "tl ls"] assms show ?thesis
    by (cases ls) (auto intro!: line)
qed

lemma rfind_blank_append:
  assumes "rfind_blank (nl # s) = None"
  shows "rfind_blank (t @ [nl, nl] @ s) = Some (length t)"
proof (induction t)
  case (Cons x t)
  then show ?case by (cases t) simp_all
qed (use assms in simp)

section \<open>UTF-8\<close>

lemma utf8_valid_Nil [simp]: "utf8_valid []"
  by (simp add: utf8_valid.simps)

lemma utf8_valid_ascii_Cons [simp]: "byte_in 0 127 c \<Longrightarrow> utf8_valid (c # s) \<longleftrightarrow> utf8_valid s"
  by (simp add: utf8_valid.simps [of "c # s"])

lemma utf8_valid_ascii: "list_all (byte_in 0 127) s \<Longrightarrow> utf8_valid s"
  by (induction s) auto

lemma byte_in_ascii: "byte_in 0 127 c \<Longrightarrow> \<not> is_cont c"
  by (simp add: byte_in_def is_cont_def)

lemma conts_append: "\<not> is_cont c \<Longrightarrow> conts k (s @ c # b) \<longleftrightarrow> conts k s"
  by (auto simp: conts_def list_all_iff take_Cons' in_set_conv_decomp)

lemma conts_nonempty: "conts k s \<Longrightarrow> 0 < k \<Longrightarrow> s \<noteq> []"
  by (auto simp: conts_def)

lemma utf8_len_append:
  assumes "s \<noteq> []" and "\<not> is_cont c"
  shows "utf8_len (s @ c # b) = utf8_len s"
proof -
  obtain a t where s: "s = a # t" using assms(1) by (cases s) auto
  have "hd (t @ c # b) = hd t" if "conts k t" "0 < k" for k
    using conts_nonempty [OF that] by simp
  then show ?thesis by (auto simp: s conts_append [OF assms(2)])
qed

lemma utf8_len_le: "utf8_len s = Some n \<Longrightarrow> n \<le> length s"
  by (cases s) (auto simp: conts_def split: if_splits)

lemma utf8_valid_append:
  assumes "\<not> is_cont c"
  shows "utf8_valid (a @ c # b) \<longleftrightarrow> utf8_valid a \<and> utf8_valid (c # b)"
proof (induction a rule: utf8_valid.induct)
  case (1 a)
  show ?case
  proof (cases "a = [] \<or> utf8_len a = None")
    case True
    then show ?thesis
    proof (cases "a = []")
      case False
      with True utf8_len_append [of a c b] assms have "utf8_len a = None" "utf8_len (a @ c # b) = None" by simp_all
      with False show ?thesis by (subst (1 2) utf8_valid.simps) simp
    qed simp
  next
    case False
    then obtain n where n: "utf8_len a = Some n" "a \<noteq> []" by auto
    then have "utf8_valid (a @ c # b) \<longleftrightarrow> utf8_valid (drop n a @ c # b)"
      using utf8_len_append [of a c b] assms utf8_len_le [OF n(1)] by (simp add: utf8_valid.simps [of "a @ c # b"])
    also have "\<dots> \<longleftrightarrow> utf8_valid (drop n a) \<and> utf8_valid (c # b)" using 1 n by blast
    finally show ?thesis using n by (simp add: utf8_valid.simps [of a])
  qed
qed

lemma chars_append: "b = [] \<or> \<not> is_cont (hd b) \<Longrightarrow> chars (a @ b) = chars a @ chars b"
proof (induction a rule: chars.induct)
  case (2 c cs)
  have "takeWhile is_cont (cs @ b) = takeWhile is_cont cs \<and> dropWhile is_cont (cs @ b) = dropWhile is_cont cs @ b"
    using 2(2) by (induction cs; cases b) auto
  with 2 show ?case by simp
qed simp

lemma utf8_valid_hd: "utf8_valid s \<Longrightarrow> s = [] \<or> \<not> is_cont (hd s)"
  by (cases s) (auto simp: utf8_valid.simps [of "_ # _"] is_cont_def byte_in_def split: if_splits)

end
