(* ===== verification/Note.thy ===== *)
theory Note
  imports Text Merkle
begin

text \<open>
  Signed notes, keys and checkpoints (\<^verbatim>\<open>crates/engine-core/src/transparency/note.rs\<close>). Ed25519 (\<^verbatim>\<open>ring\<close>) is the
  parameter \<open>ed\<close>, a record of its operations over an arbitrary type of key pairs; what signing promises is
  \<open>ed25519_ok\<close>. The text formats are exact: \<open>verifier_key_parse\<close>, \<open>checkpoint_parse\<close> and \<open>note_parse\<close> accept
  only what the corresponding printer writes, and give back the value that was printed.
\<close>

section \<open>Keys\<close>

datatype key_kind = KK_Log | KK_Cosigner

definition LOG_TYPE :: byte where "LOG_TYPE = 1"
definition COSIGNATURE_TYPE :: byte where "COSIGNATURE_TYPE = 4"

fun type_byte :: "key_kind \<Rightarrow> byte" where
  "type_byte KK_Log = LOG_TYPE"
| "type_byte KK_Cosigner = COSIGNATURE_TYPE"

definition valid_key_name :: "string \<Rightarrow> bool" where
  "valid_key_name name \<longleftrightarrow>
     name \<noteq> [] \<and> CHR ''+'' \<notin> set name \<and> \<not> list_ex (\<lambda>c. is_whitespace c \<or> is_control c) (chars name)"

definition key_id :: "hash_fun \<Rightarrow> string \<Rightarrow> key_kind \<Rightarrow> bytes \<Rightarrow> bytes" where
  "key_id sha name kind public = take 4 (sha (as_bytes name @ [10] @ [type_byte kind] @ public))"

type_synonym origin = string

definition ORIGIN_SUFFIX :: string where "ORIGIN_SUFFIX = ''/dynodoc/v1/transparency''"

definition origin_new :: "string \<Rightarrow> tr_error + origin" where
  "origin_new origin =
     (if \<not> list_all (byte_in 33 126) origin
         \<or> CHR ''+'' \<in> set origin \<or> CHR 0x22 \<in> set origin \<or> CHR 0x5C \<in> set origin
      then Inl (InvalidOrigin (''only printable ASCII without '' @ [CHR 0x27] @ ''+'' @ [CHR 0x27] @ '', quote or backslash''))
      else if contains_str ''://'' origin then Inl (InvalidOrigin ''must be a schema-less URL'')
      else
        (case strip_suffix ORIGIN_SUFFIX origin of
           Some host \<Rightarrow>
             if host \<noteq> [] \<and> CHR ''/'' \<notin> set host then Inr origin
             else Inl (InvalidOrigin ''must be <host>/dynodoc/v1/transparency'')
         | None \<Rightarrow> Inl (InvalidOrigin ''must be <host>/dynodoc/v1/transparency'')))"

record verifier_key =
  vk_name :: string
  vk_kind :: key_kind
  vk_public :: bytes

definition verifier_key_new :: "string \<Rightarrow> key_kind \<Rightarrow> bytes \<Rightarrow> tr_error + verifier_key" where
  "verifier_key_new name kind public =
     (if \<not> valid_key_name name then Inl InvalidKeyName
      else Inr \<lparr>vk_name = name, vk_kind = kind, vk_public = public\<rparr>)"

definition vk_key_id :: "hash_fun \<Rightarrow> verifier_key \<Rightarrow> bytes" where
  "vk_key_id sha k = key_id sha (vk_name k) (vk_kind k) (vk_public k)"

definition split_key :: "bytes \<Rightarrow> tr_error + (key_kind \<times> bytes)" where
  "split_key raw =
     (case raw of
        t # public \<Rightarrow>
          if t = LOG_TYPE then Inr (KK_Log, public)
          else if t = COSIGNATURE_TYPE then Inr (KK_Cosigner, public)
          else Inl (UnsupportedKeyType t)
      | [] \<Rightarrow> Inl (MalformedKey ''empty key''))"

definition verifier_key_parse :: "hash_fun \<Rightarrow> string \<Rightarrow> tr_error + verifier_key" where
  "verifier_key_parse sha vkey =
     (case split3 CHR ''+'' vkey of
        None \<Rightarrow> Inl (MalformedKey ''expected name+id+key'')
      | Some (name, kid, key) \<Rightarrow>
          bind_res (unb64 key) (\<lambda>raw.
          bind_res (split_key raw) (\<lambda>(kind, public).
          if length public \<noteq> 32 then Inl (MalformedKey ''an Ed25519 public key is 32 bytes'')
          else
            bind_res (verifier_key_new name kind public) (\<lambda>parsed.
            bind_res (map_err (\<lambda>_. MalformedKey ''key id is 8 hex digits'') (unhex_array 4 kid)) (\<lambda>stated.
            if stated \<noteq> vk_key_id sha parsed then Inl KeyIdMismatch else Inr parsed)))))"

definition verifier_key_text :: "hash_fun \<Rightarrow> verifier_key \<Rightarrow> string" where
  "verifier_key_text sha k =
     vk_name k @ ''+'' @ hex (vk_key_id sha k) @ ''+'' @ b64 (type_byte (vk_kind k) # vk_public k)"

section \<open>Checkpoints\<close>

record checkpoint =
  cp_origin :: string
  cp_size :: nat
  cp_root :: hash

definition checkpoint_text :: "checkpoint \<Rightarrow> string" where
  "checkpoint_text c = cp_origin c @ [nl] @ dec_nat (cp_size c) @ [nl] @ b64 (cp_root c) @ [nl]"

text \<open>The size line: plain digits without a leading zero that fit 64 bits.\<close>

definition parse_size :: "string \<Rightarrow> tr_error + nat" where
  "parse_size s =
     (if s = [] \<or> \<not> list_all is_dec_digit s \<or> (length s > 1 \<and> hd s = CHR ''0'')
      then Inl (MalformedCheckpoint ''size is not a plain decimal'')
      else if dec_value s < 2 ^ 64 then Inr (dec_value s)
      else Inl (MalformedCheckpoint ''size does not fit 64 bits''))"

definition checkpoint_parse :: "string \<Rightarrow> tr_error + checkpoint" where
  "checkpoint_parse text =
     bind_res (ok_or (strip_suffix [nl] text) (MalformedCheckpoint ''must end with a newline'')) (\<lambda>body.
     case split_on nl body of
       origin # size_line # root_line # rest \<Rightarrow>
         if rest \<noteq> [] then Inl CheckpointExtension
         else if origin = [] then Inl (MalformedCheckpoint ''empty origin'')
         else
           bind_res (parse_size size_line) (\<lambda>n.
           bind_res (unb64 root_line) (\<lambda>r.
           if length r \<noteq> 32 then Inl (MalformedCheckpoint ''root is not 32 bytes'')
           else Inr \<lparr>cp_origin = origin, cp_size = n, cp_root = r\<rparr>))
     | _ \<Rightarrow> Inl (MalformedCheckpoint ''expected origin, size and root lines''))"

section \<open>Signature lines\<close>

definition DASH :: string where "DASH = [CHR 0xE2, CHR 0x80, CHR 0x94, CHR '' '']"

record note_signature =
  ns_name :: string
  ns_key_id :: bytes
  ns_body :: bytes

definition signature_line :: "note_signature \<Rightarrow> string" where
  "signature_line s = DASH @ ns_name s @ '' '' @ b64 (ns_key_id s @ ns_body s)"

definition signature_encode :: "note_signature \<Rightarrow> string" where
  "signature_encode s = signature_line s @ [nl]"

definition signature_parse :: "string \<Rightarrow> tr_error + note_signature" where
  "signature_parse line =
     bind_res (ok_or (strip_prefix DASH line) (MalformedNote ''signature line must start with an em dash and a space''))
       (\<lambda>rest. bind_res (ok_or (split_once CHR '' '' rest) (MalformedNote ''signature line has no signature field''))
       (\<lambda>(name, encoded).
         if \<not> valid_key_name name then Inl (MalformedNote ''invalid key name in a signature line'')
         else
           bind_res (unb64 encoded) (\<lambda>raw.
           if length raw < 5 then Inl (MalformedNote ''signature field shorter than a key id and a signature'')
           else Inr \<lparr>ns_name = name, ns_key_id = take 4 raw, ns_body = drop 4 raw\<rparr>)))"

section \<open>Notes\<close>

record signed_note =
  nt_text :: string
  nt_signatures :: "note_signature list"

definition check_characters :: "string \<Rightarrow> tr_error + unit" where
  "check_characters text =
     (if list_ex (\<lambda>c. c \<noteq> [nl] \<and> is_control c) (chars text) then Inl (MalformedNote ''control character'') else Inr ())"

definition note_new :: "string \<Rightarrow> tr_error + signed_note" where
  "note_new text =
     bind_res (check_characters text) (\<lambda>_.
     if text = [] \<or> last text \<noteq> nl then Inl (MalformedNote ''text must end with a newline'')
     else Inr \<lparr>nt_text = text, nt_signatures = []\<rparr>)"

definition with_signature :: "signed_note \<Rightarrow> note_signature \<Rightarrow> tr_error + signed_note" where
  "with_signature note s =
     (if list_ex (\<lambda>t. ns_name t = ns_name s \<and> ns_key_id t = ns_key_id s) (nt_signatures note)
      then Inl (DuplicateSignature (ns_name s))
      else Inr (note\<lparr>nt_signatures := nt_signatures note @ [s]\<rparr>))"

definition note_encode :: "signed_note \<Rightarrow> string" where
  "note_encode note = nt_text note @ [nl] @ concat (map signature_encode (nt_signatures note))"

text \<open>The loop over the signature lines; \<open>seen\<close> holds the name and key id of the lines so far.\<close>

fun parse_signatures :: "(string \<times> bytes) list \<Rightarrow> string list \<Rightarrow> tr_error + note_signature list" where
  "parse_signatures seen [] = Inr []"
| "parse_signatures seen (line # ls) =
     bind_res (signature_parse line) (\<lambda>s.
     if (ns_name s, ns_key_id s) \<in> set seen then Inl (DuplicateSignature (ns_name s))
     else bind_res (parse_signatures ((ns_name s, ns_key_id s) # seen) ls) (\<lambda>ss. Inr (s # ss)))"

definition from_utf8 :: "bytes \<Rightarrow> string option" where
  "from_utf8 bs = (let s = map (\<lambda>b. char_of (unat b)) bs in if utf8_valid s then Some s else None)"

definition note_parse :: "bytes \<Rightarrow> tr_error + signed_note" where
  "note_parse bs =
     bind_res (ok_or (from_utf8 bs) (MalformedNote ''not valid UTF-8'')) (\<lambda>message.
     bind_res (check_characters message) (\<lambda>_.
     bind_res (ok_or (rfind_blank message) (MalformedNote ''no blank line before the signatures'')) (\<lambda>split.
     let text = take (split + 1) message; block = drop (split + 2) message in
     bind_res (ok_or (strip_suffix [nl] block) (MalformedNote ''the signature block must end with a newline'')) (\<lambda>ls.
     if ls = [] then Inl (MalformedNote ''no signature lines'')
     else
       bind_res (note_new text) (\<lambda>note.
       bind_res (parse_signatures [] (split_on nl ls)) (\<lambda>ss.
       Inr (note\<lparr>nt_signatures := ss\<rparr>)))))))"

section \<open>Signing and verifying\<close>

record 'k ed25519 =
  ed_from_seed :: "bytes \<Rightarrow> 'k option"
  ed_from_pkcs8 :: "bytes \<Rightarrow> 'k option"
  ed_public :: "'k \<Rightarrow> bytes"
  ed_sign :: "'k \<Rightarrow> bytes \<Rightarrow> bytes"
  ed_verify :: "bytes \<Rightarrow> bytes \<Rightarrow> bytes \<Rightarrow> bool"

definition ed25519_ok :: "'k ed25519 \<Rightarrow> bool" where
  "ed25519_ok ed \<longleftrightarrow>
     (\<forall>k m. ed_verify ed (ed_public ed k) m (ed_sign ed k m) \<and> length (ed_public ed k) = 32 \<and> length (ed_sign ed k m) = 64)"

record 'k signer =
  sr_name :: string
  sr_kind :: key_kind
  sr_pair :: 'k

definition with_pair :: "string \<Rightarrow> key_kind \<Rightarrow> 'k \<Rightarrow> tr_error + 'k signer" where
  "with_pair name kind pair =
     (if \<not> valid_key_name name then Inl InvalidKeyName else Inr \<lparr>sr_name = name, sr_kind = kind, sr_pair = pair\<rparr>)"

definition signer_from_seed :: "'k ed25519 \<Rightarrow> string \<Rightarrow> key_kind \<Rightarrow> bytes \<Rightarrow> tr_error + 'k signer" where
  "signer_from_seed ed name kind seed =
     bind_res (ok_or (ed_from_seed ed seed) SigningKey) (\<lambda>pair. with_pair name kind pair)"

definition signer_from_pkcs8 :: "'k ed25519 \<Rightarrow> string \<Rightarrow> key_kind \<Rightarrow> bytes \<Rightarrow> tr_error + 'k signer" where
  "signer_from_pkcs8 ed name kind pkcs8 =
     bind_res (ok_or (ed_from_pkcs8 ed pkcs8) SigningKey) (\<lambda>pair. with_pair name kind pair)"

definition signer_key :: "'k ed25519 \<Rightarrow> 'k signer \<Rightarrow> verifier_key" where
  "signer_key ed s = \<lparr>vk_name = sr_name s, vk_kind = sr_kind s, vk_public = ed_public ed (sr_pair s)\<rparr>"

definition signer_line :: "hash_fun \<Rightarrow> 'k ed25519 \<Rightarrow> 'k signer \<Rightarrow> bytes \<Rightarrow> note_signature" where
  "signer_line sha ed s body = \<lparr>ns_name = sr_name s, ns_key_id = vk_key_id sha (signer_key ed s), ns_body = body\<rparr>"

definition cosignature_message :: "string \<Rightarrow> nat \<Rightarrow> bytes" where
  "cosignature_message text time =
     as_bytes (''cosignature/v1'' @ [nl] @ ''time '' @ dec_nat time @ [nl] @ text)"

definition sign_checkpoint :: "hash_fun \<Rightarrow> 'k ed25519 \<Rightarrow> 'k signer \<Rightarrow> string \<Rightarrow> tr_error + note_signature" where
  "sign_checkpoint sha ed s text =
     (if sr_kind s \<noteq> KK_Log then Inl WrongSignerKind
      else
        bind_res (checkpoint_parse text) (\<lambda>c.
        if cp_origin c \<noteq> sr_name s then Inl (WrongOrigin (sr_name s) (cp_origin c))
        else Inr (signer_line sha ed s (ed_sign ed (sr_pair s) (as_bytes text)))))"

definition cosign_checkpoint :: "hash_fun \<Rightarrow> 'k ed25519 \<Rightarrow> 'k signer \<Rightarrow> string \<Rightarrow> nat \<Rightarrow> tr_error + note_signature" where
  "cosign_checkpoint sha ed s text time =
     (if sr_kind s \<noteq> KK_Cosigner then Inl WrongSignerKind
      else
        bind_res (checkpoint_parse text) (\<lambda>_.
        Inr (signer_line sha ed s (u64_be_bytes time @ ed_sign ed (sr_pair s) (cosignature_message text time)))))"

definition u64_value :: "bytes \<Rightarrow> nat" where
  "u64_value bs = foldl (\<lambda>n b. 256 * n + unat b) 0 bs"

text \<open>\<^verbatim>\<open>verify\<close> returns the time of a cosignature, \<^const>\<open>None\<close> for a log signature.\<close>

definition note_verify ::
    "hash_fun \<Rightarrow> 'k ed25519 \<Rightarrow> signed_note \<Rightarrow> verifier_key \<Rightarrow> tr_error + nat option option" where
  "note_verify sha ed note key =
     (let kid = vk_key_id sha key in
      case find (\<lambda>s. ns_name s = vk_name key \<and> ns_key_id s = kid) (nt_signatures note) of
        None \<Rightarrow> Inr None
      | Some line \<Rightarrow>
          bind_res
            (case vk_kind key of
               KK_Log \<Rightarrow> Inr (None, ns_body line, as_bytes (nt_text note))
             | KK_Cosigner \<Rightarrow>
                 if length (ns_body line) < 8 then Inl (BadSignature (vk_name key))
                 else
                   (let time = u64_value (take 8 (ns_body line)) in
                    Inr (Some time, drop 8 (ns_body line), cosignature_message (nt_text note) time)))
            (\<lambda>(time, signature, message).
               if ed_verify ed (vk_public key) message signature then Inr (Some time)
               else Inl (BadSignature (vk_name key))))"

end
