(* ===== verification/Note_Text.thy ===== *)
theory Note_Text
  imports Note
begin

text \<open>
  The text formats of keys, checkpoints and notes are exact: each parser accepts precisely the strings its
  printer writes, and returns the value that was printed. The values a format can carry are \<open>key_ok\<close>,
  \<open>checkpoint_ok\<close>, \<open>signature_ok\<close> and \<open>note_ok\<close>.
\<close>

section \<open>Alphabets\<close>

lemma hex_alphabet: "c \<in> set (hex bs) \<Longrightarrow> \<exists>v < 16. c = ''0123456789abcdef'' ! v"
proof -
  assume "c \<in> set (hex bs)"
  then obtain b :: byte where c: "c = ''0123456789abcdef'' ! (unat b div 16) \<or> c = ''0123456789abcdef'' ! (unat b mod 16)"
    unfolding hex_def by auto
  moreover have "unat b div 16 < 16" "unat b mod 16 < 16" using unat_byte [of b] by (auto simp: less_mult_imp_div_less)
  ultimately show ?thesis by blast
qed

lemma b64_char_alphabet: "\<exists>v < 64. b64_char n i = B64 ! v"
  unfolding b64_char_def by (rule exI [of _ "n div 64 ^ (3 - i) mod 64"]) simp

lemma b64_alphabet: "c \<in> set (b64 bs) \<Longrightarrow> c = CHR ''='' \<or> (\<exists>v < 64. c = B64 ! v)"
  by (induction bs rule: b64.induct) (auto simp: Let_def b64_char_alphabet)

lemma set_nth_lt: "v < length s \<Longrightarrow> s ! v \<in> set s"
  by simp

lemma hex_printable: "c \<in> set (hex bs) \<Longrightarrow> byte_in 33 126 c \<and> c \<noteq> CHR ''+''"
proof -
  assume "c \<in> set (hex bs)"
  then obtain v where "v < 16" "c = ''0123456789abcdef'' ! v" using hex_alphabet by blast
  then have "c \<in> set ''0123456789abcdef''" using set_nth_lt [of v "''0123456789abcdef''"] by simp
  moreover have "list_all (\<lambda>c. byte_in 33 126 c \<and> c \<noteq> CHR ''+'') ''0123456789abcdef''" by code_simp
  ultimately show ?thesis unfolding list_all_iff by blast
qed

lemma b64_printable: "c \<in> set (b64 bs) \<Longrightarrow> byte_in 33 126 c"
proof -
  assume "c \<in> set (b64 bs)"
  moreover have "length B64 = 64" by (simp add: B64_def)
  ultimately have "c \<in> set (CHR ''='' # B64)" using b64_alphabet [of c bs] set_nth_lt [of _ B64] by auto
  moreover have "list_all (byte_in 33 126) (CHR ''='' # B64)" by code_simp
  ultimately show ?thesis unfolding list_all_iff by blast
qed

lemma dec_nat_printable: "c \<in> set (dec_nat n) \<Longrightarrow> byte_in 33 126 c"
  using dec_nat_digits [of c n] by (auto simp: is_dec_digit_iff byte_in_def)

lemma printable_neq: "byte_in 33 126 c \<Longrightarrow> c \<noteq> nl \<and> c \<noteq> CHR '' '' \<and> byte_in 0 127 c"
  by (auto simp: byte_in_def)

section \<open>Keys\<close>

definition key_ok :: "verifier_key \<Rightarrow> bool" where
  "key_ok k \<longleftrightarrow> valid_key_name (vk_name k) \<and> length (vk_public k) = 32"

lemma split_key_iff: "split_key raw = Inr (kind, public) \<longleftrightarrow> raw = type_byte kind # public"
  by (cases raw; cases kind) (auto simp: split_key_def LOG_TYPE_def COSIGNATURE_TYPE_def split: if_splits)

lemma unb64_iff: "unb64 t = Inr bs \<longleftrightarrow> t = b64 bs"
  using unb64_b64 b64_unb64 by auto

lemma unhex_array_iff: "unhex_array n t = Inr bs \<longleftrightarrow> t = hex bs \<and> length bs = n"
  using unhex_hex [of bs] hex_unhex [of t bs] by (auto simp: unhex_array_def result_simps)

lemma verifier_key_parse_iff:
  "verifier_key_parse sha v = Inr k \<longleftrightarrow> v = verifier_key_text sha k \<and> key_ok k \<and> length (vk_key_id sha k) = 4"
proof
  assume "verifier_key_parse sha v = Inr k"
  then obtain name kid key raw kind public where "split3 CHR ''+'' v = Some (name, kid, key)" "unb64 key = Inr raw"
    "split_key raw = Inr (kind, public)" "length public = 32" "verifier_key_new name kind public = Inr k"
    "unhex_array 4 kid = Inr (vk_key_id sha k)"
    by (auto simp: verifier_key_parse_def result_simps split: option.splits if_splits)
  then show "v = verifier_key_text sha k \<and> key_ok k \<and> length (vk_key_id sha k) = 4"
    by (auto simp: split3_Some unb64_iff split_key_iff unhex_array_iff verifier_key_new_def verifier_key_text_def key_ok_def
        split: if_splits)
next
  assume k: "v = verifier_key_text sha k \<and> key_ok k \<and> length (vk_key_id sha k) = 4"
  have "CHR ''+'' \<notin> set (vk_name k)" using k by (simp add: key_ok_def valid_key_name_def)
  moreover have "CHR ''+'' \<notin> set (hex (vk_key_id sha k))" using hex_printable by blast
  ultimately have "split3 CHR ''+'' v = Some (vk_name k, hex (vk_key_id sha k), b64 (type_byte (vk_kind k) # vk_public k))"
    using k by (simp add: split3_Some verifier_key_text_def)
  moreover have "split_key (type_byte (vk_kind k) # vk_public k) = Inr (vk_kind k, vk_public k)" by (simp add: split_key_iff)
  moreover have "verifier_key_new (vk_name k) (vk_kind k) (vk_public k) = Inr k"
    using k by (simp add: verifier_key_new_def key_ok_def)
  moreover have "unhex_array 4 (hex (vk_key_id sha k)) = Inr (vk_key_id sha k)" using k by (simp add: unhex_array_iff)
  ultimately show "verifier_key_parse sha v = Inr k"
    using k by (simp add: verifier_key_parse_def unb64_b64 key_ok_def)
qed

section \<open>Checkpoints\<close>

definition checkpoint_ok :: "checkpoint \<Rightarrow> bool" where
  "checkpoint_ok c \<longleftrightarrow> cp_origin c \<noteq> [] \<and> nl \<notin> set (cp_origin c) \<and> cp_size c < 2 ^ 64 \<and> length (cp_root c) = 32"

lemma parse_size_iff: "parse_size s = Inr n \<longleftrightarrow> s = dec_nat n \<and> n < 2 ^ 64"
proof
  assume "parse_size s = Inr n"
  then show "s = dec_nat n \<and> n < 2 ^ 64"
    using dec_nat_dec_value [of s] by (auto simp: parse_size_def list_all_iff split: if_splits)
next
  assume n: "s = dec_nat n \<and> n < 2 ^ 64"
  have "hd (dec_nat n) \<noteq> CHR ''0''" if "length (dec_nat n) > 1"
    using that dec_nat_positive [of n] by (cases "n = 0") (simp_all add: dec_nat.simps [of 0])
  with n show "parse_size s = Inr n"
    using dec_nat_digits [of _ n] by (auto simp: parse_size_def list_all_iff dec_value_dec_nat)
qed

lemma case_three_lines:
  "(case xs of a # b # c # r \<Rightarrow> f a b c r | _ \<Rightarrow> Inl e) = Inr y \<longleftrightarrow> (\<exists>a b c r. xs = a # b # c # r \<and> f a b c r = Inr y)"
  by (auto split: list.splits)

lemma checkpoint_parse_iff: "checkpoint_parse t = Inr c \<longleftrightarrow> t = checkpoint_text c \<and> checkpoint_ok c"
proof
  assume "checkpoint_parse t = Inr c"
  then obtain body origin size_line root_line where t: "t = body @ [nl]" and "split_on nl body = [origin, size_line, root_line]"
    and "origin \<noteq> []" "parse_size size_line = Inr (cp_size c)" "unb64 root_line = Inr (cp_root c)" "length (cp_root c) = 32"
    "origin = cp_origin c"
    by (auto simp: checkpoint_parse_def result_simps strip_suffix_Some case_three_lines)
  then show "t = checkpoint_text c \<and> checkpoint_ok c"
    using join_split_on [of nl body] by (auto simp: parse_size_iff unb64_iff checkpoint_text_def checkpoint_ok_def)
next
  assume c: "t = checkpoint_text c \<and> checkpoint_ok c"
  let ?ls = "[cp_origin c, dec_nat (cp_size c), b64 (cp_root c)]"
  have "split_on nl (join [nl] ?ls) = ?ls"
    using c by (intro split_on_join) (auto simp: checkpoint_ok_def dest: dec_nat_printable b64_printable printable_neq)
  moreover have "t = join [nl] ?ls @ [nl]" using c by (simp add: checkpoint_text_def)
  ultimately show "checkpoint_parse t = Inr c"
    using c parse_size_iff [of "dec_nat (cp_size c)" "cp_size c"]
    by (simp add: checkpoint_parse_def strip_suffix_append unb64_b64 checkpoint_ok_def del: join.simps)
qed

section \<open>Notes\<close>

definition signature_ok :: "note_signature \<Rightarrow> bool" where
  "signature_ok s \<longleftrightarrow> valid_key_name (ns_name s) \<and> utf8_valid (ns_name s) \<and> length (ns_key_id s) = 4 \<and> ns_body s \<noteq> []"

definition note_ok :: "signed_note \<Rightarrow> bool" where
  "note_ok n \<longleftrightarrow>
     utf8_valid (nt_text n) \<and> check_characters (nt_text n) = Inr () \<and> nt_text n \<noteq> [] \<and> last (nt_text n) = nl
     \<and> nt_signatures n \<noteq> [] \<and> list_all signature_ok (nt_signatures n)
     \<and> distinct (map (\<lambda>s. (ns_name s, ns_key_id s)) (nt_signatures n))"

lemma chars_nonempty: "ch \<in> set (chars s) \<Longrightarrow> ch \<noteq> []"
  by (induction s rule: chars.induct) auto

lemma ascii_char_in_chars: "c \<in> set s \<Longrightarrow> byte_in 0 127 c \<Longrightarrow> utf8_valid s \<Longrightarrow> [c] \<in> set (chars s)"
proof -
  assume c: "c \<in> set s" "byte_in 0 127 c" "utf8_valid s"
  then obtain a b where s: "s = a @ c # b" by (auto simp: in_set_conv_decomp)
  then have "utf8_valid b" using c by (simp add: utf8_valid_append byte_in_ascii)
  then have "chars (c # b) = [c] # chars b" using chars_append [of b "[c]"] utf8_valid_hd by auto
  then show ?thesis using s c chars_append [of "c # b" a] by (simp add: byte_in_ascii)
qed

lemma valid_key_name_no_space:
  assumes "valid_key_name name" and "utf8_valid name"
  shows "CHR '' '' \<notin> set name" and "nl \<notin> set name"
proof -
  have "is_whitespace [CHR '' '']" "is_whitespace [nl]" by code_simp+
  moreover have "byte_in 0 127 (CHR '' '')" "byte_in 0 127 nl" by code_simp+
  ultimately show "CHR '' '' \<notin> set name" "nl \<notin> set name"
    using assms ascii_char_in_chars unfolding valid_key_name_def list_ex_iff by blast+
qed

text \<open>One signature line.\<close>

lemma utf8_valid_DASH: "utf8_valid (DASH @ s) \<longleftrightarrow> utf8_valid s"
proof -
  have "utf8_len (DASH @ s) = Some 3" by (simp add: DASH_def conts_def byte_in_def is_cont_def numeral_2_eq_2)
  then have "utf8_valid (DASH @ s) \<longleftrightarrow> utf8_valid (CHR '' '' # s)"
    by (subst utf8_valid.simps) (simp add: DASH_def)
  also have "\<dots> \<longleftrightarrow> utf8_valid s" by (rule utf8_valid_ascii_Cons) code_simp
  finally show ?thesis .
qed

lemma space_not_cont: "\<not> is_cont (CHR '' '')" and nl_not_cont: "\<not> is_cont nl"
  by code_simp+

lemma utf8_valid_b64: "utf8_valid (b64 bs)"
  by (rule utf8_valid_ascii) (auto simp: list_all_iff dest: b64_printable printable_neq)

lemma utf8_valid_space [simp]: "utf8_valid (CHR '' '' # s) \<longleftrightarrow> utf8_valid s" and utf8_valid_nl [simp]: "utf8_valid (nl # s) \<longleftrightarrow> utf8_valid s"
  by (rule utf8_valid_ascii_Cons, code_simp)+

lemma utf8_valid_signature_line: "utf8_valid (signature_line s) \<longleftrightarrow> utf8_valid (ns_name s)"
  by (simp add: signature_line_def utf8_valid_DASH utf8_valid_append [OF space_not_cont] utf8_valid_b64)

lemma signature_parse_iff:
  assumes "utf8_valid line"
  shows "signature_parse line = Inr s \<longleftrightarrow> line = signature_line s \<and> signature_ok s"
proof
  assume "signature_parse line = Inr s"
  then obtain rest name encoded raw where line: "line = DASH @ rest" and "split_once CHR '' '' rest = Some (name, encoded)"
    and name: "valid_key_name name" and "unb64 encoded = Inr raw" and raw: "5 \<le> length raw"
    and s: "s = \<lparr>ns_name = name, ns_key_id = take 4 raw, ns_body = drop 4 raw\<rparr>"
    by (auto simp: signature_parse_def result_simps strip_prefix_Some not_less split: if_splits)
  then have "line = signature_line s" by (simp add: split_once_Some unb64_iff signature_line_def)
  moreover from this assms s have "utf8_valid name" by (simp add: utf8_valid_signature_line)
  ultimately show "line = signature_line s \<and> signature_ok s" using s name raw by (simp add: signature_ok_def)
next
  assume s: "line = signature_line s \<and> signature_ok s"
  then have "CHR '' '' \<notin> set (ns_name s)" using valid_key_name_no_space by (simp add: signature_ok_def)
  then have "split_once CHR '' '' (ns_name s @ '' '' @ b64 (ns_key_id s @ ns_body s)) = Some (ns_name s, b64 (ns_key_id s @ ns_body s))"
    by (simp add: split_once_append)
  moreover have "\<not> length (ns_key_id s @ ns_body s) < 5"
    using s by (cases "ns_body s") (auto simp: signature_ok_def)
  ultimately show "signature_parse line = Inr s"
    using s by (simp add: signature_parse_def signature_line_def signature_ok_def unb64_b64 del: length_append)
qed

lemma signature_line_no_nl: "signature_ok s \<Longrightarrow> signature_line s \<noteq> [] \<and> nl \<notin> set (signature_line s)"
  using valid_key_name_no_space(2) [of "ns_name s"] b64_printable printable_neq
  by (auto simp: signature_line_def DASH_def signature_ok_def)

lemma parse_signatures_iff:
  assumes "\<forall>l \<in> set ls. utf8_valid l"
  shows "parse_signatures seen ls = Inr ss \<longleftrightarrow>
    ls = map signature_line ss \<and> list_all signature_ok ss
    \<and> distinct (map (\<lambda>s. (ns_name s, ns_key_id s)) ss) \<and> set (map (\<lambda>s. (ns_name s, ns_key_id s)) ss) \<inter> set seen = {}"
  using assms
proof (induction ls arbitrary: seen ss)
  case (Cons l ls)
  have "parse_signatures seen (l # ls) = Inr ss \<longleftrightarrow>
    (\<exists>s ss'. ss = s # ss' \<and> signature_parse l = Inr s \<and> (ns_name s, ns_key_id s) \<notin> set seen
       \<and> parse_signatures ((ns_name s, ns_key_id s) # seen) ls = Inr ss')"
    by (auto simp: result_simps)
  also have "\<dots> \<longleftrightarrow> (\<exists>s ss'. ss = s # ss' \<and> l = signature_line s \<and> signature_ok s \<and> (ns_name s, ns_key_id s) \<notin> set seen
       \<and> ls = map signature_line ss' \<and> list_all signature_ok ss' \<and> distinct (map (\<lambda>s. (ns_name s, ns_key_id s)) ss')
       \<and> set (map (\<lambda>s. (ns_name s, ns_key_id s)) ss') \<inter> set ((ns_name s, ns_key_id s) # seen) = {})"
    using Cons by (simp add: signature_parse_iff)
  also have "\<dots> \<longleftrightarrow> l # ls = map signature_line ss \<and> list_all signature_ok ss
    \<and> distinct (map (\<lambda>s. (ns_name s, ns_key_id s)) ss) \<and> set (map (\<lambda>s. (ns_name s, ns_key_id s)) ss) \<inter> set seen = {}"
    by (cases ss) auto
  finally show ?case .
qed auto

text \<open>Characters and encoding of the whole message.\<close>

lemma check_characters_append:
  assumes "b = [] \<or> \<not> is_cont (hd b)"
  shows "check_characters (a @ b) = Inr () \<longleftrightarrow> check_characters a = Inr () \<and> check_characters b = Inr ()"
  by (simp add: check_characters_def chars_append [OF assms])

lemma check_characters_printable:
  assumes "list_all (byte_in 33 126) s"
  shows "check_characters s = Inr ()"
proof -
  have "\<not> is_cont c" if "c \<in> set s" for c
    using assms that by (auto simp: list_all_iff byte_in_def is_cont_def)
  then have "chars s = map (\<lambda>c. [c]) s"
  proof (induction s)
    case (Cons c s)
    then show ?case using chars_append [of s "[c]"] by (cases s) auto
  qed simp
  moreover have "\<not> is_control [c]" if "c \<in> set s" for c
    using assms that by (auto simp: list_all_iff is_control_def byte_in_def)
  ultimately show ?thesis by (auto simp: check_characters_def list_ex_iff)
qed

lemma check_characters_signature:
  assumes "signature_ok s"
  shows "check_characters (signature_encode s) = Inr ()"
proof -
  let ?b = "b64 (ns_key_id s @ ns_body s)"
  have b: "list_all (byte_in 33 126) ?b" by (auto simp: list_all_iff dest: b64_printable)
  have "?b @ [nl] = [] \<or> \<not> is_cont (hd (?b @ [nl]))"
    using b nl_not_cont by (cases ?b) (auto simp: byte_in_def is_cont_def)
  moreover have "check_characters (?b @ [nl]) = Inr ()"
    using check_characters_append [of "[nl]" ?b] check_characters_printable [OF b] nl_not_cont by (simp add: check_characters_def)
  moreover have "check_characters DASH = Inr ()" "check_characters '' '' = Inr ()" by code_simp+
  moreover have "check_characters (ns_name s) = Inr ()"
    using assms by (auto simp: signature_ok_def valid_key_name_def check_characters_def list_ex_iff)
  moreover have "ns_name s \<noteq> []" "\<not> is_cont (hd (ns_name s))"
    using assms utf8_valid_hd by (auto simp: signature_ok_def valid_key_name_def)
  ultimately show ?thesis
    using space_not_cont check_characters_append [of "?b @ [nl]" "'' ''"] check_characters_append [of "'' '' @ ?b @ [nl]" "ns_name s"]
      check_characters_append [of "ns_name s @ '' '' @ ?b @ [nl]" DASH]
    by (simp add: signature_encode_def signature_line_def)
qed

lemma signature_encode_hd: "signature_encode s \<noteq> [] \<and> \<not> is_cont (hd (signature_encode s))"
  by (simp add: signature_encode_def signature_line_def DASH_def is_cont_def)

lemma check_characters_block:
  "list_all signature_ok ss \<Longrightarrow> check_characters (concat (map signature_encode ss)) = Inr ()"
proof (induction ss)
  case (Cons s ss)
  have "concat (map signature_encode ss) = [] \<or> \<not> is_cont (hd (concat (map signature_encode ss)))"
    using signature_encode_hd by (cases ss) auto
  with Cons check_characters_signature [of s] show ?case
    by (simp add: check_characters_append)
qed (simp add: check_characters_def)

lemma utf8_valid_join: "utf8_valid (join [nl] ls) \<longleftrightarrow> (\<forall>l \<in> set ls. utf8_valid l)"
proof (induction ls)
  case (Cons l ls)
  then show ?case by (cases ls) (simp_all add: utf8_valid_append [OF nl_not_cont])
qed simp

lemma from_utf8_Some: "from_utf8 bs = Some m \<longleftrightarrow> bs = as_bytes m \<and> utf8_valid m"
proof -
  have inv: "as_bytes (map (\<lambda>b. char_of (unat b)) bs) = bs" for bs :: bytes
  proof -
    have "(of_char (char_of (unat b) :: char) :: byte) = b" for b :: byte
    proof -
      have "(of_char (char_of (unat b) :: char) :: byte) = word_of_nat (of_char (char_of (unat b) :: char))"
        by (simp only: of_nat_of_char)
      then show ?thesis using unat_byte [of b] by (simp add: of_char_of)
    qed
    then show ?thesis by (simp add: as_bytes_def comp_def map_idI)
  qed
  then have "map (\<lambda>b. char_of (unat b)) (as_bytes m) = m" for m
    by (metis as_bytes_inject)
  with inv show ?thesis by (auto simp: from_utf8_def Let_def)
qed

lemma concat_signature_encode: "ss \<noteq> [] \<Longrightarrow> concat (map signature_encode ss) = join [nl] (map signature_line ss) @ [nl]"
proof (induction ss)
  case (Cons s ss)
  then show ?case by (cases ss) (simp_all add: signature_encode_def)
qed simp

lemma rfind_blank_split: "rfind_blank m = Some i \<Longrightarrow> \<exists>t s. m = t @ nl # nl # s \<and> i = length t"
proof -
  assume i: "rfind_blank m = Some i"
  then have "i < length m" by (induction m arbitrary: i rule: rfind_blank.induct) (auto split: option.splits if_splits)
  with rfind_blank_Some [OF i] show ?thesis
    by (intro exI [of _ "take i m"] exI [of _ "drop (i + 2) m"]) simp
qed

lemma note_new_iff:
  "note_new text = Inr n \<longleftrightarrow> check_characters text = Inr () \<and> text \<noteq> [] \<and> last text = nl \<and> n = \<lparr>nt_text = text, nt_signatures = []\<rparr>"
  by (auto simp: note_new_def result_simps)

lemma note_parse_sound:
  assumes "note_parse bs = Inr n"
  shows "bs = as_bytes (note_encode n) \<and> note_ok n"
proof -
  from assms obtain m i ls u ss where m: "bs = as_bytes m" "utf8_valid m"
    and i: "rfind_blank m = Some i" and ls: "drop (i + 2) m = ls @ [nl]"
    and u: "note_new (take (i + 1) m) = Inr u" and ss: "parse_signatures [] (split_on nl ls) = Inr ss"
    and n: "n = u\<lparr>nt_signatures := ss\<rparr>"
    by (auto simp: note_parse_def result_simps from_utf8_Some Let_def strip_suffix_Some split: if_splits)
  from rfind_blank_split [OF i] obtain t s where ts: "m = t @ nl # nl # s" "i = length t" by blast
  with ls have m_eq: "m = t @ nl # nl # ls @ [nl]" and head: "take (i + 1) m = t @ [nl]" by simp_all
  note u' = u [unfolded head note_new_iff]
  from m(2) have valid: "utf8_valid t" "utf8_valid ls"
    by (simp_all add: m_eq utf8_valid_append [OF nl_not_cont])
  then have "\<forall>l \<in> set (split_on nl ls). utf8_valid l"
    using utf8_valid_join [of "split_on nl ls"] join_split_on [of nl ls] by simp
  from ss [unfolded parse_signatures_iff [OF this]]
  have lines: "split_on nl ls = map signature_line ss" and sigs: "list_all signature_ok ss"
    "distinct (map (\<lambda>s. (ns_name s, ns_key_id s)) ss)" by auto
  have ne: "ss \<noteq> []" using lines split_on_nonempty [of nl ls] by auto
  have "ls @ [nl] = concat (map signature_encode ss)"
    using concat_signature_encode [OF ne] join_split_on [of nl ls] lines by simp
  then have "m = note_encode n" using u' n m_eq by (simp add: note_encode_def)
  moreover have "note_ok n"
    using u' n sigs ne valid by (simp add: note_ok_def utf8_valid_append [OF nl_not_cont])
  ultimately show ?thesis using m(1) by simp
qed

lemma note_parse_complete:
  assumes "note_ok n"
  shows "note_parse (as_bytes (note_encode n)) = Inr n"
proof -
  define t where "t = butlast (nt_text n)"
  have head: "nt_text n = t @ [nl]" using assms by (metis note_ok_def append_butlast_last_id t_def)
  let ?ss = "nt_signatures n" and ?block = "concat (map signature_encode (nt_signatures n))"
  have sigs: "?ss \<noteq> []" "list_all signature_ok ?ss" "distinct (map (\<lambda>s. (ns_name s, ns_key_id s)) ?ss)"
    using assms by (simp_all add: note_ok_def)
  have line: "l \<noteq> [] \<and> nl \<notin> set l" if "l \<in> set (map signature_line ?ss)" for l
    using that sigs(2) signature_line_no_nl by (auto simp: list_all_iff)
  have m: "note_encode n = t @ [nl, nl] @ ?block" by (simp add: note_encode_def head)
  have block: "?block = join [nl] (map signature_line ?ss) @ [nl]" by (rule concat_signature_encode [OF sigs(1)])
  have lines: "split_on nl (join [nl] (map signature_line ?ss)) = map signature_line ?ss"
    using sigs(1) line by (intro split_on_join) auto
  have lines_valid: "\<forall>l \<in> set (map signature_line ?ss). utf8_valid l"
    using sigs(2) by (auto simp: list_all_iff utf8_valid_signature_line signature_ok_def)
  have "utf8_valid t" using assms by (simp add: note_ok_def head utf8_valid_append [OF nl_not_cont])
  then have "utf8_valid (note_encode n)"
    using lines_valid utf8_valid_join [of "map signature_line ?ss"]
    by (simp add: m block utf8_valid_append [OF nl_not_cont])
  moreover have "check_characters (note_encode n) = Inr ()"
  proof -
    have "check_characters (nl # ?block) = Inr ()"
      using check_characters_block [OF sigs(2)] check_characters_append [of ?block "[nl]"] signature_encode_hd sigs(1)
      by (cases ?ss) (auto simp: check_characters_def)
    then show ?thesis
      using assms check_characters_append [of "nl # ?block" "nt_text n"] nl_not_cont by (simp add: note_encode_def note_ok_def)
  qed
  moreover have "rfind_blank (note_encode n) = Some (length t)"
    unfolding m
  proof (rule rfind_blank_append)
    have "rfind_blank (concat (map (\<lambda>l. l @ [nl]) (map signature_line ?ss))) = None" by (rule rfind_blank_lines) (use line in blast)
    moreover have "concat (map (\<lambda>l. l @ [nl]) (map signature_line ?ss)) = ?block"
      by (simp add: signature_encode_def [abs_def] comp_def)
    ultimately show "rfind_blank (nl # ?block) = None"
      using line sigs(1) by (cases ?ss) (auto simp: signature_encode_def signature_line_def DASH_def)
  qed
  moreover have "note_new (nt_text n) = Inr \<lparr>nt_text = nt_text n, nt_signatures = []\<rparr>"
    using assms by (simp add: note_new_iff note_ok_def)
  moreover have "parse_signatures [] (map signature_line ?ss) = Inr ?ss"
    using sigs by (simp add: parse_signatures_iff [OF lines_valid])
  moreover have "join [nl] (map signature_line ?ss) \<noteq> []"
    using line sigs(1) by (cases ?ss; cases "tl ?ss") auto
  ultimately show ?thesis
    by (simp add: note_parse_def from_utf8_Some [THEN iffD2] m block lines head Let_def)
qed

end
