(* ===== verification/Policy.thy ===== *)
theory Policy
  imports Note_Text
begin

text \<open>
  The client's trust policy (\<^verbatim>\<open>crates/engine-core/src/transparency/policy.rs\<close>). The derived decoder of the wire form is
  the parameter \<open>decode\<close>; a set built to count its elements is the list without repetitions. \<open>policy_ok\<close> is what the
  loader guarantees: the policy can be met, roles are not blurred and every witness key is a cosignature key.
\<close>

datatype on_failure = OF_Warn | OF_Reject

record witness =
  wt_name :: string
  wt_key :: verifier_key
  wt_operator :: string

record policy =
  pl_origin :: origin
  pl_log :: verifier_key
  pl_witnesses :: "witness list"
  pl_threshold :: nat
  pl_distinct_operators :: bool
  pl_max_age_seconds :: nat
  pl_on_failure :: on_failure

record witness_wire =
  ww_name :: string
  ww_vkey :: string
  ww_operator :: string

record policy_wire =
  pw_version :: nat
  pw_log_origin :: string
  pw_log_vkey :: string
  pw_witnesses :: "witness_wire list"
  pw_threshold :: nat
  pw_distinct_operators :: bool
  pw_max_age_seconds :: nat
  pw_on_failure :: string

text \<open>\<^verbatim>\<open>to_string\<close> of the errors \<^verbatim>\<open>Origin::new\<close> and \<^verbatim>\<open>VerifierKey::parse\<close> return; they return no others
  (\<open>key_errors\<close>).\<close>

fun error_text :: "tr_error \<Rightarrow> string" where
  "error_text (TR_Base64 m) = ''invalid base64: '' @ m"
| "error_text (MalformedKey m) = ''malformed verifier key: '' @ m"
| "error_text KeyIdMismatch = ''the key id in a verifier key does not match its name and key''"
| "error_text (UnsupportedKeyType t) = ''unsupported signature type 0x'' @ hex [t]"
| "error_text InvalidKeyName =
     ''a key name is non-empty and has no whitespace, control characters or '' @ [CHR 0x27] @ ''+'' @ [CHR 0x27]"
| "error_text (InvalidOrigin m) = ''invalid origin: '' @ m"
| "error_text _ = ''''"

text \<open>One turn of the loop over the witnesses, with the names and keys seen so far.\<close>

definition load_witness ::
    "hash_fun \<Rightarrow> origin \<Rightarrow> verifier_key \<Rightarrow> string list \<Rightarrow> bytes list \<Rightarrow> witness_wire \<Rightarrow> policy_error + witness" where
  "load_witness sha origin log names keys w =
     (let name = ww_name w in
      bind_res (map_err (\<lambda>e. PE_WitnessKey name (error_text e)) (verifier_key_parse sha (ww_vkey w))) (\<lambda>key.
      if vk_kind key \<noteq> KK_Cosigner then Inl (PE_WitnessKeyKind name)
      else if vk_name key \<noteq> name then Inl (PE_WitnessName name (vk_name key))
      else if name = origin \<or> vk_public key = vk_public log then Inl (PE_WitnessIsLog name)
      else if name \<in> set names then Inl (PE_DuplicateWitnessName name)
      else if vk_public key \<in> set keys then Inl (PE_DuplicateWitnessKey name)
      else if ww_operator w = [] \<or> list_ex is_control (chars (ww_operator w)) then Inl (PE_Operator name)
      else Inr \<lparr>wt_name = name, wt_key = key, wt_operator = ww_operator w\<rparr>))"

fun load_witnesses ::
    "hash_fun \<Rightarrow> origin \<Rightarrow> verifier_key \<Rightarrow> string list \<Rightarrow> bytes list \<Rightarrow> witness_wire list \<Rightarrow> policy_error + witness list" where
  "load_witnesses sha origin log names keys [] = Inr []"
| "load_witnesses sha origin log names keys (w # ws) =
     bind_res (load_witness sha origin log names keys w) (\<lambda>wt.
     bind_res (load_witnesses sha origin log (wt_name wt # names) (vk_public (wt_key wt) # keys) ws) (\<lambda>wts. Inr (wt # wts)))"

definition operators_of :: "witness list \<Rightarrow> string list" where
  "operators_of ws = remdups (map wt_operator ws)"

definition check_policy :: "hash_fun \<Rightarrow> policy_wire \<Rightarrow> policy_error + policy" where
  "check_policy sha wire =
     (if pw_version wire \<noteq> 1 then Inl (PE_Version (pw_version wire))
      else
        bind_res (map_err (\<lambda>e. PE_Origin (error_text e)) (origin_new (pw_log_origin wire))) (\<lambda>origin.
        bind_res (map_err (\<lambda>e. PE_LogKey (error_text e)) (verifier_key_parse sha (pw_log_vkey wire))) (\<lambda>log.
        if vk_kind log \<noteq> KK_Log then Inl PE_LogKeyKind
        else if vk_name log \<noteq> origin then Inl (PE_LogKeyName origin (vk_name log))
        else
          bind_res (load_witnesses sha origin log [] [] (pw_witnesses wire)) (\<lambda>ws.
          let threshold = pw_threshold wire; operators = length (operators_of ws) in
          if threshold = 0 then Inl PE_ThresholdZero
          else if threshold > length ws then Inl (PE_ThresholdAboveWitnesses threshold (length ws))
          else if pw_distinct_operators wire \<and> threshold > operators then Inl (PE_ThresholdAboveOperators threshold operators)
          else if pw_max_age_seconds wire = 0 then Inl PE_FreshnessZero
          else
            bind_res
              (if pw_on_failure wire = ''warn'' then Inr OF_Warn
               else if pw_on_failure wire = ''reject'' then Inr OF_Reject
               else Inl (PE_OnFailure (pw_on_failure wire)))
              (\<lambda>failure. Inr \<lparr>pl_origin = origin, pl_log = log, pl_witnesses = ws, pl_threshold = threshold,
                       pl_distinct_operators = pw_distinct_operators wire, pl_max_age_seconds = pw_max_age_seconds wire,
                       pl_on_failure = failure\<rparr>)))))"

definition policy_from_json :: "hash_fun \<Rightarrow> (bytes \<Rightarrow> string + policy_wire) \<Rightarrow> bytes \<Rightarrow> tr_error + policy" where
  "policy_from_json sha decode bs =
     map_err TR_Policy (bind_res (map_err PE_Json (decode bs)) (check_policy sha))"

definition quorum_is_majority :: "policy \<Rightarrow> bool" where
  "quorum_is_majority p \<longleftrightarrow>
     (let voters = (if pl_distinct_operators p then length (operators_of (pl_witnesses p)) else length (pl_witnesses p))
      in 2 * pl_threshold p > voters)"

section \<open>What the loader guarantees\<close>

definition policy_ok :: "policy \<Rightarrow> bool" where
  "policy_ok p \<longleftrightarrow>
     key_ok (pl_log p) \<and> vk_kind (pl_log p) = KK_Log \<and> vk_name (pl_log p) = pl_origin p
     \<and> (\<forall>w \<in> set (pl_witnesses p). key_ok (wt_key w) \<and> vk_kind (wt_key w) = KK_Cosigner \<and> vk_name (wt_key w) = wt_name w
          \<and> wt_name w \<noteq> pl_origin p \<and> vk_public (wt_key w) \<noteq> vk_public (pl_log p))
     \<and> distinct (map wt_name (pl_witnesses p)) \<and> distinct (map (\<lambda>w. vk_public (wt_key w)) (pl_witnesses p))
     \<and> 0 < pl_threshold p \<and> pl_threshold p \<le> length (pl_witnesses p)
     \<and> (pl_distinct_operators p \<longrightarrow> pl_threshold p \<le> length (operators_of (pl_witnesses p)))
     \<and> 0 < pl_max_age_seconds p"

lemma unb64_errors: "unb64 t = Inl e \<Longrightarrow> \<exists>m. e = TR_Base64 m"
proof -
  have sextets: "\<exists>m. e = TR_Base64 m" if "sextets cs n = Inl e" for cs n e
    using that by (induction cs arbitrary: n) (auto simp: result_simps sextet_def split: if_splits)
  have quad: "\<exists>m. e = TR_Base64 m" if "unb64_quad q final = Inl e" for q final e
    using that by (auto simp: unb64_quad_def Let_def result_simps dest: sextets split: if_splits)
  have "\<exists>m. e = TR_Base64 m" if "unb64_loop t = Inl e" for t e
    using that by (induction t rule: unb64_loop.induct) (auto simp: result_simps dest: quad)
  then show "unb64 t = Inl e \<Longrightarrow> ?thesis" by (auto simp: unb64_def split: if_splits)
qed

lemma key_errors:
  "origin_new t = Inl e \<Longrightarrow> \<exists>m. e = InvalidOrigin m"
  "verifier_key_parse sha t = Inl e \<Longrightarrow>
    e = KeyIdMismatch \<or> e = InvalidKeyName \<or> (\<exists>m. e = TR_Base64 m \<or> e = MalformedKey m) \<or> (\<exists>b. e = UnsupportedKeyType b)"
  by (auto simp: origin_new_def verifier_key_parse_def split_key_def verifier_key_new_def result_simps dest!: unb64_errors
      split: if_splits option.splits list.splits)

lemma load_witness_ok:
  assumes "load_witness sha origin log names keys w = Inr wt"
  shows "key_ok (wt_key wt) \<and> vk_kind (wt_key wt) = KK_Cosigner \<and> vk_name (wt_key wt) = wt_name wt \<and> wt_name wt \<noteq> origin
    \<and> vk_public (wt_key wt) \<noteq> vk_public log \<and> wt_name wt \<notin> set names \<and> vk_public (wt_key wt) \<notin> set keys"
  using assms by (auto simp: load_witness_def Let_def result_simps verifier_key_parse_iff split: if_splits)

lemma load_witnesses_ok:
  assumes "load_witnesses sha origin log names keys ws = Inr wts"
  shows "(\<forall>w \<in> set wts. key_ok (wt_key w) \<and> vk_kind (wt_key w) = KK_Cosigner \<and> vk_name (wt_key w) = wt_name w
      \<and> wt_name w \<noteq> origin \<and> vk_public (wt_key w) \<noteq> vk_public log \<and> wt_name w \<notin> set names \<and> vk_public (wt_key w) \<notin> set keys)
    \<and> distinct (map wt_name wts) \<and> distinct (map (\<lambda>w. vk_public (wt_key w)) wts)"
  using assms
proof (induction ws arbitrary: names keys wts)
  case (Cons w ws)
  then obtain wt wts' where wt: "load_witness sha origin log names keys w = Inr wt" and wts: "wts = wt # wts'"
    and rest: "load_witnesses sha origin log (wt_name wt # names) (vk_public (wt_key wt) # keys) ws = Inr wts'"
    by (auto simp: result_simps)
  from load_witness_ok [OF wt] Cons.IH [OF rest] show ?case by (auto simp: wts)
qed simp

lemma check_policy_ok: "check_policy sha wire = Inr p \<Longrightarrow> policy_ok p"
  by (auto simp: check_policy_def policy_ok_def Let_def result_simps verifier_key_parse_iff
      dest!: load_witnesses_ok split: if_splits)

section \<open>The one document of a policy\<close>

text \<open>A policy has one wire form, and the loader accepts exactly the wire forms of valid policies.\<close>

definition wire_witness :: "hash_fun \<Rightarrow> witness \<Rightarrow> witness_wire" where
  "wire_witness sha w = \<lparr>ww_name = wt_name w, ww_vkey = verifier_key_text sha (wt_key w), ww_operator = wt_operator w\<rparr>"

definition wire_of :: "hash_fun \<Rightarrow> policy \<Rightarrow> policy_wire" where
  "wire_of sha p =
     \<lparr>pw_version = 1, pw_log_origin = pl_origin p, pw_log_vkey = verifier_key_text sha (pl_log p),
      pw_witnesses = map (wire_witness sha) (pl_witnesses p), pw_threshold = pl_threshold p,
      pw_distinct_operators = pl_distinct_operators p, pw_max_age_seconds = pl_max_age_seconds p,
      pw_on_failure = (case pl_on_failure p of OF_Warn \<Rightarrow> ''warn'' | OF_Reject \<Rightarrow> ''reject'')\<rparr>"

definition policy_valid :: "hash_fun \<Rightarrow> policy \<Rightarrow> bool" where
  "policy_valid sha p \<longleftrightarrow>
     policy_ok p \<and> origin_new (pl_origin p) = Inr (pl_origin p)
     \<and> (\<forall>w \<in> set (pl_witnesses p). wt_operator w \<noteq> [] \<and> \<not> list_ex is_control (chars (wt_operator w)))
     \<and> (\<forall>k \<in> insert (pl_log p) (wt_key ` set (pl_witnesses p)). length (vk_key_id sha k) = 4)"

text \<open>What the loop knows of a witness it accepts, after the names and keys seen so far.\<close>

definition witness_valid ::
    "hash_fun \<Rightarrow> origin \<Rightarrow> verifier_key \<Rightarrow> string set \<Rightarrow> bytes set \<Rightarrow> witness \<Rightarrow> bool" where
  "witness_valid sha origin log names keys w \<longleftrightarrow>
     key_ok (wt_key w) \<and> length (vk_key_id sha (wt_key w)) = 4 \<and> vk_kind (wt_key w) = KK_Cosigner
     \<and> vk_name (wt_key w) = wt_name w \<and> wt_name w \<noteq> origin \<and> vk_public (wt_key w) \<noteq> vk_public log
     \<and> wt_name w \<notin> names \<and> vk_public (wt_key w) \<notin> keys
     \<and> wt_operator w \<noteq> [] \<and> \<not> list_ex is_control (chars (wt_operator w))"

lemma load_witness_iff:
  "load_witness sha origin log names keys ww = Inr w \<longleftrightarrow>
     ww = wire_witness sha w \<and> witness_valid sha origin log (set names) (set keys) w"
  by (cases ww; cases w)
    (auto simp: load_witness_def Let_def result_simps verifier_key_parse_iff wire_witness_def witness_valid_def split: if_splits)

lemma load_witnesses_iff:
  "load_witnesses sha origin log names keys wws = Inr ws \<longleftrightarrow>
     wws = map (wire_witness sha) ws \<and> (\<forall>w \<in> set ws. witness_valid sha origin log (set names) (set keys) w)
     \<and> distinct (map wt_name ws) \<and> distinct (map (\<lambda>w. vk_public (wt_key w)) ws)"
proof (induction wws arbitrary: names keys ws)
  case (Cons ww wws)
  show ?case
    by (cases ws) (auto simp: result_simps Cons.IH load_witness_iff witness_valid_def, metis image_eqI, metis image_eqI)
qed auto

lemma origin_new_self: "origin_new t = Inr u \<Longrightarrow> u = t \<and> origin_new u = Inr u"
  by (auto simp: origin_new_def split: if_splits option.splits)

lemma check_policy_iff: "check_policy sha wire = Inr p \<longleftrightarrow> wire = wire_of sha p \<and> policy_valid sha p"
proof
  assume *: "check_policy sha wire = Inr p"
  from * have "wire = wire_of sha p \<and> origin_new (pl_origin p) = Inr (pl_origin p) \<and> length (vk_key_id sha (pl_log p)) = 4
      \<and> (\<forall>w \<in> set (pl_witnesses p). witness_valid sha (pl_origin p) (pl_log p) {} {} w)"
    by (cases wire) (auto simp: check_policy_def wire_of_def Let_def result_simps verifier_key_parse_iff
        load_witnesses_iff split: if_splits dest: origin_new_self)
  with check_policy_ok [OF *] show "wire = wire_of sha p \<and> policy_valid sha p"
    by (auto simp: policy_valid_def witness_valid_def)
next
  assume "wire = wire_of sha p \<and> policy_valid sha p"
  then have w: "wire = wire_of sha p" and v: "policy_valid sha p" by auto
  have keys: "verifier_key_parse sha (verifier_key_text sha (pl_log p)) = Inr (pl_log p)"
    using v by (simp add: verifier_key_parse_iff policy_valid_def policy_ok_def)
  have ws: "load_witnesses sha (pl_origin p) (pl_log p) [] [] (map (wire_witness sha) (pl_witnesses p)) = Inr (pl_witnesses p)"
    using v by (auto simp: load_witnesses_iff witness_valid_def policy_valid_def policy_ok_def)
  show "check_policy sha wire = Inr p"
    using v by (cases "pl_on_failure p")
      (auto simp: w wire_of_def check_policy_def keys ws Let_def policy_valid_def policy_ok_def)
qed

end
