(* ===== verification/Leaf.thy ===== *)
theory Leaf
  imports Note_Text
begin

text \<open>
  Leaves of the transparency log and their blinded tags (\<^verbatim>\<open>crates/engine-core/src/transparency/leaf.rs\<close>).
  HMAC-SHA256 (\<^verbatim>\<open>ring\<close>) is the parameter \<open>hmac\<close>, \<^verbatim>\<open>serde_json::from_slice\<close> the parameter \<open>from_slice\<close>. A leaf has one
  encoding: \<open>leaf_from_entry_sound\<close> shows that an accepted entry is the entry of the leaf it decodes to.
\<close>

section \<open>Tags\<close>

type_synonym tag = bytes
type_synonym tag_key = bytes
type_synonym mac_fun = "bytes \<Rightarrow> bytes \<Rightarrow> bytes"

definition tag_mac :: "mac_fun \<Rightarrow> tag_key \<Rightarrow> bytes list \<Rightarrow> tag" where
  "tag_mac hmac key parts = hmac key (concat parts)"

definition ref_tag :: "mac_fun \<Rightarrow> tag_key \<Rightarrow> string \<Rightarrow> nat \<Rightarrow> tag" where
  "ref_tag hmac key branch generation =
     tag_mac hmac key [as_bytes ''ref'' @ [0], as_bytes branch, [0], u64_be_bytes generation]"

definition rotation_tag :: "mac_fun \<Rightarrow> tag_key \<Rightarrow> tag" where
  "rotation_tag hmac key = tag_mac hmac key [as_bytes ''rot'']"

definition horizon_tag :: "mac_fun \<Rightarrow> tag_key \<Rightarrow> nat \<Rightarrow> tag" where
  "horizon_tag hmac key seq = tag_mac hmac key [as_bytes ''hzn'' @ [0], u64_be_bytes seq]"

definition version_tag :: "mac_fun \<Rightarrow> tag_key \<Rightarrow> uuid \<Rightarrow> tag" where
  "version_tag hmac key document = tag_mac hmac key [as_bytes ''ver'' @ [0], document]"

section \<open>Leaves\<close>

definition LEAF_DOMAIN :: bytes where
  "LEAF_DOMAIN = as_bytes ''dynodoc.transparency-leaf'' @ [0] @ as_bytes ''v1'' @ [0]"

definition MAX_LEAF_BYTES :: nat where "MAX_LEAF_BYTES = 256"

datatype leaf =
    RefReceipt tag hash
  | AuthorityRotation tag hash
  | HistoryHorizon tag hash nat
  | EventHeads hash nat nat
  | NamedVersion tag hash
  | LogSuccessor origin nat hash

text \<open>\<^verbatim>\<open>json!\<close> on an object, and a \<^verbatim>\<open>u64\<close> as a JSON number.\<close>

definition json_object :: "(string \<times> json) list \<Rightarrow> json" where
  "json_object kvs = JObj (fold (\<lambda>(k, v) m. bt_insert k v m) kvs [])"

definition json_u64 :: "nat \<Rightarrow> json" where
  "json_u64 n = JNum (PosInt (word_of_nat n))"

fun as_u64 :: "json \<Rightarrow> nat option" where
  "as_u64 (JNum (PosInt w)) = Some (unat w)"
| "as_u64 _ = None"

fun leaf_to_value :: "leaf \<Rightarrow> json" where
  "leaf_to_value (RefReceipt tag receipt) =
     json_object [(''t'', JStr ''ref''), (''tag'', JStr (hex tag)), (''receipt'', JStr (hex receipt))]"
| "leaf_to_value (AuthorityRotation tag rotation) =
     json_object [(''t'', JStr ''rot''), (''tag'', JStr (hex tag)), (''rotation'', JStr (hex rotation))]"
| "leaf_to_value (HistoryHorizon tag horizon seq) =
     json_object [(''t'', JStr ''hzn''), (''tag'', JStr (hex tag)), (''horizon'', JStr (hex horizon)), (''seq'', json_u64 seq)]"
| "leaf_to_value (EventHeads root count interval) =
     json_object [(''t'', JStr ''evh''), (''root'', JStr (hex root)), (''count'', json_u64 count), (''interval'', json_u64 interval)]"
| "leaf_to_value (NamedVersion tag version) =
     json_object [(''t'', JStr ''ver''), (''tag'', JStr (hex tag)), (''version'', JStr (hex version))]"
| "leaf_to_value (LogSuccessor prev_origin n root) =
     json_object [(''t'', JStr ''suc''), (''prev_origin'', JStr prev_origin), (''size'', json_u64 n), (''root'', JStr (hex root))]"

definition leaf_data :: "scalar_writer \<Rightarrow> leaf \<Rightarrow> tr_error + bytes" where
  "leaf_data ser l =
     (let data = canonical_json ser (leaf_to_value l) in
      if length data > MAX_LEAF_BYTES then Inl (InvalidLeaf ''data is longer than 256 bytes'') else Inr data)"

definition leaf_entry :: "scalar_writer \<Rightarrow> leaf \<Rightarrow> tr_error + bytes" where
  "leaf_entry ser l = bind_res (leaf_data ser l) (\<lambda>data. Inr (LEAF_DOMAIN @ data))"

definition leaf_digest :: "hash_fun \<Rightarrow> scalar_writer \<Rightarrow> leaf \<Rightarrow> tr_error + hash" where
  "leaf_digest sha ser l = bind_res (leaf_entry ser l) (\<lambda>entry. Inr (leaf_hash sha entry))"

definition field_hex :: "(string, json) bmap \<Rightarrow> string \<Rightarrow> tr_error + bytes" where
  "field_hex object name =
     bind_res (ok_or (Option.bind (bt_get object name) as_str) (InvalidLeaf ''expected a hex string'')) (\<lambda>text.
     map_err (\<lambda>_. InvalidLeaf ''expected 64 lowercase hex digits'') (unhex_array 32 text))"

definition field_number :: "(string, json) bmap \<Rightarrow> string \<Rightarrow> tr_error + nat" where
  "field_number object name =
     ok_or (Option.bind (bt_get object name) as_u64) (InvalidLeaf ''expected an unsigned integer'')"

definition exact_fields :: "(string, json) bmap \<Rightarrow> string list \<Rightarrow> tr_error + unit" where
  "exact_fields object names =
     (if length object = length names \<and> list_all (bt_contains object) names then Inr ()
      else Inl (InvalidLeaf ''unexpected or missing fields''))"

text \<open>Two digests after the field check: the shape of three of the six leaves.\<close>

definition two_digests ::
    "(string, json) bmap \<Rightarrow> string \<Rightarrow> (bytes \<Rightarrow> bytes \<Rightarrow> leaf) \<Rightarrow> tr_error + leaf" where
  "two_digests object name mk =
     bind_res (exact_fields object [''t'', ''tag'', name]) (\<lambda>_.
     bind_res (field_hex object ''tag'') (\<lambda>tag.
     bind_res (field_hex object name) (\<lambda>d. Inr (mk tag d))))"

definition leaf_from_value :: "json \<Rightarrow> tr_error + leaf" where
  "leaf_from_value v =
     bind_res (ok_or (as_object v) (InvalidLeaf ''a leaf is a JSON object'')) (\<lambda>object.
     bind_res (ok_or (Option.bind (bt_get object ''t'') as_str) (InvalidLeaf ''missing leaf type'')) (\<lambda>kind.
     if kind = ''ref'' then two_digests object ''receipt'' RefReceipt
     else if kind = ''rot'' then two_digests object ''rotation'' AuthorityRotation
     else if kind = ''hzn'' then
       bind_res (exact_fields object [''t'', ''tag'', ''horizon'', ''seq'']) (\<lambda>_.
       bind_res (field_hex object ''tag'') (\<lambda>tag.
       bind_res (field_hex object ''horizon'') (\<lambda>horizon.
       bind_res (field_number object ''seq'') (\<lambda>seq. Inr (HistoryHorizon tag horizon seq)))))
     else if kind = ''evh'' then
       bind_res (exact_fields object [''t'', ''root'', ''count'', ''interval'']) (\<lambda>_.
       bind_res (field_hex object ''root'') (\<lambda>root.
       bind_res (field_number object ''count'') (\<lambda>count.
       bind_res (field_number object ''interval'') (\<lambda>interval. Inr (EventHeads root count interval)))))
     else if kind = ''ver'' then two_digests object ''version'' NamedVersion
     else if kind = ''suc'' then
       bind_res (exact_fields object [''t'', ''prev_origin'', ''size'', ''root'']) (\<lambda>_.
       bind_res (ok_or (Option.bind (bt_get object ''prev_origin'') as_str) (InvalidLeaf ''prev_origin is a string'')) (\<lambda>text.
       bind_res (origin_new text) (\<lambda>origin.
       bind_res (field_number object ''size'') (\<lambda>n.
       bind_res (field_hex object ''root'') (\<lambda>root. Inr (LogSuccessor origin n root))))))
     else Inl (InvalidLeaf ''unknown leaf type'')))"

definition leaf_parse :: "scalar_writer \<Rightarrow> (bytes \<Rightarrow> json option) \<Rightarrow> bytes \<Rightarrow> tr_error + leaf" where
  "leaf_parse ser from_slice data =
     (if data = [] \<or> length data > MAX_LEAF_BYTES then Inl (InvalidLeaf ''data must be 1 to 256 bytes'')
      else
        bind_res (ok_or (from_slice data) (InvalidLeaf ''not valid JSON'')) (\<lambda>v.
        bind_res (leaf_from_value v) (\<lambda>l.
        if canonical_json ser (leaf_to_value l) \<noteq> data then Inl (InvalidLeaf ''not canonical JSON'') else Inr l)))"

definition leaf_from_entry :: "scalar_writer \<Rightarrow> (bytes \<Rightarrow> json option) \<Rightarrow> bytes \<Rightarrow> tr_error + leaf" where
  "leaf_from_entry ser from_slice entry =
     bind_res (ok_or (strip_prefix LEAF_DOMAIN entry) (InvalidLeaf ''missing the leaf domain prefix'')) (leaf_parse ser from_slice)"

section \<open>The value round trip\<close>

fun leaf_ok :: "leaf \<Rightarrow> bool" where
  "leaf_ok (RefReceipt tag receipt) = (length tag = 32 \<and> length receipt = 32)"
| "leaf_ok (AuthorityRotation tag rotation) = (length tag = 32 \<and> length rotation = 32)"
| "leaf_ok (HistoryHorizon tag horizon seq) = (length tag = 32 \<and> length horizon = 32 \<and> seq < 2 ^ 64)"
| "leaf_ok (EventHeads root count interval) = (length root = 32 \<and> count < 2 ^ 64 \<and> interval < 2 ^ 64)"
| "leaf_ok (NamedVersion tag version) = (length tag = 32 \<and> length version = 32)"
| "leaf_ok (LogSuccessor prev_origin n root) = (origin_new prev_origin = Inr prev_origin \<and> n < 2 ^ 64 \<and> length root = 32)"

lemma as_u64_json_u64 [simp]: "n < 2 ^ 64 \<Longrightarrow> as_u64 (json_u64 n) = Some n"
  by (simp add: json_u64_def unat_of_nat take_bit_nat_eq_self)

lemma unhex_array_hex [simp]: "length bs = 32 \<Longrightarrow> unhex_array 32 (hex bs) = Inr bs"
  by (simp add: unhex_array_iff)

lemmas leaf_fields = field_hex_def field_number_def exact_fields_def two_digests_def bt_contains_def

lemma leaf_from_to_value: "leaf_ok l \<Longrightarrow> leaf_from_value (leaf_to_value l) = Inr l"
  by (cases l) (simp_all add: leaf_from_value_def json_object_def leaf_fields)

lemma as_u64_bound: "as_u64 v = Some n \<Longrightarrow> n < 2 ^ 64"
proof (cases v rule: as_u64.cases)
  case (1 w)
  moreover assume "as_u64 v = Some n"
  moreover have "unat w < 2 ^ LENGTH(64)" by (rule unsigned_less)
  ultimately show ?thesis by simp
qed simp_all

lemma field_hex_length: "field_hex object name = Inr bs \<Longrightarrow> length bs = 32"
  by (auto simp: field_hex_def result_simps unhex_array_iff)

lemma field_number_bound: "field_number object name = Inr n \<Longrightarrow> n < 2 ^ 64"
  by (auto simp: field_number_def result_simps dest: as_u64_bound split: Option.bind_splits)

lemma origin_new_same: "origin_new t = Inr u \<Longrightarrow> origin_new u = Inr u"
  by (auto simp: origin_new_def split: if_splits option.splits)

lemma leaf_from_value_ok: "leaf_from_value v = Inr l \<Longrightarrow> leaf_ok l"
  by (auto simp: leaf_from_value_def two_digests_def result_simps split: if_splits
      intro: field_hex_length field_number_bound [simplified] origin_new_same)

lemma leaf_from_entry_sound:
  assumes "leaf_from_entry ser from_slice entry = Inr l"
  shows "leaf_entry ser l = Inr entry \<and> leaf_ok l"
proof -
  from assms obtain data where entry: "entry = LEAF_DOMAIN @ data" and "leaf_parse ser from_slice data = Inr l"
    by (auto simp: leaf_from_entry_def result_simps strip_prefix_Some)
  then have "canonical_json ser (leaf_to_value l) = data" "length data \<le> MAX_LEAF_BYTES" "leaf_ok l"
    by (auto simp: leaf_parse_def result_simps leaf_from_value_ok split: if_splits)
  then show ?thesis by (simp add: leaf_entry_def leaf_data_def entry)
qed

lemma canonical_leaf_nonempty: "canonical_json ser (leaf_to_value l) \<noteq> []"
  by (cases l) (simp_all add: canonical_json_def json_object_def)

lemma leaf_from_entry_complete:
  assumes "leaf_ok l" and "leaf_entry ser l = Inr entry"
    and "from_slice (canonical_json ser (leaf_to_value l)) = Some (leaf_to_value l)"
  shows "leaf_from_entry ser from_slice entry = Inr l"
  using assms canonical_leaf_nonempty [of ser l]
  by (auto simp: leaf_entry_def leaf_data_def leaf_from_entry_def leaf_parse_def leaf_from_to_value Let_def split: if_splits)

section \<open>What a tag commits to\<close>

datatype scope = Ref_Scope string nat | Rotation_Scope | Horizon_Scope nat | Version_Scope uuid

fun scope_message :: "scope \<Rightarrow> bytes" where
  "scope_message (Ref_Scope branch generation) = as_bytes ''ref'' @ [0] @ as_bytes branch @ [0] @ u64_be_bytes generation"
| "scope_message Rotation_Scope = as_bytes ''rot''"
| "scope_message (Horizon_Scope seq) = as_bytes ''hzn'' @ [0] @ u64_be_bytes seq"
| "scope_message (Version_Scope document) = as_bytes ''ver'' @ [0] @ document"

fun scope_ok :: "scope \<Rightarrow> bool" where
  "scope_ok (Ref_Scope branch generation) = (generation < 2 ^ 64)"
| "scope_ok (Horizon_Scope seq) = (seq < 2 ^ 64)"
| "scope_ok _ = True"

fun scope_tag :: "mac_fun \<Rightarrow> tag_key \<Rightarrow> scope \<Rightarrow> tag" where
  "scope_tag hmac key (Ref_Scope branch generation) = ref_tag hmac key branch generation"
| "scope_tag hmac key Rotation_Scope = rotation_tag hmac key"
| "scope_tag hmac key (Horizon_Scope seq) = horizon_tag hmac key seq"
| "scope_tag hmac key (Version_Scope document) = version_tag hmac key document"

lemma scope_tag_mac: "scope_tag hmac key s = hmac key (scope_message s)"
  by (cases s) (simp_all add: ref_tag_def rotation_tag_def horizon_tag_def version_tag_def tag_mac_def)

lemma scope_message_inject:
  assumes "scope_ok s" and "scope_ok s'" and "scope_message s = scope_message s'"
  shows "s = s'"
proof -
  have kinds: "as_bytes ''ref'' = [114, 101, 102]" "as_bytes ''rot'' = [114, 111, 116]"
    "as_bytes ''hzn'' = [104, 122, 110]" "as_bytes ''ver'' = [118, 101, 114]"
    by (simp_all add: as_bytes_def)
  show ?thesis
    using assms by (cases s; cases s') (auto simp: kinds append_eq_append_conv intro: u64_be_bytes_inject)
qed

end
