(* ===== verification/Tiles.thy ===== *)
theory Tiles
  imports Merkle_Tree Decimal "HOL-Library.Product_Lexorder"
begin

text \<open>
  Tile storage of the transparency log (\<^verbatim>\<open>crates/engine-core/src/transparency/tiles.rs\<close>). The trait
  \<^verbatim>\<open>TileStore\<close> is the record \<open>tile_ops\<close> of its four operations over an arbitrary store type, each of which may
  fail; \<^verbatim>\<open>MemoryTileStore\<close> is an instance. \<open>append_batch\<close> returns the result together with the log it leaves, so
  that what was written before an error is visible. Sizes and positions are natural numbers below \<open>2 ^ 64\<close>;
  the checked operations of \<^verbatim>\<open>node\<close> are written out.
\<close>

section \<open>Paths\<close>

definition TILE_WIDTH :: nat where "TILE_WIDTH = 256"
definition TILE_HEIGHT :: nat where "TILE_HEIGHT = 8"

fun groups3 :: "string \<Rightarrow> string list" where
  "groups3 (a # b # c # rest) = [a, b, c] # groups3 rest"
| "groups3 _ = []"

definition mark_groups :: "string list \<Rightarrow> string list" where
  "mark_groups gs = map (\<lambda>g. CHR ''x'' # g) (butlast gs) @ (if gs = [] then [] else [last gs])"

definition tile_index_path :: "nat \<Rightarrow> string" where
  "tile_index_path index =
     (let digits = dec_nat index; padded = replicate ((3 - length digits mod 3) mod 3) CHR ''0'' @ digits
      in join ''/'' (mark_groups (groups3 padded)))"

definition with_width :: "string \<Rightarrow> nat \<Rightarrow> string" where
  "with_width path width = (if width = TILE_WIDTH then path else path @ ''.p/'' @ dec_nat width)"

definition hash_tile_path :: "nat \<Rightarrow> nat \<Rightarrow> nat \<Rightarrow> string" where
  "hash_tile_path level index width = with_width (''tile/'' @ dec_nat level @ ''/'' @ tile_index_path index) width"

definition entry_bundle_path :: "nat \<Rightarrow> nat \<Rightarrow> string" where
  "entry_bundle_path index width = with_width (''tile/entries/'' @ tile_index_path index) width"

section \<open>Stores\<close>

record 's tile_ops =
  t_get :: "'s \<Rightarrow> string \<Rightarrow> tr_error + bytes option"
  t_put :: "'s \<Rightarrow> string \<Rightarrow> bytes \<Rightarrow> (tr_error + unit) \<times> 's"
  t_size :: "'s \<Rightarrow> tr_error + nat"
  t_set_size :: "'s \<Rightarrow> nat \<Rightarrow> (tr_error + unit) \<times> 's"

record memory_tile_store =
  mts_files :: "(string, bytes) bmap"
  mts_size :: nat

definition memory_tile_ops :: "memory_tile_store tile_ops" where
  "memory_tile_ops =
     \<lparr>t_get = (\<lambda>s path. Inr (bt_get (mts_files s) path)),
      t_put = (\<lambda>s path bs. (Inr (), s\<lparr>mts_files := bt_insert path bs (mts_files s)\<rparr>)),
      t_size = (\<lambda>s. Inr (mts_size s)),
      t_set_size = (\<lambda>s n. (Inr (), s\<lparr>mts_size := n\<rparr>))\<rparr>"

definition memory_tile_new :: memory_tile_store where
  "memory_tile_new = \<lparr>mts_files = [], mts_size = 0\<rparr>"

section \<open>The log\<close>

record 's tile_log =
  tl_store :: 's
  tl_size :: nat
  tl_frontier :: "(nat \<times> hash) list"

definition read_object :: "'s tile_ops \<Rightarrow> 's \<Rightarrow> string \<Rightarrow> tr_error + bytes" where
  "read_object ops s path = bind_res (t_get ops s path) (\<lambda>found. ok_or found (MissingTile path))"

definition read_hash_tile :: "'s tile_ops \<Rightarrow> 's \<Rightarrow> nat \<Rightarrow> nat \<Rightarrow> nat \<Rightarrow> tr_error + bytes" where
  "read_hash_tile ops s level index width =
     (let path = hash_tile_path level index width in
      bind_res (read_object ops s path) (\<lambda>bs.
      if length bs \<noteq> width * 32 then Inl (CorruptTile path) else Inr bs))"

text \<open>\<^verbatim>\<open>chunks_exact(32)\<close>, and the loop that hashes neighbours until one node is left; its \<^verbatim>\<open>chunks_exact(2)\<close> is
  \<^const>\<open>full_pairs\<close>.\<close>

fun chunks32 :: "nat \<Rightarrow> bytes \<Rightarrow> hash list" where
  "chunks32 0 bs = []"
| "chunks32 (Suc k) bs = take 32 bs # chunks32 k (drop 32 bs)"

function reduce_nodes :: "hash_fun \<Rightarrow> hash list \<Rightarrow> hash list" where
  "reduce_nodes sha nodes = (if length nodes \<le> 1 then nodes else reduce_nodes sha (full_pairs sha nodes))"
  by pat_completeness auto
termination
  by (relation "measure (length \<circ> snd)") auto

declare reduce_nodes.simps [simp del]

definition tile_node :: "hash_fun \<Rightarrow> 's tile_ops \<Rightarrow> 's \<Rightarrow> nat \<Rightarrow> nat \<Rightarrow> nat \<Rightarrow> tr_error + hash" where
  "tile_node sha ops s n level index =
     (let missing = MissingNode level index in
      if level \<ge> 64 then Inl missing
      else
        (let tile_level = level div TILE_HEIGHT;
             sub = level mod TILE_HEIGHT;
             complete = n div 2 ^ (tile_level * TILE_HEIGHT);
             start = index * 2 ^ sub in
         if start \<ge> 2 ^ 64 then Inl missing
         else if start + 2 ^ sub \<ge> 2 ^ 64 \<or> start + 2 ^ sub > complete then Inl missing
         else
           (let tile = start div TILE_WIDTH;
                width = min (complete - tile * TILE_WIDTH) TILE_WIDTH in
            bind_res (read_hash_tile ops s tile_level tile width) (\<lambda>bs.
            let offset = start mod TILE_WIDTH;
                nodes = chunks32 (2 ^ sub) (drop (offset * 32) bs) in
            Inr (hd (reduce_nodes sha nodes))))))"

definition tile_source :: "hash_fun \<Rightarrow> 's tile_ops \<Rightarrow> 's tile_log \<Rightarrow> hash_source" where
  "tile_source sha ops log = \<lparr>hs_size = tl_size log, hs_node = tile_node sha ops (tl_store log) (tl_size log)\<rparr>"

text \<open>The loop of \<^verbatim>\<open>open\<close>, from the level below \<open>k\<close> down.\<close>

fun open_loop :: "hash_fun \<Rightarrow> 's tile_ops \<Rightarrow> 's \<Rightarrow> nat \<Rightarrow> nat \<Rightarrow> nat \<Rightarrow> tr_error + (nat \<times> hash) list" where
  "open_loop sha ops s n 0 position = Inr []"
| "open_loop sha ops s n (Suc level) position =
     (if odd (n div 2 ^ level) then
        bind_res (tile_node sha ops s n level (position div 2 ^ level)) (\<lambda>node.
        bind_res (open_loop sha ops s n level (position + 2 ^ level)) (\<lambda>rest.
        Inr ((level, node) # rest)))
      else open_loop sha ops s n level position)"

definition tile_open :: "hash_fun \<Rightarrow> 's tile_ops \<Rightarrow> 's \<Rightarrow> tr_error + 's tile_log" where
  "tile_open sha ops s =
     bind_res (t_size ops s) (\<lambda>n.
     bind_res (open_loop sha ops s n 64 0) (\<lambda>frontier.
     Inr \<lparr>tl_store = s, tl_size = n, tl_frontier = frontier\<rparr>))"

text \<open>\<^verbatim>\<open>reduce\<close> over the reversed frontier.\<close>

fun reduce_right :: "hash_fun \<Rightarrow> hash \<Rightarrow> hash list \<Rightarrow> hash" where
  "reduce_right sha right [] = right"
| "reduce_right sha right (l # rest) = reduce_right sha (node_hash sha l right) rest"

definition tile_root :: "hash_fun \<Rightarrow> 's tile_log \<Rightarrow> hash" where
  "tile_root sha log =
     (case rev (map snd (tl_frontier log)) of [] \<Rightarrow> empty_root sha | h # rest \<Rightarrow> reduce_right sha h rest)"

section \<open>Appending\<close>

type_synonym tile_hashes = "(nat \<times> nat, hash list) bmap"

text \<open>\<^verbatim>\<open>map.entry(k).or_default()\<close> followed by \<^verbatim>\<open>push\<close> or \<^verbatim>\<open>extend_from_slice\<close>.\<close>

definition entry_append :: "'k::linorder \<Rightarrow> 'v list \<Rightarrow> ('k, 'v list) bmap \<Rightarrow> ('k, 'v list) bmap" where
  "entry_append k v m = bt_insert k ((case bt_get m k of None \<Rightarrow> [] | Some old \<Rightarrow> old) @ v) m"

text \<open>The carry loop for one entry; \<open>n\<close> is the size including it. \<^verbatim>\<open>frontier.last()\<close> is the smallest subtree.\<close>

function carry_loop ::
    "hash_fun \<Rightarrow> nat \<Rightarrow> nat \<Rightarrow> hash \<Rightarrow> (nat \<times> hash) list \<Rightarrow> tile_hashes \<Rightarrow> (nat \<times> hash) list \<times> tile_hashes" where
  "carry_loop sha n level h frontier tiles =
     (if frontier = [] \<or> fst (last frontier) \<noteq> level then (frontier @ [(level, h)], tiles)
      else
        (let h' = node_hash sha (snd (last frontier)) h;
             level' = level + 1;
             tiles' =
               (if level' mod TILE_HEIGHT = 0
                then entry_append (level' div TILE_HEIGHT, (n div 2 ^ level' - 1) div TILE_WIDTH) [h'] tiles
                else tiles)
         in carry_loop sha n level' h' (butlast frontier) tiles'))"
  by pat_completeness auto
termination
  by (relation "measure (\<lambda>(sha, n, level, h, frontier, tiles). length frontier)") auto

declare carry_loop.simps [simp del]

fun add_entries ::
    "hash_fun \<Rightarrow> nat \<Rightarrow> (nat \<times> hash) list \<Rightarrow> tile_hashes \<Rightarrow> bytes list \<Rightarrow> nat \<times> (nat \<times> hash) list \<times> tile_hashes" where
  "add_entries sha n frontier tiles [] = (n, frontier, tiles)"
| "add_entries sha n frontier tiles (entry # entries) =
     (let h = leaf_hash sha entry;
          tiles' = entry_append (0, n div TILE_WIDTH) [h] tiles;
          (frontier'', tiles'') = carry_loop sha (n + 1) 0 h frontier tiles'
      in add_entries sha (n + 1) frontier'' tiles'' entries)"

text \<open>The loop that writes the hash tiles: \<open>n\<close> is the size before the batch.\<close>

fun write_tiles :: "'s tile_ops \<Rightarrow> nat \<Rightarrow> 's \<Rightarrow> tile_hashes \<Rightarrow> (tr_error + unit) \<times> 's" where
  "write_tiles ops n s [] = (Inr (), s)"
| "write_tiles ops n s (((tile_level, tile), new) # rest) =
     (let stored = n div 2 ^ (tile_level * TILE_HEIGHT);
          committed = stored - tile * TILE_WIDTH in
      case (if committed > 0 then read_hash_tile ops s tile_level tile committed else Inr []) of
        Inl e \<Rightarrow> (Inl e, s)
      | Inr old \<Rightarrow>
          (let bs = old @ concat new; width = length bs div 32 in
           case t_put ops s (hash_tile_path tile_level tile width) bs of
             (Inl e, s') \<Rightarrow> (Inl e, s')
           | (Inr _, s') \<Rightarrow> write_tiles ops n s' rest))"

definition u16_be_bytes :: "nat \<Rightarrow> bytes" where
  "u16_be_bytes n = [word_of_nat (n div 256 mod 256), word_of_nat (n mod 256)]"

definition u16_value :: "byte \<Rightarrow> byte \<Rightarrow> nat" where
  "u16_value a b = unat a * 256 + unat b"

function count_loop :: "bytes \<Rightarrow> nat \<Rightarrow> tr_error + nat" where
  "count_loop [] count = Inr count"
| "count_loop [a] count = Inl (CorruptTile ''entry bundle'')"
| "count_loop (a # b # tail) count =
     (let len = u16_value a b in
      if length tail < len then Inl (CorruptTile ''entry bundle'')
      else count_loop (drop len tail) (count + 1))"
  by pat_completeness auto
termination
  by (relation "measure (length \<circ> fst)") auto

definition count_entries :: "bytes \<Rightarrow> tr_error + nat" where
  "count_entries bs = count_loop bs 0"

fun bundle_entries :: "nat \<Rightarrow> (nat, bytes) bmap \<Rightarrow> bytes list \<Rightarrow> (nat, bytes) bmap" where
  "bundle_entries position bundles [] = bundles"
| "bundle_entries position bundles (entry # entries) =
     bundle_entries (position + 1)
       (entry_append (position div TILE_WIDTH) (u16_be_bytes (length entry) @ entry) bundles) entries"

fun write_bundles :: "'s tile_ops \<Rightarrow> nat \<Rightarrow> 's \<Rightarrow> (nat, bytes) bmap \<Rightarrow> (tr_error + unit) \<times> 's" where
  "write_bundles ops n s [] = (Inr (), s)"
| "write_bundles ops n s ((bundle, new) # rest) =
     (let committed = n - bundle * TILE_WIDTH in
      case bind_res (if committed > 0 then read_object ops s (entry_bundle_path bundle committed) else Inr []) (\<lambda>old.
           bind_res (count_entries old) (\<lambda>before.
           bind_res (count_entries (old @ new)) (\<lambda>width. Inr (old @ new, width)))) of
        Inl e \<Rightarrow> (Inl e, s)
      | Inr (bs, width) \<Rightarrow>
          (case t_put ops s (entry_bundle_path bundle width) bs of
             (Inl e, s') \<Rightarrow> (Inl e, s')
           | (Inr _, s') \<Rightarrow> write_bundles ops n s' rest))"

definition append_batch ::
    "hash_fun \<Rightarrow> 's tile_ops \<Rightarrow> 's tile_log \<Rightarrow> bytes list \<Rightarrow> (tr_error + nat) \<times> 's tile_log" where
  "append_batch sha ops log entries =
     (let n = tl_size log in
      if entries = [] then (Inr n, log)
      else
        (case find (\<lambda>e. length e > 65535) entries of
           Some entry \<Rightarrow> (Inl (EntryTooLarge (length entry)), log)
         | None \<Rightarrow>
             (let (n', frontier, tiles) = add_entries sha n (tl_frontier log) [] entries in
              case write_tiles ops n (tl_store log) tiles of
                (Inl e, s) \<Rightarrow> (Inl e, log\<lparr>tl_store := s\<rparr>)
              | (Inr _, s) \<Rightarrow>
                  (case write_bundles ops n s (bundle_entries n [] entries) of
                     (Inl e, s) \<Rightarrow> (Inl e, log\<lparr>tl_store := s\<rparr>)
                   | (Inr _, s) \<Rightarrow>
                       (case t_set_size ops s n' of
                          (Inl e, s) \<Rightarrow> (Inl e, log\<lparr>tl_store := s\<rparr>)
                        | (Inr _, s) \<Rightarrow> (Inr n, \<lparr>tl_store = s, tl_size = n', tl_frontier = frontier\<rparr>))))))"

text \<open>The walk of \<^verbatim>\<open>entry\<close> to the entry at position \<open>k\<close> of a bundle.\<close>

fun nth_entry :: "string \<Rightarrow> nat \<Rightarrow> bytes \<Rightarrow> tr_error + bytes" where
  "nth_entry path k (a # b # tail) =
     (let len = u16_value a b in
      if length tail < len then Inl (CorruptTile path)
      else (case k of 0 \<Rightarrow> Inr (take len tail) | Suc k' \<Rightarrow> nth_entry path k' (drop len tail)))"
| "nth_entry path k _ = Inl (CorruptTile path)"

definition tile_entry :: "'s tile_ops \<Rightarrow> 's tile_log \<Rightarrow> nat \<Rightarrow> tr_error + bytes" where
  "tile_entry ops log index =
     (if index \<ge> tl_size log then Inl (IndexOutOfRange index (tl_size log))
      else
        (let bundle = index div TILE_WIDTH;
             width = min (tl_size log - bundle * TILE_WIDTH) TILE_WIDTH;
             path = entry_bundle_path bundle width in
         bind_res (read_object ops (tl_store log) path) (\<lambda>bs. nth_entry path (index mod TILE_WIDTH) bs)))"

end
