(* ===== verification/Tile_Tree.thy ===== *)
theory Tile_Tree
  imports Tiles
begin

text \<open>
  The tree side of the tile log: the nodes of each level over a list of leaves, the frontier that
  \<^verbatim>\<open>append_batch\<close> carries along, and the hashes it emits for the stored levels. Nothing here touches a store.
\<close>

section \<open>Nodes by level\<close>

definition nodes :: "hash_fun \<Rightarrow> nat \<Rightarrow> hash list \<Rightarrow> hash list" where
  "nodes sha l L = (full_pairs sha ^^ l) L"

lemma nodes_0 [simp]: "nodes sha 0 L = L"
  by (simp add: nodes_def)

lemma nodes_Suc: "nodes sha (Suc l) L = nodes sha l (full_pairs sha L)"
  by (simp add: nodes_def funpow_Suc_right del: funpow.simps)

lemma nodes_Nil [simp]: "nodes sha l [] = []"
  by (induction l) (simp_all add: nodes_Suc)

lemma length_nodes [simp]: "length (nodes sha l L) = length L div 2 ^ l"
  by (induction l arbitrary: L) (simp_all add: nodes_Suc div_mult2_eq [symmetric] mult.commute)

lemma mth_full_pairs: "even (length M) \<Longrightarrow> mth sha (full_pairs sha M) = mth sha M"
  using mth_pair_up [of sha M] by (simp add: full_pairs_prefix)

lemma full_pairs_slice:
  assumes "j + k \<le> length L div 2"
  shows "take k (drop j (full_pairs sha L)) = full_pairs sha (take (2 * k) (drop (2 * j) L))"
proof -
  have "take k (drop j (full_pairs sha L)) = take k (drop j (pair_up sha L))"
    using assms by (simp add: full_pairs_prefix drop_take min_absorb1)
  also have "\<dots> = pair_up sha (take (2 * k) (drop (2 * j) L))" by (simp only: pair_up_take_drop)
  also have "\<dots> = full_pairs sha (take (2 * k) (drop (2 * j) L))" using assms by (simp add: full_pairs_prefix)
  finally show ?thesis .
qed

lemma nodes_slice_mth:
  "j + k \<le> length L div 2 ^ l \<Longrightarrow>
     mth sha (take k (drop j (nodes sha l L))) = mth sha (take (k * 2 ^ l) (drop (j * 2 ^ l) L))"
proof (induction l arbitrary: L)
  case (Suc l)
  have le: "j + k \<le> length (full_pairs sha L) div 2 ^ l" using Suc.prems by (simp add: div_mult2_eq)
  then have "(j + k) * 2 ^ l \<le> length (full_pairs sha L)"
    by (metis le_trans div_times_less_eq_dividend mult_le_mono1)
  then have "j * 2 ^ l + k * 2 ^ l \<le> length L div 2" by (simp add: add_mult_distrib)
  from full_pairs_slice [OF this, of sha] Suc.IH [OF le]
  have "mth sha (take k (drop j (nodes sha (Suc l) L)))
      = mth sha (full_pairs sha (take (2 * (k * 2 ^ l)) (drop (2 * (j * 2 ^ l)) L)))"
    by (simp add: nodes_Suc)
  also have "\<dots> = mth sha (take (2 * (k * 2 ^ l)) (drop (2 * (j * 2 ^ l)) L))"
    using \<open>j * 2 ^ l + k * 2 ^ l \<le> length L div 2\<close> by (intro mth_full_pairs) simp
  finally show ?case by (simp add: mult.left_commute)
qed simp

lemma nodes_nth_mth: "i < length L div 2 ^ l \<Longrightarrow> nodes sha l L ! i = mth sha (take (2 ^ l) (drop (i * 2 ^ l) L))"
  using nodes_slice_mth [of i 1 L l sha] by (simp add: take_Suc_conv_app_nth Cons_nth_drop_Suc [symmetric])

lemma nodes_prefix: "p < length L div 2 ^ l \<Longrightarrow> nodes sha l (L @ M) ! p = nodes sha l L ! p"
proof -
  assume p: "p < length L div 2 ^ l"
  then have "p < length (L @ M) div 2 ^ l" by (metis length_append div_le_mono le_add1 less_le_trans)
  moreover have "(p + 1) * 2 ^ l \<le> length L"
    using p by (metis Suc_eq_plus1 Suc_leI div_times_less_eq_dividend le_trans mult_le_mono1)
  then have "p * 2 ^ l + 2 ^ l \<le> length L" by simp
  ultimately show ?thesis using p by (simp add: nodes_nth_mth)
qed

lemma reduce_nodes_mth: "length M = 2 ^ k \<Longrightarrow> reduce_nodes sha M = [mth sha M]"
proof (induction k arbitrary: M)
  case 0
  then obtain x where "M = [x]" by (auto simp: length_Suc_conv)
  then show ?case by (subst reduce_nodes.simps) simp
next
  case (Suc k)
  then have "reduce_nodes sha (full_pairs sha M) = [mth sha (full_pairs sha M)]" by simp
  moreover have "length M = 2 * 2 ^ k" "(1::nat) \<le> 2 ^ k" using Suc.prems by simp_all
  then have "\<not> length M \<le> 1" by linarith
  ultimately show ?case using Suc.prems by (subst reduce_nodes.simps) (simp add: mth_full_pairs)
qed

section \<open>The frontier\<close>

function frontier_from :: "hash_fun \<Rightarrow> nat \<Rightarrow> hash list \<Rightarrow> (nat \<times> hash) list" where
  "frontier_from sha l M =
     (if M = [] then []
      else frontier_from sha (Suc l) (full_pairs sha M) @ (if odd (length M) then [(l, last M)] else []))"
  by pat_completeness auto
termination
  by (relation "measure (\<lambda>(sha, l, M). length M)") (auto simp: div_less_dividend)

declare frontier_from.simps [simp del]

lemma frontier_from_simps [simp]:
  "frontier_from sha l [] = []"
  "M \<noteq> [] \<Longrightarrow> frontier_from sha l M =
     frontier_from sha (Suc l) (full_pairs sha M) @ (if odd (length M) then [(l, last M)] else [])"
  by (simp_all add: frontier_from.simps)

lemma frontier_from_levels: "(l', h) \<in> set (frontier_from sha l M) \<Longrightarrow> l \<le> l'"
proof (induction sha l M rule: frontier_from.induct)
  case (1 sha l M)
  then show ?case by (cases "M = []") (fastforce split: if_splits)+
qed

lemma reduce_frontier:
  "reduce_right sha right (rev (map snd (frontier_from sha l M))) = mth sha (M @ [right])"
proof (induction sha l M arbitrary: right rule: frontier_from.induct)
  case (1 sha l M)
  show ?case
  proof (cases "M = []")
    case False
    have "mth sha (M @ [right]) = mth sha (pair_up sha (M @ [right]))" by (simp add: mth_pair_up)
    also have "pair_up sha (M @ [right]) = full_pairs sha M @ [if odd (length M) then node_hash sha (last M) right else right]"
    proof (cases "odd (length M)")
      case True
      then show ?thesis using full_pairs_snoc [of sha M right] full_pairs_prefix [of sha "M @ [right]"] by simp
    next
      case even: False
      then show ?thesis using pair_up_append [of M sha "[right]"] full_pairs_prefix [of sha M] by simp
    qed
    finally show ?thesis using False 1 by (auto simp del: rev_map)
  qed simp
qed

lemma frontier_root:
  "(case rev (map snd (frontier_from sha l M)) of [] \<Rightarrow> empty_root sha | h # rest \<Rightarrow> reduce_right sha h rest) = mth sha M"
proof (induction sha l M rule: frontier_from.induct)
  case (1 sha l M)
  show ?case
  proof (cases "M = []")
    case False
    show ?thesis
    proof (cases "odd (length M)")
      case True
      have "reduce_right sha (last M) (rev (map snd (frontier_from sha (Suc l) (full_pairs sha M)))) = mth sha (full_pairs sha M @ [last M])"
        by (rule reduce_frontier)
      also have "full_pairs sha M @ [last M] = pair_up sha M"
      proof -
        have "take (length M div 2) (pair_up sha M) @ [pair_up sha M ! (length M div 2)] = pair_up sha M"
          using True take_Suc_conv_app_nth [of "length M div 2" "pair_up sha M"] by (simp add: odd_Suc_div_two)
        then show ?thesis using pair_up_last [OF True, of sha] by (simp add: full_pairs_prefix)
      qed
      finally show ?thesis using False True by (simp add: mth_pair_up)
    next
      case even: False
      then show ?thesis using False 1 by (simp add: mth_full_pairs)
    qed
  qed simp
qed

section \<open>Emitted hashes\<close>

text \<open>The hashes that the carry loop stores when \<open>h\<close> is appended behind the nodes \<open>M\<close> of level \<open>l\<close>: tile level,
  position in that level and hash.\<close>

function emits :: "hash_fun \<Rightarrow> nat \<Rightarrow> hash list \<Rightarrow> hash \<Rightarrow> ((nat \<times> nat) \<times> hash) list" where
  "emits sha l M h =
     (if odd (length M) then
        (let h' = node_hash sha (last M) h in
         (if Suc l mod TILE_HEIGHT = 0 then [((Suc l div TILE_HEIGHT, length M div 2), h')] else [])
         @ emits sha (Suc l) (full_pairs sha M) h')
      else [])"
  by pat_completeness auto
termination
  by (relation "measure (\<lambda>(sha, l, M, h). length M)") (auto elim!: oddE)

declare emits.simps [simp del]

definition store_emit :: "(nat \<times> nat) \<times> hash \<Rightarrow> tile_hashes \<Rightarrow> tile_hashes" where
  "store_emit e tiles = entry_append (fst (fst e), snd (fst e) div TILE_WIDTH) [snd e] tiles"

lemma carry_loop_emits:
  "n div 2 ^ l = length M + 1 \<Longrightarrow>
     carry_loop sha n l h (frontier_from sha l M) tiles
       = (frontier_from sha l (M @ [h]), fold store_emit (emits sha l M h) tiles)"
proof (induction sha l M h arbitrary: tiles rule: emits.induct)
  case (1 sha l M h)
  show ?case
  proof (cases "odd (length M)")
    case True
    let ?h = "node_hash sha (last M) h"
    have ne: "M \<noteq> []" using True by auto
    have up: "n div 2 ^ Suc l = length (full_pairs sha M) + 1"
      using 1 (2) True by (simp add: div_mult2_eq mult.commute [of 2] odd_Suc_div_two)
    have F: "frontier_from sha l M = frontier_from sha (Suc l) (full_pairs sha M) @ [(l, last M)]" using ne True by simp
    have "n div 2 ^ Suc l - 1 = length M div 2" using up by simp
    then have "carry_loop sha n l h (frontier_from sha l M) tiles
        = carry_loop sha n (Suc l) ?h (frontier_from sha (Suc l) (full_pairs sha M))
            (fold store_emit (if Suc l mod TILE_HEIGHT = 0 then [((Suc l div TILE_HEIGHT, length M div 2), ?h)] else []) tiles)"
      unfolding F by (subst carry_loop.simps) (simp add: Let_def store_emit_def del: power_Suc)
    also have "\<dots> = (frontier_from sha (Suc l) (full_pairs sha M @ [?h]), fold store_emit (emits sha l M h) tiles)"
      using 1 (1) [OF True refl up] True by (subst emits.simps) (simp add: Let_def)
    also have "frontier_from sha (Suc l) (full_pairs sha M @ [?h]) = frontier_from sha l (M @ [h])"
      using True by (simp add: full_pairs_snoc)
    finally show ?thesis .
  next
    case False
    have "frontier_from sha l M = frontier_from sha (Suc l) (full_pairs sha M)" using False by (cases "M = []") auto
    moreover have "fst (last (frontier_from sha (Suc l) (full_pairs sha M))) \<noteq> l"
      if "frontier_from sha (Suc l) (full_pairs sha M) \<noteq> []"
      using frontier_from_levels [of "fst (last (frontier_from sha (Suc l) (full_pairs sha M)))"
          "snd (last (frontier_from sha (Suc l) (full_pairs sha M)))" sha "Suc l" "full_pairs sha M"] last_in_set [OF that]
      by auto
    ultimately have "carry_loop sha n l h (frontier_from sha l M) tiles
        = (frontier_from sha (Suc l) (full_pairs sha M) @ [(l, h)], tiles)"
      by (subst carry_loop.simps) auto
    then show ?thesis using False by (simp add: full_pairs_snoc emits.simps)
  qed
qed

definition entry_emits :: "hash_fun \<Rightarrow> hash list \<Rightarrow> hash \<Rightarrow> ((nat \<times> nat) \<times> hash) list" where
  "entry_emits sha L h = ((0, length L), h) # emits sha 0 L h"

fun batch_emits :: "hash_fun \<Rightarrow> hash list \<Rightarrow> hash list \<Rightarrow> ((nat \<times> nat) \<times> hash) list" where
  "batch_emits sha L [] = []"
| "batch_emits sha L (h # hs) = entry_emits sha L h @ batch_emits sha (L @ [h]) hs"

lemma add_entries_emits:
  "add_entries sha (length L) (frontier_from sha 0 L) tiles entries
     = (length L + length entries, frontier_from sha 0 (L @ map (leaf_hash sha) entries),
        fold store_emit (batch_emits sha L (map (leaf_hash sha) entries)) tiles)"
proof (induction entries arbitrary: L tiles)
  case (Cons e entries)
  have "carry_loop sha (length L + 1) 0 (leaf_hash sha e) (frontier_from sha 0 L) T
      = (frontier_from sha 0 (L @ [leaf_hash sha e]), fold store_emit (emits sha 0 L (leaf_hash sha e)) T)" for T
    by (rule carry_loop_emits) simp
  moreover have "store_emit ((0, length L), leaf_hash sha e) tiles = entry_append (0, length L div TILE_WIDTH) [leaf_hash sha e] tiles"
    by (simp add: store_emit_def)
  ultimately show ?case using Cons.IH [of "L @ [leaf_hash sha e]"]
    by (simp add: Let_def entry_emits_def del: frontier_from_simps)
qed simp

text \<open>The emitted hashes of one tile level are the nodes that the batch adds to that level, in order.\<close>

definition at_level :: "nat \<Rightarrow> ((nat \<times> nat) \<times> hash) list \<Rightarrow> (nat \<times> hash) list" where
  "at_level t es = map (\<lambda>e. (snd (fst e), snd e)) (filter (\<lambda>e. fst (fst e) = t) es)"

definition added :: "nat \<Rightarrow> hash list \<Rightarrow> (nat \<times> hash) list" where
  "added c N = map (\<lambda>p. (p, N ! p)) [c..<length N]"

lemma at_level_append [simp]: "at_level t (xs @ ys) = at_level t xs @ at_level t ys"
  by (simp add: at_level_def)

lemma at_level_emits_low: "t * TILE_HEIGHT \<le> l \<Longrightarrow> at_level t (emits sha l M h) = []"
proof (induction sha l M h rule: emits.induct)
  case (1 sha l M h)
  then show ?case by (subst emits.simps) (auto simp: at_level_def Let_def TILE_HEIGHT_def)
qed

lemma at_level_emits:
  "t * TILE_HEIGHT = l + Suc k \<Longrightarrow>
     at_level t (emits sha l M h) = added (length (nodes sha (Suc k) M)) (nodes sha (Suc k) (M @ [h]))"
proof (induction sha l M h arbitrary: k rule: emits.induct)
  case (1 sha l M h)
  show ?case
  proof (cases "odd (length M)")
    case True
    let ?h = "node_hash sha (last M) h" and ?U = "full_pairs sha M"
    have up: "nodes sha (Suc j) (M @ [h]) = nodes sha j (?U @ [?h])" for j using True by (simp add: nodes_Suc full_pairs_snoc)
    show ?thesis
    proof (cases k)
      case 0
      have "Suc l = t * TILE_HEIGHT" using 1 (2) 0 by simp
      then have "Suc l mod TILE_HEIGHT = 0" "Suc l div TILE_HEIGHT = t" by (simp_all add: TILE_HEIGHT_def)
      then have "at_level t (emits sha l M h) = [(length M div 2, ?h)]"
        using True 0 1 (2) at_level_emits_low [of t "Suc l" sha ?U ?h]
        by (subst emits.simps) (simp add: at_level_def Let_def)
      then show ?thesis using 0 up [of 0] by (simp add: added_def nodes_Suc nth_append)
    next
      case (Suc j)
      have "at_level t (emits sha l M h) = at_level t (emits sha (Suc l) ?U ?h)"
        using True 1 (2) Suc by (subst emits.simps) (auto simp: at_level_def Let_def TILE_HEIGHT_def)
      also have "\<dots> = added (length (nodes sha (Suc j) ?U)) (nodes sha (Suc j) (?U @ [?h]))"
        using 1 (1) [OF True refl, of j] 1 (2) Suc by simp
      finally show ?thesis unfolding Suc up [of "Suc j"] by (simp only: nodes_Suc)
    qed
  next
    case False
    then have "nodes sha (Suc k) (M @ [h]) = nodes sha (Suc k) M" by (simp add: nodes_Suc full_pairs_snoc)
    then show ?thesis using False by (subst emits.simps) (simp add: at_level_def added_def)
  qed
qed

lemma at_level_entry:
  "at_level t (entry_emits sha L h) = added (length (nodes sha (t * TILE_HEIGHT) L)) (nodes sha (t * TILE_HEIGHT) (L @ [h]))"
proof (cases t)
  case 0
  then show ?thesis using at_level_emits_low [of 0 0 sha L h]
    by (simp add: entry_emits_def at_level_def added_def nth_append)
next
  case (Suc s)
  then obtain k where "t * TILE_HEIGHT = 0 + Suc k" by (auto simp: TILE_HEIGHT_def)
  then show ?thesis using at_level_emits [of t 0 k sha L h] Suc by (simp add: entry_emits_def at_level_def)
qed

lemma added_append:
  assumes "c \<le> length M" and "length M \<le> length N" and "\<And>p. p < length M \<Longrightarrow> N ! p = M ! p"
  shows "added c M @ added (length M) N = added c N"
proof -
  have "map (\<lambda>p. (p, M ! p)) [c..<length M] = map (\<lambda>p. (p, N ! p)) [c..<length M]" using assms(3) by simp
  moreover have "[c..<length N] = [c..<length M] @ [length M..<length N]"
    using assms(1,2) by (metis le_Suc_ex upt_add_eq_append)
  ultimately show ?thesis by (simp add: added_def)
qed

lemma at_level_batch:
  "at_level t (batch_emits sha L hs)
     = added (length (nodes sha (t * TILE_HEIGHT) L)) (nodes sha (t * TILE_HEIGHT) (L @ hs))"
proof (induction hs arbitrary: L)
  case Nil
  then show ?case by (simp add: at_level_def added_def)
next
  case (Cons h hs)
  let ?n = "\<lambda>L. nodes sha (t * TILE_HEIGHT) L"
  have "added (length (?n L)) (?n (L @ [h])) @ added (length (?n (L @ [h]))) (?n (L @ [h] @ hs)) = added (length (?n L)) (?n (L @ [h] @ hs))"
  proof (rule added_append)
    show "?n (L @ [h] @ hs) ! p = ?n (L @ [h]) ! p" if "p < length (?n (L @ [h]))" for p
      using that nodes_prefix [of p "L @ [h]" "t * TILE_HEIGHT" sha hs] by simp
  qed (simp_all add: div_le_mono)
  then show ?case using Cons.IH [of "L @ [h]"] at_level_entry [of t sha L h] by simp
qed

end
