(* ===== verification/Tile_Store.thy ===== *)
theory Tile_Store
  imports Tile_Tree
begin

text \<open>
  The storage side of the tile log. Hash tiles and entry bundles are two families of objects cut from growing
  lists, 256 elements each, under paths that determine family, tile and width (\<open>fpath_inject\<close>). A batch only
  ever creates objects at paths that the committed tree does not use, which is why a crash in the middle
  leaves the committed tree readable.
\<close>

section \<open>Paths are unambiguous\<close>

lemma takeWhile_stop: "(\<And>x. x \<in> set a \<Longrightarrow> P x) \<Longrightarrow> \<not> P c \<Longrightarrow> takeWhile P (a @ c # b) = a"
  by (induction a) auto

lemma groups3_concat: "length s mod 3 = 0 \<Longrightarrow> concat (groups3 s) = s"
  by (induction s rule: groups3.induct) simp_all

lemma join_Cons: "ys \<noteq> [] \<Longrightarrow> join sep (x # ys) = x @ sep @ join sep ys"
  by (cases ys) auto

lemma mark_groups_simps [simp]:
  "mark_groups [] = []" "mark_groups [g] = [g]" "mark_groups (g # h # gs) = (CHR ''x'' # g) # mark_groups (h # gs)"
  by (simp_all add: mark_groups_def)

lemma mark_groups_nonempty: "gs \<noteq> [] \<Longrightarrow> mark_groups gs \<noteq> []"
  by (simp add: mark_groups_def)

lemma filter_marked:
  "list_all (list_all is_dec_digit) gs \<Longrightarrow> filter is_dec_digit (join ''/'' (mark_groups gs)) = concat gs"
proof (induction gs)
  case (Cons g gs)
  have g: "filter is_dec_digit g = g" using Cons.prems by (auto simp: filter_id_conv list_all_iff)
  have "\<not> is_dec_digit CHR ''x''" "\<not> is_dec_digit CHR ''/''" by (simp_all add: is_dec_digit_iff)
  then show ?case
    using Cons g by (cases gs) (simp_all add: join_Cons mark_groups_nonempty)
qed simp

lemma marked_chars:
  "list_all (list_all is_dec_digit) gs \<Longrightarrow> list_all (\<lambda>c. is_dec_digit c \<or> c = CHR ''x'' \<or> c = CHR ''/'') (join ''/'' (mark_groups gs))"
proof (induction gs)
  case (Cons g gs)
  have "list_all (\<lambda>c. is_dec_digit c \<or> c = CHR ''x'' \<or> c = CHR ''/'') g"
    using Cons.prems by (auto simp: list_all_iff)
  then show ?case using Cons by (cases gs) (simp_all add: join_Cons mark_groups_nonempty)
qed simp

definition padded_digits :: "nat \<Rightarrow> string" where
  "padded_digits i = replicate ((3 - length (dec_nat i) mod 3) mod 3) CHR ''0'' @ dec_nat i"

lemma padded_groups:
  "concat (groups3 (padded_digits i)) = padded_digits i" "list_all (list_all is_dec_digit) (groups3 (padded_digits i))"
proof -
  have "((3 - m mod 3) mod 3 + m) mod 3 = 0" for m :: nat
  proof -
    have "m mod 3 = 0 \<or> m mod 3 = 1 \<or> m mod 3 = 2" using mod_less_divisor [of 3 m] by linarith
    then have "((3 - m mod 3) mod 3 + m mod 3) mod 3 = 0" by (elim disjE) simp_all
    then show ?thesis by (simp only: mod_add_right_eq)
  qed
  then show eq: "concat (groups3 (padded_digits i)) = padded_digits i"
    by (intro groups3_concat) (simp only: padded_digits_def length_append length_replicate)
  have "is_dec_digit c" if "c \<in> set (padded_digits i)" for c
    using that dec_nat_digits by (auto simp: padded_digits_def is_dec_digit_iff)
  then have "list_all is_dec_digit (concat (groups3 (padded_digits i)))" unfolding eq by (simp add: list_all_iff)
  then show "list_all (list_all is_dec_digit) (groups3 (padded_digits i))" by (auto simp: list_all_iff)
qed

lemma tile_index_path_groups: "tile_index_path i = join ''/'' (mark_groups (groups3 (padded_digits i)))"
  by (simp add: tile_index_path_def padded_digits_def Let_def)

lemma tile_index_path_value: "dec_value (filter is_dec_digit (tile_index_path i)) = i"
  using filter_marked [OF padded_groups(2)]
  by (simp add: tile_index_path_groups padded_groups(1)) (simp add: padded_digits_def dec_value_zeros dec_value_dec_nat)

lemma tile_index_path_inject [simp]: "tile_index_path i = tile_index_path j \<longleftrightarrow> i = j"
  by (metis tile_index_path_value)

lemma tile_index_path_chars: "c \<in> set (tile_index_path i) \<Longrightarrow> c \<noteq> CHR ''.''"
  using marked_chars [OF padded_groups(2), of i]
  by (auto simp: tile_index_path_groups list_all_iff is_dec_digit_iff)

lemma with_width_inject:
  assumes "CHR ''.'' \<notin> set a" and "CHR ''.'' \<notin> set b" and "with_width a w = with_width b v"
  shows "a = b \<and> w = v"
proof -
  have cut: "takeWhile (\<lambda>c. c \<noteq> CHR ''.'') (with_width x w) = x" if "CHR ''.'' \<notin> set x" for x w
    using that by (auto simp: with_width_def intro!: takeWhile_stop takeWhile_eq_all_conv [THEN iffD2])
  have "a = b" using cut [OF assms(1), of w] cut [OF assms(2), of v] assms(3) by simp
  then show ?thesis using assms(3) by (auto simp: with_width_def split: if_splits)
qed

text \<open>Both families: hash tiles by level, and entry bundles.\<close>

fun fpath :: "nat option \<Rightarrow> nat \<Rightarrow> nat \<Rightarrow> string" where
  "fpath (Some t) i w = hash_tile_path t i w"
| "fpath None i w = entry_bundle_path i w"

fun fdir :: "nat option \<Rightarrow> string" where
  "fdir (Some t) = dec_nat t"
| "fdir None = ''entries''"

lemma fdir_chars: "c \<in> set (fdir f) \<Longrightarrow> c \<noteq> CHR ''.'' \<and> c \<noteq> CHR ''/''"
  by (cases f) (auto dest!: dec_nat_digits simp: is_dec_digit_iff)

lemma fdir_inject: "fdir f = fdir g \<Longrightarrow> f = g"
proof (cases f; cases g)
  have no: "dec_nat t \<noteq> ''entries''" for t
    using dec_nat_digits [of "hd (dec_nat t)" t] by (auto simp: is_dec_digit_iff)
  then show "f = g" if "fdir f = fdir g" "f = Some t" "g = None" for t using that by simp
  show "f = g" if "fdir f = fdir g" "f = None" "g = Some t" for t using that no [of t] by (metis fdir.simps)
qed auto

lemma fpath_dir: "fpath f i w = with_width (''tile/'' @ fdir f @ ''/'' @ tile_index_path i) w"
  by (cases f) (simp_all add: hash_tile_path_def entry_bundle_path_def)

lemma fpath_inject [simp]: "fpath f i w = fpath g j v \<longleftrightarrow> f = g \<and> i = j \<and> w = v"
proof
  assume eq: "fpath f i w = fpath g j v"
  have dot: "CHR ''.'' \<notin> set (''tile/'' @ fdir f @ ''/'' @ tile_index_path i)" for f i
    using fdir_chars [of "CHR ''.''" f] tile_index_path_chars [of "CHR ''.''" i] by auto
  from with_width_inject [OF dot dot] eq
  have body: "fdir f @ ''/'' @ tile_index_path i = fdir g @ ''/'' @ tile_index_path j" and w: "w = v"
    unfolding fpath_dir by auto
  have "takeWhile (\<lambda>c. c \<noteq> CHR ''/'') (fdir f @ CHR ''/'' # r) = fdir f" for f r
    using fdir_chars by (intro takeWhile_stop) auto
  then have "fdir f = fdir g" using body by (metis append_Cons append_Nil)
  then show "f = g \<and> i = j \<and> w = v" using fdir_inject body w by auto
qed simp

section \<open>Tiles of a growing list\<close>

definition tile_of :: "bytes list \<Rightarrow> nat \<Rightarrow> bytes list" where
  "tile_of N i = take TILE_WIDTH (drop (i * TILE_WIDTH) N)"

lemma length_tile_of: "length (tile_of N i) = min (length N - i * TILE_WIDTH) TILE_WIDTH"
  by (simp add: tile_of_def min.commute)

text \<open>Every nonempty tile of every family is stored at the path of its present width.\<close>

definition store_ok :: "(nat option \<Rightarrow> bytes list) \<Rightarrow> (string \<Rightarrow> bytes option) \<Rightarrow> bool" where
  "store_ok N fs \<longleftrightarrow>
     (\<forall>f i. tile_of (N f) i \<noteq> [] \<longrightarrow> fs (fpath f i (length (tile_of (N f) i))) = Some (concat (tile_of (N f) i)))"

definition new_path :: "(nat option \<Rightarrow> bytes list) \<Rightarrow> nat option \<times> nat \<Rightarrow> string" where
  "new_path N k = fpath (fst k) (snd k) (length (tile_of (N (fst k)) (snd k)))"

definition grows :: "(nat option \<Rightarrow> bytes list) \<Rightarrow> (nat option \<Rightarrow> bytes list) \<Rightarrow> bool" where
  "grows N N' \<longleftrightarrow> (\<forall>f. \<exists>M. N' f = N f @ M)"

definition changed :: "(nat option \<Rightarrow> bytes list) \<Rightarrow> (nat option \<Rightarrow> bytes list) \<Rightarrow> (nat option \<times> nat) set" where
  "changed N N' = {(f, i). tile_of (N f) i \<noteq> tile_of (N' f) i}"

lemma tile_of_grows: "\<exists>xs. tile_of (N @ M) i = tile_of N i @ xs"
  by (simp add: tile_of_def)

lemma store_ok_keeps:
  assumes "store_ok N fs" and "grows N N'" and "K \<subseteq> changed N N'" and "\<And>p. p \<notin> new_path N' ` K \<Longrightarrow> fs' p = fs p"
  shows "store_ok N fs'"
  unfolding store_ok_def
proof (intro allI impI)
  fix f i assume ne: "tile_of (N f) i \<noteq> []"
  have "fpath f i (length (tile_of (N f) i)) \<notin> new_path N' ` K"
  proof
    assume "fpath f i (length (tile_of (N f) i)) \<in> new_path N' ` K"
    then have k: "(f, i) \<in> K" and len: "length (tile_of (N f) i) = length (tile_of (N' f) i)"
      by (auto simp: new_path_def)
    obtain M where "N' f = N f @ M" using assms(2) by (auto simp: grows_def)
    then obtain xs where "tile_of (N' f) i = tile_of (N f) i @ xs" using tile_of_grows [of "N f" M i] by auto
    then show False using k len assms(3) by (auto simp: changed_def)
  qed
  then show "fs' (fpath f i (length (tile_of (N f) i))) = Some (concat (tile_of (N f) i))"
    using assms(1,4) ne by (auto simp: store_ok_def)
qed

lemma store_ok_written:
  assumes "store_ok N fs"
    and "\<And>p. p \<notin> new_path N' ` changed N N' \<Longrightarrow> fs' p = fs p"
    and "\<And>f i. (f, i) \<in> changed N N' \<Longrightarrow> fs' (new_path N' (f, i)) = Some (concat (tile_of (N' f) i))"
  shows "store_ok N' fs'"
  unfolding store_ok_def
proof (intro allI impI)
  fix f i assume ne: "tile_of (N' f) i \<noteq> []"
  show "fs' (fpath f i (length (tile_of (N' f) i))) = Some (concat (tile_of (N' f) i))"
  proof (cases "(f, i) \<in> changed N N'")
    case True
    then show ?thesis using assms(3) by (simp add: new_path_def)
  next
    case False
    then have "fpath f i (length (tile_of (N' f) i)) \<notin> new_path N' ` changed N N'" by (auto simp: new_path_def)
    then have "fs' (fpath f i (length (tile_of (N' f) i))) = fs (fpath f i (length (tile_of (N' f) i)))" by (rule assms(2))
    moreover have "tile_of (N f) i = tile_of (N' f) i" using False by (simp add: changed_def)
    moreover from this have "fs (fpath f i (length (tile_of (N f) i))) = Some (concat (tile_of (N f) i))"
      using assms(1) ne unfolding store_ok_def by metis
    ultimately show ?thesis by simp
  qed
qed

section \<open>Maps of pending writes\<close>

lemma bt_ok_entry_append [simp]: "bt_ok m \<Longrightarrow> bt_ok (entry_append k v m)"
  by (simp add: entry_append_def)

definition pending :: "'k \<Rightarrow> ('k \<times> 'v list) list \<Rightarrow> 'v list" where
  "pending k xs = concat (map snd (filter (\<lambda>p. fst p = k) xs))"

lemma fold_entry_append:
  assumes "\<And>p. p \<in> set xs \<Longrightarrow> snd p \<noteq> []"
  shows "bt_ok (fold (\<lambda>p. entry_append (fst p) (snd p)) xs [])
    \<and> bt_get (fold (\<lambda>p. entry_append (fst p) (snd p)) xs []) k = (if pending k xs = [] then None else Some (pending k xs))"
  using assms
proof (induction xs rule: rev_induct)
  case Nil
  then show ?case by (simp add: pending_def)
next
  case (snoc p xs)
  then show ?case by (auto simp: entry_append_def pending_def)
qed

lemma fold_entry_append_mem:
  assumes "\<And>p. p \<in> set xs \<Longrightarrow> snd p \<noteq> []"
  shows "(k, v) \<in> set (fold (\<lambda>p. entry_append (fst p) (snd p)) xs []) \<longleftrightarrow> v = pending k xs \<and> v \<noteq> []"
  using fold_entry_append [of xs k, OF assms] by (auto simp: bt_get_iff_mem [symmetric] split: if_splits)

lemma filter_upt_range: "filter (\<lambda>p. a \<le> p \<and> p < b) [c..<n] = [max c a..<min n b]"
proof (induction n)
  case (Suc n)
  then show ?case by (cases "c \<le> n"; cases "a \<le> n"; cases "n < b") (auto simp: min_def max_def le_Suc_eq)
qed simp

lemma map_nth_range: "b \<le> length N \<Longrightarrow> map ((!) N) [a..<b] = drop a (take b N)"
  by (rule nth_equalityI) auto

lemma added_tile:
  assumes "c \<le> length N"
  shows "map snd (filter (\<lambda>e. fst e div TILE_WIDTH = i) (added c N)) = drop (c - i * TILE_WIDTH) (tile_of N i)"
proof -
  let ?a = "i * TILE_WIDTH" and ?b = "i * TILE_WIDTH + TILE_WIDTH"
  have "p div TILE_WIDTH = i \<longleftrightarrow> ?a \<le> p \<and> p < ?b" for p
  proof -
    have "p div TILE_WIDTH = i \<longleftrightarrow> i \<le> p div TILE_WIDTH \<and> p div TILE_WIDTH < Suc i" by auto
    then show ?thesis
      by (simp add: TILE_WIDTH_def less_eq_div_iff_mult_less_eq div_less_iff_less_mult add.commute)
  qed
  then have "map snd (filter (\<lambda>e. fst e div TILE_WIDTH = i) (added c N)) = map ((!) N) (filter (\<lambda>p. ?a \<le> p \<and> p < ?b) [c..<length N])"
    by (simp add: added_def filter_map comp_def)
  also have "\<dots> = drop (max c ?a) (take (min (length N) ?b) N)" by (simp add: filter_upt_range map_nth_range)
  also have "take (min (length N) ?b) N = take ?b N" by (simp add: min_def)
  also have "drop (max c ?a) (take ?b N) = drop (c - ?a) (drop ?a (take ?b N))"
    by (simp add: max_def)
  also have "drop ?a (take ?b N) = take TILE_WIDTH (drop ?a N)" by (simp add: drop_take)
  finally show ?thesis by (simp add: tile_of_def)
qed

end
