(* ===== verification/Tile_Log.thy ===== *)
theory Tile_Log
  imports Tile_Store
begin

text \<open>
  The tile log against its store. The locale \<open>tile_store\<close> is the contract of the trait \<^verbatim>\<open>TileStore\<close>: any call may
  fail; a failed \<^verbatim>\<open>put\<close> leaves the object as it was or replaced, a failed \<^verbatim>\<open>set_size\<close> leaves the marker. Under that
  contract \<^verbatim>\<open>append_batch\<close> either commits the whole batch or leaves the committed log intact.
\<close>

section \<open>What a log of entries stores\<close>

definition enc :: "bytes \<Rightarrow> bytes" where
  "enc e = u16_be_bytes (length e) @ e"

fun family :: "hash_fun \<Rightarrow> bytes list \<Rightarrow> nat option \<Rightarrow> bytes list" where
  "family sha entries (Some t) = nodes sha (t * TILE_HEIGHT) (map (leaf_hash sha) entries)"
| "family sha entries None = map enc entries"

definition log_ok_for :: "hash_fun \<Rightarrow> bytes list \<Rightarrow> nat \<Rightarrow> (nat \<times> hash) list \<Rightarrow> (string \<Rightarrow> bytes option) \<Rightarrow> nat \<Rightarrow> bool" where
  "log_ok_for sha entries n frontier fs marker \<longleftrightarrow>
     n = length entries \<and> marker = length entries \<and> length entries < 2 ^ 64
     \<and> list_all (\<lambda>e. length e \<le> 65535) entries
     \<and> frontier = frontier_from sha 0 (map (leaf_hash sha) entries) \<and> store_ok (family sha entries) fs"

lemma nodes_append: "\<exists>M. nodes sha l (L @ hs) = nodes sha l L @ M"
proof
  let ?N = "nodes sha l L" and ?N' = "nodes sha l (L @ hs)"
  have "take (length ?N) ?N' = ?N"
    by (rule nth_equalityI) (simp_all add: div_le_mono min_absorb2 nodes_prefix)
  then show "?N' = ?N @ drop (length ?N) ?N'" by (metis append_take_drop_id)
qed

lemma family_grows: "grows (family sha entries) (family sha (entries @ batch))"
proof (unfold grows_def, intro allI)
  fix f show "\<exists>M. family sha (entries @ batch) f = family sha entries f @ M"
    by (cases f) (auto simp: nodes_append)
qed

lemma tile_of_prefix: "tile_of N i = take (length N - i * TILE_WIDTH) (tile_of (N @ M) i)"
proof -
  have "take (length N - i * TILE_WIDTH) (tile_of (N @ M) i) = take TILE_WIDTH (take (length N - i * TILE_WIDTH) (drop (i * TILE_WIDTH) (N @ M)))"
    by (simp only: tile_of_def take_take min.commute)
  also have "take (length N - i * TILE_WIDTH) (drop (i * TILE_WIDTH) (N @ M)) = drop (i * TILE_WIDTH) N" by simp
  finally show ?thesis by (simp add: tile_of_def)
qed

lemma tile_of_split: "N' = N @ M \<Longrightarrow> tile_of N' i = tile_of N i @ drop (length N - i * TILE_WIDTH) (tile_of N' i)"
  using tile_of_prefix [of N i M] by (metis append_take_drop_id)

section \<open>Pending writes of a batch\<close>

definition batch_tiles :: "hash_fun \<Rightarrow> bytes list \<Rightarrow> bytes list \<Rightarrow> tile_hashes" where
  "batch_tiles sha entries batch =
     fold store_emit (batch_emits sha (map (leaf_hash sha) entries) (map (leaf_hash sha) batch)) []"

definition emit_writes :: "hash_fun \<Rightarrow> bytes list \<Rightarrow> bytes list \<Rightarrow> ((nat \<times> nat) \<times> hash list) list" where
  "emit_writes sha entries batch =
     map (\<lambda>e. ((fst (fst e), snd (fst e) div TILE_WIDTH), [snd e]))
       (batch_emits sha (map (leaf_hash sha) entries) (map (leaf_hash sha) batch))"

lemma batch_tiles_fold: "batch_tiles sha entries batch = fold (\<lambda>p. entry_append (fst p) (snd p)) (emit_writes sha entries batch) []"
proof -
  have "store_emit = (\<lambda>e. entry_append (fst (fst e), snd (fst e) div TILE_WIDTH) [snd e])"
    by (simp add: fun_eq_iff store_emit_def)
  then show ?thesis by (simp add: batch_tiles_def emit_writes_def fold_map comp_def)
qed

lemma emit_writes_nonempty: "p \<in> set (emit_writes sha entries batch) \<Longrightarrow> snd p \<noteq> []"
  by (auto simp: emit_writes_def)

lemma batch_tiles_mem:
  "((t, i), new) \<in> set (batch_tiles sha entries batch) \<longleftrightarrow>
     new \<noteq> [] \<and> new = drop (length (family sha entries (Some t)) - i * TILE_WIDTH) (tile_of (family sha (entries @ batch) (Some t)) i)"
proof -
  let ?E = "batch_emits sha (map (leaf_hash sha) entries) (map (leaf_hash sha) batch)"
  have "pending (t, i) (map (\<lambda>e. ((fst (fst e), snd (fst e) div TILE_WIDTH), [snd e])) E)
      = map snd (filter (\<lambda>e. fst e div TILE_WIDTH = i) (at_level t E))" for E
    by (induction E) (auto simp: pending_def at_level_def)
  then have "pending (t, i) (emit_writes sha entries batch) = map snd (filter (\<lambda>e. fst e div TILE_WIDTH = i) (at_level t ?E))"
    by (simp add: emit_writes_def)
  also have "\<dots> = drop (length (family sha entries (Some t)) - i * TILE_WIDTH) (tile_of (family sha (entries @ batch) (Some t)) i)"
    unfolding at_level_batch by (subst added_tile) (simp_all add: div_le_mono)
  finally show ?thesis
    using fold_entry_append_mem [of "emit_writes sha entries batch" "(t, i)" new, OF emit_writes_nonempty]
    by (auto simp: batch_tiles_fold)
qed

lemma batch_tiles_distinct: "distinct (map fst (batch_tiles sha entries batch))"
  unfolding batch_tiles_fold
  by (rule bt_ok_distinct) (rule fold_entry_append [OF emit_writes_nonempty, THEN conjunct1])

lemma enc_nonempty [simp]: "enc e \<noteq> []"
  by (simp add: enc_def u16_be_bytes_def)

lemma added_Cons: "c < length N \<Longrightarrow> added c N = (c, N ! c) # added (Suc c) N"
  by (simp add: added_def upt_conv_Cons)

lemma bundle_entries_fold:
  "bundle_entries (length entries) m batch
     = fold (\<lambda>p. entry_append (fst p) (snd p))
         (map (\<lambda>e. (fst e div TILE_WIDTH, snd e)) (added (length entries) (map enc (entries @ batch)))) m"
proof (induction batch arbitrary: entries m)
  case Nil
  then show ?case by (simp add: added_def)
next
  case (Cons e batch)
  let ?N = "map enc (entries @ e # batch)"
  have "added (length entries) ?N = (length entries, enc e) # added (Suc (length entries)) ?N"
    using added_Cons [of "length entries" ?N] by (simp add: nth_append)
  then show ?case using Cons.IH [of "entries @ [e]"] by (simp add: enc_def [symmetric])
qed

lemma bundles_mem:
  "(i, v) \<in> set (bundle_entries (length entries) [] batch) \<longleftrightarrow>
     v \<noteq> [] \<and> v = concat (drop (length (family sha entries None) - i * TILE_WIDTH) (tile_of (family sha (entries @ batch) None) i))"
proof -
  let ?A = "added (length entries) (map enc (entries @ batch))"
  let ?xs = "map (\<lambda>e. (fst e div TILE_WIDTH, snd e)) ?A"
  have "\<And>p. p \<in> set ?xs \<Longrightarrow> snd p \<noteq> []" by (auto simp: added_def nth_append)
  from fold_entry_append_mem [of ?xs i v, OF this]
  have "(i, v) \<in> set (bundle_entries (length entries) [] batch) \<longleftrightarrow> v = pending i ?xs \<and> v \<noteq> []"
    by (simp only: bundle_entries_fold)
  moreover have "pending i ?xs = concat (map snd (filter (\<lambda>e. fst e div TILE_WIDTH = i) ?A))"
    by (simp add: pending_def filter_map comp_def)
  moreover have "\<dots> = concat (drop (length (family sha entries None) - i * TILE_WIDTH) (tile_of (family sha (entries @ batch) None) i))"
    by (subst added_tile) simp_all
  ultimately show ?thesis by auto
qed

lemma bundles_distinct: "distinct (map fst (bundle_entries (length (entries :: bytes list)) [] batch))"
proof -
  let ?xs = "map (\<lambda>e. (fst e div TILE_WIDTH, snd e)) (added (length entries) (map enc (entries @ batch)))"
  have "\<And>p. p \<in> set ?xs \<Longrightarrow> snd p \<noteq> []" by (auto simp: added_def nth_append)
  from fold_entry_append [OF this, THEN conjunct1] show ?thesis
    unfolding bundle_entries_fold by (rule bt_ok_distinct)
qed

section \<open>Entry bundles\<close>

lemma u16_round_trip: "n \<le> 65535 \<Longrightarrow> u16_be_bytes n = [a, b] \<Longrightarrow> u16_value a b = n"
proof -
  assume n: "n \<le> 65535" and eq: "u16_be_bytes n = [a, b]"
  have "unat (word_of_nat (n div 256 mod 256) :: byte) = n div 256 mod 256" "unat (word_of_nat (n mod 256) :: byte) = n mod 256"
    by (simp_all add: unat_of_nat take_bit_nat_def)
  moreover have "n div 256 mod 256 = n div 256" using n by simp
  ultimately show ?thesis using eq by (auto simp: u16_be_bytes_def u16_value_def)
qed

lemma enc_Cons: "length e \<le> 65535 \<Longrightarrow> \<exists>a b. enc e @ rest = a # b # e @ rest \<and> u16_value a b = length e"
  using u16_round_trip [of "length e"] by (auto simp: enc_def u16_be_bytes_def)

lemma count_loop_enc: "list_all (\<lambda>e. length e \<le> 65535) es \<Longrightarrow> count_loop (concat (map enc es)) c = Inr (c + length es)"
proof (induction es arbitrary: c)
  case (Cons e es)
  then obtain a b where "enc e @ concat (map enc es) = a # b # e @ concat (map enc es)" "u16_value a b = length e"
    using enc_Cons [of e "concat (map enc es)"] by auto
  then show ?case using Cons by simp
qed simp

lemma nth_entry_enc: "list_all (\<lambda>e. length e \<le> 65535) es \<Longrightarrow> k < length es \<Longrightarrow> nth_entry path k (concat (map enc es)) = Inr (es ! k)"
proof (induction es arbitrary: k)
  case (Cons e es)
  then obtain a b where "enc e @ concat (map enc es) = a # b # e @ concat (map enc es)" "u16_value a b = length e"
    using enc_Cons [of e "concat (map enc es)"] by auto
  then show ?case using Cons by (cases k) simp_all
qed simp

lemma count_entries_family:
  assumes "list_all (\<lambda>e. length e \<le> 65535) entries"
  shows "count_entries (concat (tile_of (family sha entries None) i)) = Inr (length (tile_of (family sha entries None) i))"
proof -
  have "tile_of (family sha entries None) i = map enc (take TILE_WIDTH (drop (i * TILE_WIDTH) entries))"
    by (simp add: tile_of_def take_map drop_map)
  moreover have "list_all (\<lambda>e. length e \<le> 65535) (take TILE_WIDTH (drop (i * TILE_WIDTH) entries))"
    using assms by (auto simp: list_all_iff dest: in_set_takeD in_set_dropD)
  ultimately show ?thesis using count_loop_enc [of _ 0] by (simp add: count_entries_def)
qed

lemma hashes_full_pairs: "(\<And>x. length (sha x) = 32) \<Longrightarrow> hashes (full_pairs sha L)"
  by (induction sha L rule: full_pairs.induct) (simp_all add: hashes_def node_hash_def)

lemma hashes_nodes: "(\<And>x. length (sha x) = 32) \<Longrightarrow> hashes L \<Longrightarrow> hashes (nodes sha l L)"
  by (induction l arbitrary: L) (simp_all add: nodes_Suc hashes_full_pairs)

lemma hashes_family: "(\<And>x. length (sha x) = 32) \<Longrightarrow> hashes (family sha entries (Some t))"
proof -
  assume sha: "\<And>x. length (sha x) = 32"
  then have "hashes (map (leaf_hash sha) entries)" by (simp add: hashes_def list_all_iff leaf_hash_def)
  with sha show ?thesis by (simp add: hashes_nodes)
qed

text \<open>The changed tiles are the pending ones.\<close>

definition tile_keys :: "tile_hashes \<Rightarrow> (nat option \<times> nat) set" where
  "tile_keys m = (\<lambda>e. (Some (fst (fst e)), snd (fst e))) ` set m"

definition bundle_keys :: "(nat, bytes) bmap \<Rightarrow> (nat option \<times> nat) set" where
  "bundle_keys m = (\<lambda>e. (None, fst e)) ` set m"

lemma family_split:
  "tile_of (family sha (entries @ batch) f) i = tile_of (family sha entries f) i
     @ drop (length (family sha entries f) - i * TILE_WIDTH) (tile_of (family sha (entries @ batch) f) i)"
proof -
  obtain M where "family sha (entries @ batch) f = family sha entries f @ M" using family_grows unfolding grows_def by blast
  then show ?thesis by (rule tile_of_split)
qed

lemma changed_iff:
  "(f, i) \<in> changed (family sha entries) (family sha (entries @ batch)) \<longleftrightarrow>
     drop (length (family sha entries f) - i * TILE_WIDTH) (tile_of (family sha (entries @ batch) f) i) \<noteq> []"
  unfolding changed_def using family_split [of sha entries batch f i] by (metis (mono_tags, lifting) append_self_conv case_prod_conv mem_Collect_eq)

lemma tile_keys_changed:
  "(Some t, i) \<in> tile_keys (batch_tiles sha entries batch) \<longleftrightarrow> (Some t, i) \<in> changed (family sha entries) (family sha (entries @ batch))"
proof -
  have "(Some t, i) \<in> tile_keys (batch_tiles sha entries batch) \<longleftrightarrow> (\<exists>new. ((t, i), new) \<in> set (batch_tiles sha entries batch))"
    by (force simp: tile_keys_def)
  then show ?thesis unfolding batch_tiles_mem changed_iff by blast
qed

lemma bundle_keys_changed:
  "(None, i) \<in> bundle_keys (bundle_entries (length entries) [] batch) \<longleftrightarrow> (None, i) \<in> changed (family sha entries) (family sha (entries @ batch))"
proof -
  let ?new = "drop (length (family sha entries None) - i * TILE_WIDTH) (tile_of (family sha (entries @ batch) None) i)"
  have "x \<noteq> []" if "x \<in> set ?new" for x
    using that enc_nonempty by (auto simp: tile_of_def simp del: enc_nonempty dest!: in_set_takeD in_set_dropD) (metis enc_nonempty)+
  then have "concat ?new \<noteq> [] \<longleftrightarrow> ?new \<noteq> []" by (cases ?new) auto
  moreover have "(None, i) \<in> bundle_keys (bundle_entries (length entries) [] batch) \<longleftrightarrow> (\<exists>v. (i, v) \<in> set (bundle_entries (length entries) [] batch))"
    by (force simp: bundle_keys_def)
  ultimately show ?thesis unfolding bundles_mem [where sha = sha] changed_iff by blast
qed

lemma keys_changed:
  "tile_keys (batch_tiles sha entries batch) \<union> bundle_keys (bundle_entries (length entries) [] batch)
     = changed (family sha entries) (family sha (entries @ batch))"
proof (intro set_eqI)
  fix k :: "nat option \<times> nat"
  obtain f i where k: "k = (f, i)" by fastforce
  have no: "(None, i) \<notin> tile_keys m" "(Some t, i) \<notin> bundle_keys m'" for t m m'
    by (auto simp: tile_keys_def bundle_keys_def)
  show "k \<in> tile_keys (batch_tiles sha entries batch) \<union> bundle_keys (bundle_entries (length entries) [] batch)
      \<longleftrightarrow> k \<in> changed (family sha entries) (family sha (entries @ batch))"
    unfolding k by (cases f) (simp_all add: no tile_keys_changed bundle_keys_changed)
qed

section \<open>The contract of a store\<close>

locale tile_store =
  fixes ops :: "'s tile_ops" and files :: "'s \<Rightarrow> string \<Rightarrow> bytes option" and marker :: "'s \<Rightarrow> nat"
  assumes get_law: "t_get ops s p = Inr v \<Longrightarrow> v = files s p"
    and put_ok: "t_put ops s p bs = (Inr u, s') \<Longrightarrow> files s' = (files s)(p := Some bs)"
    and put_failed: "t_put ops s p bs = (Inl e, s') \<Longrightarrow> files s' = files s \<or> files s' = (files s)(p := Some bs)"
    and put_marker: "t_put ops s p bs = (r, s') \<Longrightarrow> marker s' = marker s"
    and size_law: "t_size ops s = Inr n \<Longrightarrow> n = marker s"
    and set_size_files: "t_set_size ops s n = (r, s') \<Longrightarrow> files s' = files s"
    and set_size_ok: "t_set_size ops s n = (Inr u, s') \<Longrightarrow> marker s' = n"
    and set_size_failed: "t_set_size ops s n = (Inl e, s') \<Longrightarrow> marker s' = marker s"
begin

lemma put_elsewhere: "t_put ops s p bs = (r, s') \<Longrightarrow> q \<noteq> p \<Longrightarrow> files s' q = files s q"
  using put_ok [of s p bs _ s'] put_failed [of s p bs _ s'] by (cases r) auto

lemma read_object_ok: "read_object ops s path = Inr bs \<Longrightarrow> files s path = Some bs"
  using get_law [of s path] by (auto simp: read_object_def result_simps)

definition writes_ok :: "(nat option \<Rightarrow> bytes list) \<Rightarrow> (nat option \<times> nat) set \<Rightarrow> 's \<Rightarrow> tr_error + unit \<Rightarrow> 's \<Rightarrow> bool" where
  "writes_ok N K s r s' \<longleftrightarrow>
     marker s' = marker s \<and> (\<forall>p. p \<notin> new_path N ` K \<longrightarrow> files s' p = files s p)
     \<and> (\<forall>u. r = Inr u \<longrightarrow> (\<forall>k \<in> K. files s' (new_path N k) = Some (concat (tile_of (N (fst k)) (snd k)))))"

lemma new_path_inject: "new_path N k = new_path N k' \<longleftrightarrow> k = k'"
  by (cases k; cases k') (auto simp: new_path_def)

text \<open>One write at a new path, then the rest.\<close>

lemma writes_ok_Nil: "writes_ok N {} s r s"
  by (simp add: writes_ok_def)

lemma writes_ok_error: "writes_ok N K s (Inl e) s"
  by (simp add: writes_ok_def)

lemma writes_ok_put_failed:
  "t_put ops s (new_path N k) bs = (Inl e, s') \<Longrightarrow> writes_ok N (insert k K) s (Inl e) s'"
  using put_elsewhere [of s "new_path N k" bs "Inl e" s'] put_marker [of s "new_path N k" bs] by (auto simp: writes_ok_def)

lemma writes_ok_put:
  assumes put: "t_put ops s (new_path N k) (concat (tile_of (N (fst k)) (snd k))) = (Inr u, s1)"
    and rest: "writes_ok N K s1 r s'" and "k \<notin> K"
  shows "writes_ok N (insert k K) s r s'"
proof -
  have fresh: "new_path N k \<notin> new_path N ` K" using assms(3) by (auto simp: new_path_inject)
  have "files s' p = files s p" if "p \<notin> new_path N ` insert k K" for p
    using that rest put_ok [OF put] by (simp add: writes_ok_def)
  moreover have "files s' (new_path N k) = Some (concat (tile_of (N (fst k)) (snd k)))"
    using fresh rest put_ok [OF put] by (simp add: writes_ok_def)
  ultimately show ?thesis using rest put_marker [OF put] by (simp add: writes_ok_def)
qed

lemma store_ok_put:
  assumes "store_ok N (files s)" and "grows N N'" and "k \<in> changed N N'" and "t_put ops s (new_path N' k) bs = (r, s')"
  shows "store_ok N (files s')"
  by (rule store_ok_keeps [OF assms(1,2), of "{k}"]) (use assms put_elsewhere [OF assms(4)] in auto)

lemma read_old_tile:
  assumes ok: "store_ok N (files s)" and new: "new \<noteq> []" "tile_of N' i = tile_of (N f) i @ new"
    and read: "(if length (N f) - i * TILE_WIDTH > 0 then read_object ops s (fpath f i (length (N f) - i * TILE_WIDTH)) else Inr []) = Inr old"
  shows "old = concat (tile_of (N f) i)"
proof -
  have "length (tile_of N' i) \<le> TILE_WIDTH" by (simp add: length_tile_of)
  moreover have "length (tile_of N' i) = length (tile_of (N f) i) + length new" using new(2) by simp
  moreover have "0 < length new" using new(1) by simp
  ultimately have "length (tile_of (N f) i) < TILE_WIDTH" by linarith
  then have len: "length (tile_of (N f) i) = length (N f) - i * TILE_WIDTH" by (simp add: length_tile_of)
  show ?thesis
  proof (cases "length (N f) - i * TILE_WIDTH > 0")
    case True
    then have "files s (fpath f i (length (tile_of (N f) i))) = Some old" using read len read_object_ok by simp
    moreover have "tile_of (N f) i \<noteq> []" using True len by auto
    ultimately show ?thesis using ok by (simp add: store_ok_def)
  next
    case False
    then show ?thesis using read len by simp
  qed
qed

lemma length_concat_hashes: "hashes xs \<Longrightarrow> length (concat xs) = length xs * 32"
  by (induction xs) (auto simp: hashes_def)

lemma write_tiles_spec:
  assumes "grows N N'" and "\<And>t. hashes (N' (Some t))"
  shows "store_ok N (files s) \<Longrightarrow> distinct (map fst m) \<Longrightarrow>
    (\<And>t i new. ((t, i), new) \<in> set m \<Longrightarrow> new \<noteq> [] \<and> tile_of (N' (Some t)) i = tile_of (N (Some t)) i @ new
        \<and> n div 2 ^ (t * TILE_HEIGHT) = length (N (Some t))) \<Longrightarrow>
    write_tiles ops n s m = (r, s') \<Longrightarrow> writes_ok N' (tile_keys m) s r s'"
proof (induction m arbitrary: s)
  case Nil
  then show ?case by (simp add: tile_keys_def writes_ok_Nil)
next
  case (Cons e m)
  obtain t i new where e: "e = ((t, i), new)" by (metis prod.exhaust)
  let ?k = "(Some t, i)" and ?c = "length (N (Some t)) - i * TILE_WIDTH"
  have head: "new \<noteq> []" "tile_of (N' (Some t)) i = tile_of (N (Some t)) i @ new" "n div 2 ^ (t * TILE_HEIGHT) = length (N (Some t))"
    using Cons.prems(3) [of t i new] e by auto
  have keys: "tile_keys (e # m) = insert ?k (tile_keys m)" and fresh: "?k \<notin> tile_keys m"
    using Cons.prems(2) e by (force simp: tile_keys_def)+
  show ?case
  proof (cases "if ?c > 0 then read_hash_tile ops s t i ?c else Inr []")
    case (Inl err)
    then show ?thesis using Cons.prems(4) e head(3) by (auto simp: Let_def writes_ok_error)
  next
    case (Inr old)
    then have "(if ?c > 0 then read_object ops s (fpath (Some t) i ?c) else Inr []) = Inr old"
      by (auto simp: read_hash_tile_def Let_def result_simps split: if_splits)
    from read_old_tile [where f = "Some t", OF Cons.prems(1) head(1,2) this] have old: "old @ concat new = concat (tile_of (N' (Some t)) i)"
      using head(2) by simp
    have "hashes (tile_of (N' (Some t)) i)"
      using assms(2) [of t] by (auto simp: hashes_def tile_of_def list_all_iff dest: in_set_takeD in_set_dropD)
    then have width: "length (concat (tile_of (N' (Some t)) i)) div 32 = length (tile_of (N' (Some t)) i)"
      by (simp add: length_concat_hashes)
    obtain r1 s1 where put: "t_put ops s (new_path N' ?k) (concat (tile_of (N' (Some t)) i)) = (r1, s1)" by fastforce
    have changed: "?k \<in> changed N N'" using head(1,2) by (simp add: changed_def)
    have run: "write_tiles ops n s (e # m) = (case r1 of Inl err \<Rightarrow> (Inl err, s1) | Inr _ \<Rightarrow> write_tiles ops n s1 m)"
      using put e Inr head(3) by (simp add: Let_def old width new_path_def del: length_concat split: sum.splits)
    show ?thesis
    proof (cases r1)
      case (Inl err)
      then show ?thesis using run put Cons.prems(4) keys writes_ok_put_failed by auto
    next
      case (Inr u)
      have "writes_ok N' (tile_keys m) s1 r s'"
        using Cons.prems(2,3,4) run Inr store_ok_put [OF Cons.prems(1) assms(1) changed put] by (intro Cons.IH) auto
      then show ?thesis using writes_ok_put [of s N' ?k u s1] put Inr fresh keys by simp
    qed
  qed
qed

lemma write_bundles_spec:
  assumes "grows N N'" and "\<And>i. count_entries (concat (tile_of (N' None) i)) = Inr (length (tile_of (N' None) i))"
  shows "store_ok N (files s) \<Longrightarrow> distinct (map fst m) \<Longrightarrow>
    (\<And>i v. (i, v) \<in> set m \<Longrightarrow> \<exists>new. v = concat new \<and> new \<noteq> [] \<and> tile_of (N' None) i = tile_of (N None) i @ new
        \<and> n = length (N None)) \<Longrightarrow>
    write_bundles ops n s m = (r, s') \<Longrightarrow> writes_ok N' (bundle_keys m) s r s'"
proof (induction m arbitrary: s)
  case Nil
  then show ?case by (simp add: bundle_keys_def writes_ok_Nil)
next
  case (Cons e m)
  obtain i v where e: "e = (i, v)" by fastforce
  let ?k = "(None :: nat option, i)" and ?c = "length (N None) - i * TILE_WIDTH"
  obtain new where head: "v = concat new" "new \<noteq> []" "tile_of (N' None) i = tile_of (N None) i @ new" "n = length (N None)"
    using Cons.prems(3) [of i v] e by auto
  have keys: "bundle_keys (e # m) = insert ?k (bundle_keys m)" and fresh: "?k \<notin> bundle_keys m"
    using Cons.prems(2) e by (force simp: bundle_keys_def)+
  let ?read = "if ?c > 0 then read_object ops s (entry_bundle_path i ?c) else Inr []"
  show ?case
  proof (cases "bind_res ?read count_entries")
    case (Inl err)
    then have "write_bundles ops n s (e # m) = (Inl err, s)"
      using e head(4) by (cases ?read) (auto simp: Let_def)
    then show ?thesis using Cons.prems(4) by (simp add: writes_ok_error)
  next
    case (Inr c)
    then obtain old where old: "?read = Inr old" "count_entries old = Inr c" by (auto simp: result_simps)
    have "old = concat (tile_of (N None) i)"
      using read_old_tile [where f = None, OF Cons.prems(1) head(2,3)] old(1) by (simp only: fpath.simps)
    then have bs: "old @ v = concat (tile_of (N' None) i)" using head(1,3) by simp
    obtain r1 s1 where put: "t_put ops s (new_path N' ?k) (concat (tile_of (N' None) i)) = (r1, s1)" by fastforce
    have changed: "?k \<in> changed N N'" using head(2,3) by (simp add: changed_def)
    have run: "write_bundles ops n s (e # m) = (case r1 of Inl err \<Rightarrow> (Inl err, s1) | Inr _ \<Rightarrow> write_bundles ops n s1 m)"
      using put e old head(4) assms(2) [of i] by (simp add: Let_def bs new_path_def split: sum.splits)
    show ?thesis
    proof (cases r1)
      case (Inl err)
      then show ?thesis using run put Cons.prems(4) keys writes_ok_put_failed by auto
    next
      case (Inr u)
      have "writes_ok N' (bundle_keys m) s1 r s'"
        using Cons.prems(2,3,4) run Inr store_ok_put [OF Cons.prems(1) assms(1) changed put] by (intro Cons.IH) auto
      then show ?thesis using writes_ok_put [of s N' ?k u s1] put Inr fresh keys by simp
    qed
  qed
qed

lemma append_batch_spec:
  assumes sha: "\<And>x. length (sha x) = 32"
    and ok: "log_ok_for sha entries (tl_size log) (tl_frontier log) (files (tl_store log)) (marker (tl_store log))"
    and room: "length entries + length batch < 2 ^ 64"
    and run: "append_batch sha ops log batch = (r, log')"
  shows "log_ok_for sha (case r of Inl _ \<Rightarrow> entries | Inr _ \<Rightarrow> entries @ batch)
      (tl_size log') (tl_frontier log') (files (tl_store log')) (marker (tl_store log'))
    \<and> (\<forall>first. r = Inr first \<longrightarrow> first = length entries)"
proof (cases "batch = [] \<or> find (\<lambda>e. length e > 65535) batch \<noteq> None")
  case True
  then show ?thesis using ok run by (cases "batch = []") (auto simp: append_batch_def Let_def log_ok_for_def)
next
  case False
  let ?N = "family sha entries" and ?N' = "family sha (entries @ batch)"
  let ?m = "batch_tiles sha entries batch" and ?b = "bundle_entries (length entries) [] batch"
  have small: "list_all (\<lambda>e. length e \<le> 65535) (entries @ batch)"
    using ok False by (auto simp: log_ok_for_def find_None_iff list_all_iff not_less)
  have st: "store_ok ?N (files (tl_store log))" and n: "tl_size log = length entries"
    and fr: "tl_frontier log = frontier_from sha 0 (map (leaf_hash sha) entries)"
    using ok by (auto simp: log_ok_for_def)
  have add: "add_entries sha (tl_size log) (tl_frontier log) [] batch
      = (length entries + length batch, frontier_from sha 0 (map (leaf_hash sha) (entries @ batch)), ?m)"
    using add_entries_emits [of sha "map (leaf_hash sha) entries" "[]" batch] by (simp add: n fr batch_tiles_def del: frontier_from_simps)
  have oldok: "log_ok_for sha entries (tl_size log) (tl_frontier log) fs mk"
    if "store_ok ?N fs" "mk = marker (tl_store log)" for fs mk
    using ok that by (auto simp: log_ok_for_def)
  obtain r1 s1 where w1: "write_tiles ops (tl_size log) (tl_store log) ?m = (r1, s1)" by fastforce
  have W1: "writes_ok ?N' (tile_keys ?m) (tl_store log) r1 s1"
  proof (rule write_tiles_spec [OF family_grows hashes_family [OF sha] st batch_tiles_distinct _ w1])
    fix t i new assume "((t, i), new) \<in> set ?m"
    then have mem: "new \<noteq> []" "new = drop (length (?N (Some t)) - i * TILE_WIDTH) (tile_of (?N' (Some t)) i)"
      unfolding batch_tiles_mem by auto
    moreover have "tile_of (?N' (Some t)) i = tile_of (?N (Some t)) i @ new"
      using family_split [of sha entries batch "Some t" i] mem(2) by metis
    moreover have "tl_size log div 2 ^ (t * TILE_HEIGHT) = length (?N (Some t))" by (simp add: n)
    ultimately show "new \<noteq> [] \<and> tile_of (?N' (Some t)) i = tile_of (?N (Some t)) i @ new \<and> tl_size log div 2 ^ (t * TILE_HEIGHT) = length (?N (Some t))"
      by blast
  qed
  have st1: "store_ok ?N (files s1)"
    using W1 keys_changed [of sha entries batch]
    by (intro store_ok_keeps [OF st family_grows, of "tile_keys ?m"]) (auto simp: writes_ok_def)
  obtain r2 s2 where w2: "write_bundles ops (tl_size log) s1 ?b = (r2, s2)" by fastforce
  have W2: "writes_ok ?N' (bundle_keys ?b) s1 r2 s2"
  proof (rule write_bundles_spec [OF family_grows count_entries_family [OF small] st1 bundles_distinct _ w2])
    fix i v assume "(i, v) \<in> set ?b"
    then show "\<exists>new. v = concat new \<and> new \<noteq> [] \<and> tile_of (?N' None) i = tile_of (?N None) i @ new \<and> tl_size log = length (?N None)"
      using family_split [of sha entries batch None i] unfolding bundles_mem [where sha = sha] by (auto simp: n)
  qed
  have st2: "store_ok ?N (files s2)"
    using W2 keys_changed [of sha entries batch]
    by (intro store_ok_keeps [OF st1 family_grows, of "bundle_keys ?b"]) (auto simp: writes_ok_def)
  have marks: "marker s1 = marker (tl_store log)" "marker s2 = marker (tl_store log)"
    using W1 W2 by (auto simp: writes_ok_def)
  obtain r3 s3 where w3: "t_set_size ops s2 (length entries + length batch) = (r3, s3)" by fastforce
  have f3: "files s3 = files s2" using set_size_files [OF w3] .
  have new: "store_ok ?N' (files s2)" if "r1 = Inr ()" "r2 = Inr ()"
  proof (rule store_ok_written [OF st])
    show "files s2 p = files (tl_store log) p" if "p \<notin> new_path ?N' ` changed ?N ?N'" for p
      using that W1 W2 unfolding keys_changed [symmetric] by (simp add: writes_ok_def image_Un)
    fix f i assume k: "(f, i) \<in> changed ?N ?N'"
    show "files s2 (new_path ?N' (f, i)) = Some (concat (tile_of (?N' f) i))"
    proof (cases "(f, i) \<in> bundle_keys ?b")
      case True
      then show ?thesis using W2 that by (fastforce simp: writes_ok_def)
    next
      case False
      then have "new_path ?N' (f, i) \<notin> new_path ?N' ` bundle_keys ?b" by (auto simp: new_path_inject)
      moreover have "(f, i) \<in> tile_keys ?m" using k False unfolding keys_changed [symmetric] by auto
      ultimately show ?thesis using W1 W2 that by (fastforce simp: writes_ok_def)
    qed
  qed
  show ?thesis
  proof (cases r1)
    case (Inl e)
    then show ?thesis using run False add w1 st1 marks oldok by (auto simp: append_batch_def Let_def)
  next
    case 1: (Inr u)
    show ?thesis
    proof (cases r2)
      case (Inl e)
      then show ?thesis using run False add w1 w2 1 st2 marks oldok n by (auto simp: append_batch_def Let_def)
    next
      case 2: (Inr v)
      show ?thesis
      proof (cases r3)
        case (Inl e)
        then have "marker s3 = marker s2" using set_size_failed [of s2] w3 by simp
        then show ?thesis using Inl run False add w1 w2 w3 1 2 st2 f3 marks oldok n by (auto simp: append_batch_def Let_def)
      next
        case (Inr w)
        then have "marker s3 = length entries + length batch" using set_size_ok [of s2] w3 by simp
        then show ?thesis
          using Inr run False add w1 w2 w3 1 2 new f3 n small room
          by (auto simp: append_batch_def Let_def log_ok_for_def simp del: frontier_from_simps)
      qed
    qed
  qed
qed

end

end
