(* ===== verification/Tile_Reads.thy ===== *)
theory Tile_Reads
  imports Tile_Log
begin

text \<open>
  Reading a stored log back: \<^verbatim>\<open>node\<close> serves every complete subtree, so that the log is a \<open>stored_tree\<close> and its
  proofs are those of RFC 6962; \<^verbatim>\<open>open\<close> rebuilds the frontier; \<^verbatim>\<open>entry\<close> returns the entries. \<^verbatim>\<open>MemoryTileStore\<close>
  meets the contract of a store.
\<close>

section \<open>Slices of tiles\<close>

lemma drop_concat_hashes: "hashes T \<Longrightarrow> drop (m * 32) (concat T) = concat (drop m T)"
proof (induction T arbitrary: m)
  case (Cons h T)
  show ?case
  proof (cases m)
    case (Suc k)
    have "drop (m * 32) (concat (h # T)) = drop (k * 32) (concat T)" using Cons.prems Suc by (simp add: hashes_def)
    then show ?thesis using Cons Suc by (simp add: hashes_def)
  qed simp
qed simp

lemma chunks32_concat:
  "hashes T \<Longrightarrow> offset + k \<le> length T \<Longrightarrow> chunks32 k (drop (offset * 32) (concat T)) = take k (drop offset T)"
proof (induction k arbitrary: offset)
  case (Suc k)
  obtain h rest where split: "drop offset T = h # rest" using Suc.prems by (cases "drop offset T") auto
  have "h \<in> set (drop offset T)" using split by simp
  then have h: "length h = 32" using Suc.prems(1) in_set_dropD by (fastforce simp: hashes_def list_all_iff)
  have rest: "rest = drop (Suc offset) T" using split by (simp add: drop_Suc drop_tl)
  have "drop (offset * 32) (concat T) = h @ concat rest" unfolding drop_concat_hashes [OF Suc.prems(1)] split by simp
  moreover have "concat rest = drop (Suc offset * 32) (concat T)" unfolding drop_concat_hashes [OF Suc.prems(1)] rest ..
  moreover have "chunks32 k (drop (Suc offset * 32) (concat T)) = take k rest"
    unfolding rest using Suc.prems by (intro Suc.IH) simp_all
  ultimately show ?case using h split by (simp del: mult_Suc)
qed simp

lemma slice_in_tile:
  assumes "offset + k \<le> TILE_WIDTH"
  shows "take k (drop offset (tile_of N i)) = take k (drop (i * TILE_WIDTH + offset) N)"
  using assms by (simp add: tile_of_def drop_take take_take min_absorb1 add.commute)

lemma aligned_block:
  assumes "start = i * 2 ^ sub" and "sub < TILE_HEIGHT"
  shows "start mod TILE_WIDTH + 2 ^ sub \<le> TILE_WIDTH"
proof -
  have W: "TILE_WIDTH = 2 ^ sub * 2 ^ (8 - sub)"
    using assms(2) by (simp add: TILE_WIDTH_def TILE_HEIGHT_def power_add [symmetric])
  have "start mod TILE_WIDTH = 2 ^ sub * (i mod 2 ^ (8 - sub))"
    unfolding W assms(1) by (metis mult.commute mult_mod_right)
  moreover have "i mod 2 ^ (8 - sub) + 1 \<le> 2 ^ (8 - sub)" by (simp add: Suc_leI)
  then have "2 ^ sub * (i mod 2 ^ (8 - sub) + 1) \<le> 2 ^ sub * 2 ^ (8 - sub)" by (rule mult_le_mono2)
  ultimately show ?thesis unfolding W by simp
qed

section \<open>The frontier by bits\<close>

lemma frontier_bits:
  "length M < 2 ^ k \<Longrightarrow>
     frontier_from sha l M = map (\<lambda>j. (l + j, last (nodes sha j M))) (rev (filter (\<lambda>j. odd (length M div 2 ^ j)) [0..<k]))"
proof (induction k arbitrary: l M)
  case (Suc k)
  have up: "length (full_pairs sha M) < 2 ^ k" using Suc.prems by simp
  have "[0..<Suc k] = 0 # map Suc [0..<k]" by (simp add: map_Suc_upt upt_conv_Cons del: upt_Suc)
  then show ?case
    using Suc.IH [OF up, of "Suc l"]
    by (cases "M = []") (auto simp: filter_map comp_def rev_map nodes_Suc div_mult2_eq)
qed simp

context tile_store
begin

lemma read_stored_tile:
  assumes ok: "store_ok N (files s)" and get: "\<And>p. t_get ops s p = Inr (files s p)" and ne: "tile_of (N f) i \<noteq> []"
  shows "read_object ops s (fpath f i (length (tile_of (N f) i))) = Inr (concat (tile_of (N f) i))"
  using ok ne by (simp add: read_object_def get store_ok_def)

lemma tile_node_ok:
  assumes sha: "\<And>x. length (sha x) = 32"
    and ok: "store_ok (family sha entries) (files s)" and get: "\<And>p. t_get ops s p = Inr (files s p)"
    and n: "n = length entries" "n < 2 ^ 64" and fits: "(i + 1) * 2 ^ l \<le> n"
  shows "tile_node sha ops s n l i = Inr (mth sha (take (2 ^ l) (drop (i * 2 ^ l) (map (leaf_hash sha) entries))))"
proof -
  let ?t = "l div TILE_HEIGHT" and ?sub = "l mod TILE_HEIGHT"
  let ?L = "map (leaf_hash sha) entries" and ?N = "nodes sha (?t * TILE_HEIGHT) (map (leaf_hash sha) entries)"
  let ?start = "i * 2 ^ ?sub" let ?T = "tile_of ?N (?start div TILE_WIDTH)" and ?o = "?start mod TILE_WIDTH"
  have l: "(2::nat) ^ l = 2 ^ ?sub * 2 ^ (?t * TILE_HEIGHT)" by (simp add: power_add [symmetric])
  have N: "length ?N = n div 2 ^ (?t * TILE_HEIGHT)" using n by simp
  have "(i + 1) * 2 ^ ?sub * 2 ^ (?t * TILE_HEIGHT) \<le> n" using fits unfolding l by (simp only: mult.assoc)
  then have "(i + 1) * 2 ^ ?sub \<le> length ?N" unfolding N by (subst less_eq_div_iff_mult_less_eq) simp_all
  then have fin: "?start + 2 ^ ?sub \<le> length ?N" by (simp add: add.commute)
  moreover have "length ?N \<le> n" unfolding N by (rule div_le_dividend)
  ultimately have small: "?start + 2 ^ ?sub < 2 ^ 64" using n(2) by linarith
  have "2 ^ l \<le> n" using fits by simp
  then have "2 ^ l < (2::nat) ^ 64" using n(2) by linarith
  then have l64: "l < 64" by (simp only: power_strict_increasing_iff one_less_numeral_iff semiring_norm)
  have block: "?o + 2 ^ ?sub \<le> TILE_WIDTH" by (rule aligned_block) (simp_all add: TILE_HEIGHT_def)
  have start: "?start div TILE_WIDTH * TILE_WIDTH + ?o = ?start" by simp
  have pos: "0 < (2::nat) ^ ?sub" by simp
  have tlen: "length ?T = min (length ?N - ?start div TILE_WIDTH * TILE_WIDTH) TILE_WIDTH" by (rule length_tile_of)
  then have inT: "?o + 2 ^ ?sub \<le> length ?T" using fin start block by linarith
  have hT: "hashes ?T"
    using hashes_family [of sha entries ?t, OF sha] by (auto simp: hashes_def tile_of_def list_all_iff dest: in_set_takeD in_set_dropD)
  have "?T \<noteq> []" using inT pos by (metis add_is_0 le_0_eq list.size(3) nat_less_le)
  then have "read_object ops s (hash_tile_path ?t (?start div TILE_WIDTH) (length ?T)) = Inr (concat ?T)"
    using read_stored_tile [OF ok get, of "Some ?t" "?start div TILE_WIDTH"] by simp
  then have read: "read_hash_tile ops s ?t (?start div TILE_WIDTH) (length ?T) = Inr (concat ?T)"
    using length_concat_hashes [OF hT] by (simp add: read_hash_tile_def del: length_concat)
  have "chunks32 (2 ^ ?sub) (drop (?o * 32) (concat ?T)) = take (2 ^ ?sub) (drop ?start ?N)"
    using chunks32_concat [OF hT inT] slice_in_tile [OF block, of ?N] start by metis
  moreover have "length (take (2 ^ ?sub) (drop ?start ?N)) = 2 ^ ?sub" using fin by simp
  ultimately have red: "reduce_nodes sha (chunks32 (2 ^ ?sub) (drop (?o * 32) (concat ?T))) = [mth sha (take (2 ^ ?sub) (drop ?start ?N))]"
    using reduce_nodes_mth by metis
  have "mth sha (take (2 ^ ?sub) (drop ?start ?N)) = mth sha (take (2 ^ ?sub * 2 ^ (?t * TILE_HEIGHT)) (drop (?start * 2 ^ (?t * TILE_HEIGHT)) ?L))"
    using fin by (intro nodes_slice_mth) simp
  then have val: "mth sha (take (2 ^ ?sub) (drop ?start ?N)) = mth sha (take (2 ^ l) (drop (i * 2 ^ l) ?L))"
    unfolding l by (simp only: mult.assoc)
  have "\<not> ?start \<ge> 2 ^ 64" "\<not> (?start + 2 ^ ?sub \<ge> 2 ^ 64 \<or> ?start + 2 ^ ?sub > n div 2 ^ (?t * TILE_HEIGHT))" "\<not> l \<ge> 64"
    using small fin l64 N by linarith+
  then show ?thesis
    unfolding tile_node_def Let_def N [symmetric] by (simp only: if_False tlen [symmetric] read bind_res.simps red val list.sel)
qed

lemma open_loop_ok:
  assumes sha: "\<And>x. length (sha x) = 32"
    and ok: "store_ok (family sha entries) (files s)" and get: "\<And>p. t_get ops s p = Inr (files s p)"
    and n: "n = length entries" "n < 2 ^ 64"
  shows "k \<le> 64 \<Longrightarrow> open_loop sha ops s n k (n div 2 ^ k * 2 ^ k)
    = Inr (map (\<lambda>j. (j, last (nodes sha j (map (leaf_hash sha) entries)))) (rev (filter (\<lambda>j. odd (n div 2 ^ j)) [0..<k])))"
proof (induction k)
  case (Suc k)
  let ?L = "map (leaf_hash sha) entries" and ?p = "n div 2 ^ Suc k * 2 ^ Suc k"
  have half: "n div 2 ^ Suc k = n div 2 ^ k div 2" by (simp only: power_Suc2 div_mult2_eq)
  show ?case
  proof (cases "odd (n div 2 ^ k)")
    case True
    then have k: "n div 2 ^ k = 2 * (n div 2 ^ Suc k) + 1" unfolding half by (metis odd_two_times_div_two_succ)
    have pos: "?p div 2 ^ k = n div 2 ^ k - 1" "?p + 2 ^ k = n div 2 ^ k * 2 ^ k" unfolding k by (simp_all add: algebra_simps)
    have lt: "n div 2 ^ k - 1 < length ?L div 2 ^ k" using k n by simp
    have "n div 2 ^ k - 1 + 1 = n div 2 ^ k" using k by simp
    then have "(n div 2 ^ k - 1 + 1) * 2 ^ k \<le> n" by (simp only: div_times_less_eq_dividend)
    from tile_node_ok [OF sha ok get n this]
    have "tile_node sha ops s n k (?p div 2 ^ k) = Inr (nodes sha k ?L ! (n div 2 ^ k - 1))"
      unfolding pos(1) nodes_nth_mth [OF lt] .
    moreover have "nodes sha k ?L ! (n div 2 ^ k - 1) = last (nodes sha k ?L)"
      using lt n by (subst last_conv_nth) (auto simp: length_0_conv [symmetric] simp del: length_0_conv)
    ultimately have "tile_node sha ops s n k (?p div 2 ^ k) = Inr (last (nodes sha k ?L))" by simp
    moreover have "open_loop sha ops s n k (?p + 2 ^ k)
        = Inr (map (\<lambda>j. (j, last (nodes sha j ?L))) (rev (filter (\<lambda>j. odd (n div 2 ^ j)) [0..<k])))"
      unfolding pos(2) using Suc by simp
    ultimately show ?thesis using True by (simp del: power_Suc)
  next
    case False
    then have "?p = n div 2 ^ k * 2 ^ k" unfolding half by (simp add: algebra_simps flip: dvd_div_mult)
    then show ?thesis using False Suc by (simp del: power_Suc)
  qed
qed simp

lemma tile_open_ok:
  assumes sha: "\<And>x. length (sha x) = 32"
    and ok: "log_ok_for sha entries n frontier (files s) (marker s)"
    and get: "\<And>p. t_get ops s p = Inr (files s p)" and size: "t_size ops s = Inr m"
  shows "tile_open sha ops s = Inr \<lparr>tl_store = s, tl_size = n, tl_frontier = frontier\<rparr>"
proof -
  have n: "n = length entries" "n < 2 ^ 64" "m = n" and st: "store_ok (family sha entries) (files s)"
    and fr: "frontier = frontier_from sha 0 (map (leaf_hash sha) entries)"
    using ok size_law [OF size] by (auto simp: log_ok_for_def)
  have "open_loop sha ops s n 64 (n div 2 ^ 64 * 2 ^ 64) = Inr frontier"
    using open_loop_ok [OF sha st get n(1,2), of 64] frontier_bits [of "map (leaf_hash sha) entries" 64 sha 0] n fr by simp
  moreover have "n div 2 ^ 64 = 0" using n(2) by simp
  ultimately show ?thesis using size n(3) by (simp add: tile_open_def del: power_numeral numeral_power_eq_of_nat_cancel_iff)
qed

lemma tile_log_stored_tree:
  assumes sha: "\<And>x. length (sha x) = 32"
    and ok: "log_ok_for sha entries (tl_size log) (tl_frontier log) (files (tl_store log)) (marker (tl_store log))"
    and get: "\<And>p. t_get ops (tl_store log) p = Inr (files (tl_store log) p)"
  shows "stored_tree sha (tile_source sha ops log) (map (leaf_hash sha) entries)"
proof
  have n: "tl_size log = length entries" "tl_size log < 2 ^ 64" and st: "store_ok (family sha entries) (files (tl_store log))"
    using ok by (auto simp: log_ok_for_def)
  show "hs_size (tile_source sha ops log) = length (map (leaf_hash sha) entries)" by (simp add: tile_source_def n)
  show "hs_node (tile_source sha ops log) l i = Inr (mth sha (take (2 ^ l) (drop (i * 2 ^ l) (map (leaf_hash sha) entries))))"
    if "(i + 1) * 2 ^ l \<le> length (map (leaf_hash sha) entries)" for i l
    using tile_node_ok [OF sha st get n] that n by (simp add: tile_source_def)
qed

lemma tile_entry_ok:
  assumes ok: "log_ok_for sha entries (tl_size log) (tl_frontier log) (files (tl_store log)) (marker (tl_store log))"
    and get: "\<And>p. t_get ops (tl_store log) p = Inr (files (tl_store log) p)"
  shows "tile_entry ops log i = (if i < length entries then Inr (entries ! i) else Inl (IndexOutOfRange i (length entries)))"
proof (cases "i < length entries")
  case True
  let ?b = "i div TILE_WIDTH" let ?T = "tile_of (family sha entries None) ?b"
  let ?es = "take TILE_WIDTH (drop (?b * TILE_WIDTH) entries)"
  have n: "tl_size log = length entries" and st: "store_ok (family sha entries) (files (tl_store log))"
    and small: "list_all (\<lambda>e. length e \<le> 65535) entries"
    using ok by (auto simp: log_ok_for_def)
  have T: "?T = map enc ?es" by (simp add: tile_of_def take_map drop_map)
  have w: "min (length entries - ?b * TILE_WIDTH) TILE_WIDTH = length ?T" by (simp add: length_tile_of)
  have i: "?b * TILE_WIDTH + i mod TILE_WIDTH = i" by simp
  have k: "i mod TILE_WIDTH < length ?es"
  proof -
    have "i mod TILE_WIDTH < TILE_WIDTH" by (simp add: TILE_WIDTH_def)
    moreover have "i mod TILE_WIDTH < length entries - ?b * TILE_WIDTH" using True i by linarith
    ultimately show ?thesis by simp
  qed
  then have "?T \<noteq> []" using T by auto
  from read_stored_tile [OF st get this]
  have read: "read_object ops (tl_store log) (entry_bundle_path ?b (length ?T)) = Inr (concat (map enc ?es))" unfolding T [symmetric] by simp
  have "list_all (\<lambda>e. length e \<le> 65535) ?es"
    using small by (auto simp: list_all_iff dest: in_set_takeD in_set_dropD)
  from nth_entry_enc [OF this k]
  have "nth_entry path (i mod TILE_WIDTH) (concat (map enc ?es)) = Inr (?es ! (i mod TILE_WIDTH))" for path .
  moreover have "?b * TILE_WIDTH \<le> length entries" using i True by linarith
  then have "?es ! (i mod TILE_WIDTH) = entries ! i" using k i by (simp add: nth_drop)
  ultimately show ?thesis unfolding tile_entry_def Let_def n w read using True by simp
next
  case False
  then show ?thesis using ok by (simp add: tile_entry_def log_ok_for_def)
qed

lemma tile_root_ok:
  "log_ok_for sha entries (tl_size log) (tl_frontier log) fs mk \<Longrightarrow> tile_root sha log = mth sha (map (leaf_hash sha) entries)"
  using frontier_root [of sha 0] by (simp add: log_ok_for_def tile_root_def)

end

section \<open>The store in memory\<close>

interpretation mts: tile_store memory_tile_ops "\<lambda>s p. bt_get (mts_files s) p" mts_size
  by unfold_locales (auto simp: memory_tile_ops_def fun_eq_iff)

lemma empty_log_ok: "log_ok_for sha [] 0 [] fs 0"
proof -
  have "tile_of (family sha [] f) i = []" for f i by (cases f) (simp_all add: tile_of_def)
  then show ?thesis by (simp add: log_ok_for_def store_ok_def)
qed

end
