(* ===== verification/Transparency_Log.thy ===== *)
theory Transparency_Log
  imports Leaf Tile_Reads
begin

text \<open>
  Inclusion bundles (\<^verbatim>\<open>crates/engine-core/src/transparency/bundle.rs\<close>) and the log of typed leaves
  (\<^verbatim>\<open>log.rs\<close>): leaves are encoded, stored in a tile log, and proved under a checkpoint the log signs. The derived
  decoder of the bundle's wire form is the parameter \<open>decode\<close>.
\<close>

section \<open>Bundles\<close>

definition BUNDLE_VERSION :: nat where "BUNDLE_VERSION = 1"
definition MAX_PATH :: nat where "MAX_PATH = 64"

record inclusion_bundle =
  ib_leaf :: leaf
  ib_index :: nat
  ib_size :: nat
  ib_path :: "hash list"
  ib_checkpoint :: string

record bundle_wire =
  bw_version :: json
  bw_leaf :: json
  bw_index :: nat
  bw_size :: nat
  bw_path :: "string list"
  bw_checkpoint :: string

definition bundle_to_json :: "scalar_writer \<Rightarrow> inclusion_bundle \<Rightarrow> bytes" where
  "bundle_to_json ser b =
     canonical_json ser (json_object
       [(''version'', json_u64 BUNDLE_VERSION), (''leaf'', leaf_to_value (ib_leaf b)), (''index'', json_u64 (ib_index b)),
        (''size'', json_u64 (ib_size b)), (''path'', JArr (map (\<lambda>h. JStr (hex h)) (ib_path b))),
        (''checkpoint'', JStr (ib_checkpoint b))])"

definition bundle_from_json :: "(bytes \<Rightarrow> bundle_wire option) \<Rightarrow> bytes \<Rightarrow> tr_error + inclusion_bundle" where
  "bundle_from_json decode bs =
     bind_res (ok_or (decode bs) (InvalidBundle ''not a bundle object with exactly the defined fields'')) (\<lambda>wire.
     bind_res
       (case as_u64 (bw_version wire) of
          Some v \<Rightarrow> if v = BUNDLE_VERSION then Inr () else Inl (BundleVersion v)
        | None \<Rightarrow> Inl (InvalidBundle ''version is an unsigned integer''))
       (\<lambda>_.
     if length (bw_path wire) > MAX_PATH then Inl (InvalidBundle ''path is longer than any tree needs'')
     else
       bind_res (map_err (\<lambda>_. InvalidBundle ''path entries are 64 lowercase hex digits'') (map_res (unhex_array 32) (bw_path wire)))
         (\<lambda>path.
       bind_res (leaf_from_value (bw_leaf wire)) (\<lambda>l.
       Inr \<lparr>ib_leaf = l, ib_index = bw_index wire, ib_size = bw_size wire, ib_path = path,
            ib_checkpoint = bw_checkpoint wire\<rparr>))))"

definition verify_path :: "hash_fun \<Rightarrow> scalar_writer \<Rightarrow> inclusion_bundle \<Rightarrow> hash \<Rightarrow> tr_error + unit" where
  "verify_path sha ser b root =
     bind_res (leaf_digest sha ser (ib_leaf b)) (\<lambda>h.
     verify_inclusion sha h (ib_index b) (ib_size b) (ib_path b) root)"

section \<open>The log\<close>

record 's transparency_log =
  lg_origin :: origin
  lg_tiles :: "'s tile_log"

definition log_open :: "hash_fun \<Rightarrow> 's tile_ops \<Rightarrow> origin \<Rightarrow> 's \<Rightarrow> tr_error + 's transparency_log" where
  "log_open sha ops origin s =
     bind_res (tile_open sha ops s) (\<lambda>tiles. Inr \<lparr>lg_origin = origin, lg_tiles = tiles\<rparr>)"

definition log_append_batch ::
    "hash_fun \<Rightarrow> scalar_writer \<Rightarrow> 's tile_ops \<Rightarrow> 's transparency_log \<Rightarrow> leaf list
      \<Rightarrow> (tr_error + nat) \<times> 's transparency_log" where
  "log_append_batch sha ser ops log ls =
     (case map_res (leaf_entry ser) ls of
        Inl e \<Rightarrow> (Inl e, log)
      | Inr entries \<Rightarrow>
          (case append_batch sha ops (lg_tiles log) entries of (r, tiles) \<Rightarrow> (r, log\<lparr>lg_tiles := tiles\<rparr>)))"

definition log_append ::
    "hash_fun \<Rightarrow> scalar_writer \<Rightarrow> 's tile_ops \<Rightarrow> 's transparency_log \<Rightarrow> leaf \<Rightarrow> (tr_error + nat) \<times> 's transparency_log" where
  "log_append sha ser ops log l = log_append_batch sha ser ops log [l]"

definition log_leaf ::
    "scalar_writer \<Rightarrow> (bytes \<Rightarrow> json option) \<Rightarrow> 's tile_ops \<Rightarrow> 's transparency_log \<Rightarrow> nat \<Rightarrow> tr_error + leaf" where
  "log_leaf ser from_slice ops log index =
     bind_res (tile_entry ops (lg_tiles log) index) (leaf_from_entry ser from_slice)"

definition log_checkpoint :: "hash_fun \<Rightarrow> 's transparency_log \<Rightarrow> checkpoint" where
  "log_checkpoint sha log =
     \<lparr>cp_origin = lg_origin log, cp_size = tl_size (lg_tiles log), cp_root = tile_root sha (lg_tiles log)\<rparr>"

definition signed_checkpoint ::
    "hash_fun \<Rightarrow> 'k ed25519 \<Rightarrow> 's transparency_log \<Rightarrow> 'k signer \<Rightarrow> tr_error + signed_note" where
  "signed_checkpoint sha ed log s =
     (let text = checkpoint_text (log_checkpoint sha log) in
      bind_res (note_new text) (\<lambda>note. bind_res (sign_checkpoint sha ed s text) (with_signature note)))"

definition log_inclusion_proof ::
    "hash_fun \<Rightarrow> 's tile_ops \<Rightarrow> 's transparency_log \<Rightarrow> nat \<Rightarrow> nat \<Rightarrow> tr_error + hash list" where
  "log_inclusion_proof sha ops log index n = inclusion_proof sha (tile_source sha ops (lg_tiles log)) index n"

definition log_consistency_proof ::
    "hash_fun \<Rightarrow> 's tile_ops \<Rightarrow> 's transparency_log \<Rightarrow> nat \<Rightarrow> nat \<Rightarrow> tr_error + hash list" where
  "log_consistency_proof sha ops log m n = consistency_proof sha (tile_source sha ops (lg_tiles log)) m n"

definition log_bundle ::
    "hash_fun \<Rightarrow> scalar_writer \<Rightarrow> (bytes \<Rightarrow> json option) \<Rightarrow> 's tile_ops \<Rightarrow> 's transparency_log \<Rightarrow> nat \<Rightarrow> signed_note
      \<Rightarrow> tr_error + inclusion_bundle" where
  "log_bundle sha ser from_slice ops log index note =
     bind_res (checkpoint_parse (nt_text note)) (\<lambda>c.
     if cp_origin c \<noteq> lg_origin log then Inl (WrongOrigin (lg_origin log) (cp_origin c))
     else
       bind_res (log_leaf ser from_slice ops log index) (\<lambda>l.
       bind_res (log_inclusion_proof sha ops log index (cp_size c)) (\<lambda>path.
       Inr \<lparr>ib_leaf = l, ib_index = index, ib_size = cp_size c, ib_path = path, ib_checkpoint = note_encode note\<rparr>)))"

section \<open>Bundles survive transport\<close>

text \<open>What an accepted bundle guarantees, and the wire form the decoder reads from the canonical JSON of a bundle.\<close>

definition bundle_ok :: "inclusion_bundle \<Rightarrow> bool" where
  "bundle_ok b \<longleftrightarrow> leaf_ok (ib_leaf b) \<and> length (ib_path b) \<le> MAX_PATH \<and> list_all (\<lambda>h. length h = 32) (ib_path b)"

definition bundle_wire_of :: "inclusion_bundle \<Rightarrow> bundle_wire" where
  "bundle_wire_of b =
     \<lparr>bw_version = json_u64 BUNDLE_VERSION, bw_leaf = leaf_to_value (ib_leaf b), bw_index = ib_index b, bw_size = ib_size b,
      bw_path = map hex (ib_path b), bw_checkpoint = ib_checkpoint b\<rparr>"

lemma map_res_unhex_iff: "map_res (unhex_array n) ts = Inr bss \<longleftrightarrow> ts = map hex bss \<and> list_all (\<lambda>h. length h = n) bss"
proof (induction ts arbitrary: bss)
  case (Cons t ts)
  then show ?case by (cases bss) (auto simp: result_simps unhex_array_iff)
qed auto

lemma bundle_from_json_ok: "bundle_from_json decode bs = Inr b \<Longrightarrow> bundle_ok b"
  by (auto simp: bundle_from_json_def bundle_ok_def result_simps map_res_unhex_iff dest: leaf_from_value_ok)

lemma bundle_from_wire:
  assumes "decode bs = Some (bundle_wire_of b)" and "bundle_ok b"
  shows "bundle_from_json decode bs = Inr b"
proof -
  have "map_res (unhex_array 32) (map hex (ib_path b)) = Inr (ib_path b)"
    using assms(2) by (simp add: map_res_unhex_iff bundle_ok_def)
  with assms show ?thesis
    by (simp add: bundle_from_json_def bundle_wire_of_def bundle_ok_def leaf_from_to_value BUNDLE_VERSION_def)
qed

end
