(* ===== verification/Assurance.thy ===== *)
theory Assurance
  imports Policy Transparency_Log
begin

text \<open>
  Assurance levels (\<^verbatim>\<open>crates/engine-core/src/transparency/assurance.rs\<close>): a bundle is assessed under a policy against
  the checkpoints the client already trusts. A source of consistency proofs is a function that may decline. The
  outer \<^const>\<open>None\<close> of \<open>verify_checkpoint\<close> and \<open>assess\<close> is the panic of \<^verbatim>\<open>expect("a cosignature carries a time")\<close>.
\<close>

datatype level = L0 | L1 | L2 | L3

fun level_nat :: "level \<Rightarrow> nat" where
  "level_nat L0 = 0" | "level_nat L1 = 1" | "level_nat L2 = 2" | "level_nat L3 = 3"

instantiation level :: linorder
begin

definition "l \<le> l' \<longleftrightarrow> level_nat l \<le> level_nat l'"

definition "l < l' \<longleftrightarrow> level_nat l < level_nat l'"

instance
proof
  fix x y z :: level
  show "x < y \<longleftrightarrow> x \<le> y \<and> \<not> y \<le> x" by (auto simp: less_eq_level_def less_level_def)
  show "x \<le> x" by (simp add: less_eq_level_def)
  show "x \<le> y \<Longrightarrow> y \<le> z \<Longrightarrow> x \<le> z" by (simp add: less_eq_level_def)
  show "x \<le> y \<Longrightarrow> y \<le> x \<Longrightarrow> x = y" by (cases x; cases y) (simp_all add: less_eq_level_def)
  show "x \<le> y \<or> y \<le> x" by (auto simp: less_eq_level_def)
qed

end

record cosigner =
  cs_name :: string
  cs_operator :: string
  cs_time :: nat

record verified_checkpoint =
  vc_checkpoint :: checkpoint
  vc_cosigners :: "cosigner list"

text \<open>The loop over the witnesses of the policy.\<close>

fun verify_witnesses ::
    "hash_fun \<Rightarrow> 'k ed25519 \<Rightarrow> signed_note \<Rightarrow> witness list \<Rightarrow> (tr_error + cosigner list) option" where
  "verify_witnesses sha ed note [] = Some (Inr [])"
| "verify_witnesses sha ed note (w # ws) =
     (case note_verify sha ed note (wt_key w) of
        Inl e \<Rightarrow> Some (Inl e)
      | Inr None \<Rightarrow> verify_witnesses sha ed note ws
      | Inr (Some None) \<Rightarrow> None
      | Inr (Some (Some time)) \<Rightarrow>
          map_option (\<lambda>r. bind_res r (\<lambda>cs. Inr (\<lparr>cs_name = wt_name w, cs_operator = wt_operator w, cs_time = time\<rparr> # cs)))
            (verify_witnesses sha ed note ws))"

definition verify_checkpoint ::
    "hash_fun \<Rightarrow> 'k ed25519 \<Rightarrow> policy \<Rightarrow> signed_note \<Rightarrow> (tr_error + verified_checkpoint) option" where
  "verify_checkpoint sha ed p note =
     (case checkpoint_parse (nt_text note) of
        Inl e \<Rightarrow> Some (Inl e)
      | Inr c \<Rightarrow>
          if cp_origin c \<noteq> pl_origin p then Some (Inl (WrongOrigin (pl_origin p) (cp_origin c)))
          else
            (case note_verify sha ed note (pl_log p) of
               Inl e \<Rightarrow> Some (Inl e)
             | Inr None \<Rightarrow> Some (Inl MissingLogSignature)
             | Inr (Some _) \<Rightarrow>
                 map_option (\<lambda>r. bind_res r (\<lambda>cs. Inr \<lparr>vc_checkpoint = c, vc_cosigners = cs\<rparr>))
                   (verify_witnesses sha ed note (pl_witnesses p))))"

text \<open>\<^verbatim>\<open>u64::abs_diff\<close>.\<close>

definition abs_diff :: "nat \<Rightarrow> nat \<Rightarrow> nat" where
  "abs_diff a b = (a - b) + (b - a)"

definition fresh_cosigners :: "policy \<Rightarrow> cosigner list \<Rightarrow> nat \<Rightarrow> cosigner list" where
  "fresh_cosigners p cs now = filter (\<lambda>c. abs_diff (cs_time c) now \<le> pl_max_age_seconds p) cs"

definition quorum :: "policy \<Rightarrow> cosigner list \<Rightarrow> nat \<Rightarrow> nat" where
  "quorum p cs now =
     (let fresh = fresh_cosigners p cs now in
      if pl_distinct_operators p then length (remdups (map cs_operator fresh)) else length fresh)"

section \<open>Known checkpoints\<close>

record known_checkpoints =
  kc_origin :: string
  kc_by_size :: "(nat, hash) bmap"

definition known_new :: "origin \<Rightarrow> known_checkpoints" where
  "known_new origin = \<lparr>kc_origin = origin, kc_by_size = []\<rparr>"

definition known_record :: "known_checkpoints \<Rightarrow> verified_checkpoint \<Rightarrow> (tr_error + unit) \<times> known_checkpoints" where
  "known_record known v =
     (let c = vc_checkpoint v in
      if cp_origin c \<noteq> kc_origin known then (Inl (WrongOrigin (kc_origin known) (cp_origin c)), known)
      else
        (case bt_get (kc_by_size known) (cp_size c) of
           Some root \<Rightarrow>
             if root \<noteq> cp_root c then (Inl (SplitView (cp_size c)), known)
             else (Inr (), known\<lparr>kc_by_size := bt_insert (cp_size c) (cp_root c) (kc_by_size known)\<rparr>)
         | None \<Rightarrow> (Inr (), known\<lparr>kc_by_size := bt_insert (cp_size c) (cp_root c) (kc_by_size known)\<rparr>)))"

definition known_latest :: "known_checkpoints \<Rightarrow> (nat \<times> hash) option" where
  "known_latest known = (if kc_by_size known = [] then None else Some (last (kc_by_size known)))"

type_synonym consistency_source = "nat \<Rightarrow> nat \<Rightarrow> hash list option"

definition hash_source_proofs :: "hash_fun \<Rightarrow> hash_source \<Rightarrow> consistency_source" where
  "hash_source_proofs sha src m n = (case consistency_proof sha src m n of Inl _ \<Rightarrow> None | Inr proof \<Rightarrow> Some proof)"

definition no_proofs :: consistency_source where
  "no_proofs _ _ = None"

section \<open>Assessment\<close>

datatype limit = NoPriorCheckpoint | QuorumNotMet nat nat | ConsistencyUnavailable nat

record assessment =
  as_level :: level
  as_rejection :: "tr_error option"
  as_limits :: "limit list"
  as_checkpoint :: "verified_checkpoint option"

datatype decision = Accept | Warn | Reject

definition decision_of :: "assessment \<Rightarrow> level \<Rightarrow> on_failure \<Rightarrow> decision" where
  "decision_of a required failure =
     (if as_rejection a = None \<and> as_level a \<ge> required then Accept else if failure = OF_Warn then Warn else Reject)"

definition trusted_checkpoint :: "assessment \<Rightarrow> verified_checkpoint option" where
  "trusted_checkpoint a = (if as_level a \<ge> L2 then as_checkpoint a else None)"

datatype prior = P_None | P_Unproven nat | P_Consistent

definition check_known ::
    "hash_fun \<Rightarrow> policy \<Rightarrow> known_checkpoints \<Rightarrow> checkpoint \<Rightarrow> consistency_source \<Rightarrow> tr_error + prior" where
  "check_known sha p known c proofs =
     (if kc_origin known \<noteq> pl_origin p then Inl (WrongOrigin (pl_origin p) (kc_origin known))
      else if (case bt_get (kc_by_size known) (cp_size c) of Some root \<Rightarrow> root \<noteq> cp_root c | None \<Rightarrow> False)
        then Inl (SplitView (cp_size c))
      else
        (case known_latest known of
           None \<Rightarrow> Inr P_None
         | Some (known_size, known_root) \<Rightarrow>
             if known_size = cp_size c then Inr P_Consistent
             else
               (let (m, n, m_root, n_root) =
                  (if known_size < cp_size c then (known_size, cp_size c, known_root, cp_root c)
                   else (cp_size c, known_size, cp_root c, known_root)) in
                case proofs m n of
                  None \<Rightarrow> Inr (P_Unproven known_size)
                | Some proof \<Rightarrow>
                    (case verify_consistency sha m n m_root n_root proof of
                       Inr _ \<Rightarrow> Inr P_Consistent
                     | Inl _ \<Rightarrow> Inl (Inconsistent known_size (cp_size c))))))"

text \<open>The last part of \<^verbatim>\<open>assess_inner\<close>: the level and its limits.\<close>

definition grade :: "policy \<Rightarrow> verified_checkpoint \<Rightarrow> prior \<Rightarrow> nat \<Rightarrow> assessment" where
  "grade p v prior now =
     (let counted = quorum p (vc_cosigners v) now;
          (level, limits) =
            (if counted \<ge> pl_threshold p then (L2, []) else (L1, [QuorumNotMet counted (pl_threshold p)]));
          (level', limits') =
            (case prior of
               P_None \<Rightarrow> (level, limits @ [NoPriorCheckpoint])
             | P_Unproven known_size \<Rightarrow> (level, limits @ [ConsistencyUnavailable known_size])
             | P_Consistent \<Rightarrow> (if level = L2 then L3 else level, limits))
      in \<lparr>as_level = level', as_rejection = None, as_limits = limits', as_checkpoint = Some v\<rparr>)"

definition assess_inner ::
    "hash_fun \<Rightarrow> scalar_writer \<Rightarrow> 'k ed25519 \<Rightarrow> policy \<Rightarrow> inclusion_bundle \<Rightarrow> leaf option \<Rightarrow> known_checkpoints
      \<Rightarrow> consistency_source \<Rightarrow> nat \<Rightarrow> (tr_error + assessment) option" where
  "assess_inner sha ser ed p b expected known proofs now =
     (case note_parse (as_bytes (ib_checkpoint b)) of
        Inl e \<Rightarrow> Some (Inl e)
      | Inr note \<Rightarrow>
          map_option (\<lambda>r.
            bind_res r (\<lambda>v.
            let c = vc_checkpoint v in
            if ib_size b \<noteq> cp_size c then Inl (BundleSizeMismatch (ib_size b) (cp_size c))
            else if (case expected of Some l \<Rightarrow> l \<noteq> ib_leaf b | None \<Rightarrow> False) then Inl LeafMismatch
            else
              bind_res (verify_path sha ser b (cp_root c)) (\<lambda>_.
              bind_res (check_known sha p known c proofs) (\<lambda>prior. Inr (grade p v prior now)))))
            (verify_checkpoint sha ed p note))"

definition assess ::
    "hash_fun \<Rightarrow> scalar_writer \<Rightarrow> 'k ed25519 \<Rightarrow> policy \<Rightarrow> inclusion_bundle \<Rightarrow> leaf option \<Rightarrow> known_checkpoints
      \<Rightarrow> consistency_source \<Rightarrow> nat \<Rightarrow> assessment option" where
  "assess sha ser ed p b expected known proofs now =
     map_option (\<lambda>r. case r of
         Inr a \<Rightarrow> a
       | Inl rejection \<Rightarrow> \<lparr>as_level = L0, as_rejection = Some rejection, as_limits = [], as_checkpoint = None\<rparr>)
       (assess_inner sha ser ed p b expected known proofs now)"

section \<open>What verification establishes\<close>

text \<open>A cosignature of a witness over a checkpoint at a time, and the log's signature.\<close>

definition cosigned :: "'k ed25519 \<Rightarrow> witness \<Rightarrow> checkpoint \<Rightarrow> nat \<Rightarrow> bool" where
  "cosigned ed w c time \<longleftrightarrow>
     (\<exists>signature. ed_verify ed (vk_public (wt_key w)) (cosignature_message (checkpoint_text c) time) signature)"

definition log_signed :: "'k ed25519 \<Rightarrow> policy \<Rightarrow> checkpoint \<Rightarrow> bool" where
  "log_signed ed p c \<longleftrightarrow> (\<exists>signature. ed_verify ed (vk_public (pl_log p)) (as_bytes (checkpoint_text c)) signature)"

lemma note_verify_log:
  assumes "note_verify sha ed note key = Inr (Some time)" and "vk_kind key = KK_Log"
  shows "\<exists>signature. ed_verify ed (vk_public key) (as_bytes (nt_text note)) signature"
  using assms by (auto simp: note_verify_def Let_def result_simps split: option.splits if_splits)

lemma note_verify_cosigner:
  assumes "note_verify sha ed note key = Inr (Some time)" and "vk_kind key = KK_Cosigner"
  shows "\<exists>t signature. time = Some t \<and> ed_verify ed (vk_public key) (cosignature_message (nt_text note) t) signature"
  using assms by (auto simp: note_verify_def Let_def result_simps split: option.splits if_splits)

text \<open>The cosigners are the witnesses with a verified line, in order.\<close>

definition cosigner_of :: "hash_fun \<Rightarrow> 'k ed25519 \<Rightarrow> signed_note \<Rightarrow> witness \<Rightarrow> cosigner option" where
  "cosigner_of sha ed note w =
     (case note_verify sha ed note (wt_key w) of
        Inr (Some (Some time)) \<Rightarrow> Some \<lparr>cs_name = wt_name w, cs_operator = wt_operator w, cs_time = time\<rparr>
      | _ \<Rightarrow> None)"

lemma verify_witnesses_eq:
  "verify_witnesses sha ed note ws = Some (Inr cs) \<Longrightarrow> cs = List.map_filter (cosigner_of sha ed note) ws"
proof (induction ws arbitrary: cs)
  case (Cons w ws)
  then show ?case
    by (auto simp: cosigner_of_def List.map_filter_def result_simps split: sum.splits option.splits)
qed (simp add: List.map_filter_def)

lemma verify_witnesses_no_panic:
  "\<forall>w \<in> set ws. vk_kind (wt_key w) = KK_Cosigner \<Longrightarrow> verify_witnesses sha ed note ws \<noteq> None"
proof (induction ws)
  case (Cons w ws)
  have "note_verify sha ed note (wt_key w) \<noteq> Inr (Some None)" using note_verify_cosigner [of sha ed "note" "wt_key w"] Cons by auto
  with Cons show ?case by (auto split: sum.splits option.splits)
qed simp

lemma verify_checkpoint_ok:
  assumes "verify_checkpoint sha ed p note = Some (Inr v)" and "policy_ok p"
  shows "nt_text note = checkpoint_text (vc_checkpoint v) \<and> checkpoint_ok (vc_checkpoint v) \<and> cp_origin (vc_checkpoint v) = pl_origin p
    \<and> log_signed ed p (vc_checkpoint v) \<and> vc_cosigners v = List.map_filter (cosigner_of sha ed note) (pl_witnesses p)"
proof -
  from assms(1) obtain c time cs where c: "checkpoint_parse (nt_text note) = Inr c" "cp_origin c = pl_origin p"
    and log: "note_verify sha ed note (pl_log p) = Inr (Some time)"
    and cs: "verify_witnesses sha ed note (pl_witnesses p) = Some (Inr cs)" and v: "v = \<lparr>vc_checkpoint = c, vc_cosigners = cs\<rparr>"
    by (auto simp: verify_checkpoint_def result_simps split: sum.splits if_splits option.splits)
  have "vk_kind (pl_log p) = KK_Log" using assms(2) by (simp add: policy_ok_def)
  from note_verify_log [OF log this] c verify_witnesses_eq [OF cs] show ?thesis
    by (simp add: v checkpoint_parse_iff log_signed_def)
qed

lemma cosigner_of_signed:
  assumes "cosigner_of sha ed note w = Some c" and "vk_kind (wt_key w) = KK_Cosigner" and "nt_text note = checkpoint_text cp"
  shows "cs_name c = wt_name w \<and> cs_operator c = wt_operator w \<and> cosigned ed w cp (cs_time c)"
  using assms note_verify_cosigner [of sha ed "note" "wt_key w"]
  by (auto simp: cosigner_of_def cosigned_def split: sum.splits option.splits)

lemma assess_ok:
  assumes "assess sha ser ed p b expected known proofs now = Some a" and "L1 \<le> as_level a"
  obtains nt v prior where "note_parse (as_bytes (ib_checkpoint b)) = Inr nt"
    and "verify_checkpoint sha ed p nt = Some (Inr v)" and "ib_size b = cp_size (vc_checkpoint v)"
    and "\<And>l. expected = Some l \<Longrightarrow> l = ib_leaf b" and "verify_path sha ser b (cp_root (vc_checkpoint v)) = Inr ()"
    and "check_known sha p known (vc_checkpoint v) proofs = Inr prior" and "a = grade p v prior now"
proof -
  from assms(1) obtain r where r: "assess_inner sha ser ed p b expected known proofs now = Some r"
    by (auto simp: assess_def)
  with assms have "r = Inr a" by (cases r) (auto simp: assess_def less_eq_level_def)
  with r have "assess_inner sha ser ed p b expected known proofs now = Some (Inr a)" by simp
  then show ?thesis
    by (auto simp: assess_inner_def result_simps Let_def split: sum.splits option.splits if_splits intro: that)
qed

lemma grade_checkpoint [simp]: "as_checkpoint (grade p v prior now) = Some v" "as_rejection (grade p v prior now) = None"
  by (simp_all add: grade_def Let_def split: prod.splits)

lemma grade_L2: "L2 \<le> as_level (grade p v prior now) \<longleftrightarrow> pl_threshold p \<le> quorum p (vc_cosigners v) now"
  by (auto simp: grade_def Let_def less_eq_level_def split: prior.splits if_splits)

lemma grade_L3: "as_level (grade p v prior now) = L3 \<longleftrightarrow> pl_threshold p \<le> quorum p (vc_cosigners v) now \<and> prior = P_Consistent"
  by (auto simp: grade_def Let_def split: prior.splits if_splits)

lemma grade_L1: "L1 \<le> as_level (grade p v prior now)"
  by (auto simp: grade_def Let_def less_eq_level_def split: prior.splits if_splits)

end
