(* ===== verification/Transparency_Properties.thy ===== *)
theory Transparency_Properties
  imports Tile_Reads Sample
begin

text \<open>
  The properties of the transparency log: its text encodings, the tree in memory as a refinement of RFC
  6962 over the list of leaf hashes, and completeness and soundness of inclusion and consistency proofs.
  The hash function is a parameter; the only assumption on it is the width of its digests, and soundness
  is stated up to two different inputs with the same digest, both of which the statement names.
\<close>

section \<open>Encodings\<close>

text \<open>The byte encodings are exact: \<^verbatim>\<open>unb64\<close> decodes exactly the spelling that \<^verbatim>\<open>b64\<close> writes, so no second spelling (padding
  bits, missing padding, other alphabet) of any bytes is accepted, and \<^verbatim>\<open>unhex_array::<N>\<close> accepts exactly the
  lowercase hexadecimal spelling of \<open>n\<close> bytes and returns them.\<close>

theorem byte_encodings_round_trip:
  "(unb64 t = Inr bs \<longleftrightarrow> t = b64 bs) \<and> (unhex_array n t = Inr bs \<longleftrightarrow> t = hex bs \<and> length bs = n)"
  using unb64_b64 [of bs] b64_unb64 [of t bs] unhex_hex [of bs] hex_unhex [of t bs] by (auto simp: unhex_array_def result_simps)

section \<open>The tree in memory\<close>

text \<open>Appending entries one after the other to \<^verbatim>\<open>MemoryTree::new()\<close>.\<close>

definition append_all :: "hash_fun \<Rightarrow> memory_tree \<Rightarrow> bytes list \<Rightarrow> memory_tree" where
  "append_all sha t entries = fold (\<lambda>e t. fst (append_entry sha t e)) entries t"

abbreviation leaves :: "hash_fun \<Rightarrow> bytes list \<Rightarrow> hash list" where
  "leaves sha entries \<equiv> map (leaf_hash sha) entries"

lemma append_all_levels: "append_all sha (levels_of sha L) entries = levels_of sha (L @ leaves sha entries)"
  by (induction entries arbitrary: L)
    (simp_all add: append_all_def append_entry_def append_leaf_hash_def push_level_levels del: levels_of_simps)

lemma append_all_new: "append_all sha [] entries = levels_of sha (leaves sha entries)"
  using append_all_levels [of sha "[]" entries] by simp

text \<open>C26: \<^verbatim>\<open>MemoryTree\<close> refines the RFC 6962 tree over the list of appended entries: the index it returns for a
  new entry is the number of entries before it, its size is their number, \<^verbatim>\<open>root\<close> is the RFC's tree head,
  \<^verbatim>\<open>tree_root\<close> of every earlier size is the head of that prefix, and a larger size is refused.\<close>

theorem memory_tree_refines_rfc6962:
  "snd (append_entry sha (append_all sha [] entries) e) = length entries
   \<and> hs_size (memory_source (append_all sha [] entries)) = length entries
   \<and> memory_root sha (append_all sha [] entries) = Inr (mth sha (leaves sha entries))
   \<and> tree_root sha (memory_source (append_all sha [] entries)) n
       = (if n \<le> length entries then Inr (mth sha (leaves sha (take n entries)))
          else Inl (SizeOutOfRange n (length entries)))"
  using mem.tree_root_mth [of n "leaves sha entries" sha] mem.tree_root_out_of_range [of "leaves sha entries" n sha]
    mem.tree_root_mth [of "length entries" "leaves sha entries" sha] mem.size_law [of sha "leaves sha entries"]
  by (auto simp: append_entry_def append_leaf_hash_def append_all_new push_level_levels memory_root_def take_map
      simp del: levels_of_simps(2)) (simp_all)

section \<open>Inclusion\<close>

lemma inclusion_proofs_verify:
  assumes "index < n" and "n \<le> length entries" and "n \<le> 2 ^ 64"
  shows "\<exists>proof. inclusion_proof sha (memory_source (append_all sha [] entries)) index n = Inr proof
    \<and> verify_inclusion sha (leaf_hash sha (entries ! index)) index n proof (mth sha (leaves sha (take n entries))) = Inr ()"
  using mem.inclusion_proof_verifies [of index n "leaves sha entries" sha] assms
  by (simp add: append_all_new take_map)

definition tiny_entries :: "bytes list" where
  "tiny_entries = [[1], [2, 3], [], [4], [5]]"

lemma inclusion_accepted:
  assumes "\<And>x. length (sha x) = 32"
    and "hashes L" and "hashes proof" and "length leaf = 32"
    and "verify_inclusion sha leaf index (length L) proof (mth sha L) = Inr ()"
  shows "leaf = L ! index
    \<or> collides sha (steps_inputs sha index (length L - 1) leaf proof) (tree_inputs sha L)"
proof -
  have "index < length L" and "included sha index (length L - 1) leaf proof (mth sha L)"
    using assms(5) by (auto simp: verify_inclusion_def included_def split: if_splits option.splits)
  with assms show ?thesis by (intro inclusion_sound) auto
qed

text \<open>C5: Whatever \<^verbatim>\<open>verify_inclusion\<close> accepts against the head of a tree is the leaf stored at that index, or the
  inputs hashed by the verifier and by the tree contain two different byte strings with the same digest.\<close>

theorem accepted_inclusion_is_true:
  assumes "\<And>x. length (sha x) = 32" and "hashes L" and "hashes proof" and "length leaf = 32"
    and "verify_inclusion sha leaf index (length L) proof (mth sha L) = Inr ()"
  shows "leaf = L ! index
    \<or> collides sha (steps_inputs sha index (length L - 1) leaf proof) (tree_inputs sha L)"
  by (rule inclusion_accepted [OF assms])

definition tiny_leaves :: "hash list" where
  "tiny_leaves = [replicate 32 1, replicate 32 2, replicate 32 3]"

lemma tiny_leaves_facts: "length tiny_leaves = 3" "hashes tiny_leaves"
  by (simp_all add: tiny_leaves_def hashes_def)

lemma sample_sha_width: "length (sample_sha x) = 32"
  by (simp add: sample_sha_def)

definition tiny_proof :: "hash list" where
  "tiny_proof = [replicate 32 2, replicate 32 3]"

theorem accepted_inclusion_is_true_witness:
  "verify_inclusion sample_sha (replicate 32 1) 0 3 tiny_proof (mth sample_sha tiny_leaves) = Inr ()
   \<and> (replicate 32 1 = tiny_leaves ! 0
      \<or> collides sample_sha (steps_inputs sample_sha 0 2 (replicate 32 1) tiny_proof) (tree_inputs sample_sha tiny_leaves))"
proof -
  have ok: "verify_inclusion sample_sha (replicate 32 1) 0 3 tiny_proof (mth sample_sha tiny_leaves) = Inr ()"
    by code_simp
  have "hashes tiny_proof" by (simp add: hashes_def tiny_proof_def)
  with ok show ?thesis
    using accepted_inclusion_is_true [of sample_sha tiny_leaves tiny_proof "replicate 32 1" 0]
    by (simp add: tiny_leaves_facts sample_sha_width)
qed

section \<open>Consistency\<close>

lemma consistency_proofs_verify:
  assumes "m \<le> n" and "n \<le> length entries" and "n \<le> 2 ^ 64"
  shows "\<exists>proof. consistency_proof sha (memory_source (append_all sha [] entries)) m n = Inr proof
    \<and> verify_consistency sha m n (mth sha (leaves sha (take m entries))) (mth sha (leaves sha (take n entries))) proof = Inr ()"
  using mem.consistency_proof_verifies [of m n "leaves sha entries" sha] assms
  by (simp add: append_all_new take_map)

text \<open>C29: Every proof the log can be asked for is generated and accepted: for an index below a stored size \<open>n\<close> the client's
  \<^verbatim>\<open>verify_inclusion\<close> accepts the generated path for that entry against the head of size \<open>n\<close>, and for any two
  sizes in order \<^verbatim>\<open>verify_consistency\<close> accepts the generated proof for the two heads. The proof-length limits
  never reject a tree of up to \<open>2 ^ 64\<close> leaves.\<close>

theorem generated_proofs_verify:
  assumes "m \<le> n" and "n \<le> length entries" and "n \<le> 2 ^ 64"
  shows "(m < n \<longrightarrow> (\<exists>proof. inclusion_proof sha (memory_source (append_all sha [] entries)) m n = Inr proof
      \<and> verify_inclusion sha (leaf_hash sha (entries ! m)) m n proof (mth sha (leaves sha (take n entries))) = Inr ()))
    \<and> (\<exists>proof. consistency_proof sha (memory_source (append_all sha [] entries)) m n = Inr proof
      \<and> verify_consistency sha m n (mth sha (leaves sha (take m entries))) (mth sha (leaves sha (take n entries))) proof = Inr ())"
  using inclusion_proofs_verify [of m n entries sha] consistency_proofs_verify [OF assms] assms(2,3) by blast

theorem generated_proofs_verify_witness:
  "(\<exists>proof. inclusion_proof sample_sha (memory_source (append_all sample_sha [] tiny_entries)) 2 5 = Inr proof
    \<and> verify_inclusion sample_sha (leaf_hash sample_sha []) 2 5 proof (mth sample_sha (leaves sample_sha tiny_entries)) = Inr ())
   \<and> (\<exists>proof. consistency_proof sample_sha (memory_source (append_all sample_sha [] tiny_entries)) 2 5 = Inr proof
    \<and> verify_consistency sample_sha 2 5 (mth sample_sha (leaves sample_sha (take 2 tiny_entries)))
        (mth sample_sha (leaves sample_sha tiny_entries)) proof = Inr ())"
  using generated_proofs_verify [of 2 5 tiny_entries sample_sha] by (simp add: tiny_entries_def)

text \<open>The inputs the verifier of a consistency proof hashes towards the second root.\<close>

definition consistency_inputs :: "hash_fun \<Rightarrow> nat \<Rightarrow> nat \<Rightarrow> hash \<Rightarrow> hash list \<Rightarrow> bytes list" where
  "consistency_inputs sha m n root proof =
     (case (if is_power_of_two m then [root] else []) @ proof of
        [] \<Rightarrow> []
      | start # path \<Rightarrow> (let (f, s) = strip_ones (m - 1) (n - 1) in steps_inputs sha f s start path))"

lemma consistency_accepted:
  assumes sha: "\<And>x. length (sha x) = 32"
    and "hashes L" and "hashes proof" and "length root = 32"
    and acc: "verify_consistency sha m (length L) root (mth sha L) proof = Inr ()"
  shows "m \<le> length L \<and> (root = mth sha (take m L)
    \<or> collides sha (consistency_inputs sha m (length L) root proof) (tree_inputs sha L))"
proof (cases "m = 0 \<or> m = length L")
  case True
  then show ?thesis using acc by (auto simp: verify_consistency_def split: if_splits)
next
  case False
  then have m: "0 < m" "m < length L" using acc by (auto simp: verify_consistency_def split: if_splits)
  define path where "path = (if is_power_of_two m then [root] else []) @ proof"
  obtain start p where p: "path = start # p"
    using acc m by (auto simp: verify_consistency_def path_def split: if_splits list.splits)
  obtain f s where fs: "strip_ones (m - 1) (length L - 1) = (f, s)" by fastforce
  have "consistent sha f s start start p root (mth sha L)"
    using acc m fs p by (auto simp: verify_consistency_def consistent_def path_def split: if_splits option.splits)
  moreover have "hashes p" "length start = 32"
    using assms p by (auto simp: path_def hashes_def list_all_iff split: if_splits)
  ultimately have "root = mth sha (take (m - 1 + 1) L) \<or> collides sha (steps_inputs sha f s start p) (tree_inputs sha L)"
    using m assms(2) fs by (intro strip_ones_sound [OF sha]) auto
  then show ?thesis using m p fs by (simp add: consistency_inputs_def path_def [symmetric])
qed

text \<open>C6: A first root that \<^verbatim>\<open>verify_consistency\<close> connects to the head of a tree is the head of that tree's prefix of
  the first size, so no earlier entry was rewritten, dropped or reordered; or the inputs hashed by the
  verifier and by the tree contain two different byte strings with the same digest.\<close>

theorem accepted_consistency_is_append_only:
  assumes "\<And>x. length (sha x) = 32" and "hashes L" and "hashes proof" and "length root = 32"
    and "verify_consistency sha m (length L) root (mth sha L) proof = Inr ()"
  shows "m \<le> length L \<and> (root = mth sha (take m L)
    \<or> collides sha (consistency_inputs sha m (length L) root proof) (tree_inputs sha L))"
  by (rule consistency_accepted [OF assms])

theorem accepted_consistency_is_append_only_witness:
  "verify_consistency sample_sha 2 3 (replicate 32 1) (mth sample_sha tiny_leaves) [replicate 32 3] = Inr ()
   \<and> (replicate 32 1 = mth sample_sha (take 2 tiny_leaves)
      \<or> collides sample_sha (consistency_inputs sample_sha 2 3 (replicate 32 1) [replicate 32 3]) (tree_inputs sample_sha tiny_leaves))"
proof -
  have ok: "verify_consistency sample_sha 2 3 (replicate 32 1) (mth sample_sha tiny_leaves) [replicate 32 3] = Inr ()"
    by code_simp
  moreover have "hashes [replicate 32 3]" by (simp add: hashes_def)
  ultimately show ?thesis
    using accepted_consistency_is_append_only [of sample_sha tiny_leaves "[replicate 32 3]" "replicate 32 1" 2]
    by (simp add: tiny_leaves_facts sample_sha_width)
qed

section \<open>The tile log\<close>

text \<open>The histories of a tile log over a store: it starts from a store whose size marker is 0, takes batches, any
  of which may fail at any store operation, and may be reopened from what the store holds. The list is that
  of the entries whose batch was acknowledged.\<close>

inductive tile_run ::
    "hash_fun \<Rightarrow> 's tile_ops \<Rightarrow> ('s \<Rightarrow> string \<Rightarrow> bytes option) \<Rightarrow> ('s \<Rightarrow> nat) \<Rightarrow> 's tile_log \<Rightarrow> bytes list \<Rightarrow> bool"
  for sha ops files marker where
  start: "marker s = 0 \<Longrightarrow> tile_run sha ops files marker \<lparr>tl_store = s, tl_size = 0, tl_frontier = []\<rparr> []"
| batch: "tile_run sha ops files marker log entries \<Longrightarrow> length entries + length new < 2 ^ 64 \<Longrightarrow>
    append_batch sha ops log new = (r, log') \<Longrightarrow>
    tile_run sha ops files marker log' (case r of Inl _ \<Rightarrow> entries | Inr _ \<Rightarrow> entries @ new)"
| reopen: "tile_run sha ops files marker log entries \<Longrightarrow>
    (\<And>p. t_get ops (tl_store log) p = Inr (files (tl_store log) p)) \<Longrightarrow> tile_open sha ops (tl_store log) = Inr log' \<Longrightarrow>
    tile_run sha ops files marker log' entries"

lemma tile_run_ok:
  assumes run: "tile_run sha ops files marker log entries" and st: "tile_store ops files marker"
    and sha: "\<And>x. length (sha x) = 32"
  shows "log_ok_for sha entries (tl_size log) (tl_frontier log) (files (tl_store log)) (marker (tl_store log))"
  using run
proof induction
  case (start s)
  then show ?case by (simp add: empty_log_ok)
next
  case (batch log entries new r log')
  then show ?case using tile_store.append_batch_spec [OF st sha batch.IH batch.hyps(2,3)] by blast
next
  case (reopen log entries log')
  obtain m where "t_size ops (tl_store log) = Inr m"
    using reopen.hyps(3) by (auto simp: tile_open_def result_simps)
  from tile_store.tile_open_ok [OF st sha reopen.IH reopen.hyps(2) this] reopen.hyps(3) reopen.IH
  show ?case by auto
qed

text \<open>C3: Batches are atomic and durable: whatever store operations failed on the way, after any history a readable
  store reopens to exactly the acknowledged entries. The reopened log has their number as its size, their
  RFC 6962 head as its root and each of them at its index; stray tiles of failed batches are never seen.\<close>

theorem tile_batches_are_atomic:
  assumes "tile_run sha ops files marker log entries" and "tile_store ops files marker" and "\<And>x. length (sha x) = 32"
    and "\<And>p. t_get ops (tl_store log) p = Inr (files (tl_store log) p)" and "t_size ops (tl_store log) = Inr m"
  shows "\<exists>log'. tile_open sha ops (tl_store log) = Inr log' \<and> tl_size log' = length entries
    \<and> tile_root sha log' = mth sha (leaves sha entries)
    \<and> (\<forall>i. tile_entry ops log' i = (if i < length entries then Inr (entries ! i) else Inl (IndexOutOfRange i (length entries))))"
proof -
  let ?log = "\<lparr>tl_store = tl_store log, tl_size = tl_size log, tl_frontier = tl_frontier log\<rparr>"
  have ok: "log_ok_for sha entries (tl_size log) (tl_frontier log) (files (tl_store log)) (marker (tl_store log))"
    using tile_run_ok [OF assms(1,2,3)] .
  have "tile_open sha ops (tl_store log) = Inr ?log"
    by (rule tile_store.tile_open_ok [OF assms(2,3) ok assms(4,5)])
  moreover have "tl_size ?log = length entries" using ok by (simp add: log_ok_for_def)
  moreover have "tile_root sha ?log = mth sha (leaves sha entries)"
    by (rule tile_store.tile_root_ok [OF assms(2)]) (use ok in simp)
  moreover have "tile_entry ops ?log i = (if i < length entries then Inr (entries ! i) else Inl (IndexOutOfRange i (length entries)))" for i
    by (rule tile_store.tile_entry_ok [OF assms(2)]) (use ok assms(4) in simp_all)
  ultimately show ?thesis by blast
qed

text \<open>A store that refuses to commit more than three entries, for the witness: the second batch writes all its
  tiles and then fails to commit.\<close>

definition crashing_ops :: "memory_tile_store tile_ops" where
  "crashing_ops = memory_tile_ops\<lparr>t_set_size :=
     (\<lambda>s n. if n > 3 then (Inl (TR_Storage ''crash''), s) else t_set_size memory_tile_ops s n)\<rparr>"

interpretation crash: tile_store crashing_ops "\<lambda>s p. bt_get (mts_files s) p" mts_size
  by unfold_locales (auto simp: crashing_ops_def memory_tile_ops_def fun_eq_iff split: if_splits)

definition empty_tile_log :: "memory_tile_store tile_log" where
  "empty_tile_log = \<lparr>tl_store = memory_tile_new, tl_size = 0, tl_frontier = []\<rparr>"

definition committed_log :: "memory_tile_store tile_log" where
  "committed_log = snd (append_batch sample_sha crashing_ops empty_tile_log (take 2 tiny_entries))"

definition crashed_log :: "memory_tile_store tile_log" where
  "crashed_log = snd (append_batch sample_sha crashing_ops committed_log (drop 2 tiny_entries))"

lemma batch_results:
  "fst (append_batch sample_sha crashing_ops empty_tile_log (take 2 tiny_entries)) = Inr 0"
  "fst (append_batch sample_sha crashing_ops committed_log (drop 2 tiny_entries)) = Inl (TR_Storage ''crash'')"
  by code_simp+

lemma crashed_run:
  "tile_run sample_sha crashing_ops (\<lambda>s p. bt_get (mts_files s) p) mts_size crashed_log (take 2 tiny_entries)"
proof -
  let ?run = "tile_run sample_sha crashing_ops (\<lambda>s p. bt_get (mts_files s) p) mts_size"
  have "?run empty_tile_log []" unfolding empty_tile_log_def by (rule start) (simp add: memory_tile_new_def)
  then have "?run committed_log ([] @ take 2 tiny_entries)"
    using batch [of sample_sha crashing_ops _ mts_size empty_tile_log "[]" "take 2 tiny_entries" "Inr 0" committed_log]
      batch_results(1) by (simp add: committed_log_def tiny_entries_def prod_eq_iff)
  then show ?thesis
    using batch [of sample_sha crashing_ops _ mts_size committed_log "take 2 tiny_entries" "drop 2 tiny_entries"
        "Inl (TR_Storage ''crash'')" crashed_log] batch_results(2)
    by (simp add: crashed_log_def tiny_entries_def prod_eq_iff)
qed

theorem tile_batches_are_atomic_witness:
  "\<exists>log'. tile_open sample_sha crashing_ops (tl_store crashed_log) = Inr log' \<and> tl_size log' = 2
    \<and> tile_root sample_sha log' = mth sample_sha (leaves sample_sha [[1], [2, 3]]) \<and> tile_entry crashing_ops log' 1 = Inr [2, 3]"
proof -
  have "t_get crashing_ops s p = Inr (bt_get (mts_files s) p)" "t_size crashing_ops s = Inr (mts_size s)" for s p
    by (simp_all add: crashing_ops_def memory_tile_ops_def)
  from tile_batches_are_atomic [OF crashed_run crash.tile_store_axioms sample_sha_width this]
  obtain log' where "tile_open sample_sha crashing_ops (tl_store crashed_log) = Inr log'" "tl_size log' = length (take 2 tiny_entries)"
    "tile_root sample_sha log' = mth sample_sha (leaves sample_sha (take 2 tiny_entries))"
    "tile_entry crashing_ops log' 1 = (if 1 < length (take 2 tiny_entries) then Inr (take 2 tiny_entries ! 1) else Inl (IndexOutOfRange 1 (length (take 2 tiny_entries))))"
    by metis
  then show ?thesis by (auto simp: tiny_entries_def)
qed

text \<open>C25: The tile log serves the same tree as the tree in memory over the acknowledged entries: the head of every
  size, every inclusion proof and every consistency proof are equal, whatever batches the entries came in.\<close>

theorem tile_log_equals_memory_tree:
  assumes "tile_run sha ops files marker log entries" and "tile_store ops files marker" and "\<And>x. length (sha x) = 32"
    and "\<And>p. t_get ops (tl_store log) p = Inr (files (tl_store log) p)"
  shows "tree_root sha (tile_source sha ops log) n = tree_root sha (memory_source (append_all sha [] entries)) n
    \<and> inclusion_proof sha (tile_source sha ops log) m n = inclusion_proof sha (memory_source (append_all sha [] entries)) m n
    \<and> consistency_proof sha (tile_source sha ops log) m n = consistency_proof sha (memory_source (append_all sha [] entries)) m n"
proof -
  have tree: "stored_tree sha (tile_source sha ops log) (leaves sha entries)"
    by (rule tile_store.tile_log_stored_tree [OF assms(2,3) tile_run_ok [OF assms(1,2,3)] assms(4)])
  show ?thesis unfolding append_all_new by (rule same_tree [OF tree mem.stored_tree_axioms])
qed

theorem tile_log_equals_memory_tree_witness:
  "inclusion_proof sample_sha (tile_source sample_sha crashing_ops crashed_log) 1 2
     = inclusion_proof sample_sha (memory_source (append_all sample_sha [] (take 2 tiny_entries))) 1 2"
proof -
  have "t_get crashing_ops s p = Inr (bt_get (mts_files s) p)" for s p
    by (simp add: crashing_ops_def memory_tile_ops_def)
  from tile_log_equals_memory_tree [OF crashed_run crash.tile_store_axioms sample_sha_width this, where m = 1 and n = 2]
  show ?thesis by blast
qed

end
