(* ===== verification/Honest_Log.thy ===== *)
theory Honest_Log
  imports Assurance Transparency_Properties
begin

text \<open>
  The honest path through the transparency log: the log signs its checkpoint, every witness of the policy
  cosigns it, the log builds a bundle, and the client assesses it. \<open>honest_bundle_l3\<close> shows that this reaches
  level 3 whenever the client's known checkpoints are earlier heads of the same log.
\<close>

section \<open>Times\<close>

lemma digits_value:
  "foldl (\<lambda>m b. 256 * m + unat b) a (map (\<lambda>i. word_of_nat (n div 256 ^ i mod 256) :: byte) (rev [0..<k])) = a * 256 ^ k + n mod 256 ^ k"
proof (induction k arbitrary: a)
  case (Suc k)
  have "n mod (256 * 256 ^ k) = 256 ^ k * (n div 256 ^ k mod 256) + n mod 256 ^ k"
    using mod_mult2_eq [of n "256 ^ k" 256] by (simp add: mult.commute)
  then show ?case using Suc by (simp add: unat_word_of_nat_byte algebra_simps)
qed simp

lemma u64_value_be_bytes: "n < 2 ^ 64 \<Longrightarrow> u64_value (u64_be_bytes n) = n"
proof -
  assume n: "n < 2 ^ 64"
  have "[7, 6, 5, 4, 3, 2, 1, 0] = rev [0..<8 :: nat]" by (simp add: upt_rec)
  then have "u64_value (u64_be_bytes n) = n mod 256 ^ 8"
    using digits_value [of 0 n 8] by (simp only: u64_value_def u64_be_bytes_def mult_0 add_0)
  with n show ?thesis by simp
qed

section \<open>Signing a checkpoint\<close>

fun cosign_all ::
    "hash_fun \<Rightarrow> 'k ed25519 \<Rightarrow> signed_note \<Rightarrow> ('k signer \<times> nat) list \<Rightarrow> tr_error + signed_note" where
  "cosign_all sha ed note [] = Inr note"
| "cosign_all sha ed note ((s, time) # ws) =
     bind_res (cosign_checkpoint sha ed s (nt_text note) time) (\<lambda>line.
     bind_res (with_signature note line) (\<lambda>note'. cosign_all sha ed note' ws))"

definition log_line :: "hash_fun \<Rightarrow> 'k ed25519 \<Rightarrow> string \<Rightarrow> 'k signer \<Rightarrow> note_signature" where
  "log_line sha ed body s = signer_line sha ed s (ed_sign ed (sr_pair s) (as_bytes body))"

definition witness_line :: "hash_fun \<Rightarrow> 'k ed25519 \<Rightarrow> string \<Rightarrow> 'k signer \<times> nat \<Rightarrow> note_signature" where
  "witness_line sha ed body w =
     signer_line sha ed (fst w) (u64_be_bytes (snd w) @ ed_sign ed (sr_pair (fst w)) (cosignature_message body (snd w)))"

lemma line_name [simp]:
  "ns_name (log_line sha ed body s) = sr_name s" "ns_name (witness_line sha ed body w) = sr_name (fst w)"
  by (simp_all add: log_line_def witness_line_def signer_line_def)

lemma cosign_all_ok:
  assumes "checkpoint_parse (nt_text n) = Inr c" and "\<forall>w \<in> set ws. sr_kind (fst w) = KK_Cosigner"
    and "distinct (map ns_name (nt_signatures n) @ map (sr_name \<circ> fst) ws)"
  shows "cosign_all sha ed n ws = Inr (n\<lparr>nt_signatures := nt_signatures n @ map (witness_line sha ed (nt_text n)) ws\<rparr>)"
  using assms
proof (induction ws arbitrary: n)
  case (Cons w ws)
  obtain s time where w: "w = (s, time)" by fastforce
  let ?line = "witness_line sha ed (nt_text n) w"
  have line: "cosign_checkpoint sha ed s (nt_text n) time = Inr ?line"
    using Cons.prems by (simp add: cosign_checkpoint_def witness_line_def w)
  have "\<not> list_ex (\<lambda>t. ns_name t = ns_name ?line \<and> ns_key_id t = ns_key_id ?line) (nt_signatures n)"
    using Cons.prems(3) by (force simp: list_ex_iff w)
  then have "with_signature n ?line = Inr (n\<lparr>nt_signatures := nt_signatures n @ [?line]\<rparr>)"
    by (simp add: with_signature_def)
  moreover have "cosign_all sha ed (n\<lparr>nt_signatures := nt_signatures n @ [?line]\<rparr>) ws =
      Inr (n\<lparr>nt_signatures := nt_signatures n @ map (witness_line sha ed (nt_text n)) (w # ws)\<rparr>)"
    using Cons.IH [of "n\<lparr>nt_signatures := nt_signatures n @ [?line]\<rparr>"] Cons.prems by simp
  ultimately show ?case using line by (simp add: w)
qed simp

lemma signer_key_sel [simp]:
  "vk_name (signer_key ed s) = sr_name s" "vk_kind (signer_key ed s) = sr_kind s"
  "vk_public (signer_key ed s) = ed_public ed (sr_pair s)"
  by (simp_all add: signer_key_def)

section \<open>Verifying what was signed\<close>

lemma find_by_name:
  assumes "distinct (map f xs)" and "x \<in> set xs" and "P x" and "\<And>y. P y \<Longrightarrow> f y = f x"
  shows "find P xs = Some x"
  using assms
proof (induction xs)
  case (Cons y ys)
  show ?case
  proof (cases "P y")
    case True
    then have "f y = f x" using Cons.prems(4) by blast
    then have "y = x" using Cons.prems(1,2) by (auto simp: image_iff)
    with True show ?thesis by simp
  next
    case False
    then have "x \<in> set ys" using Cons.prems(2,3) by auto
    then have "find P ys = Some x" using Cons.prems(1,3,4) by (intro Cons.IH) (simp, assumption+)
    with False show ?thesis by simp
  qed
qed simp

lemma verify_log_line:
  assumes ed: "ed25519_ok ed" and "distinct (map ns_name (nt_signatures n))" and "log_line sha ed (nt_text n) s \<in> set (nt_signatures n)"
    and "sr_kind s = KK_Log"
  shows "note_verify sha ed n (signer_key ed s) = Inr (Some None)"
proof -
  have "find (\<lambda>t. ns_name t = sr_name s \<and> ns_key_id t = vk_key_id sha (signer_key ed s)) (nt_signatures n) = Some (log_line sha ed (nt_text n) s)"
    by (rule find_by_name [OF assms(2,3)]) (auto simp: log_line_def signer_line_def)
  then show ?thesis
    using ed assms(4) by (simp add: note_verify_def signer_key_def log_line_def signer_line_def ed25519_ok_def)
qed

lemma verify_witness_line:
  assumes ed: "ed25519_ok ed" and "distinct (map ns_name (nt_signatures n))" and "witness_line sha ed (nt_text n) w \<in> set (nt_signatures n)"
    and "sr_kind (fst w) = KK_Cosigner" and "snd w < 2 ^ 64"
  shows "note_verify sha ed n (signer_key ed (fst w)) = Inr (Some (Some (snd w)))"
proof -
  let ?s = "fst w"
  have "find (\<lambda>t. ns_name t = sr_name ?s \<and> ns_key_id t = vk_key_id sha (signer_key ed ?s)) (nt_signatures n) = Some (witness_line sha ed (nt_text n) w)"
    by (rule find_by_name [OF assms(2,3)]) (auto simp: witness_line_def signer_line_def)
  then show ?thesis
    using ed assms(4) u64_value_be_bytes [OF assms(5)]
    by (simp add: note_verify_def signer_key_def witness_line_def signer_line_def ed25519_ok_def Let_def)
qed

section \<open>The note is well-formed\<close>

lemma origin_printable: "origin_new origin = Inr origin \<Longrightarrow> list_all (byte_in 33 126) origin \<and> origin \<noteq> []"
  by (auto simp: origin_new_def strip_suffix_def split: if_splits option.splits)

lemma printable_utf8: "list_all (byte_in 33 126) s \<Longrightarrow> utf8_valid s"
  by (rule utf8_valid_ascii) (auto simp: list_all_iff dest: printable_neq)

lemma printable_hd: "list_all (byte_in 33 126) s \<Longrightarrow> s = [] \<or> \<not> is_cont (hd s)"
  by (cases s) (auto simp: byte_in_def is_cont_def)

lemma checkpoint_text_plain:
  assumes "list_all (byte_in 33 126) (cp_origin c)"
  shows "utf8_valid (checkpoint_text c) \<and> check_characters (checkpoint_text c) = Inr ()"
proof -
  let ?d = "dec_nat (cp_size c)" and ?b = "b64 (cp_root c)"
  have plain: "list_all (byte_in 33 126) ?d" "list_all (byte_in 33 126) ?b"
    by (auto simp: list_all_iff dest: dec_nat_printable b64_printable)
  have nl1: "check_characters [nl] = Inr ()" by code_simp
  have line: "check_characters (s @ nl # rest) = Inr () \<longleftrightarrow> check_characters rest = Inr ()"
    if "list_all (byte_in 33 126) s" "rest = [] \<or> \<not> is_cont (hd rest)" for s rest
    using check_characters_append [of "nl # rest" s] check_characters_append [of rest "[nl]"] check_characters_printable [OF that(1)]
      that(2) nl1 nl_not_cont by simp
  have "check_characters [] = Inr ()" by (simp add: check_characters_def)
  moreover have "\<not> is_cont (hd (?b @ [nl]))" "\<not> is_cont (hd (?d @ nl # ?b @ [nl]))"
    using printable_hd [OF plain(1)] printable_hd [OF plain(2)] nl_not_cont by (cases ?b; cases ?d; simp)+
  ultimately have "check_characters (checkpoint_text c) = Inr ()"
    using line [OF assms, of "?d @ nl # ?b @ [nl]"] line [OF plain(1), of "?b @ [nl]"] line [OF plain(2), of "[]"]
    by (simp add: checkpoint_text_def)
  moreover have "utf8_valid (checkpoint_text c)"
    using plain assms printable_utf8 by (simp add: checkpoint_text_def utf8_valid_append [OF nl_not_cont])
  ultimately show ?thesis by blast
qed

lemma checkpoint_text_end: "checkpoint_text c \<noteq> [] \<and> last (checkpoint_text c) = nl"
  by (simp add: checkpoint_text_def)

text \<open>The parties: the log's signer and, for each witness of the policy, a signer and the time it signs.\<close>

definition parties_ok :: "'k ed25519 \<Rightarrow> policy \<Rightarrow> 'k signer \<Rightarrow> ('k signer \<times> nat) list \<Rightarrow> nat \<Rightarrow> bool" where
  "parties_ok ed p s ws now \<longleftrightarrow>
     ed25519_ok ed \<and> policy_ok p \<and> origin_new (pl_origin p) = Inr (pl_origin p) \<and> signer_key ed s = pl_log p
     \<and> map (\<lambda>w. signer_key ed (fst w)) ws = map wt_key (pl_witnesses p)
     \<and> (\<forall>w \<in> set ws. snd w < 2 ^ 64 \<and> abs_diff (snd w) now \<le> pl_max_age_seconds p \<and> utf8_valid (sr_name (fst w)))"

definition full_note :: "hash_fun \<Rightarrow> 'k ed25519 \<Rightarrow> checkpoint \<Rightarrow> 'k signer \<Rightarrow> ('k signer \<times> nat) list \<Rightarrow> signed_note" where
  "full_note sha ed c s ws =
     \<lparr>nt_text = checkpoint_text c,
      nt_signatures = log_line sha ed (checkpoint_text c) s # map (witness_line sha ed (checkpoint_text c)) ws\<rparr>"

lemma parties_names:
  assumes "parties_ok ed p s ws now"
  shows "distinct (sr_name s # map (sr_name \<circ> fst) ws)" and "sr_name s = pl_origin p" and "sr_kind s = KK_Log"
    and "\<And>w. w \<in> set ws \<Longrightarrow> sr_kind (fst w) = KK_Cosigner \<and> valid_key_name (sr_name (fst w))" and "valid_key_name (sr_name s)"
proof -
  note p = assms [unfolded parties_ok_def policy_ok_def key_ok_def]
  have keys: "map (\<lambda>w. signer_key ed (fst w)) ws = map wt_key (pl_witnesses p)" and key: "signer_key ed s = pl_log p"
    using p by blast+
  have names: "map (sr_name \<circ> fst) ws = map wt_name (pl_witnesses p)"
  proof -
    have "map (sr_name \<circ> fst) ws = map vk_name (map (\<lambda>w. signer_key ed (fst w)) ws)" by simp
    also have "\<dots> = map wt_name (pl_witnesses p)" unfolding keys using p by simp
    finally show ?thesis .
  qed
  have sel: "sr_name s = vk_name (pl_log p)" "sr_kind s = vk_kind (pl_log p)" unfolding key [symmetric] by simp_all
  show s: "sr_name s = pl_origin p" "sr_kind s = KK_Log" "valid_key_name (sr_name s)"
    unfolding sel using p by auto
  have "pl_origin p \<notin> set (map wt_name (pl_witnesses p))" using p by auto
  then show "distinct (sr_name s # map (sr_name \<circ> fst) ws)" unfolding names distinct.simps(2) s using p by blast
  show "sr_kind (fst w) = KK_Cosigner \<and> valid_key_name (sr_name (fst w))" if "w \<in> set ws" for w
  proof -
    have "signer_key ed (fst w) \<in> set (map (\<lambda>w. signer_key ed (fst w)) ws)" using that by simp
    then obtain u where u: "u \<in> set (pl_witnesses p)" "signer_key ed (fst w) = wt_key u" unfolding keys by auto
    have "sr_kind (fst w) = vk_kind (wt_key u)" "sr_name (fst w) = vk_name (wt_key u)" unfolding u(2) [symmetric] by simp_all
    moreover have "vk_kind (wt_key u) = KK_Cosigner \<and> valid_key_name (vk_name (wt_key u))" using p u(1) by blast
    ultimately show ?thesis by simp
  qed
qed

lemma signed_note_complete:
  assumes parties: "parties_ok ed p s ws now" and c: "checkpoint_ok c" "cp_origin c = pl_origin p"
  shows "bind_res (bind_res (note_new (checkpoint_text c)) (\<lambda>n. bind_res (sign_checkpoint sha ed s (checkpoint_text c)) (with_signature n)))
      (\<lambda>n. cosign_all sha ed n ws) = Inr (full_note sha ed c s ws)"
proof -
  note names = parties_names [OF parties]
  let ?t = "checkpoint_text c" let ?n = "\<lparr>nt_text = ?t, nt_signatures = [log_line sha ed ?t s]\<rparr>"
  have parse: "checkpoint_parse ?t = Inr c" using c(1) by (simp add: checkpoint_parse_iff)
  have "origin_new (cp_origin c) = Inr (cp_origin c)" using parties c by (simp add: parties_ok_def)
  then have "note_new ?t = Inr \<lparr>nt_text = ?t, nt_signatures = []\<rparr>"
    using checkpoint_text_plain [of c] origin_printable checkpoint_text_end by (simp add: note_new_iff)
  moreover have "sign_checkpoint sha ed s ?t = Inr (log_line sha ed ?t s)"
    using names(2,3) c parse by (simp add: sign_checkpoint_def log_line_def)
  moreover have "with_signature \<lparr>nt_text = ?t, nt_signatures = []\<rparr> (log_line sha ed ?t s) = Inr ?n"
    by (simp add: with_signature_def)
  moreover have "cosign_all sha ed ?n ws = Inr (full_note sha ed c s ws)"
    using cosign_all_ok [of ?n c ws sha ed] parse names(1,4) by (simp add: full_note_def)
  ultimately show ?thesis by simp
qed

lemma full_note_ok:
  assumes sha: "\<And>x. length (sha x) = 32" and parties: "parties_ok ed p s ws now"
    and c: "cp_origin c = pl_origin p"
  shows "note_ok (full_note sha ed c s ws)"
proof -
  note names = parties_names [OF parties]
  let ?t = "checkpoint_text c"
  have origin: "origin_new (cp_origin c) = Inr (cp_origin c)" and ed: "ed25519_ok ed" using parties c by (simp_all add: parties_ok_def)
  have kid: "length (vk_key_id sha k) = 4" for k using sha by (simp add: vk_key_id_def key_id_def)
  have "utf8_valid (sr_name s)" using names(2) c origin origin_printable printable_utf8 by metis
  then have "signature_ok (log_line sha ed ?t s)"
    using names(5) kid ed by (simp add: signature_ok_def log_line_def signer_line_def ed25519_ok_def) (metis length_0_conv zero_neq_numeral)
  moreover have "signature_ok (witness_line sha ed ?t w)" if "w \<in> set ws" for w
    using names(4) [OF that] kid parties that by (simp add: signature_ok_def witness_line_def signer_line_def parties_ok_def u64_be_bytes_def)
  ultimately have sigs: "list_all signature_ok (nt_signatures (full_note sha ed c s ws))"
    by (simp add: full_note_def list_all_iff)
  have "distinct (map ns_name (nt_signatures (full_note sha ed c s ws)))"
    using names(1) by (simp add: full_note_def comp_def)
  then have "distinct (map (\<lambda>s. (ns_name s, ns_key_id s)) (nt_signatures (full_note sha ed c s ws)))"
    by (simp add: distinct_map inj_on_def)
  with sigs checkpoint_text_plain [of c] origin_printable [OF origin] checkpoint_text_end show ?thesis
    by (simp add: note_ok_def full_note_def)
qed

lemma full_note_verified:
  assumes parties: "parties_ok ed p s ws now" and c: "checkpoint_ok c" "cp_origin c = pl_origin p"
  shows "\<exists>cs. verify_checkpoint sha ed p (full_note sha ed c s ws) = Some (Inr \<lparr>vc_checkpoint = c, vc_cosigners = cs\<rparr>)
    \<and> pl_threshold p \<le> quorum p cs now"
proof -
  note names = parties_names [OF parties]
  let ?n = "full_note sha ed c s ws"
  have ed: "ed25519_ok ed" and keys: "map (\<lambda>w. signer_key ed (fst w)) ws = map wt_key (pl_witnesses p)" and p: "policy_ok p"
    using parties by (simp_all add: parties_ok_def)
  have dist: "distinct (map ns_name (nt_signatures ?n))" using names(1) by (simp add: full_note_def comp_def)
  have log: "note_verify sha ed ?n (pl_log p) = Inr (Some None)"
    using verify_log_line [OF ed dist, of sha s] names(3) parties by (simp add: full_note_def parties_ok_def)
  define cs where "cs = map2 (\<lambda>w u. \<lparr>cs_name = wt_name u, cs_operator = wt_operator u, cs_time = snd w\<rparr>) ws (pl_witnesses p)"
  have "verify_witnesses sha ed ?n us = Some (Inr (map2 (\<lambda>w u. \<lparr>cs_name = wt_name u, cs_operator = wt_operator u, cs_time = snd w\<rparr>) vs us))"
    if "map (\<lambda>w. signer_key ed (fst w)) vs = map wt_key us" "set vs \<subseteq> set ws" for vs us
    using that
  proof (induction us arbitrary: vs)
    case (Cons u us)
    then obtain w vs' where vs: "vs = w # vs'" "wt_key u = signer_key ed (fst w)" by (cases vs) auto
    have "note_verify sha ed ?n (signer_key ed (fst w)) = Inr (Some (Some (snd w)))"
      using Cons.prems(2) vs names(4) parties
      by (intro verify_witness_line [OF ed dist]) (auto simp: full_note_def parties_ok_def)
    with Cons vs show ?case by simp
  qed simp
  from this [OF keys] have "verify_witnesses sha ed ?n (pl_witnesses p) = Some (Inr cs)" by (simp add: cs_def)
  moreover have "checkpoint_parse (nt_text ?n) = Inr c" using c(1) by (simp add: full_note_def checkpoint_parse_iff)
  ultimately have "verify_checkpoint sha ed p ?n = Some (Inr \<lparr>vc_checkpoint = c, vc_cosigners = cs\<rparr>)"
    using log c(2) by (simp add: verify_checkpoint_def)
  moreover have "pl_threshold p \<le> quorum p cs now"
  proof -
    have len: "length ws = length (pl_witnesses p)" using keys by (metis length_map)
    have "fresh_cosigners p cs now = cs"
      using parties by (auto simp: fresh_cosigners_def cs_def filter_id_conv parties_ok_def dest!: set_zip_leftD)
    moreover have "map cs_operator cs = map wt_operator (pl_witnesses p)" "length cs = length (pl_witnesses p)"
      using len by (simp_all add: cs_def list_eq_iff_nth_eq)
    ultimately show ?thesis using p by (simp add: quorum_def Let_def policy_ok_def operators_of_def)
  qed
  ultimately show ?thesis by blast
qed

section \<open>Assessing the bundle\<close>

lemma length_mth: "(\<And>x. length (sha x) = 32) \<Longrightarrow> hashes L \<Longrightarrow> length (mth sha L) = 32"
  by (cases L; cases "tl L") (auto simp: mth.simps empty_root_def node_hash_def hashes_def)

lemma hashes_take_drop [simp]: "hashes L \<Longrightarrow> hashes (take n L)" "hashes L \<Longrightarrow> hashes (drop n L)"
  by (auto simp: hashes_def list_all_iff dest: in_set_takeD in_set_dropD)

lemma hashes_snoc [simp]: "hashes (xs @ [h]) \<longleftrightarrow> hashes xs \<and> length h = 32" "hashes []"
  by (auto simp: hashes_def)

lemma hashes_rfc_path: "(\<And>x. length (sha x) = 32) \<Longrightarrow> hashes L \<Longrightarrow> hashes (rfc_path sha m L)"
proof (induction sha m L rule: rfc_path.induct)
  case (1 sha m L)
  then have "length (mth sha (take k L)) = 32" "length (mth sha (drop k L)) = 32" for k by (simp_all add: length_mth)
  with 1 show ?case by (subst rfc_path.simps) (simp add: Let_def)
qed

lemma hashes_rfc_sub: "(\<And>x. length (sha x) = 32) \<Longrightarrow> hashes L \<Longrightarrow> hashes (rfc_sub sha m L whole)"
proof (induction sha m L whole rule: rfc_sub.induct)
  case (1 sha m L whole)
  then have "length (mth sha (take k L)) = 32" "length (mth sha (drop k L)) = 32" for k
    by (simp_all add: length_mth)
  moreover have "hashes [mth sha L]" using 1 by (simp add: hashes_def length_mth)
  ultimately show ?case using 1 by (subst rfc_sub.simps) (simp add: Let_def)
qed

lemma inclusion_proof_hashes:
  assumes "stored_tree sha src L" and "\<And>x. length (sha x) = 32" and "hashes L" and "inclusion_proof sha src m n = Inr path"
    and "n \<le> 2 ^ 64"
  shows "hashes path" and "length path \<le> MAX_PATH"
proof -
  have n: "m < n \<and> n \<le> length L" using assms(4) stored_tree.size_law [OF assms(1)]
    by (auto simp: inclusion_proof_def check_size_def split: if_splits)
  then have path: "path = rfc_path sha m (take n L)" using assms(4) stored_tree.inclusion_proof_path [OF assms(1), of m n] by simp
  show "hashes path" using hashes_rfc_path [OF assms(2)] assms(3) by (simp add: path)
  show "length path \<le> MAX_PATH" using rfc_path_length [of "take n L" 64 m sha] n assms(5) by (simp add: path MAX_PATH_def)
qed

lemma consistency_proof_hashes:
  assumes "stored_tree sha src L" and "\<And>x. length (sha x) = 32" and "hashes L" and "consistency_proof sha src m n = Inr pf"
  shows "hashes pf"
proof (cases "m = 0 \<or> m = n")
  case True
  with assms(4) show ?thesis by (auto simp: consistency_proof_def result_simps hashes_def split: if_splits)
next
  case False
  then have "0 < m \<and> m < n \<and> n \<le> length L" using assms(4) stored_tree.size_law [OF assms(1)]
    by (auto simp: consistency_proof_def check_size_def split: if_splits)
  with assms stored_tree.consistency_proof_sub [OF assms(1), of m n] hashes_rfc_sub [OF assms(2)] show ?thesis by auto
qed

text \<open>The checkpoints the client knows are earlier heads of this log.\<close>

lemma known_latest_mem: "known_latest known = Some e \<Longrightarrow> e \<in> set (kc_by_size known)"
  by (auto simp: known_latest_def split: if_splits)

definition known_heads :: "hash_fun \<Rightarrow> bytes list \<Rightarrow> known_checkpoints \<Rightarrow> bool" where
  "known_heads sha entries known \<longleftrightarrow>
     bt_ok (kc_by_size known) \<and> kc_by_size known \<noteq> []
     \<and> (\<forall>n root. bt_get (kc_by_size known) n = Some root \<longrightarrow> n \<le> length entries \<and> root = mth sha (leaves sha (take n entries)))"

lemma check_known_heads:
  assumes tree: "stored_tree sha src (leaves sha entries)" and known: "known_heads sha entries known"
    and small: "length entries \<le> 2 ^ 64" and "kc_origin known = pl_origin p"
    and c: "cp_size c = length entries" "cp_root c = mth sha (leaves sha entries)"
  shows "check_known sha p known c (hash_source_proofs sha src) = Inr P_Consistent"
proof -
  obtain n root where l: "known_latest known = Some (n, root)" using known by (cases "last (kc_by_size known)") (simp add: known_latest_def known_heads_def)
  then have "(n, root) \<in> set (kc_by_size known)" by (rule known_latest_mem)
  then have "bt_get (kc_by_size known) n = Some root" using known by (simp add: known_heads_def bt_get_iff_mem)
  then have n: "n \<le> length entries" "root = mth sha (leaves sha (take n entries))" using known by (auto simp: known_heads_def)
  have same: "\<not> (case bt_get (kc_by_size known) (cp_size c) of Some root \<Rightarrow> root \<noteq> cp_root c | None \<Rightarrow> False)"
    using known c by (cases "bt_get (kc_by_size known) (length entries)") (fastforce simp: known_heads_def)+
  from stored_tree.consistency_proof_verifies [OF tree, of n "length entries"] n small
  obtain pf where "consistency_proof sha src n (length entries) = Inr pf"
    "verify_consistency sha n (length entries) root (mth sha (leaves sha entries)) pf = Inr ()" by (auto simp: take_map)
  with l same n assms(4) c show ?thesis
    by (auto simp: check_known_def hash_source_proofs_def Let_def split: if_splits)
qed

lemma honest_bundle_l3:
  fixes log :: "'s tile_log"
  assumes sha: "\<And>x. length (sha x) = 32"
    and run: "tile_run sha ops files marker log entries" and st: "tile_store ops files marker"
    and get: "\<And>path. t_get ops (tl_store log) path = Inr (files (tl_store log) path)"
    and parties: "parties_ok ed p s ws now"
    and leaf: "index < length entries" "leaf_ok l" "leaf_entry ser l = Inr (entries ! index)"
      "from_slice (canonical_json ser (leaf_to_value l)) = Some (leaf_to_value l)"
    and known: "known_heads sha entries known" "kc_origin known = pl_origin p"
  shows "\<exists>n0 n b a. signed_checkpoint sha ed \<lparr>lg_origin = pl_origin p, lg_tiles = log\<rparr> s = Inr n0 \<and> cosign_all sha ed n0 ws = Inr n
    \<and> log_bundle sha ser from_slice ops \<lparr>lg_origin = pl_origin p, lg_tiles = log\<rparr> index n = Inr b \<and> ib_leaf b = l \<and> hashes (ib_path b) \<and> bundle_ok b
    \<and> (\<forall>m n pf. hash_source_proofs sha (tile_source sha ops log) m n = Some pf \<longrightarrow> hashes pf)
    \<and> assess sha ser ed p b (Some l) known (hash_source_proofs sha (tile_source sha ops log)) now = Some a
    \<and> as_level a = L3 \<and> as_rejection a = None"
proof -
  let ?lg = "\<lparr>lg_origin = pl_origin p, lg_tiles = log\<rparr>" and ?src = "tile_source sha ops log" and ?L = "leaves sha entries"
  define c where "c = log_checkpoint sha ?lg"
  define n where "n = full_note sha ed c s ws"
  have ok: "log_ok_for sha entries (tl_size log) (tl_frontier log) (files (tl_store log)) (marker (tl_store log))"
    by (rule tile_run_ok [OF run st sha])
  have small: "length entries < 2 ^ 64" and len: "tl_size log = length entries" using ok by (simp_all add: log_ok_for_def)
  have tree: "stored_tree sha ?src ?L" by (rule tile_store.tile_log_stored_tree [OF st sha ok get])
  have hL: "hashes ?L" using sha by (auto simp: hashes_def list_all_iff leaf_hash_def)
  have c: "cp_size c = length entries" "cp_root c = mth sha ?L" "cp_origin c = pl_origin p"
    using tile_store.tile_root_ok [OF st ok] len by (simp_all add: c_def log_checkpoint_def)
  have origin: "list_all (byte_in 33 126) (pl_origin p) \<and> pl_origin p \<noteq> []"
    using parties origin_printable by (simp add: parties_ok_def)
  then have "nl \<notin> set (pl_origin p)" using printable_neq by (auto simp: list_all_iff)
  with origin c small length_mth [OF sha hL] have cok: "checkpoint_ok c" by (simp add: checkpoint_ok_def)
  obtain n0 where n0: "signed_checkpoint sha ed ?lg s = Inr n0" "cosign_all sha ed n0 ws = Inr n"
    using signed_note_complete [OF parties cok c(3), of sha] by (auto simp: signed_checkpoint_def c_def [symmetric] n_def result_simps Let_def)
  have parse: "note_parse (as_bytes (note_encode n)) = Inr n"
    unfolding n_def by (rule note_parse_complete [OF full_note_ok [OF sha parties c(3)]])
  obtain path where path: "inclusion_proof sha ?src index (length entries) = Inr path"
    "verify_inclusion sha (leaf_hash sha (entries ! index)) index (length entries) path (mth sha ?L) = Inr ()"
    using stored_tree.inclusion_proof_verifies [OF tree, of index "length entries"] leaf(1) small by auto
  define b where "b = \<lparr>ib_leaf = l, ib_index = index, ib_size = length entries, ib_path = path, ib_checkpoint = note_encode n\<rparr>"
  have "tile_entry ops log index = Inr (entries ! index)"
    using tile_store.tile_entry_ok [OF st ok get, of index] leaf(1) by simp
  then have "log_leaf ser from_slice ops ?lg index = Inr l"
    using leaf_from_entry_complete [of l ser "entries ! index" from_slice] leaf(2-4) by (simp add: log_leaf_def)
  moreover have "checkpoint_parse (nt_text n) = Inr c" using cok by (simp add: n_def full_note_def checkpoint_parse_iff)
  ultimately have bndl: "log_bundle sha ser from_slice ops ?lg index n = Inr b"
    using c path(1) by (simp add: log_bundle_def log_inclusion_proof_def b_def)
  obtain cs where cs: "verify_checkpoint sha ed p n = Some (Inr \<lparr>vc_checkpoint = c, vc_cosigners = cs\<rparr>)" "pl_threshold p \<le> quorum p cs now"
    using full_note_verified [OF parties cok c(3), of sha] by (auto simp: n_def)
  have "check_known sha p known c (hash_source_proofs sha ?src) = Inr P_Consistent"
    using check_known_heads [OF tree known(1) _ known(2) c(1,2)] small by simp
  moreover have "verify_path sha ser b (cp_root c) = Inr ()"
    using leaf(3) path(2) c by (simp add: verify_path_def leaf_digest_def b_def)
  ultimately have "assess sha ser ed p b (Some l) known (hash_source_proofs sha ?src) now
      = Some (grade p \<lparr>vc_checkpoint = c, vc_cosigners = cs\<rparr> P_Consistent now)"
    using parse cs(1) c by (simp add: assess_def assess_inner_def b_def)
  moreover have path_ok: "hashes (ib_path b)" "length (ib_path b) \<le> MAX_PATH"
    using inclusion_proof_hashes [OF tree sha hL path(1)] small by (simp_all add: b_def)
  moreover have "bundle_ok b" using path_ok leaf(2) by (simp add: bundle_ok_def b_def hashes_def)
  moreover have "\<forall>m n pf. hash_source_proofs sha ?src m n = Some pf \<longrightarrow> hashes pf"
    using consistency_proof_hashes [OF tree sha hL] by (auto simp: hash_source_proofs_def split: sum.splits)
  ultimately show ?thesis
    using n0 bndl cs(2) by (auto simp: b_def grade_L3)
qed

end
