(* ===== verification/Trust_Sample.thy ===== *)
theory Trust_Sample
  imports Honest_Log
begin

text \<open>
  A small log with two leaves, its signer and two witnesses of different operators, for the witnesses of the trust
  properties. The signature scheme of the sample signs with the secret byte itself; it is only meant to be evaluated.
\<close>

definition trust_ed :: "byte ed25519" where
  "trust_ed = \<lparr>ed_from_seed = (\<lambda>seed. if length seed = 32 then Some (hd seed) else None), ed_from_pkcs8 = (\<lambda>_. None),
     ed_public = (\<lambda>k. replicate 32 k), ed_sign = (\<lambda>k m. replicate 64 k), ed_verify = (\<lambda>public m signature. signature = public @ public)\<rparr>"

definition trust_origin :: origin where "trust_origin = ''a/dynodoc/v1/transparency''"

definition trust_signer :: "byte signer" where
  "trust_signer = \<lparr>sr_name = trust_origin, sr_kind = KK_Log, sr_pair = 1\<rparr>"

definition trust_cosigners :: "(byte signer \<times> nat) list" where
  "trust_cosigners =
     [(\<lparr>sr_name = ''v'', sr_kind = KK_Cosigner, sr_pair = 2\<rparr>, 95), (\<lparr>sr_name = ''w'', sr_kind = KK_Cosigner, sr_pair = 3\<rparr>, 110)]"

definition trust_policy :: policy where
  "trust_policy =
     \<lparr>pl_origin = trust_origin, pl_log = signer_key trust_ed trust_signer,
      pl_witnesses = [\<lparr>wt_name = ''v'', wt_key = signer_key trust_ed (fst (trust_cosigners ! 0)), wt_operator = ''x''\<rparr>,
        \<lparr>wt_name = ''w'', wt_key = signer_key trust_ed (fst (trust_cosigners ! 1)), wt_operator = ''y''\<rparr>],
      pl_threshold = 2, pl_distinct_operators = True, pl_max_age_seconds = 60, pl_on_failure = OF_Reject\<rparr>"

definition trust_decode :: "bytes \<Rightarrow> string + policy_wire" where
  "trust_decode _ = Inr (wire_of sample_sha trust_policy)"

lemma trust_names: "valid_key_name trust_origin" "valid_key_name ''v''" "valid_key_name ''w''" "origin_new trust_origin = Inr trust_origin"
  by code_simp+

lemma trust_policy_valid: "policy_valid sample_sha trust_policy"
proof -
  have ops: "\<not> list_ex is_control (chars ''x'')" "\<not> list_ex is_control (chars ''y'')" "trust_origin \<noteq> ''v''" "trust_origin \<noteq> ''w''"
    by code_simp+
  have "length (vk_key_id sample_sha k) = 4" for k by (simp add: vk_key_id_def key_id_def sample_sha_width)
  with ops trust_names show ?thesis
    by (simp add: policy_valid_def policy_ok_def key_ok_def trust_policy_def trust_cosigners_def trust_signer_def signer_key_sel
        trust_ed_def operators_of_def)
qed

lemma trust_policy_loaded: "policy_from_json sample_sha trust_decode [] = Inr trust_policy"
  using trust_policy_valid by (simp add: policy_from_json_def trust_decode_def check_policy_iff result_simps)

lemma trust_ed_ok: "ed25519_ok trust_ed"
  by (simp add: ed25519_ok_def trust_ed_def replicate_add [symmetric])

lemma trust_parties: "parties_ok trust_ed trust_policy trust_signer trust_cosigners 100"
proof -
  have "utf8_valid ''v''" "utf8_valid ''w''" by code_simp+
  with trust_policy_valid trust_ed_ok show ?thesis
    by (simp add: parties_ok_def policy_valid_def) (simp add: trust_policy_def trust_cosigners_def abs_diff_def)
qed

definition trust_leaves :: "leaf list" where
  "trust_leaves = [RefReceipt (replicate 32 1) (replicate 32 2), EventHeads (replicate 32 7) 4 9]"

definition trust_entry :: "nat \<Rightarrow> bytes" where
  "trust_entry i = LEAF_DOMAIN @ canonical_json sample_ser (leaf_to_value (trust_leaves ! i))"

definition trust_entries :: "bytes list" where
  "trust_entries = [trust_entry 0, trust_entry 1]"

definition trust_log :: "memory_tile_store tile_log" where
  "trust_log = snd (append_batch sample_sha memory_tile_ops empty_tile_log trust_entries)"

definition trust_known :: known_checkpoints where
  "trust_known = \<lparr>kc_origin = trust_origin, kc_by_size = [(1, leaf_hash sample_sha (trust_entry 0))]\<rparr>"

definition trust_from_slice :: "bytes \<Rightarrow> json option" where
  "trust_from_slice data = (if data = canonical_json sample_ser (leaf_to_value (trust_leaves ! 0))
     then Some (leaf_to_value (trust_leaves ! 0)) else None)"

lemma trust_run: "tile_run sample_sha memory_tile_ops (\<lambda>s p. bt_get (mts_files s) p) mts_size trust_log trust_entries"
proof -
  have ok: "fst (append_batch sample_sha memory_tile_ops empty_tile_log trust_entries) = Inr 0" by code_simp
  have "tile_run sample_sha memory_tile_ops (\<lambda>s p. bt_get (mts_files s) p) mts_size empty_tile_log []"
    unfolding empty_tile_log_def by (rule start) (simp add: memory_tile_new_def)
  from batch [OF this, of trust_entries "Inr 0" trust_log] ok show ?thesis
    by (simp add: trust_log_def trust_entries_def prod_eq_iff)
qed

lemma trust_leaf_entry: "leaf_entry sample_ser (trust_leaves ! 0) = Inr (trust_entries ! 0)"
proof -
  have "length (canonical_json sample_ser (leaf_to_value (trust_leaves ! 0))) \<le> MAX_LEAF_BYTES" by code_simp
  then show ?thesis by (simp add: leaf_entry_def leaf_data_def trust_entries_def trust_entry_def Let_def)
qed

lemma trust_known_heads: "known_heads sample_sha trust_entries trust_known"
  by (simp add: known_heads_def trust_known_def trust_entries_def mth.simps bt_ok_def)

definition trust_proofs :: consistency_source where
  "trust_proofs = hash_source_proofs sample_sha (tile_source sample_sha memory_tile_ops trust_log)"

lemma trust_get: "t_get memory_tile_ops (tl_store trust_log) path = Inr (bt_get (mts_files (tl_store trust_log)) path)"
  by (simp add: memory_tile_ops_def)

lemma trust_facts:
  "0 < length trust_entries" "leaf_ok (trust_leaves ! 0)" "kc_origin trust_known = pl_origin trust_policy"
  "trust_from_slice (canonical_json sample_ser (leaf_to_value (trust_leaves ! 0))) = Some (leaf_to_value (trust_leaves ! 0))"
  by (simp_all add: trust_entries_def trust_leaves_def trust_known_def trust_policy_def trust_from_slice_def)

lemma trust_assessed:
  "\<exists>b a. hashes (ib_path b) \<and> bundle_ok b \<and> ib_leaf b = trust_leaves ! 0 \<and> (\<forall>m n pf. trust_proofs m n = Some pf \<longrightarrow> hashes pf)
    \<and> assess sample_sha sample_ser trust_ed trust_policy b (Some (trust_leaves ! 0)) trust_known trust_proofs 100 = Some a \<and> as_level a = L3"
  using honest_bundle_l3 [of sample_sha memory_tile_ops "\<lambda>s p. bt_get (mts_files s) p" mts_size trust_log trust_entries
      trust_ed trust_policy trust_signer trust_cosigners 100 0 "trust_leaves ! 0" sample_ser trust_from_slice trust_known,
      OF sample_sha_width trust_run mts.tile_store_axioms trust_get trust_parties trust_facts(1,2) trust_leaf_entry trust_facts(4)
      trust_known_heads trust_facts(3)]
  unfolding trust_proofs_def by blast

end
