(* ===== verification/Assurance_Properties.thy ===== *)
theory Assurance_Properties
  imports Trust_Sample
begin

text \<open>
  The properties of the trust layer of the transparency log: what each assurance level means, what two quorums
  have in common, that the honest path reaches the highest level, that known checkpoints never fork, and that
  the text formats and leaf encodings are exact.
\<close>

section \<open>Level 1: the leaf is in the log\<close>

lemma loaded_policy_ok: "policy_from_json sha decode bs = Inr p \<Longrightarrow> policy_ok p"
  by (auto simp: policy_from_json_def result_simps dest: check_policy_ok)

lemma leaf_digest_entry: "leaf_digest sha ser l = Inr h \<Longrightarrow> \<exists>entry. leaf_entry ser l = Inr entry \<and> h = leaf_hash sha entry"
  by (auto simp: leaf_digest_def result_simps)

lemma verified_path_entry:
  assumes sha: "\<And>x. length (sha x) = 32" and "hashes (ib_path b)" and "leaf_entry ser (ib_leaf b) = Inr entry"
    and "verify_path sha ser b (mth sha (leaves sha entries)) = Inr ()" and "ib_size b = length entries"
  shows "ib_index b < length entries \<and> (entries ! ib_index b = entry
    \<or> collides sha ((0 # entry) # steps_inputs sha (ib_index b) (length entries - 1) (leaf_hash sha entry) (ib_path b))
        (map ((#) 0) entries @ tree_inputs sha (leaves sha entries)))"
proof -
  let ?i = "ib_index b" and ?h = "leaf_hash sha entry" and ?L = "leaves sha entries"
  let ?steps = "steps_inputs sha ?i (length entries - 1) ?h (ib_path b)" and ?ins = "map ((#) 0) entries"
  have acc: "verify_inclusion sha ?h ?i (length ?L) (ib_path b) (mth sha ?L) = Inr ()"
    using assms(3-5) by (simp add: verify_path_def leaf_digest_def)
  then have i: "?i < length entries" by (auto simp: verify_inclusion_def split: if_splits)
  have "hashes ?L" "length ?h = 32" using sha by (auto simp: hashes_def list_all_iff leaf_hash_def)
  from inclusion_accepted [OF sha this(1) assms(2) this(2) acc]
  have "?h = ?L ! ?i \<or> collides sha (steps_inputs sha ?i (length ?L - 1) ?h (ib_path b)) (tree_inputs sha ?L)" .
  then show ?thesis
  proof
    assume "?h = ?L ! ?i"
    then have "sha (0 # entry) = sha (0 # entries ! ?i)" using i by (simp add: leaf_hash_def)
    moreover have "0 # entries ! ?i \<in> set (map ((#) 0) entries)" using i by simp
    ultimately have "entries ! ?i = entry \<or> collides sha [0 # entry] (map ((#) 0) entries)"
      unfolding collides_def by (metis list.inject list.set_intros(1))
    moreover have "collides sha ((0 # entry) # ?steps) (?ins @ tree_inputs sha ?L)" if "collides sha [0 # entry] ?ins"
      by (rule collides_mono [OF that]) auto
    ultimately show ?thesis using i by blast
  next
    assume "collides sha (steps_inputs sha ?i (length ?L - 1) ?h (ib_path b)) (tree_inputs sha ?L)"
    then have "collides sha ((0 # entry) # ?steps) (?ins @ tree_inputs sha ?L)" by (rule collides_mono) auto
    then show ?thesis using i by blast
  qed
qed

text \<open>C7: A bundle assessed at level 1 or higher under a loaded policy has a checkpoint of the policy's origin for
  whose text a signature under the log key verified, its leaf is the one the caller expected, and in whatever entries
  hash to that checkpoint the leaf's entry stands at the bundle's index, up to a named hash collision.\<close>

theorem l1_leaf_is_logged:
  assumes "\<And>x. length (sha x) = 32" and "policy_from_json sha decode bs = Inr p" and "hashes (ib_path b)"
    and "assess sha ser ed p b expected known proofs now = Some a" and "L1 \<le> as_level a"
  shows "\<exists>v entry. as_checkpoint a = Some v \<and> cp_origin (vc_checkpoint v) = pl_origin p \<and> log_signed ed p (vc_checkpoint v)
    \<and> (expected = None \<or> expected = Some (ib_leaf b)) \<and> leaf_entry ser (ib_leaf b) = Inr entry
    \<and> (\<forall>entries. length entries = cp_size (vc_checkpoint v) \<and> mth sha (leaves sha entries) = cp_root (vc_checkpoint v) \<longrightarrow>
         ib_index b < length entries \<and> (entries ! ib_index b = entry
           \<or> collides sha ((0 # entry) # steps_inputs sha (ib_index b) (length entries - 1) (leaf_hash sha entry) (ib_path b))
               (map ((#) 0) entries @ tree_inputs sha (leaves sha entries))))"
proof -
  from assess_ok [OF assms(4,5)] obtain nt v prior where v: "verify_checkpoint sha ed p nt = Some (Inr v)"
    and n: "ib_size b = cp_size (vc_checkpoint v)" and leaf: "\<And>l. expected = Some l \<Longrightarrow> l = ib_leaf b"
    and path: "verify_path sha ser b (cp_root (vc_checkpoint v)) = Inr ()" and a: "a = grade p v prior now"
    by metis
  from path obtain entry where entry: "leaf_entry ser (ib_leaf b) = Inr entry"
    by (auto simp: verify_path_def result_simps dest: leaf_digest_entry)
  have "expected = None \<or> expected = Some (ib_leaf b)" using leaf by (cases expected) auto
  moreover have "ib_index b < length entries \<and> (entries ! ib_index b = entry
      \<or> collides sha ((0 # entry) # steps_inputs sha (ib_index b) (length entries - 1) (leaf_hash sha entry) (ib_path b))
          (map ((#) 0) entries @ tree_inputs sha (leaves sha entries)))"
    if "length entries = cp_size (vc_checkpoint v) \<and> mth sha (leaves sha entries) = cp_root (vc_checkpoint v)" for entries
    by (rule verified_path_entry [OF assms(1,3) entry]) (use that path n in simp_all)
  ultimately show ?thesis
    using verify_checkpoint_ok [OF v loaded_policy_ok [OF assms(2)]] entry a by (intro exI [of _ v] exI [of _ entry]) simp
qed

theorem l1_leaf_is_logged_witness:
  "\<exists>b a v. assess sample_sha sample_ser trust_ed trust_policy b (Some (trust_leaves ! 0)) trust_known trust_proofs 100 = Some a
    \<and> as_checkpoint a = Some v \<and> cp_origin (vc_checkpoint v) = trust_origin \<and> log_signed trust_ed trust_policy (vc_checkpoint v)"
proof -
  from trust_assessed obtain b a where b: "hashes (ib_path b)" and
    a: "assess sample_sha sample_ser trust_ed trust_policy b (Some (trust_leaves ! 0)) trust_known trust_proofs 100 = Some a" "as_level a = L3"
    by blast
  from a(2) have "L1 \<le> as_level a" by (simp add: less_eq_level_def)
  from l1_leaf_is_logged [OF sample_sha_width trust_policy_loaded b a(1) this] a(1) show ?thesis
    by (auto simp: trust_policy_def)
qed

section \<open>Level 2: a quorum of witnesses\<close>

definition signing_witnesses :: "'k ed25519 \<Rightarrow> policy \<Rightarrow> checkpoint \<Rightarrow> nat \<Rightarrow> witness set" where
  "signing_witnesses ed p c now =
     {w \<in> set (pl_witnesses p). \<exists>time. abs_diff time now \<le> pl_max_age_seconds p \<and> cosigned ed w c time}"

text \<open>As many of them as the policy asks for, or as many operators.\<close>

definition quorum_cosigned :: "'k ed25519 \<Rightarrow> policy \<Rightarrow> checkpoint \<Rightarrow> nat \<Rightarrow> bool" where
  "quorum_cosigned ed p c now \<longleftrightarrow>
     pl_threshold p \<le> (if pl_distinct_operators p then card (wt_operator ` signing_witnesses ed p c now)
       else card (signing_witnesses ed p c now))"

lemma length_filter_map_filter:
  "length (filter P (List.map_filter f ws)) = length (filter (\<lambda>w. case f w of Some y \<Rightarrow> P y | None \<Rightarrow> False) ws)"
  by (induction ws) (auto simp: List.map_filter_def split: option.splits)

lemma set_map_filter: "y \<in> set (List.map_filter f ws) \<longleftrightarrow> (\<exists>w \<in> set ws. f w = Some y)"
  by (force simp: List.map_filter_def)

lemma quorum_signed:
  assumes p: "policy_ok p" and v: "vc_cosigners v = List.map_filter (cosigner_of sha ed nt) (pl_witnesses p)"
    and nt: "nt_text nt = checkpoint_text (vc_checkpoint v)"
  shows "quorum p (vc_cosigners v) now \<le> (if pl_distinct_operators p then card (wt_operator ` signing_witnesses ed p (vc_checkpoint v) now)
    else card (signing_witnesses ed p (vc_checkpoint v) now))"
proof -
  let ?S = "signing_witnesses ed p (vc_checkpoint v) now" and ?f = "cosigner_of sha ed nt"
  let ?P = "\<lambda>c. abs_diff (cs_time c) now \<le> pl_max_age_seconds p"
  have fin: "finite ?S" by (simp add: signing_witnesses_def)
  have signed: "w \<in> ?S \<and> cs_operator c = wt_operator w" if "w \<in> set (pl_witnesses p)" "?f w = Some c" "?P c" for w c
    using cosigner_of_signed [OF that(2) _ nt] that p by (auto simp: signing_witnesses_def policy_ok_def)
  have "length (remdups (map cs_operator (filter ?P (vc_cosigners v)))) \<le> card (wt_operator ` ?S)"
  proof -
    have "set (map cs_operator (filter ?P (vc_cosigners v))) \<subseteq> wt_operator ` ?S"
      using signed by (force simp: v set_map_filter)
    then show ?thesis using fin by (simp add: length_remdups_card_conv card_mono)
  qed
  moreover have "length (filter ?P (vc_cosigners v)) \<le> card ?S"
  proof -
    let ?ws = "filter (\<lambda>w. case ?f w of Some c \<Rightarrow> ?P c | None \<Rightarrow> False) (pl_witnesses p)"
    have "distinct ?ws" using p by (simp add: policy_ok_def distinct_map)
    moreover have "set ?ws \<subseteq> ?S" using signed by (auto split: option.splits)
    ultimately have "length ?ws \<le> card ?S" using card_mono [OF fin, of "set ?ws"] distinct_card [of ?ws] by simp
    then show ?thesis by (simp add: v length_filter_map_filter)
  qed
  ultimately show ?thesis by (simp add: quorum_def fresh_cosigners_def)
qed

lemma l2_signers:
  assumes "policy_ok p" and "assess sha ser ed p b expected known proofs now = Some a" and "L2 \<le> as_level a"
  shows "\<exists>v. as_checkpoint a = Some v \<and> quorum_cosigned ed p (vc_checkpoint v) now"
proof -
  have "L1 \<le> as_level a" using assms(3) by (simp add: less_eq_level_def)
  from assess_ok [OF assms(2) this] obtain nt v prior where v: "verify_checkpoint sha ed p nt = Some (Inr v)"
    and a: "a = grade p v prior now" by metis
  have "pl_threshold p \<le> quorum p (vc_cosigners v) now" using assms(3) by (simp add: a grade_L2)
  also have "\<dots> \<le> (if pl_distinct_operators p then card (wt_operator ` signing_witnesses ed p (vc_checkpoint v) now)
     else card (signing_witnesses ed p (vc_checkpoint v) now))"
    using verify_checkpoint_ok [OF v assms(1)] by (intro quorum_signed [OF assms(1)]) auto
  finally show ?thesis by (simp add: a quorum_cosigned_def)
qed

text \<open>C8: A bundle assessed at level 2 or higher under a loaded policy has a checkpoint for which cosignatures under the keys of as many
  of the policy's witnesses as the threshold asks verified, counted once per operator when the policy says so, each at
  a time within the freshness window of now.\<close>

theorem l2_quorum_cosigned:
  assumes "policy_from_json sha decode bs = Inr p" and "assess sha ser ed p b expected known proofs now = Some a"
    and "L2 \<le> as_level a"
  shows "\<exists>v. as_checkpoint a = Some v \<and> 0 < pl_threshold p \<and> quorum_cosigned ed p (vc_checkpoint v) now"
  using l2_signers [OF loaded_policy_ok [OF assms(1)] assms(2,3)] loaded_policy_ok [OF assms(1)] by (simp add: policy_ok_def)

theorem l2_quorum_cosigned_witness:
  "\<exists>b a v. assess sample_sha sample_ser trust_ed trust_policy b (Some (trust_leaves ! 0)) trust_known trust_proofs 100 = Some a
    \<and> as_checkpoint a = Some v \<and> 2 \<le> card (wt_operator ` signing_witnesses trust_ed trust_policy (vc_checkpoint v) 100)"
proof -
  from trust_assessed obtain b a where
    a: "assess sample_sha sample_ser trust_ed trust_policy b (Some (trust_leaves ! 0)) trust_known trust_proofs 100 = Some a" "as_level a = L3"
    by blast
  from a(2) have "L2 \<le> as_level a" by (simp add: less_eq_level_def)
  from l2_quorum_cosigned [OF trust_policy_loaded a(1) this] obtain v where "as_checkpoint a = Some v"
    "quorum_cosigned trust_ed trust_policy (vc_checkpoint v) 100" by blast
  moreover from this(2) have "2 \<le> card (wt_operator ` signing_witnesses trust_ed trust_policy (vc_checkpoint v) 100)"
    by (simp add: quorum_cosigned_def trust_policy_def)
  ultimately show ?thesis using a(1) by blast
qed

lemma majorities_meet:
  assumes "finite V" and "A \<subseteq> V" and "B \<subseteq> V" and "card V < 2 * t" and "t \<le> card A" and "t \<le> card B"
  shows "A \<inter> B \<noteq> {}"
proof
  assume "A \<inter> B = {}"
  then have "card (A \<union> B) = card A + card B" using assms(1-3) by (intro card_Un_disjoint) (auto intro: finite_subset)
  moreover have "card (A \<union> B) \<le> card V" using assms(1-3) by (intro card_mono) auto
  ultimately show False using assms(4-6) by linarith
qed

text \<open>C9: When the policy's threshold is a majority of its voters, any two checkpoints assessed at level 2 or higher, at
  any times, have a cosigning operator in common (the same witness, when operators are not pooled): a fork needs
  an operator that cosigned both sides.\<close>

theorem majority_quorums_intersect:
  assumes "policy_from_json sha decode bs = Inr p" and "quorum_is_majority p"
    and "assess sha ser ed p b1 expected1 known1 proofs1 now1 = Some a1" and "L2 \<le> as_level a1"
    and "assess sha ser ed p b2 expected2 known2 proofs2 now2 = Some a2" and "L2 \<le> as_level a2"
  shows "\<exists>v1 v2 w1 w2. as_checkpoint a1 = Some v1 \<and> as_checkpoint a2 = Some v2
    \<and> w1 \<in> signing_witnesses ed p (vc_checkpoint v1) now1 \<and> w2 \<in> signing_witnesses ed p (vc_checkpoint v2) now2
    \<and> wt_operator w1 = wt_operator w2 \<and> (\<not> pl_distinct_operators p \<longrightarrow> w1 = w2)"
proof -
  note p = loaded_policy_ok [OF assms(1)]
  from l2_signers [OF p assms(3,4)] l2_signers [OF p assms(5,6)] obtain v1 v2 where v: "as_checkpoint a1 = Some v1" "as_checkpoint a2 = Some v2"
    and q: "quorum_cosigned ed p (vc_checkpoint v1) now1"
      "quorum_cosigned ed p (vc_checkpoint v2) now2"
    by blast
  let ?A = "signing_witnesses ed p (vc_checkpoint v1) now1" and ?B = "signing_witnesses ed p (vc_checkpoint v2) now2"
  let ?W = "set (pl_witnesses p)"
  have sub: "?A \<subseteq> ?W" "?B \<subseteq> ?W" by (auto simp: signing_witnesses_def)
  show ?thesis
  proof (cases "pl_distinct_operators p")
    case True
    then have "card (wt_operator ` ?W) < 2 * pl_threshold p"
      using assms(2) by (simp add: quorum_is_majority_def operators_of_def length_remdups_card_conv)
    with q True sub have "wt_operator ` ?A \<inter> wt_operator ` ?B \<noteq> {}"
      by (intro majorities_meet [of "wt_operator ` ?W"]) (auto simp: quorum_cosigned_def)
    with v True show ?thesis by fastforce
  next
    case False
    have "card ?W < 2 * pl_threshold p"
      using assms(2) False p by (simp add: quorum_is_majority_def policy_ok_def distinct_map distinct_card)
    with q False sub have "?A \<inter> ?B \<noteq> {}" by (intro majorities_meet [of ?W]) (auto simp: quorum_cosigned_def)
    with v show ?thesis by blast
  qed
qed

theorem majority_quorums_intersect_witness:
  "\<exists>b a v. assess sample_sha sample_ser trust_ed trust_policy b (Some (trust_leaves ! 0)) trust_known trust_proofs 100 = Some a
    \<and> as_checkpoint a = Some v \<and> signing_witnesses trust_ed trust_policy (vc_checkpoint v) 100 \<noteq> {}"
proof -
  from trust_assessed obtain b a where
    a: "assess sample_sha sample_ser trust_ed trust_policy b (Some (trust_leaves ! 0)) trust_known trust_proofs 100 = Some a" "as_level a = L3"
    by blast
  from a(2) have l2: "L2 \<le> as_level a" by (simp add: less_eq_level_def)
  have "quorum_is_majority trust_policy" by (simp add: quorum_is_majority_def trust_policy_def operators_of_def)
  from majority_quorums_intersect [OF trust_policy_loaded this a(1) l2 a(1) l2] a(1) show ?thesis by blast
qed

section \<open>Level 3: the tree only grew\<close>

definition known_ok :: "known_checkpoints \<Rightarrow> bool" where
  "known_ok known \<longleftrightarrow> bt_ok (kc_by_size known) \<and> (\<forall>n root. bt_get (kc_by_size known) n = Some root \<longrightarrow> length root = 32)"

lemma known_latest_get:
  assumes "known_ok known" and "known_latest known = Some (n, root)"
  shows "bt_get (kc_by_size known) n = Some root"
proof -
  from assms(2) have "kc_by_size known \<noteq> []" "last (kc_by_size known) = (n, root)" by (auto simp: known_latest_def split: if_splits)
  with last_in_set [of "kc_by_size known"] have "(n, root) \<in> set (kc_by_size known)" by simp
  with assms(1) show ?thesis by (simp add: known_ok_def bt_get_iff_mem)
qed

lemma check_known_consistent:
  assumes "check_known sha p known c proofs = Inr P_Consistent" and "known_ok known"
  shows "\<exists>n root. known_latest known = Some (n, root) \<and>
    (n = cp_size c \<and> root = cp_root c
     \<or> n < cp_size c \<and> (\<exists>proof. proofs n (cp_size c) = Some proof \<and> verify_consistency sha n (cp_size c) root (cp_root c) proof = Inr ())
     \<or> cp_size c < n \<and> (\<exists>proof. proofs (cp_size c) n = Some proof \<and> verify_consistency sha (cp_size c) n (cp_root c) root proof = Inr ()))"
proof -
  from assms(1) obtain n root where l: "known_latest known = Some (n, root)"
    by (auto simp: check_known_def split: if_splits option.splits)
  have "root = cp_root c" if "n = cp_size c"
    using assms(1) known_latest_get [OF assms(2) l] that by (auto simp: check_known_def split: if_splits)
  with assms(1) l show ?thesis
    by (cases n "cp_size c" rule: linorder_cases) (auto simp: check_known_def split: if_splits option.splits sum.splits)
qed

text \<open>C10: A bundle assessed at level 3 has a checkpoint that agrees with the latest one the client knew: the smaller of the
  two is the head of a prefix of whatever leaves hash to the larger, so no entry was rewritten between
  them, up to a named hash collision.\<close>

theorem l3_extends_known:
  assumes "\<And>x. length (sha x) = 32" and "policy_from_json sha decode bs = Inr p" and "known_ok known"
    and "\<forall>m n proof. proofs m n = Some proof \<longrightarrow> hashes proof"
    and "assess sha ser ed p b expected known proofs now = Some a" and "as_level a = L3"
  shows "\<exists>v n root. as_checkpoint a = Some v \<and> known_latest known = Some (n, root) \<and> (let c = vc_checkpoint v in
      (\<forall>L. hashes L \<and> length L = cp_size c \<and> mth sha L = cp_root c \<and> n \<le> cp_size c \<longrightarrow> root = mth sha (take n L)
         \<or> collides sha (consistency_inputs sha n (cp_size c) root (the (proofs n (cp_size c)))) (tree_inputs sha L))
      \<and> (\<forall>L. hashes L \<and> length L = n \<and> mth sha L = root \<and> cp_size c \<le> n \<longrightarrow> cp_root c = mth sha (take (cp_size c) L)
         \<or> collides sha (consistency_inputs sha (cp_size c) n (cp_root c) (the (proofs (cp_size c) n))) (tree_inputs sha L)))"
proof -
  have "L1 \<le> as_level a" using assms(6) by (simp add: less_eq_level_def)
  from assess_ok [OF assms(5) this] obtain nt v prior where v: "verify_checkpoint sha ed p nt = Some (Inr v)"
    and prior: "check_known sha p known (vc_checkpoint v) proofs = Inr prior" and a: "a = grade p v prior now" by metis
  let ?c = "vc_checkpoint v"
  have "prior = P_Consistent" using assms(6) by (simp add: a grade_L3)
  with prior check_known_consistent [OF _ assms(3)] obtain n root where l: "known_latest known = Some (n, root)" and
    cases: "n = cp_size ?c \<and> root = cp_root ?c
     \<or> n < cp_size ?c \<and> (\<exists>proof. proofs n (cp_size ?c) = Some proof \<and> verify_consistency sha n (cp_size ?c) root (cp_root ?c) proof = Inr ())
     \<or> cp_size ?c < n \<and> (\<exists>proof. proofs (cp_size ?c) n = Some proof \<and> verify_consistency sha (cp_size ?c) n (cp_root ?c) root proof = Inr ())"
    by blast
  have root: "length root = 32" using known_latest_get [OF assms(3) l] assms(3) by (auto simp: known_ok_def)
  have croot: "length (cp_root ?c) = 32"
    using verify_checkpoint_ok [OF v loaded_policy_ok [OF assms(2)]] by (simp add: checkpoint_ok_def)
  have sound: "r = mth sha (take m L) \<or> collides sha (consistency_inputs sha m (length L) r (the (proofs m (length L)))) (tree_inputs sha L)"
    if "hashes L" "length r = 32" "proofs m (length L) = Some pf" "verify_consistency sha m (length L) r (mth sha L) pf = Inr ()" for L r m pf
    using consistency_accepted [OF assms(1) that(1) _ that(2,4)] assms(4) that(3) by auto
  have up: "root = mth sha (take n L) \<or> collides sha (consistency_inputs sha n (cp_size ?c) root (the (proofs n (cp_size ?c)))) (tree_inputs sha L)"
    if "hashes L" "length L = cp_size ?c" "mth sha L = cp_root ?c" "n \<le> cp_size ?c" for L
    using cases sound [of L root n] root that by (elim disjE) auto
  have down: "cp_root ?c = mth sha (take (cp_size ?c) L)
      \<or> collides sha (consistency_inputs sha (cp_size ?c) n (cp_root ?c) (the (proofs (cp_size ?c) n))) (tree_inputs sha L)"
    if "hashes L" "length L = n" "mth sha L = root" "cp_size ?c \<le> n" for L
    using cases sound [of L "cp_root ?c" "cp_size ?c"] croot that by (elim disjE) auto
  show ?thesis using a l up down by (auto simp: Let_def)
qed

theorem l3_extends_known_witness:
  "\<exists>b a v. assess sample_sha sample_ser trust_ed trust_policy b (Some (trust_leaves ! 0)) trust_known trust_proofs 100 = Some a
    \<and> as_checkpoint a = Some v \<and> known_latest trust_known = Some (1, leaf_hash sample_sha (trust_entry 0))
    \<and> (\<forall>L. hashes L \<and> length L = cp_size (vc_checkpoint v) \<and> mth sample_sha L = cp_root (vc_checkpoint v) \<and> 1 \<le> length L \<longrightarrow>
         leaf_hash sample_sha (trust_entry 0) = mth sample_sha (take 1 L)
         \<or> collides sample_sha (consistency_inputs sample_sha 1 (length L) (leaf_hash sample_sha (trust_entry 0)) (the (trust_proofs 1 (length L))))
             (tree_inputs sample_sha L))"
proof -
  have l: "known_latest trust_known = Some (1, leaf_hash sample_sha (trust_entry 0))" by (simp add: known_latest_def trust_known_def)
  have ok: "known_ok trust_known" by (simp add: known_ok_def trust_known_def bt_ok_def leaf_hash_def sample_sha_width)
  from trust_assessed obtain b a where pf: "\<forall>m n pf. trust_proofs m n = Some pf \<longrightarrow> hashes pf" and
    a: "assess sample_sha sample_ser trust_ed trust_policy b (Some (trust_leaves ! 0)) trust_known trust_proofs 100 = Some a" "as_level a = L3"
    by blast
  from l3_extends_known [OF sample_sha_width trust_policy_loaded ok pf a] l show ?thesis
    by (intro exI [of _ b] exI [of _ a]) (auto simp: Let_def a(1))
qed

section \<open>The honest path\<close>

text \<open>C4: A log that stored its batches, signs its head and has it cosigned by the policy's witnesses in the freshness
  window yields, for every entry that decodes to a leaf, a bundle a client assesses at level 3 whenever it knows
  at least one checkpoint and those it knows are earlier heads of that log.\<close>

theorem honest_bundle_reaches_l3:
  fixes log :: "'s tile_log"
  assumes "\<And>x. length (sha x) = 32"
    and "tile_run sha ops files marker log entries" and "tile_store ops files marker"
    and "\<And>path. t_get ops (tl_store log) path = Inr (files (tl_store log) path)"
    and "parties_ok ed p s ws now"
    and "index < length entries" "leaf_ok l" "leaf_entry ser l = Inr (entries ! index)"
      "from_slice (canonical_json ser (leaf_to_value l)) = Some (leaf_to_value l)"
    and "known_heads sha entries known" "kc_origin known = pl_origin p"
  shows "\<exists>n0 n b a. signed_checkpoint sha ed \<lparr>lg_origin = pl_origin p, lg_tiles = log\<rparr> s = Inr n0 \<and> cosign_all sha ed n0 ws = Inr n
    \<and> log_bundle sha ser from_slice ops \<lparr>lg_origin = pl_origin p, lg_tiles = log\<rparr> index n = Inr b
    \<and> assess sha ser ed p b (Some l) known (hash_source_proofs sha (tile_source sha ops log)) now = Some a
    \<and> as_level a = L3 \<and> as_rejection a = None"
  using honest_bundle_l3 [of sha ops files marker log entries ed p s ws now index l ser from_slice known, OF assms] by blast

theorem honest_bundle_reaches_l3_witness:
  "\<exists>n0 n b a. signed_checkpoint sample_sha trust_ed \<lparr>lg_origin = trust_origin, lg_tiles = trust_log\<rparr> trust_signer = Inr n0
    \<and> cosign_all sample_sha trust_ed n0 trust_cosigners = Inr n
    \<and> log_bundle sample_sha sample_ser trust_from_slice memory_tile_ops \<lparr>lg_origin = trust_origin, lg_tiles = trust_log\<rparr> 0 n = Inr b
    \<and> assess sample_sha sample_ser trust_ed trust_policy b (Some (trust_leaves ! 0)) trust_known trust_proofs 100 = Some a \<and> as_level a = L3"
proof -
  have "pl_origin trust_policy = trust_origin" by (simp add: trust_policy_def)
  with honest_bundle_reaches_l3 [of sample_sha memory_tile_ops "\<lambda>s p. bt_get (mts_files s) p" mts_size trust_log trust_entries
      trust_ed trust_policy trust_signer trust_cosigners 100 0 "trust_leaves ! 0" sample_ser trust_from_slice trust_known,
      OF sample_sha_width trust_run mts.tile_store_axioms trust_get trust_parties trust_facts(1,2) trust_leaf_entry trust_facts(4)
      trust_known_heads trust_facts(3)]
  show ?thesis unfolding trust_proofs_def by (metis (no_types, lifting))
qed

section \<open>What a client records\<close>

text \<open>A client that starts with no checkpoint and records, as the documentation of \<^verbatim>\<open>KnownCheckpoints\<close> says, only the trusted
  checkpoints of its assessments; the history holds them with the time of the assessment, latest first.\<close>

inductive client_run ::
    "hash_fun \<Rightarrow> scalar_writer \<Rightarrow> 'k ed25519 \<Rightarrow> policy \<Rightarrow> known_checkpoints \<Rightarrow> (verified_checkpoint \<times> nat) list \<Rightarrow> bool"
  for sha ser ed p where
  client_start: "client_run sha ser ed p (known_new (pl_origin p)) []"
| client_step: "client_run sha ser ed p known history \<Longrightarrow>
    assess sha ser ed p b expected known proofs now = Some a \<Longrightarrow> trusted_checkpoint a = Some v \<Longrightarrow>
    known_record known v = (r, known') \<Longrightarrow> client_run sha ser ed p known' ((v, now) # history)"

lemma trusted_checkpoint_L2: "trusted_checkpoint a = Some v \<longleftrightarrow> L2 \<le> as_level a \<and> as_checkpoint a = Some v"
  by (simp add: trusted_checkpoint_def)

lemma trusted_recorded:
  assumes p: "policy_ok p" and "kc_origin known = pl_origin p" and a: "assess sha ser ed p b expected known proofs now = Some a"
    and v: "trusted_checkpoint a = Some v"
  shows "known_record known v =
    (Inr (), known\<lparr>kc_by_size := bt_insert (cp_size (vc_checkpoint v)) (cp_root (vc_checkpoint v)) (kc_by_size known)\<rparr>)"
    and "\<forall>root. bt_get (kc_by_size known) (cp_size (vc_checkpoint v)) = Some root \<longrightarrow> root = cp_root (vc_checkpoint v)"
    and "length (cp_root (vc_checkpoint v)) = 32"
proof -
  have "L1 \<le> as_level a" "as_checkpoint a = Some v" using v by (simp_all add: trusted_checkpoint_L2 less_eq_level_def)
  with assess_ok [OF a] obtain nt prior where nt: "verify_checkpoint sha ed p nt = Some (Inr v)"
    and prior: "check_known sha p known (vc_checkpoint v) proofs = Inr prior" by (metis grade_checkpoint(1) option.inject)
  note ok = verify_checkpoint_ok [OF nt p]
  from ok show "length (cp_root (vc_checkpoint v)) = 32" by (simp add: checkpoint_ok_def)
  from prior show agrees: "\<forall>root. bt_get (kc_by_size known) (cp_size (vc_checkpoint v)) = Some root \<longrightarrow> root = cp_root (vc_checkpoint v)"
    by (auto simp: check_known_def split: if_splits)
  with ok assms(2) show "known_record known v =
    (Inr (), known\<lparr>kc_by_size := bt_insert (cp_size (vc_checkpoint v)) (cp_root (vc_checkpoint v)) (kc_by_size known)\<rparr>)"
    by (auto simp: known_record_def Let_def split: option.splits)
qed

lemma client_run_inv:
  assumes "client_run sha ser ed p known history" and "policy_ok p"
  shows "kc_origin known = pl_origin p \<and> known_ok known
    \<and> (\<forall>v now. (v, now) \<in> set history \<longrightarrow> bt_get (kc_by_size known) (cp_size (vc_checkpoint v)) = Some (cp_root (vc_checkpoint v))
         \<and> quorum_cosigned ed p (vc_checkpoint v) now)
    \<and> (\<forall>n root. bt_get (kc_by_size known) n = Some root \<longrightarrow>
         (\<exists>v now. (v, now) \<in> set history \<and> cp_size (vc_checkpoint v) = n \<and> cp_root (vc_checkpoint v) = root))"
  using assms
proof (induction rule: client_run.induct)
  case client_start
  then show ?case by (simp add: known_new_def known_ok_def)
next
  case (client_step known history b expected proofs now a v r known')
  note ih = client_step.IH [OF client_step.prems]
  from ih have origin: "kc_origin known = pl_origin p" by simp
  note rec = trusted_recorded [OF client_step.prems origin client_step.hyps(2,3)]
  have quorum: "quorum_cosigned ed p (vc_checkpoint v) now"
    using l2_signers [OF client_step.prems client_step.hyps(2)] client_step.hyps(3) by (auto simp: trusted_checkpoint_L2)
  have known': "known' = known\<lparr>kc_by_size := bt_insert (cp_size (vc_checkpoint v)) (cp_root (vc_checkpoint v)) (kc_by_size known)\<rparr>"
    using client_step.hyps(4) rec(1) by simp
  have "known_ok known'" using ih rec(3) by (auto simp: known_ok_def known')
  moreover have "\<forall>u t. (u, t) \<in> set ((v, now) # history) \<longrightarrow> bt_get (kc_by_size known') (cp_size (vc_checkpoint u)) = Some (cp_root (vc_checkpoint u))
      \<and> quorum_cosigned ed p (vc_checkpoint u) t"
    using ih rec(2) quorum by (simp add: known') metis
  moreover have "\<forall>n root. bt_get (kc_by_size known') n = Some root \<longrightarrow>
      (\<exists>u t. (u, t) \<in> set ((v, now) # history) \<and> cp_size (vc_checkpoint u) = n \<and> cp_root (vc_checkpoint u) = root)"
    using ih by (simp add: known') metis
  ultimately show ?case using origin by (simp only: known') simp
qed

text \<open>C11: A client that records only trusted checkpoints never holds a fork: every checkpoint it ever trusted is the one root
  known at its size and was cosigned by a quorum, every known root was once trusted, and recording the next
  trusted checkpoint always succeeds.\<close>

theorem trusted_checkpoints_never_fork:
  assumes "policy_from_json sha decode bs = Inr p" and "client_run sha ser ed p known history"
  shows "(\<forall>v now. (v, now) \<in> set history \<longrightarrow> bt_get (kc_by_size known) (cp_size (vc_checkpoint v)) = Some (cp_root (vc_checkpoint v))
         \<and> quorum_cosigned ed p (vc_checkpoint v) now)
    \<and> (\<forall>n root. bt_get (kc_by_size known) n = Some root \<longrightarrow>
         (\<exists>v now. (v, now) \<in> set history \<and> cp_size (vc_checkpoint v) = n \<and> cp_root (vc_checkpoint v) = root))
    \<and> (\<forall>b expected proofs now a v. assess sha ser ed p b expected known proofs now = Some a \<and> trusted_checkpoint a = Some v \<longrightarrow>
         fst (known_record known v) = Inr ())"
proof -
  note p = loaded_policy_ok [OF assms(1)]
  have inv: "kc_origin known = pl_origin p" using client_run_inv [OF assms(2) p] by simp
  have "fst (known_record known v) = Inr ()"
    if "assess sha ser ed p b expected known proofs now = Some a \<and> trusted_checkpoint a = Some v" for b expected proofs now a v
    using trusted_recorded(1) [OF p inv, of sha ser ed b expected proofs now a v] that by simp
  with client_run_inv [OF assms(2) p] show ?thesis by blast
qed

text \<open>The first contact of a client: with nothing known the same bundle is graded without the step to level 3.\<close>

lemma assess_first_contact:
  assumes "assess sha ser ed p b expected known proofs now = Some a" and "L2 \<le> as_level a"
  shows "\<exists>a' v. assess sha ser ed p b expected (known_new (pl_origin p)) proofs now = Some a' \<and> trusted_checkpoint a' = Some v"
proof -
  have "L1 \<le> as_level a" using assms(2) by (simp add: less_eq_level_def)
  from assess_ok [OF assms(1) this] obtain nt v prior where parts: "note_parse (as_bytes (ib_checkpoint b)) = Inr nt"
    "verify_checkpoint sha ed p nt = Some (Inr v)" "ib_size b = cp_size (vc_checkpoint v)"
    "verify_path sha ser b (cp_root (vc_checkpoint v)) = Inr ()" and a: "a = grade p v prior now"
    and leaf: "expected = None \<or> expected = Some (ib_leaf b)"
    by (metis not_None_eq)
  have "check_known sha p (known_new (pl_origin p)) (vc_checkpoint v) proofs = Inr P_None"
    by (simp add: check_known_def known_new_def known_latest_def)
  with parts leaf have "assess sha ser ed p b expected (known_new (pl_origin p)) proofs now = Some (grade p v P_None now)"
    by (auto simp: assess_def assess_inner_def Let_def)
  with assms(2) show ?thesis by (simp add: a trusted_checkpoint_L2 grade_L2)
qed

theorem trusted_checkpoints_never_fork_witness:
  "\<exists>v known. client_run sample_sha sample_ser trust_ed trust_policy known [(v, 100)]
    \<and> bt_get (kc_by_size known) (cp_size (vc_checkpoint v)) = Some (cp_root (vc_checkpoint v))
    \<and> quorum_cosigned trust_ed trust_policy (vc_checkpoint v) 100"
proof -
  from trust_assessed obtain b a where
    a: "assess sample_sha sample_ser trust_ed trust_policy b (Some (trust_leaves ! 0)) trust_known trust_proofs 100 = Some a" "as_level a = L3"
    by blast
  from a(2) have "L2 \<le> as_level a" by (simp add: less_eq_level_def)
  from assess_first_contact [OF a(1) this] obtain a' v where
    "assess sample_sha sample_ser trust_ed trust_policy b (Some (trust_leaves ! 0)) (known_new (pl_origin trust_policy)) trust_proofs 100 = Some a'"
    "trusted_checkpoint a' = Some v" by blast
  from client_step [OF client_start this surjective_pairing]
  have run: "client_run sample_sha sample_ser trust_ed trust_policy (snd (known_record (known_new (pl_origin trust_policy)) v)) [(v, 100)]" .
  from trusted_checkpoints_never_fork [OF trust_policy_loaded run] run show ?thesis by auto
qed

section \<open>Policies\<close>

lemma assess_no_panic: "policy_ok p \<Longrightarrow> assess sha ser ed p b expected known proofs now \<noteq> None"
  using verify_witnesses_no_panic [of "pl_witnesses p" sha ed]
  by (auto simp: assess_def assess_inner_def verify_checkpoint_def policy_ok_def split: sum.splits if_splits option.splits)

text \<open>C24: The loader accepts exactly the documents that decode to the wire form of a valid policy and returns that policy;
  under a loaded policy no assessment panics, the threshold is within reach of the witnesses, and the log cannot be
  one of its own witnesses.\<close>

theorem policy_loader_exact:
  "(policy_from_json sha decode bs = Inr p \<longleftrightarrow> decode bs = Inr (wire_of sha p) \<and> policy_valid sha p)
   \<and> (policy_from_json sha decode bs = Inr p \<longrightarrow>
       assess sha ser ed p b expected known proofs now \<noteq> None
       \<and> 0 < pl_threshold p \<and> pl_threshold p \<le> card (set (pl_witnesses p))
       \<and> (pl_distinct_operators p \<longrightarrow> pl_threshold p \<le> card (wt_operator ` set (pl_witnesses p)))
       \<and> (\<forall>w \<in> set (pl_witnesses p). wt_name w \<noteq> pl_origin p \<and> vk_public (wt_key w) \<noteq> vk_public (pl_log p)))"
proof -
  have exact: "policy_from_json sha decode bs = Inr p \<longleftrightarrow> decode bs = Inr (wire_of sha p) \<and> policy_valid sha p"
    by (auto simp: policy_from_json_def result_simps check_policy_iff)
  have "assess sha ser ed p b expected known proofs now \<noteq> None
       \<and> 0 < pl_threshold p \<and> pl_threshold p \<le> card (set (pl_witnesses p))
       \<and> (pl_distinct_operators p \<longrightarrow> pl_threshold p \<le> card (wt_operator ` set (pl_witnesses p)))
       \<and> (\<forall>w \<in> set (pl_witnesses p). wt_name w \<noteq> pl_origin p \<and> vk_public (wt_key w) \<noteq> vk_public (pl_log p))"
    if "policy_ok p"
    using that assess_no_panic [OF that, of sha ser ed b expected known proofs now]
    by (auto simp: policy_ok_def operators_of_def length_remdups_card_conv distinct_map distinct_card)
  with exact show ?thesis by (auto simp: policy_valid_def)
qed

theorem policy_loader_exact_witness:
  "policy_from_json sample_sha trust_decode [] = Inr trust_policy
   \<and> (\<forall>b expected known proofs now. assess sample_sha sample_ser trust_ed trust_policy b expected known proofs now \<noteq> None)"
  using policy_loader_exact [of sample_sha trust_decode "[]" trust_policy sample_ser trust_ed] trust_policy_loaded by blast

section \<open>Text formats and leaves\<close>

text \<open>C32: The text formats are exact: a verifier key, a checkpoint body and a signed note parse exactly when they are the encoding of
  the value the parser returns, and that value is well formed; so each value has one accepted text.\<close>

theorem text_formats_exact:
  "(verifier_key_parse sha t = Inr k \<longleftrightarrow> t = verifier_key_text sha k \<and> key_ok k \<and> length (vk_key_id sha k) = 4)
   \<and> (checkpoint_parse t = Inr c \<longleftrightarrow> t = checkpoint_text c \<and> checkpoint_ok c)
   \<and> (note_parse bs = Inr n \<longleftrightarrow> bs = as_bytes (note_encode n) \<and> note_ok n)"
  using verifier_key_parse_iff [of sha t k] checkpoint_parse_iff [of t c] note_parse_sound [of bs n] note_parse_complete [of n]
  by auto

text \<open>A note without signatures has no accepted text, although \<^verbatim>\<open>Note::new\<close> makes such notes and \<^verbatim>\<open>encode\<close> writes them.\<close>

lemma unsigned_notes_do_not_parse:
  "note_new t = Inr n \<Longrightarrow> note_parse (as_bytes (note_encode n)) \<noteq> Inr n"
  by (auto simp: note_new_def note_ok_def result_simps split: if_splits dest!: note_parse_sound)

text \<open>A leaf has one log entry: with a JSON reader that reads a leaf's canonical bytes back, an entry is accepted as that leaf
  exactly when the leaf is well formed and the entry is the one it encodes to. The domain prefix, the size limit, the
  exact field sets and the canonical form are all part of the check.\<close>

theorem leaf_entries_exact:
  assumes "from_slice (canonical_json ser (leaf_to_value l)) = Some (leaf_to_value l)"
  shows "leaf_from_entry ser from_slice entry = Inr l \<longleftrightarrow> leaf_ok l \<and> leaf_entry ser l = Inr entry"
  using leaf_from_entry_sound [of ser from_slice entry l] leaf_from_entry_complete [of l ser entry from_slice] assms by blast

theorem leaf_entries_exact_witness:
  "leaf_from_entry sample_ser trust_from_slice (trust_entries ! 0) = Inr (trust_leaves ! 0)"
  using leaf_entries_exact [of trust_from_slice sample_ser "trust_leaves ! 0"] trust_facts trust_leaf_entry by simp

text \<open>Bundles survive transport: every bundle the parser accepts has a well-formed leaf and at most 64 path entries of 32 bytes, and
  a well-formed bundle is read back unchanged from its canonical JSON when the JSON decoder returns the fields that
  were written.\<close>

theorem bundles_survive_transport:
  assumes "decode (bundle_to_json ser b) = Some (bundle_wire_of b)"
  shows "bundle_from_json decode (bundle_to_json ser b) = Inr b \<longleftrightarrow> bundle_ok b"
  using bundle_from_wire [of decode "bundle_to_json ser b" b] bundle_from_json_ok [of decode "bundle_to_json ser b" b] assms by blast

theorem bundles_survive_transport_witness:
  "\<exists>b. ib_leaf b = trust_leaves ! 0
    \<and> bundle_from_json (\<lambda>_. Some (bundle_wire_of b)) (bundle_to_json sample_ser b) = Inr b"
proof -
  from trust_assessed obtain b where "ib_leaf b = trust_leaves ! 0" "bundle_ok b" by blast
  with bundles_survive_transport [of "\<lambda>_. Some (bundle_wire_of b)" sample_ser b] show ?thesis by blast
qed

text \<open>A tag commits to its scope: two tags of one repository key are equal only for the same kind and the same branch and
  generation, sequence number or document, unless two different messages of that key have the same MAC.\<close>

theorem tags_bind_scope:
  assumes "scope_ok s" and "scope_ok s'" and "scope_tag hmac key s = scope_tag hmac key s'"
  shows "s = s' \<or> collides (hmac key) [scope_message s] [scope_message s']"
  using assms scope_message_inject [of s s'] by (auto simp: scope_tag_mac collides_def)

theorem tags_bind_scope_witness:
  "collides (take 4) [scope_message (Ref_Scope ''main'' 3)] [scope_message (Ref_Scope ''dev'' 1)]"
  using tags_bind_scope [of "Ref_Scope ''main'' 3" "Ref_Scope ''dev'' 1" "\<lambda>_. take 4" "[]"]
  by (simp add: scope_tag_mac as_bytes_def)

end
