(* ===== verification/RichText_Merge.thy ===== *)
theory RichText_Merge
  imports RichText
begin

text \<open>
  The three-way merge of rich text (\<^verbatim>\<open>crates/engine-core/src/richtext.rs\<close>): properties merge key by key, marks by
  type, and the text of an inline container by the hunks of two diffs against the base. As in \<^verbatim>\<open>RichText\<close> the Myers
  diff is the parameter \<open>myers\<close>, and an index the code would panic on is the outer \<^const>\<open>None\<close>; the inner one is
  the code's own \<^verbatim>\<open>None\<close>, a conflict.
\<close>

section \<open>Properties and marks\<close>

fun jdepth :: "json \<Rightarrow> nat" where
  "jdepth (JArr xs) = Suc (fold (\<lambda>x m. max m (jdepth x)) xs 0)"
| "jdepth (JObj kvs) = Suc (fold (\<lambda>kv m. max m (jdepth (snd kv))) kvs 0)"
| "jdepth _ = 0"

fun odepth :: "json option \<Rightarrow> nat" where
  "odepth None = 0"
| "odepth (Some v) = Suc (jdepth v)"

definition depth3 :: "json option \<Rightarrow> json option \<Rightarrow> json option \<Rightarrow> nat" where
  "depth3 b t d = max (odepth b) (max (odepth t) (odepth d))"

lemma fold_max_ge: "(m::nat) \<le> fold (\<lambda>x m. max m (f x)) xs m"
proof (induction xs arbitrary: m)
  case (Cons x xs)
  have "m \<le> max m (f x)" by simp
  also have "\<dots> \<le> fold (\<lambda>x m. max m (f x)) xs (max m (f x))" by (rule Cons)
  finally show ?case by simp
qed simp

lemma fold_max_mem: "x \<in> set xs \<Longrightarrow> f x \<le> fold (\<lambda>x m. max m (f x)) xs (m::nat)"
proof (induction xs arbitrary: m)
  case (Cons y ys)
  then show ?case using fold_max_ge [of "max m (f y)" f ys] by auto
qed simp

lemma fold_max_le: "(\<And>x. x \<in> set xs \<Longrightarrow> f x \<le> b) \<Longrightarrow> m \<le> b \<Longrightarrow> fold (\<lambda>x m. max m (f x)) xs (m::nat) \<le> b"
  by (induction xs arbitrary: m) auto

fun marks_loop :: "json list \<Rightarrow> (string, json) bmap \<Rightarrow> unit + json" where
  "marks_loop [] out = Inr (JObj out)"
| "marks_loop (mark # ms) out =
     bind_res (ok_or (as_str (json_index mark ''type'')) ()) (\<lambda>kind.
     if bt_contains out kind then Inl () else marks_loop ms (bt_insert kind mark out))"

definition marks :: "json option \<Rightarrow> unit + json" where
  "marks v =
     (case v of
        None \<Rightarrow> Inr (JObj [])
      | Some value \<Rightarrow> bind_res (ok_or (as_array value) ()) (\<lambda>ms. marks_loop ms []))"

text \<open>The names of the marks in the order of the branches, the team's first, each once.\<close>

fun mark_names_loop :: "json list \<Rightarrow> string list \<Rightarrow> unit + string list" where
  "mark_names_loop [] names = Inr names"
| "mark_names_loop (mark # ms) names =
     bind_res (ok_or (as_str (json_index mark ''type'')) ()) (\<lambda>name.
     mark_names_loop ms (if name \<in> set names then names else names @ [name]))"

fun mark_names :: "json option list \<Rightarrow> string list \<Rightarrow> unit + string list" where
  "mark_names [] names = Inr names"
| "mark_names (None # vs) names = mark_names vs names"
| "mark_names (Some v # vs) names =
     bind_res (ok_or (as_array v) ()) (\<lambda>ms. bind_res (mark_names_loop ms names) (mark_names vs))"

definition pick_marks :: "json \<Rightarrow> string list \<Rightarrow> json option" where
  "pick_marks merged names =
     (let result = List.map_filter (json_get merged) names in if result = [] then None else Some (JArr result))"

fun insert_all :: "(string \<times> json option) list \<Rightarrow> (string, json) bmap \<Rightarrow> (string, json) bmap" where
  "insert_all [] out = out"
| "insert_all ((k, None) # kvs) out = insert_all kvs out"
| "insert_all ((k, Some v) # kvs) out = insert_all kvs (bt_insert k v out)"

definition keys3 :: "(string, json) bmap \<Rightarrow> (string, json) bmap \<Rightarrow> (string, json) bmap \<Rightarrow> string list" where
  "keys3 b t d = fold bs_insert (map fst b @ map fst t @ map fst d) []"

lemma jdepth_get: "bt_get m k = Some v \<Longrightarrow> jdepth v < jdepth (JObj m)"
  using fold_max_mem [of "(k, v)" m "\<lambda>kv. jdepth (snd kv)" 0] map_of_SomeD [of m k v] by fastforce

lemma odepth_get: "odepth (bt_get m k) < odepth (Some (JObj m))"
  using jdepth_get [of m k] by (cases "bt_get m k") auto

lemma jdepth_object_le: "(\<And>k v. (k, v) \<in> set m \<Longrightarrow> jdepth v \<le> b) \<Longrightarrow> jdepth (JObj m) \<le> Suc b"
  by (auto intro!: fold_max_le)

lemma set_bt_insert: "set (bt_insert k v m) \<subseteq> insert (k, v) (set m)"
  by (induction m) (auto split: if_splits)

lemma marks_loop_depth:
  assumes "marks_loop ms out = Inr v" and "\<forall>m \<in> set ms. jdepth m \<le> b" and "\<forall>(k, m) \<in> set out. jdepth m \<le> b"
  shows "jdepth v \<le> Suc b"
  using assms
proof (induction ms arbitrary: out)
  case Nil
  then show ?case using jdepth_object_le [of out b] by auto
next
  case (Cons m ms)
  then obtain kind where "marks_loop ms (bt_insert kind m out) = Inr v" by (auto simp: result_simps split: if_splits)
  then show ?case using set_bt_insert [of kind m out] Cons.prems by (intro Cons.IH [of "bt_insert kind m out"]) auto
qed

lemma marks_depth: "marks v = Inr o1 \<Longrightarrow> odepth (Some o1) \<le> max 2 (odepth v)"
proof (cases v)
  case (Some u)
  moreover assume "marks v = Inr o1"
  ultimately obtain ms where ms: "u = JArr ms" "marks_loop ms [] = Inr o1"
    by (cases u) (auto simp: marks_def result_simps)
  have "jdepth m \<le> fold (\<lambda>x m. max m (jdepth x)) ms 0" if "m \<in> set ms" for m using fold_max_mem [OF that, of jdepth 0] .
  then have "jdepth o1 \<le> Suc (fold (\<lambda>x m. max m (jdepth x)) ms 0)" using ms(2) by (intro marks_loop_depth) auto
  then show ?thesis by (simp add: Some ms(1))
qed (auto simp: marks_def)

lemma as_object_iff: "Option.bind v as_object = Some m \<longleftrightarrow> v = Some (JObj m)"
proof (cases v)
  case (Some u)
  then show ?thesis by (cases u) auto
qed simp

lemma depth3_children:
  assumes "Option.bind team as_object = Some t" and "Option.bind draft as_object = Some d"
    and "b = (case Option.bind base as_object of None \<Rightarrow> [] | Some b \<Rightarrow> b)"
  shows "depth3 (bt_get b k) (bt_get t k) (bt_get d k) < depth3 base team draft"
proof -
  have "odepth (bt_get b k) < depth3 base team draft"
  proof (cases "Option.bind base as_object")
    case (Some m)
    then show ?thesis using odepth_get [of m k] assms(3) by (simp add: as_object_iff depth3_def)
  qed (use assms in \<open>simp add: depth3_def as_object_iff\<close>)
  moreover have "odepth (bt_get t k) < depth3 base team draft" "odepth (bt_get d k) < depth3 base team draft"
    using assms odepth_get [of t k] odepth_get [of d k] by (simp_all add: as_object_iff depth3_def del: odepth.simps jdepth.simps)
  ultimately show ?thesis by (simp add: depth3_def [of "bt_get b k"])
qed

lemma marks_Some: "marks v = Inr o1 \<Longrightarrow> v \<noteq> None \<Longrightarrow> 2 \<le> odepth v"
proof (cases v)
  case (Some u)
  moreover assume "marks v = Inr o1"
  ultimately show ?thesis by (cases u) (auto simp: marks_def result_simps)
qed simp

lemma depth3_marks:
  assumes "marks b = Inr mb" and "marks t = Inr mt" and "marks d = Inr md" and "t \<noteq> b"
  shows "depth3 (Some mb) (Some mt) (Some md) \<le> depth3 b t d"
proof -
  have "2 \<le> depth3 b t d" using marks_Some [OF assms(1)] marks_Some [OF assms(2)] assms(4) by (cases b) (auto simp: depth3_def)
  then show ?thesis using marks_depth [OF assms(1)] marks_depth [OF assms(2)] marks_depth [OF assms(3)]
    by (auto simp: depth3_def)
qed

function (sequential)
  merge_property :: "json option \<Rightarrow> json option \<Rightarrow> json option \<Rightarrow> unit + json option"
  and merge_marks :: "json option \<Rightarrow> json option \<Rightarrow> json option \<Rightarrow> unit + json option"
where
  "merge_property base team draft =
     (if draft = base \<or> draft = team then Inr team
      else if team = base then Inr draft
      else
        (case (Option.bind team as_object, Option.bind draft as_object) of
           (Some t, Some d) \<Rightarrow>
             (let b = (case Option.bind base as_object of None \<Rightarrow> [] | Some b \<Rightarrow> b) in
              if (case base of None \<Rightarrow> False | Some v \<Rightarrow> \<not> is_object v) then Inl ()
              else
                bind_res
                  (map_res (\<lambda>key. bind_res
                      (if key = ''marks'' then merge_marks (bt_get b key) (bt_get t key) (bt_get d key)
                       else merge_property (bt_get b key) (bt_get t key) (bt_get d key))
                      (\<lambda>v. Inr (key, v))) (keys3 b t d))
                  (\<lambda>kvs. Inr (Some (JObj (insert_all kvs [])))))
         | _ \<Rightarrow> Inl ()))"
| "merge_marks b t d =
     (if d = b \<or> d = t then Inr t
      else if t = b then Inr d
      else
        bind_res (marks b) (\<lambda>mb. bind_res (marks t) (\<lambda>mt. bind_res (marks d) (\<lambda>md.
        bind_res (merge_property (Some mb) (Some mt) (Some md)) (\<lambda>r.
        bind_res (ok_or r ()) (\<lambda>merged.
        bind_res (mark_names [t, d] []) (\<lambda>names. Inr (pick_marks merged names))))))))"
  by pat_completeness auto
termination
proof (relation "measure (case_sum (\<lambda>(b, t, d). 2 * depth3 b t d) (\<lambda>(b, t, d). Suc (2 * depth3 b t d)))", goal_cases)
  case (2 base team draft p t d x b k)
  then show ?case using depth3_children [of team d draft x b base k] by simp
next
  case (3 base team draft p t d x b k)
  then show ?case using depth3_children [of team d draft x b base k] by simp
next
  case (4 b t d mb mt md)
  then show ?case using depth3_marks [of b mb t mt d md] by simp
qed simp

declare merge_property.simps [simp del] merge_marks.simps [simp del]

section \<open>Hunks\<close>

record hunk =
  hu_start :: nat
  hu_end :: nat
  hu_insert :: "scalar list"

text \<open>\<^verbatim>\<open>map[old + offset] = Some(new + offset)\<close> for the offsets of an equal run.\<close>

fun map_equal :: "nat option list \<Rightarrow> nat \<Rightarrow> nat \<Rightarrow> nat \<Rightarrow> nat option list option" where
  "map_equal m old new 0 = Some m"
| "map_equal m old new (Suc n) =
     (if old < length m then map_equal (m[old := Some new]) (Suc old) (Suc new) n else None)"

fun align_loop :: "scalar list \<Rightarrow> diff_op list \<Rightarrow> nat option list \<Rightarrow> hunk list \<Rightarrow> (nat option list \<times> hunk list) option" where
  "align_loop b [] m hunks = Some (m, hunks)"
| "align_loop b (op # ops) m hunks =
     (let (equal, old, old_len, new, new_len) = tag_tuple op in
      if equal then (case map_equal m old new old_len of None \<Rightarrow> None | Some m' \<Rightarrow> align_loop b ops m' hunks)
      else
        (case slice_opt b new (new + new_len) of
           None \<Rightarrow> None
         | Some ins \<Rightarrow> align_loop b ops m (hunks @ [\<lparr>hu_start = old, hu_end = old + old_len, hu_insert = ins\<rparr>])))"

definition alignment :: "differ \<Rightarrow> scalar list \<Rightarrow> scalar list \<Rightarrow> (nat option list \<times> hunk list) option" where
  "alignment myers a b = align_loop b (text_diff myers a b) (replicate (length a) None) []"

definition overlaps :: "hunk \<Rightarrow> hunk \<Rightarrow> bool" where
  "overlaps a b \<longleftrightarrow>
     (if hu_start a = hu_end a then hu_start a \<ge> hu_start b \<and> hu_start a \<le> hu_end b
      else if hu_start b = hu_end b then hu_start b \<ge> hu_start a \<and> hu_start b \<le> hu_end a
      else hu_start a < hu_end b \<and> hu_start b < hu_end a)"

text \<open>The linear scan: does it meet an overlapping pair?\<close>

function overlap_scan :: "hunk list \<Rightarrow> hunk list \<Rightarrow> bool" where
  "overlap_scan [] dh = False"
| "overlap_scan (t # th) [] = False"
| "overlap_scan (t # th) (d # dh) =
     (if overlaps t d then True
      else if hu_end t \<le> hu_start d then overlap_scan th (d # dh)
      else overlap_scan (t # th) dh)"
  by pat_completeness auto
termination
  by (relation "measure (\<lambda>(th, dh). length th + length dh)") auto

text \<open>The positions of the base a hunk touches, and whether the other side restyled one of them (\<^const>\<open>None\<close>: an index
  panic).\<close>

definition touched :: "nat \<Rightarrow> hunk \<Rightarrow> nat list" where
  "touched len h =
     (if hu_start h = hu_end h then [hu_start h - 1..<min (hu_start h + 1) len] else [hu_start h..<hu_end h])"

definition restyled :: "scalar list \<Rightarrow> nat option list \<Rightarrow> scalar list \<Rightarrow> nat \<Rightarrow> bool option" where
  "restyled b m other i =
     (case nth_opt m i of
        None \<Rightarrow> None
      | Some None \<Rightarrow> Some False
      | Some (Some k) \<Rightarrow>
          (case (nth_opt b i, nth_opt other k) of
             (Some x, Some y) \<Rightarrow> Some (sc_style x \<noteq> sc_style y)
           | _ \<Rightarrow> None))"

fun any_restyled :: "scalar list \<Rightarrow> nat option list \<Rightarrow> scalar list \<Rightarrow> nat list \<Rightarrow> bool option" where
  "any_restyled b m other [] = Some False"
| "any_restyled b m other (i # is) =
     (case restyled b m other i of
        None \<Rightarrow> None
      | Some True \<Rightarrow> Some True
      | Some False \<Rightarrow> any_restyled b m other is)"

section \<open>Merging inline text\<close>

text \<open>Sequencing of a computation that may panic or return \<^verbatim>\<open>None\<close> early.\<close>

fun pbind :: "'a option option \<Rightarrow> ('a \<Rightarrow> 'b option option) \<Rightarrow> 'b option option" where
  "pbind None f = None"
| "pbind (Some None) f = Some None"
| "pbind (Some (Some x)) f = f x"

definition merge_scalar ::
    "scalar_writer \<Rightarrow> scalar list \<Rightarrow> scalar list \<Rightarrow> scalar list \<Rightarrow> nat option list \<Rightarrow> nat option list \<Rightarrow> nat \<Rightarrow> styles
      \<Rightarrow> (scalar \<times> styles) option option" where
  "merge_scalar ser b t d tm dm i st =
     pbind (Some (Option.bind (nth_opt tm i) id)) (\<lambda>ti.
     pbind (map_option Some (nth_opt t ti)) (\<lambda>tc.
     pbind (Some (Option.bind (nth_opt dm i) id)) (\<lambda>di.
     pbind (map_option Some (nth_opt d di)) (\<lambda>dc.
     pbind (map_option Some (nth_opt b i)) (\<lambda>bc.
     let ts = sc_style tc; ds = sc_style dc; bs = sc_style bc in
     if sc_ch bc = ATOM \<and> ts \<noteq> bs \<and> ds \<noteq> bs \<and> ts \<noteq> ds then Some None
     else
       pbind (map_option Some (nth_opt (st_values st) bs)) (\<lambda>bv.
       pbind (map_option Some (nth_opt (st_values st) ts)) (\<lambda>tv.
       pbind (map_option Some (nth_opt (st_values st) ds)) (\<lambda>dv.
       case merge_property (Some bv) (Some tv) (Some dv) of
         Inr (Some metadata) \<Rightarrow>
           (let (style, st') = intern ser metadata st in Some (Some (\<lparr>sc_ch = sc_ch bc, sc_style = style\<rparr>, st')))
       | _ \<Rightarrow> Some None))))))))"

fun merge_run ::
    "scalar_writer \<Rightarrow> scalar list \<Rightarrow> scalar list \<Rightarrow> scalar list \<Rightarrow> nat option list \<Rightarrow> nat option list \<Rightarrow> nat list \<Rightarrow> styles
      \<Rightarrow> scalar list \<Rightarrow> (scalar list \<times> styles) option option" where
  "merge_run ser b t d tm dm [] st result = Some (Some (result, st))"
| "merge_run ser b t d tm dm (i # is) st result =
     pbind (merge_scalar ser b t d tm dm i st) (\<lambda>(sc, st'). merge_run ser b t d tm dm is st' (result @ [sc]))"

fun merge_hunks ::
    "scalar_writer \<Rightarrow> scalar list \<Rightarrow> scalar list \<Rightarrow> scalar list \<Rightarrow> nat option list \<Rightarrow> nat option list \<Rightarrow> hunk list \<Rightarrow> nat
      \<Rightarrow> styles \<Rightarrow> scalar list \<Rightarrow> (scalar list \<times> styles) option option" where
  "merge_hunks ser b t d tm dm [] cursor st result = Some (Some (result, st))"
| "merge_hunks ser b t d tm dm (h # hs) cursor st result =
     pbind (merge_run ser b t d tm dm [cursor..<hu_start h] st result) (\<lambda>(result', st').
     merge_hunks ser b t d tm dm hs (hu_end h) st' (result' @ hu_insert h))"

definition last_hunk :: "scalar list \<Rightarrow> hunk" where
  "last_hunk b = \<lparr>hu_start = length b, hu_end = length b, hu_insert = []\<rparr>"

definition sort_hunks :: "hunk list \<Rightarrow> hunk list \<Rightarrow> hunk list" where
  "sort_hunks th dh = sort_key hu_start (th @ dh)"

definition merge_scalars ::
    "differ \<Rightarrow> scalar_writer \<Rightarrow> scalar list \<Rightarrow> scalar list \<Rightarrow> scalar list \<Rightarrow> styles \<Rightarrow> (scalar list \<times> styles) option option" where
  "merge_scalars myers ser b t d st =
     (case (alignment myers b t, alignment myers b d) of
        (Some (tm, th), Some (dm, dh)) \<Rightarrow>
          if overlap_scan th dh then Some None
          else
            (case any_restyled b dm d (concat (map (touched (length b)) th)) of
               None \<Rightarrow> None
             | Some True \<Rightarrow> Some None
             | Some False \<Rightarrow>
                 (case any_restyled b tm t (concat (map (touched (length b)) dh)) of
                    None \<Rightarrow> None
                  | Some True \<Rightarrow> Some None
                  | Some False \<Rightarrow> merge_hunks ser b t d tm dm (sort_hunks th dh @ [last_hunk b]) 0 st []))
      | _ \<Rightarrow> None)"

definition merge_inline :: "differ \<Rightarrow> scalar_writer \<Rightarrow> json \<Rightarrow> json \<Rightarrow> json \<Rightarrow> json option option" where
  "merge_inline myers ser base team draft =
     (let (b, st1) = inline ser base styles_default True in
      pbind (Some b) (\<lambda>b.
      let (t, st2) = inline ser team st1 True in
      pbind (Some t) (\<lambda>t.
      let (d, st3) = inline ser draft st2 True in
      pbind (Some d) (\<lambda>d.
      pbind (Some (props base)) (\<lambda>bp. pbind (Some (props team)) (\<lambda>tp. pbind (Some (props draft)) (\<lambda>dp.
      pbind (Some (case merge_property (Some bp) (Some tp) (Some dp) of Inl _ \<Rightarrow> None | Inr r \<Rightarrow> r)) (\<lambda>out.
      pbind (merge_scalars myers ser b t d st3) (\<lambda>(result, st).
      pbind (Some (case children_of result (st_values st) True of Inl _ \<Rightarrow> None | Inr cs \<Rightarrow> Some cs)) (\<lambda>cs.
      Some (Some (put_content out (JArr cs)))))))))))))"

definition without_attrs :: "json \<Rightarrow> json" where
  "without_attrs v = (case v of JObj m \<Rightarrow> JObj (bt_remove ''attrs'' m) | _ \<Rightarrow> v)"

definition merge_image :: "json \<Rightarrow> json \<Rightarrow> json \<Rightarrow> json option" where
  "merge_image base team draft =
     (case merge_property (json_get base ''attrs'') (json_get team ''attrs'') (json_get draft ''attrs'') of
        Inl _ \<Rightarrow> None
      | Inr attrs \<Rightarrow>
          (case team of
             JObj m \<Rightarrow>
               Some (JObj (case attrs of
                             None \<Rightarrow> bt_remove ''attrs'' m
                           | Some a \<Rightarrow> bt_insert ''attrs'' a (bt_remove ''attrs'' m)))
           | _ \<Rightarrow> None))"

definition merge :: "differ \<Rightarrow> scalar_writer \<Rightarrow> json \<Rightarrow> json \<Rightarrow> json \<Rightarrow> json option option" where
  "merge myers ser base team draft =
     (if draft = base \<or> draft = team then Some (Some team)
      else if team = base then Some (Some draft)
      else if json_index base ''type'' = JStr ''image''
          \<and> without_attrs base = without_attrs team \<and> without_attrs base = without_attrs draft
      then Some (merge_image base team draft)
      else merge_inline myers ser base team draft)"

end
