(* ===== verification/RichText_Edits.thy ===== *)
theory RichText_Edits
  imports RichText_Merge "HOL-Library.Multiset"
begin

text \<open>
  What the three-way merge of inline text computes. A diff is a script of runs that covers both texts; its hunks are the
  edits that turn the base into the side. The merge refuses overlapping hunks and otherwise applies the hunks
  of both sides to the base, in either order of the sides, and no index it uses is out of range.
\<close>

section \<open>Edit scripts\<close>

text \<open>What \<^verbatim>\<open>similar::capture_diff_slices\<close> promises: the operations cover both sequences in order, and equal runs are equal.\<close>

fun script :: "'a list \<Rightarrow> 'a list \<Rightarrow> nat \<Rightarrow> nat \<Rightarrow> diff_op list \<Rightarrow> bool" where
  "script a b i j [] \<longleftrightarrow> i = length a \<and> j = length b"
| "script a b i j (op # ops) \<longleftrightarrow>
     (let (equal, old, old_len, new, new_len) = tag_tuple op in
      old = i \<and> new = j \<and> i + old_len \<le> length a \<and> j + new_len \<le> length b
      \<and> (equal \<longrightarrow> take old_len (drop i a) = take new_len (drop j b))
      \<and> script a b (i + old_len) (j + new_len) ops)"

definition differ_ok :: "differ \<Rightarrow> bool" where
  "differ_ok myers \<longleftrightarrow> (\<forall>a b. script a b 0 0 (myers a b))"

lemma common_prefix_take: "take (common_prefix a b) a = take (common_prefix a b) b"
  by (induction a b rule: common_prefix.induct) auto

lemma common_prefix_le: "common_prefix a b \<le> length a" "common_prefix a b \<le> length b"
  by (induction a b rule: common_prefix.induct) auto

text \<open>The script that keeps the common prefix and suffix and replaces what is between them.\<close>

definition trimmed :: "'a list \<Rightarrow> 'a list \<Rightarrow> diff_op list" where
  "trimmed a b =
     (let p = common_prefix a b; q = common_prefix (rev (drop p a)) (rev (drop p b)) in
      (if p > 0 then [DEqual 0 0 p] else []) @ [DReplace p (length a - p - q) p (length b - p - q)]
      @ (if q > 0 then [DEqual (p + (length a - p - q)) (p + (length b - p - q)) q] else []))"

lemma trimmed_script: "script a b 0 0 (trimmed a b)"
proof -
  define p where "p = common_prefix a b"
  define q where "q = common_prefix (rev (drop p a)) (rev (drop p b))"
  have p: "take p a = take p b" "p \<le> length a" "p \<le> length b"
    using common_prefix_take [of a b] common_prefix_le [of a b] by (simp_all add: p_def)
  have q: "q \<le> length a - p" "q \<le> length b - p" "take q (rev (drop p a)) = take q (rev (drop p b))"
    using common_prefix_le [of "rev (drop p a)" "rev (drop p b)"] common_prefix_take [of "rev (drop p a)" "rev (drop p b)"]
    by (simp_all add: q_def)
  have suffix: "drop (length a - q) a = drop (length b - q) b"
  proof -
    have "rev (drop (length a - q) a) = take q (rev a)" "rev (drop (length b - q) b) = take q (rev b)"
      by (simp_all add: take_rev)
    moreover have "take q (rev a) = take q (rev (drop p a))" "take q (rev b) = take q (rev (drop p b))"
      using q(1,2) p(2,3) by (simp_all add: rev_drop)
    ultimately show ?thesis using q(3) by (metis rev_rev_ident)
  qed
  show ?thesis unfolding trimmed_def Let_def p_def [symmetric] q_def [symmetric]
    using p q suffix by (auto simp: Let_def)
qed

lemma text_diff_script:
  assumes "differ_ok myers"
  shows "script (map sc_ch sa) (map sc_ch sb) 0 0 (text_diff myers sa sb)"
proof -
  have "text_diff myers sa sb = myers (map sc_ch sa) (map sc_ch sb) \<or> text_diff myers sa sb = trimmed (map sc_ch sa) (map sc_ch sb)"
    unfolding text_diff_def trimmed_def Let_def length_map by (rule if_split [THEN iffD2]) blast
  with assms trimmed_script [of "map sc_ch sa" "map sc_ch sb"] show ?thesis by (auto simp: differ_ok_def)
qed

section \<open>Hunks as edits\<close>

type_synonym 'a edit = "nat \<times> nat \<times> 'a list"

fun edited :: "'a list \<Rightarrow> nat \<Rightarrow> 'a edit list \<Rightarrow> 'a list" where
  "edited xs c [] = drop c xs"
| "edited xs c ((s, e, ins) # es) = take (s - c) (drop c xs) @ ins @ edited xs e es"

definition hunk_edit :: "hunk \<Rightarrow> string edit" where
  "hunk_edit h = (hu_start h, hu_end h, map sc_ch (hu_insert h))"

text \<open>The hunks of one side, in order, inside a base of length \<open>n\<close>.\<close>

fun chain :: "nat \<Rightarrow> nat \<Rightarrow> hunk list \<Rightarrow> bool" where
  "chain c n [] \<longleftrightarrow> c \<le> n"
| "chain c n (h # hs) \<longleftrightarrow> c \<le> hu_start h \<and> hu_start h \<le> hu_end h \<and> chain (hu_end h) n hs"

lemma chain_mono: "chain c n hs \<Longrightarrow> c' \<le> c \<Longrightarrow> chain c' n hs"
  by (cases hs) auto

lemma chain_mem: "chain c n hs \<Longrightarrow> h \<in> set hs \<Longrightarrow> c \<le> hu_start h \<and> hu_start h \<le> hu_end h \<and> hu_end h \<le> n"
proof (induction hs arbitrary: c)
  case (Cons g hs)
  have "chain c n hs \<Longrightarrow> c \<le> n" for c by (induction hs arbitrary: c) fastforce+
  with Cons show ?case by fastforce
qed simp

text \<open>The alignment maps a position of the base into the side, and only inside it.\<close>

definition in_side :: "nat \<Rightarrow> nat option list \<Rightarrow> bool" where
  "in_side n m \<longleftrightarrow> (\<forall>k. Some k \<in> set m \<longrightarrow> k < n)"

lemma in_side_nth: "in_side n m \<Longrightarrow> Option.bind (nth_opt m i) id = Some k \<Longrightarrow> k < n \<and> i < length m"
  by (cases "i < length m") (auto simp: in_side_def nth_opt_def in_set_conv_nth)

lemma map_equal_ok:
  assumes "old + n \<le> length m" and "new + n \<le> len" and "in_side len m"
  shows "\<exists>m'. map_equal m old new n = Some m' \<and> length m' = length m \<and> in_side len m'"
  using assms
proof (induction n arbitrary: m old new)
  case (Suc n)
  have "in_side len (m[old := Some new])"
    using Suc.prems set_update_subset_insert [of m old "Some new"] by (auto simp: in_side_def)
  with Suc.IH [of "Suc old" "m[old := Some new]" "Suc new"] Suc.prems show ?case by auto
qed simp

lemma take_drop_add: "c \<le> c' \<Longrightarrow> c' \<le> s \<Longrightarrow> take (s - c) (drop c xs) = take (c' - c) (drop c xs) @ take (s - c') (drop c' xs)"
  using take_add [of "c' - c" "s - c'" "drop c xs"] by (simp add: drop_drop)

lemma edited_skip:
  assumes "c \<le> c'" and "chain c' n hs"
  shows "edited xs c (map hunk_edit hs) = take (c' - c) (drop c xs) @ edited xs c' (map hunk_edit hs)"
proof (cases hs)
  case Nil
  have "drop c' xs = drop (c' - c) (drop c xs)" using assms(1) by (simp add: drop_drop)
  then show ?thesis by (simp only: Nil list.map edited.simps append_take_drop_id)
next
  case (Cons h hs')
  then have "c' \<le> hu_start h" using assms(2) by simp
  then show ?thesis using take_drop_add [OF assms(1), of "hu_start h" xs] by (simp add: Cons hunk_edit_def)
qed

lemma align_loop_ok:
  assumes "script (map sc_ch a) (map sc_ch b) i j ops" and "length m = length a" and "in_side (length b) m"
  shows "\<exists>m' hs. align_loop b ops m hunks = Some (m', hunks @ hs) \<and> length m' = length a \<and> in_side (length b) m'
    \<and> chain i (length a) hs \<and> drop j (map sc_ch b) = edited (map sc_ch a) i (map hunk_edit hs)"
  using assms
proof (induction ops arbitrary: i j m hunks)
  case Nil
  then show ?case by simp
next
  case (Cons op ops)
  obtain equal old old_len new new_len where op: "tag_tuple op = (equal, old, old_len, new, new_len)" by (metis prod_cases5)
  have len: "old = i" "new = j" "i + old_len \<le> length a" "j + new_len \<le> length b"
    and eq: "equal \<Longrightarrow> take old_len (drop i (map sc_ch a)) = take new_len (drop j (map sc_ch b))"
    and rest: "script (map sc_ch a) (map sc_ch b) (i + old_len) (j + new_len) ops"
    using Cons.prems(1) by (simp_all add: op Let_def)
  have split: "drop j (map sc_ch b) = take new_len (drop j (map sc_ch b)) @ drop (j + new_len) (map sc_ch b)"
    by (metis add.commute append_take_drop_id drop_drop)
  show ?case
  proof (cases equal)
    case True
    then have same: "old_len = new_len" using op by (cases op) auto
    obtain m1 where m1: "map_equal m i j old_len = Some m1" "length m1 = length a" "in_side (length b) m1"
      using map_equal_ok [of i old_len m j "length b"] len Cons.prems(2,3) same by auto
    from Cons.IH [OF rest m1(2,3)] obtain m' hs where ih: "align_loop b ops m1 hunks = Some (m', hunks @ hs)" "length m' = length a"
      "in_side (length b) m'" "chain (i + old_len) (length a) hs"
      "drop (j + new_len) (map sc_ch b) = edited (map sc_ch a) (i + old_len) (map hunk_edit hs)" by blast
    moreover have "edited (map sc_ch a) i (map hunk_edit hs) = take old_len (drop i (map sc_ch a)) @ edited (map sc_ch a) (i + old_len) (map hunk_edit hs)"
      using edited_skip [OF _ ih(4), of i "map sc_ch a"] by simp
    ultimately show ?thesis using op True m1(1) len eq split chain_mono [OF ih(4), of i] by auto
  next
    case False
    let ?h = "\<lparr>hu_start = i, hu_end = i + old_len, hu_insert = take new_len (drop j b)\<rparr>"
    from Cons.IH [OF rest Cons.prems(2,3), of "hunks @ [?h]"] obtain m' hs where
      "align_loop b ops m (hunks @ [?h]) = Some (m', hunks @ [?h] @ hs)" "length m' = length a"
      "in_side (length b) m'" "chain (i + old_len) (length a) hs"
      "drop (j + new_len) (map sc_ch b) = edited (map sc_ch a) (i + old_len) (map hunk_edit hs)" by auto
    moreover have "slice_opt b j (j + new_len) = Some (take new_len (drop j b))" using len by (simp add: slice_opt_def)
    ultimately show ?thesis using op False len split
      by (intro exI [of _ m'] exI [of _ "?h # hs"]) (simp add: hunk_edit_def [of ?h] take_map drop_map)
  qed
qed

lemma alignment_ok:
  assumes "differ_ok myers"
  shows "\<exists>m hs. alignment myers a b = Some (m, hs) \<and> length m = length a \<and> in_side (length b) m \<and> chain 0 (length a) hs
    \<and> map sc_ch b = edited (map sc_ch a) 0 (map hunk_edit hs)"
  using align_loop_ok [OF text_diff_script [OF assms, of a b], of "replicate (length a) None" "[]"]
  by (auto simp: alignment_def in_side_def)

section \<open>Overlaps\<close>

lemma overlap_scan_exact:
  assumes "chain c n th" and "chain c' n dh"
  shows "overlap_scan th dh \<longleftrightarrow> (\<exists>t \<in> set th. \<exists>d \<in> set dh. overlaps t d)"
  using assms
proof (induction th dh arbitrary: c c' rule: overlap_scan.induct)
  case (3 t th d dh)
  consider "overlaps t d" | "\<not> overlaps t d" "hu_end t \<le> hu_start d" | "\<not> overlaps t d" "\<not> hu_end t \<le> hu_start d" by blast
  then show ?case
  proof cases
    case 2
    have "\<not> overlaps t g" if "g \<in> set dh" for g
      using 2 that "3.prems" chain_mem [of "hu_end d" n dh g] by (auto simp: overlaps_def split: if_splits)
    then show ?thesis using 2 "3.IH"(1) [of "hu_end t" c'] "3.prems" by auto
  next
    case 3
    have "\<not> overlaps g d" if "g \<in> set th" for g
      using 3 that "3.prems" chain_mem [of "hu_end t" n th g] by (auto simp: overlaps_def split: if_splits)
    then show ?thesis using 3 "3.IH"(2) [of c "hu_end d"] "3.prems" by auto
  qed simp
qed simp_all

section \<open>The merge applies the edits of both sides\<close>

lemma pbind_Some: "pbind x f = Some (Some z) \<longleftrightarrow> (\<exists>y. x = Some (Some y) \<and> f y = Some (Some z))"
  by (cases "(x, f)" rule: pbind.cases) auto

lemma merge_scalar_ch:
  assumes "merge_scalar ser b t d tm dm i st = Some (Some (sc, st'))"
  shows "i < length b \<and> sc_ch sc = sc_ch (b ! i)"
  using assms by (auto simp: merge_scalar_def pbind_Some nth_opt_Some_iff Let_def split: if_splits sum.splits option.splits prod.splits)

lemma interned_case:
  "(case r of Inl u \<Rightarrow> Some None | Inr None \<Rightarrow> Some None
     | Inr (Some md) \<Rightarrow> let (style, st') = intern ser md st in Some (Some (\<lparr>sc_ch = c, sc_style = style\<rparr>, st'))) = Some (Some (sc, st1)) \<Longrightarrow>
   \<exists>md style. intern ser md st = (style, st1)"
  by (auto split: sum.splits option.splits prod.splits)

lemma merge_scalar_intern:
  assumes "merge_scalar ser b t d tm dm i st = Some (Some (sc, st'))"
  shows "\<exists>metadata style. intern ser metadata st = (style, st')"
  using assms by (fastforce simp: merge_scalar_def pbind_Some Let_def [of "sc_style _"] split: if_splits dest!: interned_case)

lemma merge_run_ch:
  assumes "merge_run ser b t d tm dm is st result = Some (Some (result', st'))"
  shows "(\<forall>i \<in> set is. i < length b) \<and> map sc_ch result' = map sc_ch result @ map (\<lambda>i. sc_ch (b ! i)) is"
  using assms
proof (induction "is" arbitrary: st result)
  case (Cons i "is")
  then obtain sc st1 where sc: "merge_scalar ser b t d tm dm i st = Some (Some (sc, st1))"
    and rest: "merge_run ser b t d tm dm is st1 (result @ [sc]) = Some (Some (result', st'))" by (auto simp: pbind_Some)
  from merge_scalar_ch [OF sc] Cons.IH [OF rest] show ?case by simp
qed simp

lemma map_upt_take_drop:
  assumes "\<forall>i \<in> set [c..<s]. i < length b"
  shows "map (\<lambda>i. f (b ! i)) [c..<s] = take (s - c) (drop c (map f b))"
proof (cases "c < s")
  case True
  then have "s - 1 \<in> set [c..<s]" by auto
  then have "s \<le> length b" using assms True by fastforce
  then show ?thesis by (intro nth_equalityI) auto
qed simp

lemma merge_hunks_ch:
  assumes "merge_hunks ser b t d tm dm (hs @ [last_hunk b]) c st result = Some (Some (result', st'))"
  shows "map sc_ch result' = map sc_ch result @ edited (map sc_ch b) c (map hunk_edit hs)"
  using assms
proof (induction hs arbitrary: c st result)
  case Nil
  then obtain r st1 where "merge_run ser b t d tm dm [c..<length b] st result = Some (Some (r, st1))" "result' = r"
    by (auto simp: pbind_Some last_hunk_def)
  with merge_run_ch [of ser b t d tm dm "[c..<length b]" st result r st1] map_upt_take_drop [of c "length b" b sc_ch] show ?case by simp
next
  case (Cons h hs)
  then obtain r st1 where r: "merge_run ser b t d tm dm [c..<hu_start h] st result = Some (Some (r, st1))"
    and rest: "merge_hunks ser b t d tm dm (hs @ [last_hunk b]) (hu_end h) st1 (r @ hu_insert h) = Some (Some (result', st'))"
    by (auto simp: pbind_Some)
  from merge_run_ch [OF r] map_upt_take_drop [of c "hu_start h" b sc_ch] Cons.IH [OF rest] show ?case
    by (simp add: hunk_edit_def [of h])
qed

lemma merge_scalars_ch:
  assumes "differ_ok myers" and "merge_scalars myers ser b t d st = Some (Some (result, st'))"
  shows "\<exists>th dh. chain 0 (length b) th \<and> chain 0 (length b) dh \<and> (\<forall>h \<in> set th. \<forall>g \<in> set dh. \<not> overlaps h g)
    \<and> map sc_ch t = edited (map sc_ch b) 0 (map hunk_edit th) \<and> map sc_ch d = edited (map sc_ch b) 0 (map hunk_edit dh)
    \<and> map sc_ch result = edited (map sc_ch b) 0 (map hunk_edit (sort_hunks th dh))"
proof -
  obtain tm th where t: "alignment myers b t = Some (tm, th)" "chain 0 (length b) th" "map sc_ch t = edited (map sc_ch b) 0 (map hunk_edit th)"
    using alignment_ok [OF assms(1)] by blast
  obtain dm dh where d: "alignment myers b d = Some (dm, dh)" "chain 0 (length b) dh" "map sc_ch d = edited (map sc_ch b) 0 (map hunk_edit dh)"
    using alignment_ok [OF assms(1)] by blast
  have "\<not> overlap_scan th dh" and hunks: "merge_hunks ser b t d tm dm (sort_hunks th dh @ [last_hunk b]) 0 st [] = Some (Some (result, st'))"
    using assms(2) by (auto simp: merge_scalars_def t(1) d(1) split: if_splits option.splits bool.splits)
  then show ?thesis using t(2,3) d(2,3) overlap_scan_exact [OF t(2) d(2)] merge_hunks_ch [OF hunks]
    by (intro exI [of _ th] exI [of _ dh]) auto
qed

lemma same_start_overlaps: "hu_start h \<le> hu_end h \<Longrightarrow> hu_start g \<le> hu_end g \<Longrightarrow> hu_start h = hu_start g \<Longrightarrow> overlaps h g"
  by (auto simp: overlaps_def)

lemma sort_hunks_comm:
  assumes "chain c n th" and "chain c' n' dh" and "\<forall>h \<in> set th. \<forall>g \<in> set dh. \<not> overlaps h g"
  shows "sort_hunks th dh = sort_hunks dh th"
proof -
  have apart: "hu_start h \<noteq> hu_start g" if "h \<in> set th" "g \<in> set dh" for h g
    using that assms(3) same_start_overlaps chain_mem [OF assms(1)] chain_mem [OF assms(2)] by blast
  have "filter (\<lambda>x. hu_start x = k) th = [] \<or> filter (\<lambda>x. hu_start x = k) dh = []" for k
    using apart by (auto simp: filter_empty_conv)
  then have "filter (\<lambda>x. hu_start x = k) (dh @ th) = filter (\<lambda>x. hu_start x = k) (th @ dh)" for k
    by (metis append_Nil append_Nil2 filter_append)
  then have "filter (\<lambda>x. hu_start k = hu_start x) (sort_key hu_start (dh @ th)) = filter (\<lambda>x. hu_start k = hu_start x) (th @ dh)" for k
    using sort_key_stable [of hu_start "hu_start k" "dh @ th"] by (metis (mono_tags, lifting) filter_cong)
  then show ?thesis unfolding sort_hunks_def by (intro properties_for_sort_key) (simp_all add: union_commute)
qed

lemma sort_key_map: "sort_key f (map g xs) = map g (sort_key (\<lambda>x. f (g x)) xs)"
proof -
  have ins: "insort_key f (g x) (map g ys) = map g (insort_key (\<lambda>x. f (g x)) x ys)" for x ys by (induction ys) auto
  show ?thesis by (induction xs) (simp_all add: ins)
qed

text \<open>
  A text that combines two edited versions of a base, stated on the texts alone: each version is the base with its own edits, the
  edits of one lie apart from those of the other (an insertion not even at the border of an edit), and the result is
  the base with the edits of both, in the order of their positions whichever version comes first.
\<close>

fun apart :: "'a edit \<Rightarrow> 'a edit \<Rightarrow> bool" where
  "apart (s, e, ins) (s', e', ins') \<longleftrightarrow> (if s = e \<or> s' = e' then e < s' \<or> e' < s else e \<le> s' \<or> e' \<le> s)"

fun ordered :: "nat \<Rightarrow> nat \<Rightarrow> 'a edit list \<Rightarrow> bool" where
  "ordered c n [] \<longleftrightarrow> c \<le> n"
| "ordered c n ((s, e, ins) # es) \<longleftrightarrow> c \<le> s \<and> s \<le> e \<and> ordered e n es"

definition both_edits :: "string list \<Rightarrow> string list \<Rightarrow> string list \<Rightarrow> string list \<Rightarrow> bool" where
  "both_edits b t d m \<longleftrightarrow>
     (\<exists>te de. ordered 0 (length b) te \<and> ordered 0 (length b) de \<and> (\<forall>x \<in> set te. \<forall>y \<in> set de. apart x y)
        \<and> t = edited b 0 te \<and> d = edited b 0 de
        \<and> m = edited b 0 (sort_key fst (te @ de)) \<and> sort_key fst (te @ de) = sort_key fst (de @ te))"

lemma chain_ordered: "chain c n hs \<Longrightarrow> ordered c n (map hunk_edit hs)"
  by (induction hs arbitrary: c) (auto simp: hunk_edit_def)

lemma sort_hunks_edits: "map hunk_edit (sort_hunks th dh) = sort_key fst (map hunk_edit th @ map hunk_edit dh)"
  using sort_key_map [of fst hunk_edit "th @ dh"] by (simp add: sort_hunks_def hunk_edit_def)

lemma merge_scalars_both:
  assumes "differ_ok myers" and "merge_scalars myers ser b t d st = Some (Some (result, st'))"
  shows "both_edits (map sc_ch b) (map sc_ch t) (map sc_ch d) (map sc_ch result)"
proof -
  obtain th dh where h: "chain 0 (length b) th" "chain 0 (length b) dh" "\<forall>h \<in> set th. \<forall>g \<in> set dh. \<not> overlaps h g"
      "map sc_ch t = edited (map sc_ch b) 0 (map hunk_edit th)" "map sc_ch d = edited (map sc_ch b) 0 (map hunk_edit dh)"
      "map sc_ch result = edited (map sc_ch b) 0 (map hunk_edit (sort_hunks th dh))"
    using merge_scalars_ch [OF assms] by blast
  have "apart (hunk_edit h) (hunk_edit g)" if "h \<in> set th" "g \<in> set dh" for h g
  proof -
    have "\<not> overlaps h g" "hu_start h \<le> hu_end h" "hu_start g \<le> hu_end g"
      using that h(3) chain_mem [OF h(1)] chain_mem [OF h(2)] by auto
    then show ?thesis by (auto simp: overlaps_def hunk_edit_def split: if_splits)
  qed
  moreover have "sort_key fst (map hunk_edit th @ map hunk_edit dh) = sort_key fst (map hunk_edit dh @ map hunk_edit th)"
    using arg_cong [OF sort_hunks_comm [OF h(1-3)], of "map hunk_edit"] by (simp add: sort_hunks_edits)
  ultimately show ?thesis unfolding both_edits_def using h chain_ordered [OF h(1)] chain_ordered [OF h(2)]
    by (intro exI [of _ "map hunk_edit th"] exI [of _ "map hunk_edit dh"]) (auto simp: sort_hunks_edits)
qed

section \<open>The characters of a document\<close>

text \<open>Read off the children of an inline container, without the code's scalars: a text has its characters, anything else is one
  object.\<close>

definition child_chars :: "json \<Rightarrow> string list" where
  "child_chars c =
     (if json_index c ''type'' = JStr ''text'' then (case json_index c ''text'' of JStr s \<Rightarrow> chars s | _ \<Rightarrow> []) else [ATOM])"

definition doc_chars :: "json \<Rightarrow> string list" where
  "doc_chars v = (case json_index v ''content'' of JArr cs \<Rightarrow> concat (map child_chars cs) | _ \<Rightarrow> [])"

lemma inline_chars_ch: "inline_chars atoms i cs out = Some out' \<Longrightarrow> map sc_ch out' = map sc_ch out @ cs"
  by (induction cs arbitrary: out) (auto split: if_splits)

lemma inline_loop_ch:
  "inline_loop ser True cs st out = (Some out', st') \<Longrightarrow> map sc_ch out' = map sc_ch out @ concat (map child_chars cs)"
proof (induction cs arbitrary: st out)
  case (Cons child cs)
  show ?case
  proof (cases "json_index child ''type'' \<noteq> JStr ''text'' \<or> json_get child ''content'' \<noteq> None")
    case True
    then have "json_index child ''type'' \<noteq> JStr ''text''" using Cons.prems by (auto split: if_splits)
    moreover obtain i st1 where "intern ser child st = (i, st1)" by fastforce
    ultimately show ?thesis using Cons.prems True Cons.IH by (force simp: child_chars_def split: if_splits)
  next
    case False
    then obtain tx m where tx: "json_index child ''text'' = JStr tx" "as_object child = Some m"
      using Cons.prems by (auto split: option.splits)
    obtain i st1 where i: "intern ser (JObj (bt_remove ''text'' m)) st = (i, st1)" by fastforce
    with False Cons.prems tx obtain out1 where "inline_chars True i (chars tx) out = Some out1" "inline_loop ser True cs st1 out1 = (Some out', st')"
      by (auto split: option.splits)
    note out = this
    have "child_chars child = chars tx" using False tx(1) by (simp add: child_chars_def)
    then show ?thesis using Cons.IH [OF out(2)] inline_chars_ch [OF out(1)] by simp
  qed
qed simp

lemma inline_ch: "inline ser v st True = (Some b, st') \<Longrightarrow> map sc_ch b = doc_chars v"
proof -
  assume i: "inline ser v st True = (Some b, st')"
  show ?thesis
  proof (cases "json_get v ''content''")
    case None
    with i show ?thesis by (auto simp: inline_def doc_chars_def json_index_def split: if_splits)
  next
    case (Some c)
    with i obtain cs where "c = JArr cs" "inline_loop ser True cs st [] = (Some b, st')"
      by (cases c) (auto simp: inline_def split: if_splits)
    with Some inline_loop_ch [of ser cs st "[]" b st'] show ?thesis by (simp add: doc_chars_def json_index_def)
  qed
qed

lemma children_of_ch: "children_of ts styles True = Inr cs \<Longrightarrow> concat (concat (map child_chars cs)) = concat (map sc_ch ts)"
proof (induction ts styles True arbitrary: cs rule: children_of.induct)
  case (2 t ts styles)
  obtain metadata where m: "nth_opt styles (sc_style t) = Some (JObj metadata)"
    using "2.prems" by (auto split: option.splits json.splits)
  show ?case
  proof (cases "sc_ch t = ATOM \<and> bt_get metadata ''type'' \<noteq> Some (JStr ''text'')")
    case True
    with "2.prems" m obtain out where out: "children_of ts styles True = Inr out" "cs = JObj metadata # out" by (auto simp: result_simps)
    moreover have "child_chars (JObj metadata) = [ATOM]" using True by (auto simp: child_chars_def split: option.splits)
    ultimately show ?thesis using "2.hyps"(1) [OF m refl _ out(1)] True by simp
  next
    case False
    let ?run = "takeWhile (\<lambda>u. sc_style u = sc_style t) (t # ts)" and ?rest = "dropWhile (\<lambda>u. sc_style u = sc_style t) ts"
    have ty: "bt_get metadata ''type'' = Some (JStr ''text'')" using "2.prems" m False by (auto split: if_splits)
    with "2.prems" m False obtain out where out: "children_of ?rest styles True = Inr out"
        "cs = JObj (bt_insert ''text'' (JStr (concat (map sc_ch ?run))) metadata) # out"
      by (auto simp: result_simps Let_def split: if_splits)
    have "child_chars (JObj (bt_insert ''text'' (JStr (concat (map sc_ch ?run))) metadata)) = chars (concat (map sc_ch ?run))"
      using ty by (simp add: child_chars_def)
    moreover have "concat (concat (map child_chars out)) = concat (map sc_ch ?rest)"
      using "2.hyps"(2) [OF m refl _ _ refl refl out(1)] ty "2.prems" m False by (auto split: if_splits)
    moreover have "concat (map sc_ch (t # ts)) = concat (map sc_ch (?run @ ?rest))" by simp
    ultimately show ?thesis by (simp only: out(2) list.map concat.simps concat_append concat_chars map_append)
  qed
qed simp

text \<open>Two objects merge to an object.\<close>

lemma merge_property_object:
  "merge_property (Some (JObj b)) (Some (JObj t)) (Some (JObj d)) = Inr (Some out) \<Longrightarrow> is_object out"
  by (subst (asm) merge_property.simps) (auto simp: result_simps split: if_splits)

lemma props_merge_object:
  assumes "props base = Some b" and "props team = Some t" and "props draft = Some d"
    and "merge_property (Some b) (Some t) (Some d) = Inr (Some out)"
  shows "is_object out"
  using assms merge_property_object by (auto simp: props_def split: json.splits)

section \<open>No index is out of range\<close>

definition styles_ok :: "styles \<Rightarrow> bool" where
  "styles_ok st \<longleftrightarrow> (\<forall>k i. bt_get (st_lookup st) k = Some i \<longrightarrow> i < length (st_values st))"

definition styled :: "styles \<Rightarrow> scalar list \<Rightarrow> bool" where
  "styled st xs \<longleftrightarrow> styles_ok st \<and> (\<forall>x \<in> set xs. sc_style x < length (st_values st))"

definition extends :: "styles \<Rightarrow> styles \<Rightarrow> bool" where
  "extends st st' \<longleftrightarrow> length (st_values st) \<le> length (st_values st')"

lemma extends_trans [trans]: "extends st st' \<Longrightarrow> extends st' st'' \<Longrightarrow> extends st st''"
  by (simp add: extends_def)

lemma styled_extends: "styled st xs \<Longrightarrow> extends st st' \<Longrightarrow> styles_ok st' \<Longrightarrow> styled st' xs"
  by (fastforce simp: styled_def extends_def)

lemma intern_ok:
  assumes "styles_ok st" and "intern ser v st = (i, st')"
  shows "styles_ok st' \<and> i < length (st_values st') \<and> extends st st'"
proof (cases "bt_get (st_lookup st) (canonical_json ser v)")
  case None
  then have "i = length (st_values st)"
    "st' = \<lparr>st_values = st_values st @ [v], st_lookup = bt_insert (canonical_json ser v) i (st_lookup st)\<rparr>"
    using assms(2) by (auto simp: intern_def Let_def)
  with assms(1) show ?thesis by (simp add: styles_ok_def extends_def less_Suc_eq)
next
  case (Some j)
  with assms show ?thesis by (auto simp: intern_def Let_def styles_ok_def extends_def)
qed

lemma inline_chars_styled: "inline_chars atoms style chs out = Some out' \<Longrightarrow> styled st out \<Longrightarrow> style < length (st_values st) \<Longrightarrow> styled st out'"
  by (induction chs arbitrary: out) (auto simp: styled_def split: if_splits)

lemma inline_loop_styled:
  "inline_loop ser atoms cs st out = (r, st') \<Longrightarrow> styled st out \<Longrightarrow>
     styles_ok st' \<and> extends st st' \<and> (\<forall>xs. r = Some xs \<longrightarrow> styled st' xs)"
proof (induction cs arbitrary: st out)
  case Nil
  then show ?case by (auto simp: styled_def extends_def)
next
  case (Cons child cs)
  have ok: "styles_ok st" using Cons.prems(2) by (simp add: styled_def)
  have step: "styles_ok st' \<and> extends st st' \<and> (\<forall>xs. r = Some xs \<longrightarrow> styled st' xs)"
    if "styles_ok st1" "extends st st1" "styled st1 out1" "inline_loop ser atoms cs st1 out1 = (r, st')" for st1 out1
    using Cons.IH [OF that(4,3)] that(2) extends_trans by blast
  have stop: ?case if "(r, st') = (None, st1)" "styles_ok st1" "extends st st1" for st1 using that by simp
  have refl: "extends st st" by (simp add: extends_def)
  show ?case
  proof (cases "json_index child ''type'' \<noteq> JStr ''text'' \<or> json_get child ''content'' \<noteq> None")
    case True
    obtain i st1 where i: "intern ser child st = (i, st1)" by fastforce
    note int = intern_ok [OF ok i]
    have "styled st1 (out @ [\<lparr>sc_ch = ATOM, sc_style = i\<rparr>])"
      using styled_extends [OF Cons.prems(2)] int by (auto simp: styled_def)
    with Cons.prems(1) True i int step stop [OF _ ok refl] show ?thesis by (auto split: if_splits)
  next
    case False
    show ?thesis
    proof (cases "(as_str (json_index child ''text''), as_object child)")
      case (Pair tx0 m)
      show ?thesis
      proof (cases "tx0 = None \<or> m = None")
        case True
        with Cons.prems(1) False Pair stop [OF _ ok refl] show ?thesis by (auto split: option.splits)
      next
        case some: False
        then obtain tx o1 where tx: "tx0 = Some tx" "m = Some o1" by auto
        obtain i st1 where i: "intern ser (JObj (bt_remove ''text'' o1)) st = (i, st1)" by fastforce
        note int = intern_ok [OF ok i]
        have out: "styled st1 out" using styled_extends [OF Cons.prems(2)] int by blast
        have "inline_loop ser atoms (child # cs) st out =
            (case inline_chars atoms i (chars tx) out of None \<Rightarrow> (None, st1) | Some out' \<Rightarrow> inline_loop ser atoms cs st1 out')"
          by (simp only: inline_loop.simps False if_False Pair tx prod.case option.case i Let_def)
        with Cons.prems(1) have eq: "(r, st') =
            (case inline_chars atoms i (chars tx) out of None \<Rightarrow> (None, st1) | Some out' \<Rightarrow> inline_loop ser atoms cs st1 out')" by metis
        show ?thesis
        proof (cases "inline_chars atoms i (chars tx) out")
          case None
          with eq int show ?thesis by (intro stop [of st1]) simp_all
        next
          case (Some out1)
          from inline_chars_styled [OF this out] int eq Some show ?thesis by (intro step [of st1 out1]) simp_all
        qed
      qed
    qed
  qed
qed

lemma inline_styled:
  assumes "inline ser v st atoms = (r, st')" and "styles_ok st"
  shows "styles_ok st' \<and> extends st st' \<and> (\<forall>xs. r = Some xs \<longrightarrow> styled st' xs)"
proof -
  have "styled st []" using assms(2) by (simp add: styled_def)
  then show ?thesis using assms inline_loop_styled [of ser atoms _ st "[]" r st']
    by (auto simp: inline_def extends_def split: if_splits option.splits)
qed

text \<open>What the loops rely on: aligned positions are inside the sides and every style is interned.\<close>

definition aligned ::
    "scalar list \<Rightarrow> scalar list \<Rightarrow> scalar list \<Rightarrow> nat option list \<Rightarrow> nat option list \<Rightarrow> styles \<Rightarrow> bool" where
  "aligned b t d tm dm st \<longleftrightarrow>
     styled st b \<and> styled st t \<and> styled st d \<and> length tm = length b \<and> length dm = length b
     \<and> in_side (length t) tm \<and> in_side (length d) dm"

lemma aligned_extends: "aligned b t d tm dm st \<Longrightarrow> extends st st' \<Longrightarrow> styles_ok st' \<Longrightarrow> aligned b t d tm dm st'"
  by (auto simp: aligned_def intro: styled_extends)

lemma pbind_neq_None: "x \<noteq> None \<Longrightarrow> (\<And>y. x = Some (Some y) \<Longrightarrow> f y \<noteq> None) \<Longrightarrow> pbind x f \<noteq> None"
  by (cases "(x, f)" rule: pbind.cases) auto

lemma pbind_pair_neq_None:
  "x \<noteq> None \<Longrightarrow> (\<And>a b. x = Some (Some (a, b)) \<Longrightarrow> f a b \<noteq> None) \<Longrightarrow> pbind x (\<lambda>(a, b). f a b) \<noteq> None"
  by (rule pbind_neq_None) (auto split: prod.splits)

lemma merge_scalar_total:
  assumes "aligned b t d tm dm st"
  shows "merge_scalar ser b t d tm dm i st \<noteq> None"
    and "merge_scalar ser b t d tm dm i st = Some (Some (sc, st')) \<Longrightarrow> styles_ok st' \<and> extends st st'"
proof -
  have ti: "i < length b \<and> ti < length t \<and> sc_style (t ! ti) < length (st_values st)" if "Option.bind (nth_opt tm i) id = Some ti" for ti
    using that assms in_side_nth [of "length t" tm i ti] by (auto simp: aligned_def styled_def)
  have di: "di < length d \<and> sc_style (d ! di) < length (st_values st)" if "Option.bind (nth_opt dm i) id = Some di" for di
    using that assms in_side_nth [of "length d" dm i di] by (auto simp: aligned_def styled_def)
  have bi: "sc_style (b ! i) < length (st_values st)" if "i < length b" using that assms by (simp add: aligned_def styled_def)
  show "merge_scalar ser b t d tm dm i st \<noteq> None"
    unfolding merge_scalar_def Let_def
    using ti di bi by (intro pbind_neq_None) (auto simp: nth_opt_def split: sum.splits option.splits prod.splits if_splits)
  show "merge_scalar ser b t d tm dm i st = Some (Some (sc, st')) \<Longrightarrow> styles_ok st' \<and> extends st st'"
    using assms intern_ok by (auto simp: aligned_def styled_def dest!: merge_scalar_intern)
qed

lemma merge_run_total:
  assumes "aligned b t d tm dm st"
  shows "merge_run ser b t d tm dm is st result \<noteq> None"
    and "merge_run ser b t d tm dm is st result = Some (Some (r, st')) \<Longrightarrow> styles_ok st' \<and> extends st st'"
  using assms
proof (induction "is" arbitrary: st result)
  case Nil
  { case 1 then show ?case by simp }
  { case 2 then show ?case by (auto simp: aligned_def styled_def extends_def) }
next
  case (Cons i "is")
  have next_ok: "aligned b t d tm dm st1" if "merge_scalar ser b t d tm dm i st = Some (Some (sc, st1))" "aligned b t d tm dm st" for sc st st1
    using merge_scalar_total(2) [OF that(2,1)] aligned_extends [OF that(2)] by blast
  { case 1
    show ?case unfolding merge_run.simps
      by (rule pbind_pair_neq_None [OF merge_scalar_total(1) [OF 1]]) (rule Cons.IH(1) [OF next_ok [OF _ 1]]) }
  { case 2
    then obtain sc st1 where sc: "merge_scalar ser b t d tm dm i st = Some (Some (sc, st1))"
      and rest: "merge_run ser b t d tm dm is st1 (result @ [sc]) = Some (Some (r, st'))" by (auto simp: pbind_Some)
    from Cons.IH(2) [OF rest next_ok [OF sc 2(2)]] merge_scalar_total(2) [OF 2(2) sc] show ?case using extends_trans by blast }
qed

lemma merge_hunks_total:
  assumes "aligned b t d tm dm st"
  shows "merge_hunks ser b t d tm dm hs c st result \<noteq> None"
  using assms
proof (induction hs arbitrary: c st result)
  case (Cons h hs)
  have "merge_hunks ser b t d tm dm hs (hu_end h) st1 (r @ hu_insert h) \<noteq> None"
    if "merge_run ser b t d tm dm [c..<hu_start h] st result = Some (Some (r, st1))" for r st1
    using Cons.IH aligned_extends [OF Cons.prems] merge_run_total(2) [OF Cons.prems that] by blast
  then show ?case unfolding merge_hunks.simps by (rule pbind_pair_neq_None [OF merge_run_total(1) [OF Cons.prems]])
qed simp

lemma any_restyled_total:
  assumes "in_side (length other) m" and "length m = length b" and "\<forall>i \<in> set is. i < length b"
  shows "any_restyled b m other is \<noteq> None"
  using assms(3)
proof (induction "is")
  case (Cons i "is")
  then have i: "i < length b" by simp
  then have "k < length other" if "m ! i = Some k" for k using assms(1,2) nth_mem [of i m] that by (metis in_side_def)
  then have "restyled b m other i \<noteq> None" using i assms(2) by (auto simp: restyled_def nth_opt_def split: option.splits)
  then show ?case using Cons by (auto split: option.splits bool.splits)
qed simp

lemma touched_in_base:
  assumes "chain c n hs"
  shows "\<forall>i \<in> set (concat (map (touched n) hs)). i < n"
  using chain_mem [OF assms] by (fastforce simp: touched_def split: if_splits)

lemma merge_scalars_total:
  assumes "differ_ok myers" and "styled st b" and "styled st t" and "styled st d"
  shows "merge_scalars myers ser b t d st \<noteq> None"
proof -
  obtain tm th where t: "alignment myers b t = Some (tm, th)" "length tm = length b" "in_side (length t) tm" "chain 0 (length b) th"
    using alignment_ok [OF assms(1)] by blast
  obtain dm dh where d: "alignment myers b d = Some (dm, dh)" "length dm = length b" "in_side (length d) dm" "chain 0 (length b) dh"
    using alignment_ok [OF assms(1)] by blast
  have "aligned b t d tm dm st" using assms t d by (simp add: aligned_def)
  from merge_hunks_total [OF this] any_restyled_total [OF d(3,2) touched_in_base [OF t(4)]]
    any_restyled_total [OF t(3,2) touched_in_base [OF d(4)]]
  show ?thesis by (auto simp: merge_scalars_def t(1) d(1) split: option.splits bool.splits)
qed

lemma merge_inline_total:
  assumes "differ_ok myers"
  shows "merge_inline myers ser base team draft \<noteq> None"
proof -
  obtain b st1 where b: "inline ser base styles_default True = (b, st1)" by fastforce
  obtain t st2 where t: "inline ser team st1 True = (t, st2)" by fastforce
  obtain d st3 where d: "inline ser draft st2 True = (d, st3)" by fastforce
  have "styles_ok styles_default" by (simp add: styles_ok_def styles_default_def)
  note sb = inline_styled [OF b this]
  note sd = inline_styled [OF t] inline_styled [OF d]
  have "merge_scalars myers ser xs ys zs st3 \<noteq> None" if "b = Some xs" "t = Some ys" "d = Some zs" for xs ys zs
  proof (rule merge_scalars_total [OF assms])
    from sb have ok1: "styles_ok st1" "styled st1 xs" using that by auto
    from sd(1) [OF ok1(1)] have ok2: "styles_ok st2" "extends st1 st2" "styled st2 ys" using that by auto
    from sd(2) [OF ok2(1)] have ok3: "styles_ok st3" "extends st2 st3" "styled st3 zs" using that by auto
    show "styled st3 xs" "styled st3 ys" "styled st3 zs"
      using ok1(2) ok2 ok3 extends_trans styled_extends by blast+
  qed
  then show ?thesis
    unfolding merge_inline_def b t d Let_def prod.case
    by (intro pbind_pair_neq_None pbind_neq_None) auto
qed

lemma merge_total: "differ_ok myers \<Longrightarrow> merge myers ser base team draft \<noteq> None"
  using merge_inline_total by (auto simp: merge_def)

end
