(* ===== verification/Merge_Strategy.thy ===== *)
theory Merge_Strategy
  imports RichText_Edits Materializer
begin

text \<open>
  Merge strategies (\<^verbatim>\<open>crates/engine-core/src/merge_policy\<close>: \<^verbatim>\<open>mod.rs\<close>, \<^verbatim>\<open>strategy.rs\<close>, \<^verbatim>\<open>registry.rs\<close>, the strategies of
  \<^verbatim>\<open>default.rs\<close> and \<^verbatim>\<open>collections.rs\<close>). A strategy is a record of the trait's methods; \<^const>\<open>None\<close> of \<open>st_resolve\<close> is a
  panic. \<open>compact\<close> is \<^verbatim>\<open>serde_json::to_string\<close>. A comment's key is its canonical JSON as bytes: the code converts those
  bytes, which are valid UTF-8, to a \<^verbatim>\<open>String\<close> of the same order.
\<close>

section \<open>Gates, families and aspects\<close>

datatype gate = Auto | AutoWithReview | Manual | Blocked

fun gate_nat :: "gate \<Rightarrow> nat" where
  "gate_nat Auto = 0" | "gate_nat AutoWithReview = 1" | "gate_nat Manual = 2" | "gate_nat Blocked = 3"

instantiation gate :: linorder
begin

definition "g \<le> g' \<longleftrightarrow> gate_nat g \<le> gate_nat g'"

definition "g < g' \<longleftrightarrow> gate_nat g < gate_nat g'"

instance
proof
  fix x y z :: gate
  show "x < y \<longleftrightarrow> x \<le> y \<and> \<not> y \<le> x" by (auto simp: less_eq_gate_def less_gate_def)
  show "x \<le> x" by (simp add: less_eq_gate_def)
  show "x \<le> y \<Longrightarrow> y \<le> z \<Longrightarrow> x \<le> z" by (simp add: less_eq_gate_def)
  show "x \<le> y \<Longrightarrow> y \<le> x \<Longrightarrow> x = y" by (cases x; cases y) (simp_all add: less_eq_gate_def)
  show "x \<le> y \<or> y \<le> x" by (auto simp: less_eq_gate_def)
qed

end

fun gate_name :: "gate \<Rightarrow> string" where
  "gate_name Auto = ''auto''"
| "gate_name AutoWithReview = ''auto-with-review''"
| "gate_name Manual = ''manual''"
| "gate_name Blocked = ''blocked''"

datatype family = Document | Spreadsheet | Presentation

fun family_loop :: "materialized_node list \<Rightarrow> family \<Rightarrow> family" where
  "family_loop [] family = family"
| "family_loop (n # ns) family =
     (case as_str (json_index (mn_current_fields n) ''kind'') of
        None \<Rightarrow> family_loop ns family
      | Some kind \<Rightarrow>
          if kind = ''slide'' then Presentation
          else if kind = ''sheet'' then family_loop ns Spreadsheet
          else family_loop ns family)"

definition family_of :: "document_state list \<Rightarrow> family" where
  "family_of states = family_loop (concat (map (\<lambda>s. map snd (ds_nodes s)) states)) Document"

datatype aspect = Marks | Structure | Comments | Suggestions

section \<open>The strategy interface\<close>

datatype side = Team | Draft

fun side_other :: "side \<Rightarrow> side" where
  "side_other Team = Draft" | "side_other Draft = Team"

record inputs =
  in_base :: json
  in_team :: json
  in_draft :: json

definition swapped :: "inputs \<Rightarrow> inputs" where
  "swapped i = \<lparr>in_base = in_base i, in_team = in_draft i, in_draft = in_team i\<rparr>"

definition input_side :: "inputs \<Rightarrow> side \<Rightarrow> json" where
  "input_side i s = (case s of Team \<Rightarrow> in_team i | Draft \<Rightarrow> in_draft i)"

record merge_context =
  cx_node :: "node_id option"
  cx_node_type :: string
  cx_field :: string
  cx_aspect :: "aspect option"
  cx_family :: family
  cx_params :: "(string, json) bmap"

type_synonym reason = string

definition BOTH_CHANGED :: reason where "BOTH_CHANGED = ''both-changed''"
definition OVERLAP :: reason where "OVERLAP = ''overlapping-edit''"
definition TOO_LARGE :: reason where "TOO_LARGE = ''too-large''"
definition ELEMENT_DIFFERS :: reason where "ELEMENT_DIFFERS = ''element-differs''"
definition UNSUPPORTED_SHAPE :: reason where "UNSUPPORTED_SHAPE = ''unsupported-shape''"

datatype merge_outcome = Merged json | Prefer side | Conflicts reason

record used =
  us_basis :: string
  us_lost :: "json list"
  us_notes :: "string list"

record resolved =
  rs_outcome :: merge_outcome
  rs_used :: used

definition resolved_merged :: "json \<Rightarrow> string \<Rightarrow> resolved" where
  "resolved_merged v basis = \<lparr>rs_outcome = Merged v, rs_used = \<lparr>us_basis = basis, us_lost = [], us_notes = []\<rparr>\<rparr>"

definition resolved_conflict :: "reason \<Rightarrow> string \<Rightarrow> resolved" where
  "resolved_conflict r basis = \<lparr>rs_outcome = Conflicts r, rs_used = \<lparr>us_basis = basis, us_lost = [], us_notes = []\<rparr>\<rparr>"

definition with_notes :: "resolved \<Rightarrow> string list \<Rightarrow> resolved" where
  "with_notes r notes = r\<lparr>rs_used := (rs_used r)\<lparr>us_notes := notes\<rparr>\<rparr>"

definition selected :: "merge_outcome \<Rightarrow> inputs \<Rightarrow> json option" where
  "selected outcome i = (case outcome of Merged v \<Rightarrow> Some v | Prefer s \<Rightarrow> Some (input_side i s) | Conflicts _ \<Rightarrow> None)"

datatype param_type = P_Bool | P_Int int int | P_OneOf "string list"

record param_spec =
  ps_name :: string
  ps_type :: param_type

text \<open>The laws a strategy promises, a set of bits.\<close>

type_synonym laws = "8 word"

definition SYMMETRY :: laws where "SYMMETRY = 1"
definition ALL_LAWS :: laws where "ALL_LAWS = 255"

unbundle bit_operations_syntax

definition laws_contains :: "laws \<Rightarrow> laws \<Rightarrow> bool" where
  "laws_contains a b \<longleftrightarrow> a AND b = b"

definition laws_without :: "laws \<Rightarrow> laws \<Rightarrow> laws" where
  "laws_without a b = a AND NOT b"

record strategy =
  st_id :: string
  st_params :: "param_spec list"
  st_aspects :: "aspect list"
  st_promises :: laws
  st_max_input :: "nat option"
  st_resolve :: "inputs \<Rightarrow> merge_context \<Rightarrow> resolved option"

section \<open>The default strategies\<close>

definition unchanged_side :: "inputs \<Rightarrow> resolved option" where
  "unchanged_side i =
     (if in_draft i = in_base i \<or> in_draft i = in_team i then Some (resolved_merged (in_team i) ''unchanged-or-team-only'')
      else if in_team i = in_base i then Some (resolved_merged (in_draft i) ''draft-only'')
      else None)"

definition whole_value_resolve :: "inputs \<Rightarrow> merge_context \<Rightarrow> resolved option" where
  "whole_value_resolve i cx =
     Some (case unchanged_side i of Some r \<Rightarrow> r | None \<Rightarrow> resolved_conflict BOTH_CHANGED ''whole-value'')"

definition whole_value :: strategy where
  "whole_value = \<lparr>st_id = ''dynodoc.default.whole-value.v1'', st_params = [], st_aspects = [], st_promises = ALL_LAWS,
     st_max_input = None, st_resolve = whole_value_resolve\<rparr>"

definition rich_text_resolve :: "differ \<Rightarrow> scalar_writer \<Rightarrow> inputs \<Rightarrow> merge_context \<Rightarrow> resolved option" where
  "rich_text_resolve myers ser i cx =
     (case unchanged_side i of
        Some r \<Rightarrow> Some r
      | None \<Rightarrow>
          map_option (\<lambda>m. case m of
              Some v \<Rightarrow> resolved_merged v ''richtext-hunks''
            | None \<Rightarrow> resolved_conflict OVERLAP ''richtext-hunks'')
            (merge myers ser (in_base i) (in_team i) (in_draft i)))"

definition rich_text :: "differ \<Rightarrow> scalar_writer \<Rightarrow> strategy" where
  "rich_text myers ser = \<lparr>st_id = ''dynodoc.default.richtext.v1'', st_params = [], st_aspects = [],
     st_promises = laws_without ALL_LAWS SYMMETRY, st_max_input = None, st_resolve = rich_text_resolve myers ser\<rparr>"

definition property_resolve :: "inputs \<Rightarrow> merge_context \<Rightarrow> resolved option" where
  "property_resolve i cx =
     Some (case unchanged_side i of
             Some r \<Rightarrow> r
           | None \<Rightarrow>
               (case merge_property (if in_base i = JNull then None else Some (in_base i)) (Some (in_team i)) (Some (in_draft i)) of
                  Inr (Some v) \<Rightarrow> resolved_merged v ''property-keys''
                | _ \<Rightarrow> resolved_conflict OVERLAP ''property-keys''))"

definition property_merge :: strategy where
  "property_merge = \<lparr>st_id = ''dynodoc.default.property.v1'', st_params = [], st_aspects = [], st_promises = ALL_LAWS,
     st_max_input = None, st_resolve = property_resolve\<rparr>"

definition default_strategies :: "differ \<Rightarrow> scalar_writer \<Rightarrow> strategy list" where
  "default_strategies myers ser = [whole_value, rich_text myers ser, property_merge]"

section \<open>Collections, element by element\<close>

definition BOUND :: nat where "BOUND = 2 ^ 20"

definition settle :: "json option \<Rightarrow> json option \<Rightarrow> json option \<Rightarrow> json option option" where
  "settle base team draft =
     (if draft = base \<or> draft = team then Some team else if team = base then Some draft else None)"

definition json_size :: "(json \<Rightarrow> string option) \<Rightarrow> json \<Rightarrow> nat" where
  "json_size compact v = (case compact v of None \<Rightarrow> 2 ^ 64 - 1 | Some s \<Rightarrow> length s)"

fun suggestions_loop ::
    "(string, json) bmap \<Rightarrow> (string, json) bmap \<Rightarrow> (string, json) bmap \<Rightarrow> string list \<Rightarrow> (string, json) bmap \<Rightarrow> string list
      \<Rightarrow> (string, json) bmap \<times> string list" where
  "suggestions_loop b t d [] out differ = (out, differ)"
| "suggestions_loop b t d (key # keys) out differ =
     (if bt_contains out key \<or> key \<in> set differ then suggestions_loop b t d keys out differ
      else
        (case settle (bt_get b key) (bt_get t key) (bt_get d key) of
           Some (Some v) \<Rightarrow> suggestions_loop b t d keys (bt_insert key v out) differ
         | Some None \<Rightarrow> suggestions_loop b t d keys out differ
         | None \<Rightarrow> suggestions_loop b t d keys out (differ @ [key])))"

definition suggestions_resolve :: "inputs \<Rightarrow> resolved" where
  "suggestions_resolve i =
     (case (as_object (in_base i), as_object (in_team i), as_object (in_draft i)) of
        (Some b, Some t, Some d) \<Rightarrow>
          (let (out, differ) = suggestions_loop b t d (map fst b @ map fst t @ map fst d) [] [] in
           if differ = [] then resolved_merged (JObj out) ''suggestions-by-id''
           else
             with_notes (resolved_conflict ELEMENT_DIFFERS ''suggestions-by-id'')
               (map (\<lambda>id. ''suggestion `'' @ id @ ''` was changed differently on both sides'') (sort differ)))
      | _ \<Rightarrow> resolved_conflict UNSUPPORTED_SHAPE ''suggestions'')"

type_synonym counts = "int \<times> int \<times> int"

text \<open>Counting one content on one side: 0 the base, 1 the team, 2 the draft.\<close>

definition add_count :: "nat \<Rightarrow> counts \<Rightarrow> counts" where
  "add_count side c =
     (case c of (b, t, d) \<Rightarrow> if side = 0 then (b + 1, t, d) else if side = 1 then (b, t + 1, d) else (b, t, d + 1))"

fun count_items ::
    "scalar_writer \<Rightarrow> nat \<Rightarrow> json list \<Rightarrow> (bytes, counts \<times> json) bmap \<Rightarrow> (bytes, counts \<times> json) bmap" where
  "count_items ser side [] counts = counts"
| "count_items ser side (item # items) counts =
     (let key = canonical_json ser item;
          entry = (case bt_get counts key of None \<Rightarrow> ((0, 0, 0), item) | Some e \<Rightarrow> e)
      in count_items ser side items (bt_insert key (add_count side (fst entry), snd entry) counts))"

definition wanted :: "counts \<Rightarrow> int" where
  "wanted c =
     (case c of (b, t, d) \<Rightarrow>
        let dt = t - b; dd = d - b;
            delta = (if dt \<ge> 0 \<and> dd \<ge> 0 then max dt dd else if dt \<le> 0 \<and> dd \<le> 0 then min dt dd else dt + dd)
        in b + delta)"

fun keep_base :: "scalar_writer \<Rightarrow> json list \<Rightarrow> (bytes, int) bmap \<Rightarrow> json list \<times> (bytes, int) bmap" where
  "keep_base ser [] want = ([], want)"
| "keep_base ser (item # items) want =
     (case bt_get want (canonical_json ser item) of
        Some n \<Rightarrow>
          if n > 0 then
            (let (out, want') = keep_base ser items (bt_insert (canonical_json ser item) (n - 1) want) in (item # out, want'))
          else keep_base ser items want
      | None \<Rightarrow> keep_base ser items want)"

definition add_new :: "(bytes, counts \<times> json) bmap \<Rightarrow> (bytes, int) bmap \<Rightarrow> json list" where
  "add_new counts want =
     concat (map (\<lambda>(k, n). case bt_get counts k of Some e \<Rightarrow> replicate (nat (max n 0)) (snd e) | None \<Rightarrow> []) want)"

definition merge_comments :: "scalar_writer \<Rightarrow> json list \<Rightarrow> json list \<Rightarrow> json list \<Rightarrow> json list" where
  "merge_comments ser b t d =
     (let counts = count_items ser 2 d (count_items ser 1 t (count_items ser 0 b []));
          (out, want) = keep_base ser b (map (\<lambda>(k, e). (k, wanted (fst e))) counts)
      in out @ add_new counts want)"

definition comments_resolve :: "scalar_writer \<Rightarrow> inputs \<Rightarrow> resolved" where
  "comments_resolve ser i =
     (case (as_array (in_base i), as_array (in_team i), as_array (in_draft i)) of
        (Some b, Some t, Some d) \<Rightarrow> resolved_merged (JArr (merge_comments ser b t d)) ''comments-multiset''
      | _ \<Rightarrow> resolved_conflict UNSUPPORTED_SHAPE ''comments'')"

definition element_wise_resolve ::
    "scalar_writer \<Rightarrow> (json \<Rightarrow> string option) \<Rightarrow> inputs \<Rightarrow> merge_context \<Rightarrow> resolved option" where
  "element_wise_resolve ser compact i cx =
     Some (case unchanged_side i of
             Some r \<Rightarrow> r
           | None \<Rightarrow>
               if list_ex (\<lambda>v. json_size compact v > BOUND) [in_base i, in_team i, in_draft i]
               then resolved_conflict TOO_LARGE ''bound''
               else
                 (case cx_aspect cx of
                    Some Suggestions \<Rightarrow> suggestions_resolve i
                  | Some Comments \<Rightarrow> comments_resolve ser i
                  | _ \<Rightarrow> resolved_conflict UNSUPPORTED_SHAPE ''aspect''))"

definition element_wise :: "scalar_writer \<Rightarrow> (json \<Rightarrow> string option) \<Rightarrow> strategy" where
  "element_wise ser compact = \<lparr>st_id = ''dynodoc.collection.element-wise.v1'', st_params = [],
     st_aspects = [Comments, Suggestions], st_promises = ALL_LAWS, st_max_input = Some BOUND,
     st_resolve = element_wise_resolve ser compact\<rparr>"

section \<open>The registry\<close>

type_synonym registry = "strategy list"

definition registry_get :: "registry \<Rightarrow> string \<Rightarrow> strategy option" where
  "registry_get reg sid = find (\<lambda>s. st_id s = sid) reg"

text \<open>\<^const>\<open>Inl\<close> is the duplicate id.\<close>

definition register :: "registry \<Rightarrow> strategy \<Rightarrow> string + registry" where
  "register reg s = (if registry_get reg (st_id s) \<noteq> None then Inl (st_id s) else Inr (reg @ [s]))"

fun register_all :: "registry \<Rightarrow> strategy list \<Rightarrow> string + registry" where
  "register_all reg [] = Inr reg"
| "register_all reg (s # ss) = bind_res (register reg s) (\<lambda>reg'. register_all reg' ss)"

text \<open>\<^verbatim>\<open>Registry::builtin\<close>; \<^const>\<open>Inl\<close> is the panic of its \<^verbatim>\<open>expect\<close>.\<close>

definition builtin :: "differ \<Rightarrow> scalar_writer \<Rightarrow> (json \<Rightarrow> string option) \<Rightarrow> string + registry" where
  "builtin myers ser compact = register_all [] (default_strategies myers ser @ [element_wise ser compact])"

definition registry_ids :: "registry \<Rightarrow> string list" where
  "registry_ids reg = sort (map st_id reg)"

lemma builtin_ok:
  "builtin myers ser compact = Inr [whole_value, rich_text myers ser, property_merge, element_wise ser compact]"
  by (simp add: builtin_def default_strategies_def register_def registry_get_def whole_value_def rich_text_def property_merge_def
      element_wise_def)

end
