(* ===== verification/Merge_Policy.thy ===== *)
theory Merge_Policy
  imports Merge_Strategy Text
begin

text \<open>
  Merge policies (\<^verbatim>\<open>crates/engine-core/src/merge_policy/policy.rs\<close>): which strategy decides which field, and how strictly.
  The derived decoder of \<^verbatim>\<open>serde_json::from_slice\<close> is the parameter \<open>decode\<close>; of a rejection the kind and the path are
  kept, not the message. \<open>validate_ok_iff\<close> says which policies the loader accepts; \<open>rule_reached\<close> is a rule some decision reaches.
\<close>

section \<open>The policy\<close>

definition VERSION :: "32 word" where "VERSION = 1"
definition MAX_INPUT_BYTES :: nat where "MAX_INPUT_BYTES = 65536"
definition MAX_CANONICAL_BYTES :: nat where "MAX_CANONICAL_BYTES = 16384"
definition MAX_RULES :: nat where "MAX_RULES = 64"
definition MAX_TEXT :: nat where "MAX_TEXT = 256"
definition MAX_TYPES :: nat where "MAX_TYPES = 16"

definition HASH_DOMAIN :: bytes where
  "HASH_DOMAIN = as_bytes ''dynodoc.merge-policy'' @ [0] @ as_bytes ''v1'' @ [0]"

datatype unknown = U_Manual | U_Blocked

datatype loser = L_None | L_Suggestion | L_Comment

datatype invariant_mode = IM_Flag | IM_Conflict

datatype role = Owner | Manager | Editor | Contributor | Reviewer

record defaults =
  de_unknown :: unknown
  de_loser :: loser
  de_roles_rank :: "role list"
  de_invariants :: invariant_mode

definition defaults_default :: defaults where
  "defaults_default = \<lparr>de_unknown = U_Manual, de_loser = L_Suggestion,
     de_roles_rank = [Owner, Manager, Editor, Contributor, Reviewer], de_invariants = IM_Flag\<rparr>"

record match =
  ma_family :: "family option"
  ma_types :: "string list option"
  ma_field :: "string option"
  ma_aspect :: "aspect option"

definition match_default :: match where
  "match_default = \<lparr>ma_family = None, ma_types = None, ma_field = None, ma_aspect = None\<rparr>"

record probe =
  pr_family :: family
  pr_node_type :: string
  pr_block_type :: "string option"
  pr_field :: string
  pr_aspect :: "aspect option"

definition is_catch_all :: "match \<Rightarrow> bool" where
  "is_catch_all m \<longleftrightarrow> m = match_default"

definition match_sorted :: "match \<Rightarrow> match" where
  "match_sorted m = m\<lparr>ma_types := map_option sort (ma_types m)\<rparr>"

definition starts_with :: "string \<Rightarrow> string \<Rightarrow> bool" where
  "starts_with s prefix \<longleftrightarrow> take (length prefix) s = prefix"

definition field_matches :: "string \<Rightarrow> string \<Rightarrow> bool" where
  "field_matches pattern field =
     (case strip_suffix ''*'' pattern of Some prefix \<Rightarrow> starts_with field prefix | None \<Rightarrow> field = pattern)"

definition matches :: "match \<Rightarrow> probe \<Rightarrow> bool" where
  "matches m p \<longleftrightarrow>
     ma_aspect m = pr_aspect p
     \<and> (case ma_family m of None \<Rightarrow> True | Some f \<Rightarrow> f = pr_family p)
     \<and> (case ma_types m of None \<Rightarrow> True
         | Some types \<Rightarrow> list_ex (\<lambda>t. t = pr_node_type p \<or> Some t = pr_block_type p) types)
     \<and> (case ma_field m of None \<Rightarrow> True | Some pattern \<Rightarrow> field_matches pattern (pr_field p))"

record rule =
  ru_id :: string
  ru_description :: "string option"
  ru_matcher :: match
  ru_strategy :: string
  ru_params :: "(string, json) bmap"
  ru_gate :: gate

record merge_policy =
  mp_version :: "32 word"
  mp_id :: string
  mp_description :: "string option"
  mp_defaults :: defaults
  mp_rules :: "rule list"
  mp_gate_at_least :: "(string, gate) bmap"

definition find_rule :: "merge_policy \<Rightarrow> probe \<Rightarrow> rule option" where
  "find_rule p pr = find (\<lambda>r. matches (ru_matcher r) pr) (mp_rules p)"

definition effective_gate :: "merge_policy \<Rightarrow> rule \<Rightarrow> gate" where
  "effective_gate p r =
     (case bt_get (mp_gate_at_least p) (ru_strategy r) of Some floor \<Rightarrow> max (ru_gate r) floor | None \<Rightarrow> ru_gate r)"

section \<open>The canonical form and the hash\<close>

fun unknown_name :: "unknown \<Rightarrow> string" where
  "unknown_name U_Manual = ''manual''" | "unknown_name U_Blocked = ''blocked''"

fun loser_name :: "loser \<Rightarrow> string" where
  "loser_name L_None = ''none''" | "loser_name L_Suggestion = ''suggestion''" | "loser_name L_Comment = ''comment''"

fun invariant_mode_name :: "invariant_mode \<Rightarrow> string" where
  "invariant_mode_name IM_Flag = ''flag''" | "invariant_mode_name IM_Conflict = ''conflict''"

fun role_name :: "role \<Rightarrow> string" where
  "role_name Owner = ''owner''"
| "role_name Manager = ''manager''"
| "role_name Editor = ''editor''"
| "role_name Contributor = ''contributor''"
| "role_name Reviewer = ''reviewer''"

fun family_name :: "family \<Rightarrow> string" where
  "family_name Document = ''document''"
| "family_name Spreadsheet = ''spreadsheet''"
| "family_name Presentation = ''presentation''"

fun aspect_name :: "aspect \<Rightarrow> string" where
  "aspect_name Marks = ''marks''"
| "aspect_name Structure = ''structure''"
| "aspect_name Comments = ''comments''"
| "aspect_name Suggestions = ''suggestions''"

text \<open>The derived serializers: an absent optional field is left out.\<close>

definition optional :: "string \<Rightarrow> json option \<Rightarrow> (string \<times> json) list" where
  "optional key v = (case v of None \<Rightarrow> [] | Some x \<Rightarrow> [(key, x)])"

definition to_object :: "(string \<times> json) list \<Rightarrow> json" where
  "to_object entries = JObj (foldl (\<lambda>m (k, v). bt_insert k v m) [] entries)"

definition match_json :: "match \<Rightarrow> json" where
  "match_json m = to_object
     (optional ''family'' (map_option (\<lambda>f. JStr (family_name f)) (ma_family m))
      @ optional ''type'' (map_option (\<lambda>ts. JArr (map JStr ts)) (ma_types m))
      @ optional ''field'' (map_option JStr (ma_field m))
      @ optional ''aspect'' (map_option (\<lambda>a. JStr (aspect_name a)) (ma_aspect m)))"

definition rule_json :: "rule \<Rightarrow> json" where
  "rule_json r = to_object
     ([(''id'', JStr (ru_id r))]
      @ optional ''description'' (map_option JStr (ru_description r))
      @ [(''match'', match_json (ru_matcher r)), (''strategy'', JStr (ru_strategy r)), (''params'', JObj (ru_params r)),
         (''gate'', JStr (gate_name (ru_gate r)))])"

definition defaults_json :: "defaults \<Rightarrow> json" where
  "defaults_json d = to_object
     [(''unknown'', JStr (unknown_name (de_unknown d))), (''loser'', JStr (loser_name (de_loser d))),
      (''roles_rank'', JArr (map (\<lambda>r. JStr (role_name r)) (de_roles_rank d))),
      (''invariants'', JStr (invariant_mode_name (de_invariants d)))]"

definition policy_json :: "merge_policy \<Rightarrow> json" where
  "policy_json p = to_object
     ([(''version'', JNum (PosInt (ucast (mp_version p)))), (''id'', JStr (mp_id p))]
      @ optional ''description'' (map_option JStr (mp_description p))
      @ [(''defaults'', defaults_json (mp_defaults p)), (''rules'', JArr (map rule_json (mp_rules p))),
         (''floors'',
           to_object [(''gate_at_least'', to_object (map (\<lambda>(k, g). (k, JStr (gate_name g))) (mp_gate_at_least p)))])])"

definition canonical_policy :: "merge_policy \<Rightarrow> merge_policy" where
  "canonical_policy p = p\<lparr>mp_rules := map (\<lambda>r. r\<lparr>ru_matcher := match_sorted (ru_matcher r)\<rparr>) (mp_rules p)\<rparr>"

definition canonical_value :: "merge_policy \<Rightarrow> json" where
  "canonical_value p = policy_json (canonical_policy p)"

definition canonical_bytes :: "scalar_writer \<Rightarrow> merge_policy \<Rightarrow> bytes" where
  "canonical_bytes ser p = canonical_json ser (canonical_value p)"

definition policy_hash :: "hash_fun \<Rightarrow> scalar_writer \<Rightarrow> merge_policy \<Rightarrow> bytes" where
  "policy_hash sha ser p = sha (HASH_DOMAIN @ canonical_bytes ser p)"

definition hash_hex :: "hash_fun \<Rightarrow> scalar_writer \<Rightarrow> merge_policy \<Rightarrow> string" where
  "hash_hex sha ser p = hex_lower (policy_hash sha ser p)"

section \<open>Validation\<close>

datatype error_kind =
    InputTooLarge | K_Parse | K_Version | K_Id | K_Text | K_Roles | TooManyRules | DuplicateRuleId | MatchType | MatchField
  | UnknownStrategy | AspectMismatch | UnknownParameter | ParameterType | ParameterRange | Shadowed | WeakensFloor
  | UnknownFloorStrategy | CanonicalTooLarge

type_synonym merge_policy_error = "error_kind \<times> string"

definition is_ascii_lowercase :: "char \<Rightarrow> bool" where
  "is_ascii_lowercase c \<longleftrightarrow> byte_in 97 122 c"

definition is_ascii_alphabetic :: "char \<Rightarrow> bool" where
  "is_ascii_alphabetic c \<longleftrightarrow> byte_in 97 122 c \<or> byte_in 65 90 c"

definition is_ascii_alphanumeric :: "char \<Rightarrow> bool" where
  "is_ascii_alphanumeric c \<longleftrightarrow> is_ascii_alphabetic c \<or> is_dec_digit c"

definition id_ok :: "string \<Rightarrow> bool" where
  "id_ok v \<longleftrightarrow>
     v \<noteq> [] \<and> length v \<le> 64 \<and> (is_ascii_lowercase (hd v) \<or> is_dec_digit (hd v))
     \<and> list_all (\<lambda>c. is_ascii_lowercase c \<or> is_dec_digit c \<or> c \<in> set ''._-'') v"

definition check_id :: "string \<Rightarrow> string \<Rightarrow> merge_policy_error + unit" where
  "check_id v path = (if id_ok v then Inr () else Inl (K_Id, path))"

definition text_ok :: "string option \<Rightarrow> bool" where
  "text_ok v =
     (case v of None \<Rightarrow> True | Some t \<Rightarrow> length (chars t) \<le> MAX_TEXT \<and> \<not> list_ex is_control (chars t))"

definition check_text :: "string option \<Rightarrow> string \<Rightarrow> merge_policy_error + unit" where
  "check_text v path = (if text_ok v then Inr () else Inl (K_Text, path))"

definition check_type_name :: "string \<Rightarrow> bool" where
  "check_type_name name \<longleftrightarrow>
     name \<noteq> [] \<and> length name \<le> 32 \<and> is_ascii_alphabetic (hd name)
     \<and> list_all (\<lambda>c. is_ascii_alphanumeric c \<or> c = CHR ''_'') name"

definition check_field :: "string \<Rightarrow> bool" where
  "check_field pattern \<longleftrightarrow>
     (let body = (case strip_suffix ''*'' pattern of Some prefix \<Rightarrow> prefix | None \<Rightarrow> pattern) in
      pattern \<noteq> [] \<and> length pattern \<le> 64
      \<and> list_all (\<lambda>c. is_ascii_alphanumeric c \<or> c \<in> set ''_$:.-'') body)"

text \<open>The loop over the types of a match, with the ones seen so far.\<close>

fun check_types :: "string \<Rightarrow> string list \<Rightarrow> string list \<Rightarrow> merge_policy_error + unit" where
  "check_types path seen [] = Inr ()"
| "check_types path seen (t # ts) =
     (if \<not> check_type_name t then Inl (MatchType, path)
      else if t \<in> set seen then Inl (MatchType, path)
      else check_types path (t # seen) ts)"

definition validate_match :: "match \<Rightarrow> string \<Rightarrow> merge_policy_error + unit" where
  "validate_match m at =
     bind_res
       (case ma_types m of
          None \<Rightarrow> Inr ()
        | Some types \<Rightarrow>
            if types = [] \<or> MAX_TYPES < length types then Inl (MatchType, at @ ''.match.type'')
            else check_types (at @ ''.match.type'') [] types)
       (\<lambda>_. case ma_field m of
              None \<Rightarrow> Inr ()
            | Some field \<Rightarrow> if check_field field then Inr () else Inl (MatchField, at @ ''.match.field''))"

text \<open>\<^verbatim>\<open>as_i64\<close>: an unsigned number that fits, or a negative one.\<close>

fun as_i64 :: "json \<Rightarrow> int option" where
  "as_i64 (JNum (PosInt n)) = (if uint n < 2 ^ 63 then Some (uint n) else None)"
| "as_i64 (JNum (NegInt n)) = Some (sint n)"
| "as_i64 _ = None"

definition check_param :: "param_type \<Rightarrow> json \<Rightarrow> string \<Rightarrow> merge_policy_error + unit" where
  "check_param ty v path =
     (case ty of
        P_Bool \<Rightarrow> if is_boolean v then Inr () else Inl (ParameterType, path)
      | P_Int lo hi \<Rightarrow>
          (case as_i64 v of
             None \<Rightarrow> Inl (ParameterType, path)
           | Some n \<Rightarrow> if n < lo \<or> n > hi then Inl (ParameterRange, path) else Inr ())
      | P_OneOf options \<Rightarrow>
          (case as_str v of
             None \<Rightarrow> Inl (ParameterType, path)
           | Some s \<Rightarrow> if s \<in> set options then Inr () else Inl (ParameterRange, path)))"

fun check_params :: "strategy \<Rightarrow> string \<Rightarrow> (string \<times> json) list \<Rightarrow> merge_policy_error + unit" where
  "check_params s at [] = Inr ()"
| "check_params s at ((name, v) # rest) =
     (case find (\<lambda>spec. ps_name spec = name) (st_params s) of
        None \<Rightarrow> Inl (UnknownParameter, at @ ''.params.'' @ name)
      | Some spec \<Rightarrow>
          bind_res (check_param (ps_type spec) v (at @ ''.params.'' @ name)) (\<lambda>_. check_params s at rest))"

definition aspect_compatible :: "aspect option \<Rightarrow> strategy \<Rightarrow> bool" where
  "aspect_compatible a s = (case a of Some x \<Rightarrow> x \<in> set (st_aspects s) | None \<Rightarrow> st_aspects s = [])"

definition validate_strategy :: "merge_policy \<Rightarrow> rule \<Rightarrow> string \<Rightarrow> registry \<Rightarrow> merge_policy_error + unit" where
  "validate_strategy p r at reg =
     (case registry_get reg (ru_strategy r) of
        None \<Rightarrow> Inl (UnknownStrategy, at @ ''.strategy'')
      | Some s \<Rightarrow>
          if \<not> aspect_compatible (ma_aspect (ru_matcher r)) s then Inl (AspectMismatch, at @ ''.strategy'')
          else
            bind_res (check_params s at (ru_params r)) (\<lambda>_.
              case bt_get (mp_gate_at_least p) (ru_strategy r) of
                Some floor \<Rightarrow> if ru_gate r < floor then Inl (WeakensFloor, at @ ''.gate'') else Inr ()
              | None \<Rightarrow> Inr ()))"

definition shadows :: "match \<Rightarrow> match \<Rightarrow> bool" where
  "shadows e m \<longleftrightarrow> is_catch_all e \<or> match_sorted e = match_sorted m"

text \<open>The loop over the rules, with the rules before this one.\<close>

fun validate_rules :: "merge_policy \<Rightarrow> registry \<Rightarrow> rule list \<Rightarrow> rule list \<Rightarrow> merge_policy_error + unit" where
  "validate_rules p reg before [] = Inr ()"
| "validate_rules p reg before (r # rs) =
     (let at = ''rules['' @ dec_nat (length before) @ '']'' in
      bind_res (check_id (ru_id r) (at @ ''.id'')) (\<lambda>_.
      if ru_id r \<in> set (map ru_id before) then Inl (DuplicateRuleId, at @ ''.id'')
      else
        bind_res (check_text (ru_description r) (at @ ''.description'')) (\<lambda>_.
        bind_res (validate_match (ru_matcher r) at) (\<lambda>_.
        bind_res (validate_strategy p r at reg) (\<lambda>_.
        if list_ex (\<lambda>e. shadows (ru_matcher e) (ru_matcher r)) before then Inl (Shadowed, at @ ''.match'')
        else validate_rules p reg (before @ [r]) rs)))))"

definition validate_floors :: "merge_policy \<Rightarrow> registry \<Rightarrow> merge_policy_error + unit" where
  "validate_floors p reg =
     (case find (\<lambda>k. registry_get reg k = None) (map fst (mp_gate_at_least p)) of
        Some k \<Rightarrow> Inl (UnknownFloorStrategy, ''floors.gate_at_least.'' @ k)
      | None \<Rightarrow> Inr ())"

definition validate :: "scalar_writer \<Rightarrow> merge_policy \<Rightarrow> registry \<Rightarrow> merge_policy_error + unit" where
  "validate ser p reg =
     (if mp_version p \<noteq> VERSION then Inl (K_Version, ''version'')
      else
        bind_res (check_id (mp_id p) ''id'') (\<lambda>_.
        bind_res (check_text (mp_description p) ''description'') (\<lambda>_.
        if de_roles_rank (mp_defaults p) = [] \<or> \<not> distinct (de_roles_rank (mp_defaults p))
        then Inl (K_Roles, ''defaults.roles_rank'')
        else if MAX_RULES < length (mp_rules p) then Inl (TooManyRules, ''rules'')
        else
          bind_res (validate_rules p reg [] (mp_rules p)) (\<lambda>_.
          bind_res (validate_floors p reg) (\<lambda>_.
          if MAX_CANONICAL_BYTES < length (canonical_bytes ser p) then Inl (CanonicalTooLarge, []) else Inr ())))))"

definition from_json ::
    "(bytes \<Rightarrow> merge_policy option) \<Rightarrow> scalar_writer \<Rightarrow> bytes \<Rightarrow> registry \<Rightarrow> merge_policy_error + merge_policy" where
  "from_json decode ser bs reg =
     (if MAX_INPUT_BYTES < length bs then Inl (InputTooLarge, [])
      else
        bind_res (ok_or (decode bs) (K_Parse, [])) (\<lambda>p.
        bind_res (validate ser p reg) (\<lambda>_. Inr p)))"

section \<open>What the loader accepts\<close>

definition match_ok :: "match \<Rightarrow> bool" where
  "match_ok m \<longleftrightarrow>
     (\<forall>types. ma_types m = Some types \<longrightarrow>
        types \<noteq> [] \<and> length types \<le> MAX_TYPES \<and> distinct types \<and> (\<forall>t \<in> set types. check_type_name t))
     \<and> (\<forall>field. ma_field m = Some field \<longrightarrow> check_field field)"

definition strategy_ok :: "merge_policy \<Rightarrow> registry \<Rightarrow> rule \<Rightarrow> bool" where
  "strategy_ok p reg r \<longleftrightarrow>
     (\<exists>s. registry_get reg (ru_strategy r) = Some s \<and> aspect_compatible (ma_aspect (ru_matcher r)) s
        \<and> check_params s [] (ru_params r) = Inr ())
     \<and> (\<forall>floor. bt_get (mp_gate_at_least p) (ru_strategy r) = Some floor \<longrightarrow> floor \<le> ru_gate r)"

lemma check_types_iff:
  "check_types path seen types = Inr () \<longleftrightarrow>
     distinct types \<and> set types \<inter> set seen = {} \<and> (\<forall>t \<in> set types. check_type_name t)"
  by (induction types arbitrary: seen) auto

lemma validate_match_iff: "validate_match m at = Inr () \<longleftrightarrow> match_ok m"
  by (auto simp: validate_match_def match_ok_def result_simps check_types_iff not_less split: option.splits if_splits)

lemma check_param_path: "check_param ty v path = Inr () \<longleftrightarrow> check_param ty v path' = Inr ()"
  by (auto simp: check_param_def split: param_type.splits option.splits)

lemma check_params_path: "check_params s at ps = Inr () \<longleftrightarrow> check_params s at' ps = Inr ()"
proof (induction ps)
  case (Cons p ps)
  obtain name v where p: "p = (name, v)" by fastforce
  show ?case using Cons.IH check_param_path [of _ v "at @ ''.params.'' @ name" "at' @ ''.params.'' @ name"]
    unfolding p by (auto simp: result_simps split: option.splits)
qed simp

lemma validate_strategy_iff: "validate_strategy p r at reg = Inr () \<longleftrightarrow> strategy_ok p reg r"
  using check_params_path [of _ at _ "[]"]
  by (auto simp: validate_strategy_def strategy_ok_def result_simps not_less split: option.splits if_splits)

lemma check_id_iff [simp]: "check_id v path = Inr () \<longleftrightarrow> id_ok v"
  by (simp add: check_id_def)

lemma check_text_iff [simp]: "check_text v path = Inr () \<longleftrightarrow> text_ok v"
  by (simp add: check_text_def)

definition rule_ok :: "merge_policy \<Rightarrow> registry \<Rightarrow> rule \<Rightarrow> bool" where
  "rule_ok p reg r \<longleftrightarrow>
     id_ok (ru_id r) \<and> text_ok (ru_description r) \<and> match_ok (ru_matcher r) \<and> strategy_ok p reg r"

lemma validate_rules_iff:
  "validate_rules p reg before rs = Inr () \<longleftrightarrow>
     (\<forall>r \<in> set rs. rule_ok p reg r)
     \<and> distinct (map ru_id rs) \<and> set (map ru_id before) \<inter> set (map ru_id rs) = {}
     \<and> (\<forall>e \<in> set before. \<forall>r \<in> set rs. \<not> shadows (ru_matcher e) (ru_matcher r))
     \<and> sorted_wrt (\<lambda>e r. \<not> shadows (ru_matcher e) (ru_matcher r)) rs"
proof (induction rs arbitrary: before)
  case (Cons r rs)
  have "validate_rules p reg before (r # rs) = Inr () \<longleftrightarrow>
      rule_ok p reg r \<and> ru_id r \<notin> ru_id ` set before \<and> (\<forall>e \<in> set before. \<not> shadows (ru_matcher e) (ru_matcher r))
      \<and> validate_rules p reg (before @ [r]) rs = Inr ()"
    by (auto simp: Let_def result_simps validate_match_iff validate_strategy_iff rule_ok_def list_ex_iff)
  then show ?case unfolding Cons.IH by auto
qed simp

definition no_shadow :: "rule list \<Rightarrow> bool" where
  "no_shadow rs \<longleftrightarrow> sorted_wrt (\<lambda>e r. \<not> shadows (ru_matcher e) (ru_matcher r)) rs"

lemma validate_ok_iff:
  "validate ser p reg = Inr () \<longleftrightarrow>
     mp_version p = VERSION \<and> id_ok (mp_id p) \<and> text_ok (mp_description p)
     \<and> de_roles_rank (mp_defaults p) \<noteq> [] \<and> distinct (de_roles_rank (mp_defaults p))
     \<and> length (mp_rules p) \<le> MAX_RULES \<and> (\<forall>r \<in> set (mp_rules p). rule_ok p reg r) \<and> distinct (map ru_id (mp_rules p))
     \<and> no_shadow (mp_rules p) \<and> (\<forall>k \<in> fst ` set (mp_gate_at_least p). registry_get reg k \<noteq> None)
     \<and> length (canonical_bytes ser p) \<le> MAX_CANONICAL_BYTES"
proof -
  have "validate_floors p reg = Inr () \<longleftrightarrow> (\<forall>k \<in> fst ` set (mp_gate_at_least p). registry_get reg k \<noteq> None)"
    by (auto simp: validate_floors_def find_None_iff find_Some_iff split: option.splits)
  then show ?thesis
    by (auto simp: validate_def result_simps validate_rules_iff no_shadow_def not_less)
qed

lemma valid_gate:
  assumes "validate ser p reg = Inr ()" and "r \<in> set (mp_rules p)"
  shows "effective_gate p r = ru_gate r"
  using assms by (auto simp: validate_ok_iff rule_ok_def strategy_ok_def effective_gate_def max_def split: option.splits)

text \<open>The order of the types in a match has no meaning, so the canonical policy decides as the one it was made from.\<close>

lemma matches_sorted [simp]: "matches (match_sorted m) pr = matches m pr"
  by (auto simp: matches_def match_sorted_def list_ex_iff split: option.splits)

lemma find_rule_canonical:
  "find_rule (canonical_policy p) pr = map_option (\<lambda>r. r\<lparr>ru_matcher := match_sorted (ru_matcher r)\<rparr>) (find_rule p pr)"
proof -
  have "find (\<lambda>r. matches (ru_matcher r) pr) (map (\<lambda>r. r\<lparr>ru_matcher := match_sorted (ru_matcher r)\<rparr>) rs)
      = map_option (\<lambda>r. r\<lparr>ru_matcher := match_sorted (ru_matcher r)\<rparr>) (find (\<lambda>r. matches (ru_matcher r) pr) rs)" for rs :: "rule list"
    by (induction rs) simp_all
  then show ?thesis by (simp add: find_rule_def canonical_policy_def)
qed

lemma match_sorted_idem [simp]: "match_sorted (match_sorted m) = match_sorted m"
  by (cases "ma_types m") (simp_all add: match_sorted_def sorted_sort_id)

lemma canonical_policy_idem: "canonical_policy (canonical_policy p) = canonical_policy p"
  by (simp add: canonical_policy_def)

text \<open>A rule that decides something.\<close>

definition rule_reached :: "merge_policy \<Rightarrow> rule \<Rightarrow> bool" where
  "rule_reached p r \<longleftrightarrow> (\<exists>pr. find_rule p pr = Some r)"

section \<open>The default policy\<close>

definition default_rule :: "string \<Rightarrow> string option \<Rightarrow> string \<Rightarrow> rule" where
  "default_rule name field strategy =
     \<lparr>ru_id = name, ru_description = None, ru_matcher = match_default\<lparr>ma_field := field\<rparr>, ru_strategy = strategy, ru_params = [],
      ru_gate = Auto\<rparr>"

definition default_policy :: merge_policy where
  "default_policy =
     \<lparr>mp_version = 1, mp_id = ''dynodoc.default.v1'',
      mp_description = Some (''Reproduces workspace_merge::merge: rich text and page setup merge by their own rules; ''
        @ ''every other overlap is a conflict.''),
      mp_defaults = defaults_default\<lparr>de_loser := L_None\<rparr>,
      mp_rules =
        [default_rule ''legacy-content'' (Some ''content'') ''dynodoc.default.richtext.v1'',
         default_rule ''legacy-page-setup'' (Some ''page_setup'') ''dynodoc.default.property.v1'',
         default_rule ''legacy-whole-value'' None ''dynodoc.default.whole-value.v1''],
      mp_gate_at_least = []\<rparr>"

lemma find_default:
  "find_rule default_policy pr =
     (if pr_aspect pr \<noteq> None then None
      else if pr_field pr = ''content'' then
        Some (default_rule ''legacy-content'' (Some ''content'') ''dynodoc.default.richtext.v1'')
      else if pr_field pr = ''page_setup'' then
        Some (default_rule ''legacy-page-setup'' (Some ''page_setup'') ''dynodoc.default.property.v1'')
      else Some (default_rule ''legacy-whole-value'' None ''dynodoc.default.whole-value.v1''))"
  by (auto simp: find_rule_def default_policy_def default_rule_def matches_def match_default_def field_matches_def strip_suffix_def)

end
