(* ===== verification/Merge_Laws.thy ===== *)
theory Merge_Laws
  imports Merge_Strategy "HOL-Library.Multiset"
begin

text \<open>
  The laws of merge strategies (\<^verbatim>\<open>crates/engine-core/src/merge_policy/laws.rs\<close> checks them on samples). The locale
  \<open>lawful_strategy\<close> is the contract the engine relies on; the built-in strategies are interpreted in it. Comments merge as
  multisets of contents: \<open>merge_comments_count\<close> gives the number of each content in the result.
\<close>

section \<open>The contract\<close>

datatype shape = Shape_Merged json | Shape_Prefer json | Shape_Conflict reason

definition shape_of :: "merge_outcome \<Rightarrow> inputs \<Rightarrow> shape" where
  "shape_of outcome i =
     (case outcome of
        Merged v \<Rightarrow> Shape_Merged v
      | Prefer s \<Rightarrow> Shape_Prefer (input_side i s)
      | Conflicts r \<Rightarrow> Shape_Conflict r)"

abbreviation triple :: "json \<Rightarrow> json \<Rightarrow> json \<Rightarrow> inputs" where
  "triple b t d \<equiv> \<lparr>in_base = b, in_team = t, in_draft = d\<rparr>"

locale lawful_strategy =
  fixes resolve :: "inputs \<Rightarrow> merge_context \<Rightarrow> resolved option"
  assumes total: "resolve i cx \<noteq> None"
    and idempotent: "map_option rs_outcome (resolve (triple b x x) cx) = Some (Merged x)"
    and identity_draft: "map_option rs_outcome (resolve (triple b b x) cx) = Some (Merged x)"
    and identity_team: "map_option rs_outcome (resolve (triple b x b) cx) = Some (Merged x)"
begin

text \<open>The shortcuts the engine takes before it consults a strategy give what the strategy would have given.\<close>

lemma shortcut_agrees:
  assumes "unchanged_side i = Some r"
  shows "map_option rs_outcome (resolve i cx) = Some (rs_outcome r)"
proof (cases i)
  case (fields b t d)
  with assms idempotent identity_draft identity_team show ?thesis
    by (auto simp: unchanged_side_def resolved_merged_def split: if_splits)
qed

end

locale symmetric_strategy = lawful_strategy +
  assumes symmetry: "resolve i cx = Some r \<Longrightarrow> resolve (swapped i) cx = Some r' \<Longrightarrow>
    shape_of (rs_outcome r) i = shape_of (rs_outcome r') (swapped i)"

lemmas resolve_defs = whole_value_resolve_def property_resolve_def element_wise_resolve_def rich_text_resolve_def
  unchanged_side_def resolved_merged_def resolved_conflict_def

interpretation whole: symmetric_strategy whole_value_resolve
  by unfold_locales (auto simp: resolve_defs shape_of_def swapped_def split: if_splits)

interpretation property: lawful_strategy property_resolve
  by unfold_locales (auto simp: resolve_defs)

interpretation element: lawful_strategy "element_wise_resolve ser compact" for ser compact
  by unfold_locales (auto simp: resolve_defs)

lemma rich_text_lawful: "differ_ok myers \<Longrightarrow> lawful_strategy (rich_text_resolve myers ser)"
  by unfold_locales (auto simp: resolve_defs dest: merge_total split: option.splits)

section \<open>Suggestions\<close>

lemma settle_comm: "settle b t d = settle b d t"
  by (auto simp: settle_def)

lemma suggestions_loop_get:
  assumes "suggestions_loop b t d keys out differ = (out', differ')" and "bt_ok out"
    and "\<forall>k v. bt_get out k = Some v \<longrightarrow> settle (bt_get b k) (bt_get t k) (bt_get d k) = Some (Some v)"
    and "\<forall>k \<in> set differ. settle (bt_get b k) (bt_get t k) (bt_get d k) = None"
  shows "bt_ok out' \<and> set differ' = set differ \<union> {k \<in> set keys. settle (bt_get b k) (bt_get t k) (bt_get d k) = None}
    \<and> (\<forall>k. bt_get out' k = (if k \<in> set keys then (case settle (bt_get b k) (bt_get t k) (bt_get d k) of Some v \<Rightarrow> v | None \<Rightarrow> None)
        else bt_get out k))"
  using assms
proof (induction keys arbitrary: out differ)
  case (Cons key keys)
  let ?s = "\<lambda>k. settle (bt_get b k) (bt_get t k) (bt_get d k)"
  show ?case
  proof (cases "bt_contains out key \<or> key \<in> set differ")
    case True
    with Cons.prems(1) have "suggestions_loop b t d keys out differ = (out', differ')" by simp
    note ih = Cons.IH [OF this Cons.prems(2-4)]
    have "?s key = None \<longrightarrow> key \<in> set differ" using True Cons.prems(3) by (auto simp: bt_contains_iff)
    moreover have "bt_get out key = (case ?s key of Some v \<Rightarrow> v | None \<Rightarrow> None)"
      using True Cons.prems(3,4) by (cases "bt_get out key") (auto simp: bt_contains_iff)
    ultimately show ?thesis using ih by auto
  next
    case False
    then have none: "bt_get out key = None" by (auto simp: bt_contains_iff)
    consider v where "?s key = Some (Some v)" | "?s key = Some None" | "?s key = None" by (cases "?s key") auto
    then show ?thesis
    proof cases
      case 1
      with False Cons.prems(1) have "suggestions_loop b t d keys (bt_insert key v out) differ = (out', differ')" by simp
      from Cons.IH [OF this] Cons.prems(2-4) 1 show ?thesis by (auto split: if_splits)
    next
      case 2
      with False Cons.prems(1) have "suggestions_loop b t d keys out differ = (out', differ')" by simp
      from Cons.IH [OF this Cons.prems(2-4)] 2 none show ?thesis by auto
    next
      case 3
      with False Cons.prems(1) have "suggestions_loop b t d keys out (differ @ [key]) = (out', differ')" by simp
      from Cons.IH [OF this Cons.prems(2,3)] Cons.prems(4) 3 none show ?thesis by auto
    qed
  qed
qed auto

lemma suggestions_exact:
  assumes "suggestions_loop b t d (map fst b @ map fst t @ map fst d) [] [] = (out, differ)"
  shows "bt_ok out" and "differ = [] \<longleftrightarrow> (\<forall>k. settle (bt_get b k) (bt_get t k) (bt_get d k) \<noteq> None)"
    and "\<forall>k. bt_get out k = (case settle (bt_get b k) (bt_get t k) (bt_get d k) of Some v \<Rightarrow> v | None \<Rightarrow> None)"
proof -
  let ?keys = "map fst b @ map fst t @ map fst d" and ?s = "\<lambda>k. settle (bt_get b k) (bt_get t k) (bt_get d k)"
  have absent: "?s k = Some None" if "k \<notin> set ?keys" for k
    using that by (simp add: settle_def map_of_eq_None_iff [THEN iffD2])
  note loop = suggestions_loop_get [OF assms]
  then show "bt_ok out" by simp
  have "set differ = {k \<in> set ?keys. ?s k = None}" using loop by simp
  then show "differ = [] \<longleftrightarrow> (\<forall>k. ?s k \<noteq> None)" using absent by (metis (mono_tags, lifting) empty_Collect_eq option.distinct(1) set_empty)
  have get: "bt_get out k = (if k \<in> set ?keys then (case ?s k of Some v \<Rightarrow> v | None \<Rightarrow> None) else None)" for k
    using loop by simp
  show "\<forall>k. bt_get out k = (case ?s k of Some v \<Rightarrow> v | None \<Rightarrow> None)"
  proof
    fix k
    show "bt_get out k = (case ?s k of Some v \<Rightarrow> v | None \<Rightarrow> None)"
      using get [of k] absent [of k] by (cases "k \<in> set ?keys") simp_all
  qed
qed

lemma suggestions_symmetric: "rs_outcome (suggestions_resolve i) = rs_outcome (suggestions_resolve (swapped i))"
proof (cases "(as_object (in_base i), as_object (in_team i), as_object (in_draft i))")
  case (fields x y z)
  show ?thesis
  proof (cases "x = None \<or> y = None \<or> z = None")
    case True
    with fields show ?thesis by (auto simp: suggestions_resolve_def swapped_def resolved_conflict_def split: option.splits)
  next
    case False
    then obtain b t d where o: "x = Some b" "y = Some t" "z = Some d" by auto
    obtain out differ where l: "suggestions_loop b t d (map fst b @ map fst t @ map fst d) [] [] = (out, differ)" by fastforce
    obtain out' differ' where r: "suggestions_loop b d t (map fst b @ map fst d @ map fst t) [] [] = (out', differ')" by fastforce
    have "out = out'" using suggestions_exact [OF l] suggestions_exact [OF r] settle_comm by (intro bt_ok_ext) simp_all
    moreover have "differ = [] \<longleftrightarrow> differ' = []" using suggestions_exact(2) [OF l] suggestions_exact(2) [OF r] settle_comm by simp
    ultimately show ?thesis using fields l r
      by (simp add: o suggestions_resolve_def swapped_def resolved_conflict_def resolved_merged_def with_notes_def)
  qed
qed

section \<open>Comments\<close>

text \<open>The number of comments of one content in a list, and the counts and contents a map has.\<close>

definition occurrences :: "scalar_writer \<Rightarrow> bytes \<Rightarrow> json list \<Rightarrow> nat" where
  "occurrences ser k xs = count (mset (map (canonical_json ser) xs)) k"

definition tally :: "(bytes, counts \<times> json) bmap \<Rightarrow> bytes \<Rightarrow> counts" where
  "tally c k = (case bt_get c k of None \<Rightarrow> (0, 0, 0) | Some e \<Rightarrow> fst e)"

definition remaining :: "(bytes, int) bmap \<Rightarrow> bytes \<Rightarrow> int" where
  "remaining want k = (case bt_get want k of None \<Rightarrow> 0 | Some n \<Rightarrow> max n 0)"

definition plus_counts :: "nat \<Rightarrow> int \<Rightarrow> counts \<Rightarrow> counts" where
  "plus_counts side n c =
     (case c of (b, t, d) \<Rightarrow> if side = 0 then (b + n, t, d) else if side = 1 then (b, t + n, d) else (b, t, d + n))"

definition keyed :: "scalar_writer \<Rightarrow> (bytes, counts \<times> json) bmap \<Rightarrow> bool" where
  "keyed ser c \<longleftrightarrow> bt_ok c \<and> (\<forall>k e. bt_get c k = Some e \<longrightarrow> canonical_json ser (snd e) = k)"

lemma occurrences_simps [simp]:
  "occurrences ser k [] = 0"
  "occurrences ser k (x # xs) = (if canonical_json ser x = k then Suc (occurrences ser k xs) else occurrences ser k xs)"
  "occurrences ser k (xs @ ys) = occurrences ser k xs + occurrences ser k ys"
  "occurrences ser k (replicate n x) = (if canonical_json ser x = k then n else 0)"
  by (simp_all add: occurrences_def)

lemma count_items_all:
  assumes "keyed ser c"
  shows "keyed ser (count_items ser side xs c) \<and>
    (\<forall>k. tally (count_items ser side xs c) k = plus_counts side (int (occurrences ser k xs)) (tally c k)) \<and>
    (\<forall>k. bt_get (count_items ser side xs c) k = None \<longleftrightarrow> bt_get c k = None \<and> occurrences ser k xs = 0)"
  using assms
proof (induction xs arbitrary: c)
  case Nil
  then show ?case by (simp add: plus_counts_def split: prod.split)
next
  case (Cons x xs)
  define e where "e = (case bt_get c (canonical_json ser x) of None \<Rightarrow> ((0, 0, 0), x) | Some e \<Rightarrow> e)"
  define c' where "c' = bt_insert (canonical_json ser x) (add_count side (fst e), snd e) c"
  have step: "count_items ser side (x # xs) c = count_items ser side xs c'"
    by (simp add: c'_def e_def Let_def)
  have "canonical_json ser (snd e) = canonical_json ser x"
    using Cons.prems by (auto simp: e_def keyed_def split: option.split)
  then have "keyed ser c'" using Cons.prems by (auto simp: c'_def keyed_def)
  note ih = Cons.IH [OF this]
  have tally: "tally c' k = (if k = canonical_json ser x then add_count side (tally c k) else tally c k)" for k
    by (auto simp: tally_def c'_def e_def split: option.split)
  have "plus_counts side (int (occurrences ser k xs)) (tally c' k)
      = plus_counts side (int (occurrences ser k (x # xs))) (tally c k)" for k
    by (auto simp: tally plus_counts_def add_count_def split: prod.split)
  moreover have "bt_get c' k = None \<and> occurrences ser k xs = 0 \<longleftrightarrow> bt_get c k = None \<and> occurrences ser k (x # xs) = 0" for k
    by (auto simp: c'_def)
  ultimately show ?case unfolding step using ih by simp
qed

lemma count_items_ok:
  assumes "keyed ser c"
  shows "keyed ser (count_items ser side xs c)"
    and "tally (count_items ser side xs c) k = plus_counts side (int (occurrences ser k xs)) (tally c k)"
    and "bt_get (count_items ser side xs c) k = None \<longleftrightarrow> bt_get c k = None \<and> occurrences ser k xs = 0"
  using count_items_all [OF assms] by blast+

lemma keep_base_ok:
  assumes "keep_base ser xs want = (out, want')" and "bt_ok want"
  shows "bt_ok want' \<and> (\<forall>k. (bt_get want' k = None) = (bt_get want k = None))
    \<and> (\<forall>k. int (occurrences ser k out) + remaining want' k = remaining want k)"
  using assms
proof (induction xs arbitrary: want out want')
  case (Cons x xs)
  let ?k = "canonical_json ser x"
  show ?case
  proof (cases "\<exists>n > 0. bt_get want ?k = Some n")
    case False
    with Cons.prems(1) have "keep_base ser xs want = (out, want')" by (auto split: option.splits if_splits)
    from Cons.IH [OF this Cons.prems(2)] show ?thesis .
  next
    case True
    then obtain n where n: "n > 0" "bt_get want ?k = Some n" by auto
    obtain out1 where rest: "keep_base ser xs (bt_insert ?k (n - 1) want) = (out1, want')" "out = x # out1"
      using Cons.prems(1) n by (auto split: prod.splits)
    have "remaining (bt_insert ?k (n - 1) want) k = remaining want k - (if k = ?k then 1 else 0)" for k
      using n by (auto simp: remaining_def)
    note left = this
    note ih = Cons.IH [OF rest(1) bt_ok_insert [OF Cons.prems(2)]]
    have "int (occurrences ser k out) + remaining want' k = remaining want k" for k
      using ih left [of k] rest(2) by (cases "k = ?k") (simp_all add: algebra_simps)
    moreover have "(bt_get want' k = None) = (bt_get want k = None)" for k using ih n(2) by simp
    ultimately show ?thesis using ih by blast
  qed
qed simp

lemma add_new_occurrences:
  assumes "keyed ser c" and "bt_ok want" and "\<forall>k. (bt_get want k = None) = (bt_get c k = None)"
  shows "int (occurrences ser k (add_new c want)) = remaining want k"
proof -
  let ?item = "\<lambda>(k, n). case bt_get c k of Some e \<Rightarrow> replicate (nat (max n 0)) (snd e) | None \<Rightarrow> []"
  have one: "occurrences ser k (?item (j, n)) = (if j = k then nat (max n 0) else 0)" if "bt_get c j \<noteq> None" for j n
    using that assms(1) by (auto simp: keyed_def)
  have "distinct (map fst w) \<Longrightarrow> \<forall>p \<in> set w. bt_get c (fst p) \<noteq> None \<Longrightarrow>
      int (occurrences ser k (concat (map ?item w))) = remaining w k" for w
  proof (induction w)
    case (Cons p w)
    obtain j n where p: "p = (j, n)" by fastforce
    have "map_of w j = None" using Cons.prems(1) p by (simp add: map_of_eq_None_iff)
    with Cons one [of j n] show ?case unfolding p by (auto simp: remaining_def split: option.splits)
  qed (simp add: remaining_def)
  moreover have "\<forall>p \<in> set want. bt_get c (fst p) \<noteq> None"
    using assms(2,3) by (metis bt_get_iff_mem option.distinct(1) prod.collapse)
  ultimately show ?thesis using assms(2) by (simp add: add_new_def bt_ok_distinct)
qed

lemma wanted_nonneg: "0 \<le> b \<Longrightarrow> 0 \<le> t \<Longrightarrow> 0 \<le> d \<Longrightarrow> 0 \<le> wanted (b, t, d)"
  by (auto simp: wanted_def Let_def)

lemma wanted_comm: "wanted (b, t, d) = wanted (b, d, t)"
  by (auto simp: wanted_def Let_def max.commute min.commute)

text \<open>The counts of all three sides, as the merge computes them.\<close>

definition all_counts :: "scalar_writer \<Rightarrow> json list \<Rightarrow> json list \<Rightarrow> json list \<Rightarrow> (bytes, counts \<times> json) bmap" where
  "all_counts ser b t d = count_items ser 2 d (count_items ser 1 t (count_items ser 0 b []))"

definition wanted_map :: "(bytes, counts \<times> json) bmap \<Rightarrow> (bytes, int) bmap" where
  "wanted_map c = map (\<lambda>(k, e). (k, wanted (fst e))) c"

lemma merge_comments_eq:
  "merge_comments ser b t d =
     (let (out, want) = keep_base ser b (wanted_map (all_counts ser b t d)) in out @ add_new (all_counts ser b t d) want)"
  unfolding merge_comments_def all_counts_def wanted_map_def Let_def ..

lemma bt_get_wanted_map: "bt_get (wanted_map c) k = map_option (\<lambda>e. wanted (fst e)) (bt_get c k)"
  by (induction c) (auto simp: wanted_map_def)

lemma bt_ok_wanted_map: "bt_ok c \<Longrightarrow> bt_ok (wanted_map c)"
  by (simp add: bt_ok_def wanted_map_def comp_def case_prod_unfold)

lemma all_counts_ok:
  "keyed ser (all_counts ser b t d)"
  "tally (all_counts ser b t d) k = (int (occurrences ser k b), int (occurrences ser k t), int (occurrences ser k d))"
  "bt_get (all_counts ser b t d) k = None \<longleftrightarrow> occurrences ser k b = 0 \<and> occurrences ser k t = 0 \<and> occurrences ser k d = 0"
proof -
  have nil: "keyed ser []" by (simp add: keyed_def)
  note k0 = count_items_ok(1) [OF nil, of 0 b] and k1 = count_items_ok(1) [OF count_items_ok(1) [OF nil, of 0 b], of 1 t]
  show "keyed ser (all_counts ser b t d)" unfolding all_counts_def by (rule count_items_ok(1) [OF k1])
  show "tally (all_counts ser b t d) k = (int (occurrences ser k b), int (occurrences ser k t), int (occurrences ser k d))"
    unfolding all_counts_def count_items_ok(2) [OF k1] count_items_ok(2) [OF k0] count_items_ok(2) [OF nil]
    by (simp add: plus_counts_def tally_def)
  show "bt_get (all_counts ser b t d) k = None \<longleftrightarrow> occurrences ser k b = 0 \<and> occurrences ser k t = 0 \<and> occurrences ser k d = 0"
    unfolding all_counts_def count_items_ok(3) [OF k1] count_items_ok(3) [OF k0] count_items_ok(3) [OF nil] by simp
qed

lemma merge_comments_count:
  "int (occurrences ser k (merge_comments ser b t d))
     = wanted (int (occurrences ser k b), int (occurrences ser k t), int (occurrences ser k d))"
proof -
  let ?c = "all_counts ser b t d"
  obtain out want where kb: "keep_base ser b (wanted_map ?c) = (out, want)" by fastforce
  have ok: "bt_ok (wanted_map ?c)" using all_counts_ok(1) by (auto intro: bt_ok_wanted_map simp: keyed_def)
  note base = keep_base_ok [OF kb ok]
  have "int (occurrences ser k (add_new ?c want)) = remaining want k"
    using base by (intro add_new_occurrences all_counts_ok(1)) (simp_all add: bt_get_wanted_map)
  then have "int (occurrences ser k (merge_comments ser b t d)) = remaining (wanted_map ?c) k"
    using base kb by (simp add: merge_comments_eq)
  also have "\<dots> = wanted (tally ?c k)"
  proof (cases "bt_get ?c k")
    case None
    then show ?thesis by (simp add: remaining_def bt_get_wanted_map tally_def wanted_def)
  next
    case (Some e)
    then have "fst e = tally ?c k" by (simp add: tally_def)
    with Some show ?thesis using wanted_nonneg
      by (simp add: remaining_def bt_get_wanted_map all_counts_ok(2))
  qed
  finally show ?thesis by (simp add: all_counts_ok(2))
qed

lemma count_items_from:
  "bt_get (count_items ser side xs c) k = Some e \<Longrightarrow> snd e \<in> set xs \<or> (\<exists>e'. bt_get c k = Some e' \<and> snd e' = snd e)"
  by (induction xs arbitrary: c) (fastforce simp: Let_def split: if_splits option.splits)+

lemma all_counts_from: "bt_get (all_counts ser b t d) k = Some e \<Longrightarrow> snd e \<in> set b \<union> set t \<union> set d"
  unfolding all_counts_def by (fastforce dest: count_items_from)

text \<open>When the canonical form tells the contents apart the order of the sides is irrelevant to the merged list itself.\<close>

lemma merge_comments_symmetric:
  assumes "inj_on (canonical_json ser) (set b \<union> set t \<union> set d)"
  shows "merge_comments ser b t d = merge_comments ser b d t"
proof -
  let ?c = "all_counts ser b t d" and ?c' = "all_counts ser b d t"
  have none: "bt_get ?c k = None \<longleftrightarrow> bt_get ?c' k = None" for k by (auto simp: all_counts_ok(3))
  have w: "wanted (tally ?c k) = wanted (tally ?c' k)" for k by (simp add: all_counts_ok(2) wanted_comm)
  have ok: "bt_ok ?c" "bt_ok ?c'" using all_counts_ok(1) by (auto simp: keyed_def)
  have "bt_get (wanted_map ?c) k = bt_get (wanted_map ?c') k" for k
    using none [of k] w [of k] by (cases "bt_get ?c k"; cases "bt_get ?c' k") (simp_all add: bt_get_wanted_map tally_def)
  then have want: "wanted_map ?c = wanted_map ?c'" using ok by (intro bt_ok_ext bt_ok_wanted_map)
  have same: "map_option snd (bt_get ?c k) = map_option snd (bt_get ?c' k)" for k
  proof (cases "bt_get ?c k"; cases "bt_get ?c' k")
    fix e e' assume e: "bt_get ?c k = Some e" "bt_get ?c' k = Some e'"
    then have "canonical_json ser (snd e) = canonical_json ser (snd e')"
      using all_counts_ok(1) by (metis keyed_def)
    then show ?thesis using inj_onD [OF assms] all_counts_from [OF e(1)] all_counts_from [OF e(2)] e by auto
  qed (use none [of k] in auto)
  have item: "(case bt_get ?c k of Some e \<Rightarrow> replicate n (snd e) | None \<Rightarrow> [])
      = (case bt_get ?c' k of Some e \<Rightarrow> replicate n (snd e) | None \<Rightarrow> [])" for k n
    using same [of k] by (cases "bt_get ?c k"; cases "bt_get ?c' k") simp_all
  have "add_new ?c w = add_new ?c' w" for w by (simp add: add_new_def item)
  then show ?thesis using want by (simp add: merge_comments_eq)
qed

end
