(* ===== verification/Merge_Engine.thy ===== *)
theory Merge_Engine
  imports Merge_Policy Merge_Laws
begin

text \<open>
  The policy engine (\<^verbatim>\<open>crates/engine-core/src/merge_policy/engine.rs\<close>, the records of \<^verbatim>\<open>evidence.rs\<close>) and the choice
  \<^verbatim>\<open>workspace_merge::select\<close> it stands in for. \<open>sha\<close> is SHA-256 and \<open>compact\<close> is \<^verbatim>\<open>serde_json::to_string\<close>;
  \<^const>\<open>None\<close> of a strategy is a panic, which the engine turns into a conflict. The counters are \<^verbatim>\<open>u64\<close>.
\<close>

section \<open>The direct choice\<close>

record conflict =
  cf_key :: string
  cf_node_id :: node_id
  cf_field :: string
  cf_ancestor :: json
  cf_team :: json
  cf_draft :: json

definition is_new_name :: "string \<Rightarrow> bool" where
  "is_new_name name \<longleftrightarrow> name \<notin> {''team'', ''draft''} \<and> name \<noteq> [] \<and> trim name = name \<and> length name \<le> 128"

definition conflict_key :: "node_id \<Rightarrow> string \<Rightarrow> string" where
  "conflict_key node field = node @ '':'' @ field"

text \<open>An explicit resolution, or a new conflict with the team's value kept.\<close>

definition select_resolution ::
    "node_id \<Rightarrow> string \<Rightarrow> json \<Rightarrow> json \<Rightarrow> json \<Rightarrow> (string, string) bmap \<Rightarrow> conflict list \<Rightarrow> json \<times> conflict list" where
  "select_resolution node field base team draft resolutions conflicts =
     (let key = conflict_key node field;
          conflict = \<lparr>cf_key = key, cf_node_id = node, cf_field = field, cf_ancestor = base, cf_team = team, cf_draft = draft\<rparr>
      in case bt_get resolutions key of
           Some name \<Rightarrow>
             if name = ''draft'' then (draft, conflicts)
             else if name = ''team'' then (team, conflicts)
             else if field = ''var_name'' \<and> is_new_name name then (JStr name, conflicts)
             else (team, conflicts @ [conflict])
         | None \<Rightarrow> (team, conflicts @ [conflict]))"

definition select ::
    "differ \<Rightarrow> scalar_writer \<Rightarrow> node_id \<Rightarrow> string \<Rightarrow> json \<Rightarrow> json \<Rightarrow> json \<Rightarrow> (string, string) bmap \<Rightarrow> conflict list
      \<Rightarrow> (json \<times> conflict list) option" where
  "select myers ser node field base team draft resolutions conflicts =
     (if draft = base \<or> draft = team then Some (team, conflicts)
      else if team = base then Some (draft, conflicts)
      else
        case (if field = ''content'' then merge myers ser base team draft else Some None) of
          None \<Rightarrow> None
        | Some (Some merged) \<Rightarrow> Some (merged, conflicts)
        | Some None \<Rightarrow>
            (case (if field = ''page_setup''
                   then merge_property (if base = JNull then None else Some base) (Some team) (Some draft) else Inr None) of
               Inr (Some merged) \<Rightarrow> Some (merged, conflicts)
             | _ \<Rightarrow> Some (select_resolution node field base team draft resolutions conflicts)))"

section \<open>Evidence\<close>

record digest =
  dg_sha256 :: string
  dg_bytes :: nat
  dg_preview :: string

definition PREVIEW_CHARS :: nat where "PREVIEW_CHARS = 60"

definition ELLIPSIS :: string where "ELLIPSIS = [CHR 0xE2, CHR 0x80, CHR 0xA6]"

definition digest_of :: "hash_fun \<Rightarrow> scalar_writer \<Rightarrow> (json \<Rightarrow> string option) \<Rightarrow> json \<Rightarrow> digest" where
  "digest_of sha ser compact v =
     (let canonical = canonical_json ser v;
          txt = chars (case compact v of Some t \<Rightarrow> t | None \<Rightarrow> [])
      in \<lparr>dg_sha256 = hex_lower (sha canonical), dg_bytes = length canonical,
          dg_preview = concat (take PREVIEW_CHARS txt) @ (if PREVIEW_CHARS < length txt then ELLIPSIS else [])\<rparr>)"

datatype decision_outcome = DO_Merged | DO_Conflict | DO_Explicit | DO_Legacy

record decision =
  dn_node :: "node_id option"
  dn_field :: string
  dn_rule :: "string option"
  dn_strategy :: "string option"
  dn_gate :: "gate option"
  dn_outcome :: decision_outcome
  dn_choice :: "string option"
  dn_reason :: string
  dn_basis :: "string option"
  dn_notes :: "string list"
  dn_needs_review :: bool
  dn_conflict_key :: "string option"
  dn_base :: digest
  dn_team :: digest
  dn_draft :: digest
  dn_lost :: "digest list"

record shortcuts =
  sc_unchanged_or_team_only :: "64 word"
  sc_draft_only :: "64 word"

section \<open>The engine\<close>

record engine =
  en_policy :: merge_policy
  en_registry :: registry
  en_family :: family
  en_decisions :: "decision list"
  en_shortcuts :: shortcuts

definition engine_new :: "merge_policy \<Rightarrow> registry \<Rightarrow> family \<Rightarrow> engine" where
  "engine_new policy reg family =
     \<lparr>en_policy = policy, en_registry = reg, en_family = family, en_decisions = [],
      en_shortcuts = \<lparr>sc_unchanged_or_team_only = 0, sc_draft_only = 0\<rparr>\<rparr>"

definition block_type_of :: "string \<Rightarrow> inputs \<Rightarrow> string option" where
  "block_type_of field i =
     (if field = ''content'' then
        (case find (\<lambda>v. as_str (json_index v ''type'') \<noteq> None) [in_team i, in_draft i, in_base i] of
           Some v \<Rightarrow> as_str (json_index v ''type'')
         | None \<Rightarrow> None)
      else None)"

fun side_debug :: "side \<Rightarrow> string" where
  "side_debug Team = ''Team''" | "side_debug Draft = ''Draft''"

text \<open>What the gate and the outcome of the strategy make of a decision that reached one.\<close>

definition decide_resolved ::
    "hash_fun \<Rightarrow> scalar_writer \<Rightarrow> (json \<Rightarrow> string option) \<Rightarrow> gate \<Rightarrow> resolved \<Rightarrow> decision \<Rightarrow> json option \<times> decision" where
  "decide_resolved sha ser compact g r d0 =
     (let d = d0\<lparr>dn_basis := Some (us_basis (rs_used r)), dn_notes := us_notes (rs_used r),
                 dn_lost := map (digest_of sha ser compact) (us_lost (rs_used r))\<rparr>
      in case rs_outcome r of
           Merged v \<Rightarrow>
             if g = Manual then
               (None, d\<lparr>dn_reason := ''manual-gate'',
                 dn_notes := dn_notes d @ [''the strategy proposed a merged value; the gate requires a human decision'']\<rparr>)
             else
               (Some v, d\<lparr>dn_outcome := DO_Merged, dn_reason := ''merged'', dn_needs_review := (g = AutoWithReview)\<rparr>)
         | Prefer s \<Rightarrow>
             (None, d\<lparr>dn_reason := ''prefer-unsupported'',
               dn_notes := dn_notes d @ [''the strategy preferred the '' @ side_debug s
                 @ '' side; loser preservation is not built, so nothing is applied'']\<rparr>)
         | Conflicts reason \<Rightarrow> (None, d\<lparr>dn_reason := reason\<rparr>))"

definition decide ::
    "hash_fun \<Rightarrow> scalar_writer \<Rightarrow> (json \<Rightarrow> string option) \<Rightarrow> engine \<Rightarrow> node_id option \<Rightarrow> string \<Rightarrow> string \<Rightarrow> aspect option \<Rightarrow> inputs
      \<Rightarrow> json option \<times> decision" where
  "decide sha ser compact en node node_type field asp i =
     (let probe = \<lparr>pr_family = en_family en, pr_node_type = node_type, pr_block_type = block_type_of field i, pr_field = field,
                    pr_aspect = asp\<rparr>;
          d = \<lparr>dn_node = node, dn_field = field, dn_rule = None, dn_strategy = None, dn_gate = None, dn_outcome = DO_Conflict,
               dn_choice = None, dn_reason = [], dn_basis = None, dn_notes = [], dn_needs_review = False, dn_conflict_key = None,
               dn_base = digest_of sha ser compact (in_base i), dn_team = digest_of sha ser compact (in_team i),
               dn_draft = digest_of sha ser compact (in_draft i), dn_lost = []\<rparr>
      in case find_rule (en_policy en) probe of
           None \<Rightarrow>
             (None, d\<lparr>dn_reason :=
                (case de_unknown (mp_defaults (en_policy en)) of U_Manual \<Rightarrow> ''no-rule'' | U_Blocked \<Rightarrow> ''no-rule-blocked'')\<rparr>)
         | Some r \<Rightarrow>
             (let g = effective_gate (en_policy en) r; d1 = d\<lparr>dn_rule := Some (ru_id r), dn_gate := Some g\<rparr> in
              if g = Blocked then (None, d1\<lparr>dn_reason := ''blocked''\<rparr>)
              else
                case registry_get (en_registry en) (ru_strategy r) of
                  None \<Rightarrow> (None, d1\<lparr>dn_reason := ''unknown-strategy''\<rparr>)
                | Some s \<Rightarrow>
                    (let d2 = d1\<lparr>dn_strategy := Some (ru_strategy r)\<rparr>;
                         cx = \<lparr>cx_node = node, cx_node_type = node_type, cx_field = field, cx_aspect = asp, cx_family = en_family en,
                               cx_params = ru_params r\<rparr>
                     in case st_resolve s i cx of
                          None \<Rightarrow> (None, d2\<lparr>dn_reason := ''internal-error''\<rparr>)
                        | Some res \<Rightarrow> decide_resolved sha ser compact g res d2)))"

datatype collected = Whole | C_Merged json | C_Conflict

definition push_decision :: "decision \<Rightarrow> engine \<Rightarrow> engine" where
  "push_decision d en = en\<lparr>en_decisions := en_decisions en @ [d]\<rparr>"

definition collection ::
    "hash_fun \<Rightarrow> scalar_writer \<Rightarrow> (json \<Rightarrow> string option) \<Rightarrow> engine \<Rightarrow> aspect \<Rightarrow> inputs \<Rightarrow> collected \<times> engine" where
  "collection sha ser compact en asp i =
     (case (case asp of Comments \<Rightarrow> Some ''$comments'' | Suggestions \<Rightarrow> Some ''$suggestions'' | _ \<Rightarrow> None) of
        None \<Rightarrow> (Whole, en)
      | Some field \<Rightarrow>
          if in_draft i = in_base i \<or> in_draft i = in_team i \<or> in_team i = in_base i then (Whole, en)
          else if find_rule (en_policy en)
              \<lparr>pr_family = en_family en, pr_node_type = [], pr_block_type = None, pr_field = field, pr_aspect = Some asp\<rparr> = None
          then (Whole, en)
          else
            (case decide sha ser compact en None [] field (Some asp) i of
               (Some v, d) \<Rightarrow> (C_Merged v, push_decision d en)
             | (None, d) \<Rightarrow>
                 if dn_strategy d = None \<or> dn_reason d = ''manual-gate'' \<or> dn_reason d = ''internal-error''
                 then (Whole, push_decision (d\<lparr>dn_outcome := DO_Legacy\<rparr>) en)
                 else (C_Conflict, push_decision d en)))"

record at_place =
  at_id :: node_id
  at_node_type :: string
  at_field :: string

text \<open>\<^verbatim>\<open>Selector::select\<close> of the engine.\<close>

definition engine_select ::
    "hash_fun \<Rightarrow> scalar_writer \<Rightarrow> (json \<Rightarrow> string option) \<Rightarrow> engine \<Rightarrow> at_place \<Rightarrow> inputs \<Rightarrow> (string, string) bmap \<Rightarrow> conflict list
      \<Rightarrow> json \<times> conflict list \<times> engine" where
  "engine_select sha ser compact en a i resolutions conflicts =
     (let sc = en_shortcuts en in
      if in_draft i = in_base i \<or> in_draft i = in_team i then
        (in_team i, conflicts,
         en\<lparr>en_shortcuts := sc\<lparr>sc_unchanged_or_team_only := sc_unchanged_or_team_only sc + 1\<rparr>\<rparr>)
      else if in_team i = in_base i then
        (in_draft i, conflicts, en\<lparr>en_shortcuts := sc\<lparr>sc_draft_only := sc_draft_only sc + 1\<rparr>\<rparr>)
      else
        (case decide sha ser compact en (Some (at_id a)) (at_node_type a) (at_field a) None i of
           (Some merged, d) \<Rightarrow> (merged, conflicts, push_decision d en)
         | (None, d) \<Rightarrow>
             (let key = conflict_key (at_id a) (at_field a);
                  explicit = (\<lambda>c v. (v, conflicts, push_decision (d\<lparr>dn_choice := Some c, dn_outcome := DO_Explicit\<rparr>) en));
                  raise = (in_team i,
                    conflicts @ [\<lparr>cf_key = key, cf_node_id = at_id a, cf_field = at_field a, cf_ancestor = in_base i,
                      cf_team = in_team i, cf_draft = in_draft i\<rparr>],
                    push_decision (d\<lparr>dn_conflict_key := Some key\<rparr>) en)
              in case bt_get resolutions key of
                   Some name \<Rightarrow>
                     if name = ''draft'' then explicit ''draft'' (in_draft i)
                     else if name = ''team'' then explicit ''team'' (in_team i)
                     else if at_field a = ''var_name'' \<and> is_new_name name then explicit name (JStr name)
                     else raise
                 | None \<Rightarrow> raise)))"

section \<open>What a decision applies\<close>

definition probe_at :: "engine \<Rightarrow> string \<Rightarrow> string \<Rightarrow> aspect option \<Rightarrow> inputs \<Rightarrow> probe" where
  "probe_at en node_type field asp i =
     \<lparr>pr_family = en_family en, pr_node_type = node_type, pr_block_type = block_type_of field i, pr_field = field, pr_aspect = asp\<rparr>"

definition context_at :: "engine \<Rightarrow> node_id option \<Rightarrow> string \<Rightarrow> string \<Rightarrow> aspect option \<Rightarrow> rule \<Rightarrow> merge_context" where
  "context_at en node node_type field asp r =
     \<lparr>cx_node = node, cx_node_type = node_type, cx_field = field, cx_aspect = asp, cx_family = en_family en, cx_params = ru_params r\<rparr>"

lemma decide_applies:
  assumes "decide sha ser compact en node node_type field asp i = (Some v, d)"
  obtains r s res where "find_rule (en_policy en) (probe_at en node_type field asp i) = Some r"
    and "effective_gate (en_policy en) r \<in> {Auto, AutoWithReview}"
    and "registry_get (en_registry en) (ru_strategy r) = Some s"
    and "st_resolve s i (context_at en node node_type field asp r) = Some res" and "rs_outcome res = Merged v"
    and "dn_needs_review d \<longleftrightarrow> effective_gate (en_policy en) r = AutoWithReview"
proof -
  from assms obtain r s res where r: "find_rule (en_policy en) (probe_at en node_type field asp i) = Some r"
      "effective_gate (en_policy en) r \<noteq> Blocked" "registry_get (en_registry en) (ru_strategy r) = Some s"
      "st_resolve s i (context_at en node node_type field asp r) = Some res"
    and "\<exists>d2. decide_resolved sha ser compact (effective_gate (en_policy en) r) res d2 = (Some v, d)"
    by (auto simp: decide_def Let_def probe_at_def context_at_def split: option.splits if_splits)
  then have "effective_gate (en_policy en) r \<noteq> Manual" "rs_outcome res = Merged v"
      "dn_needs_review d \<longleftrightarrow> effective_gate (en_policy en) r = AutoWithReview"
    by (cases "rs_outcome res"; auto simp: decide_resolved_def Let_def split: if_splits)+
  with r that show thesis by (cases "effective_gate (en_policy en) r") auto
qed

lemma decide_fields:
  assumes "decide sha ser compact en node node_type field asp i = (v, d)"
  shows "dn_conflict_key d = None" and "dn_choice d = None"
    and "dn_outcome d = (if v = None then DO_Conflict else DO_Merged)"
  using assms by (auto simp: decide_def decide_resolved_def Let_def split: option.splits if_splits merge_outcome.splits)

lemma decide_complete:
  assumes "find_rule (en_policy en) (probe_at en node_type field asp i) = Some r"
    and "effective_gate (en_policy en) r \<in> {Auto, AutoWithReview}"
    and "registry_get (en_registry en) (ru_strategy r) = Some s"
    and "st_resolve s i (context_at en node node_type field asp r) = Some res"
  shows "fst (decide sha ser compact en node node_type field asp i) = (case rs_outcome res of Merged v \<Rightarrow> Some v | _ \<Rightarrow> None)"
  using assms
  by (auto simp: decide_def decide_resolved_def Let_def probe_at_def context_at_def split: merge_outcome.splits)

lemma engine_select_decided:
  assumes "unchanged_side i = None"
    and "fst (decide sha ser compact en (Some (at_id a)) (at_node_type a) (at_field a) None i) = out"
  shows "\<exists>en'. engine_select sha ser compact en a i resolutions conflicts =
    (case out of Some v \<Rightarrow> (v, conflicts, en')
     | None \<Rightarrow> (case select_resolution (at_id a) (at_field a) (in_base i) (in_team i) (in_draft i) resolutions conflicts of
                  (v, cs) \<Rightarrow> (v, cs, en')))"
proof (cases "decide sha ser compact en (Some (at_id a)) (at_node_type a) (at_field a) None i")
  case (Pair v d)
  with assms show ?thesis
    by (cases v) (auto simp: engine_select_def select_resolution_def Let_def unchanged_side_def split: option.splits if_splits)
qed

lemma engine_select_undecided:
  assumes "unchanged_side i = None" and "decide sha ser compact en (Some (at_id a)) (at_node_type a) (at_field a) None i = (None, d0)"
    and "engine_select sha ser compact en a i resolutions conflicts = (v, cs, en')"
  shows "(v, cs) = select_resolution (at_id a) (at_field a) (in_base i) (in_team i) (in_draft i) resolutions conflicts
    \<and> (\<exists>d. en_decisions en' = en_decisions en @ [d] \<and> dn_outcome d = (if cs = conflicts then DO_Explicit else DO_Conflict)
        \<and> dn_conflict_key d = (if cs = conflicts then None else Some (conflict_key (at_id a) (at_field a))))"
  using assms decide_fields [OF assms(2)]
  by (auto simp: engine_select_def select_resolution_def push_decision_def Let_def unchanged_side_def split: option.splits if_splits)

section \<open>The default policy changes nothing\<close>

definition builtin_registry :: "differ \<Rightarrow> scalar_writer \<Rightarrow> (json \<Rightarrow> string option) \<Rightarrow> registry" where
  "builtin_registry myers ser compact = [whole_value, rich_text myers ser, property_merge, element_wise ser compact]"

lemma builtin_get:
  "registry_get (builtin_registry myers ser compact) ''dynodoc.default.whole-value.v1'' = Some whole_value"
  "registry_get (builtin_registry myers ser compact) ''dynodoc.default.richtext.v1'' = Some (rich_text myers ser)"
  "registry_get (builtin_registry myers ser compact) ''dynodoc.default.property.v1'' = Some property_merge"
  by (simp_all add: builtin_registry_def registry_get_def whole_value_def rich_text_def property_merge_def)

definition default_strategy :: "differ \<Rightarrow> scalar_writer \<Rightarrow> string \<Rightarrow> strategy" where
  "default_strategy myers ser field =
     (if field = ''content'' then rich_text myers ser else if field = ''page_setup'' then property_merge else whole_value)"

lemma decide_default:
  assumes "en_policy en = default_policy" and "en_registry en = builtin_registry myers ser compact"
    and "st_resolve (default_strategy myers ser field) i cx = Some res"
  shows "fst (decide sha ser compact en node node_type field None i) = (case rs_outcome res of Merged v \<Rightarrow> Some v | _ \<Rightarrow> None)"
proof -
  have any: "st_resolve (default_strategy myers ser field) i cx' = Some res" for cx'
    using assms(3) by (simp add: default_strategy_def rich_text_def property_merge_def whole_value_def rich_text_resolve_def
        property_resolve_def whole_value_resolve_def split: if_splits)
  let ?r = "\<lambda>r. find_rule (en_policy en) (probe_at en node_type field None i) = Some r
      \<and> effective_gate (en_policy en) r = Auto
      \<and> registry_get (en_registry en) (ru_strategy r) = Some (default_strategy myers ser field)"
  have gate: "effective_gate default_policy (default_rule n f s) = Auto" for n f s
    by (simp add: effective_gate_def default_policy_def default_rule_def)
  have named: "ru_strategy (default_rule n f s) = s" for n f s by (simp add: default_rule_def)
  have "\<exists>r. ?r r"
    unfolding assms(1,2) find_default by (simp add: probe_at_def gate named builtin_get default_strategy_def)
  then obtain r where "?r r" by blast
  then show ?thesis using any by (intro decide_complete) auto
qed

lemma select_default:
  assumes "unchanged_side i = None" and "st_resolve (default_strategy myers ser field) i cx = Some res"
  shows "select myers ser node field (in_base i) (in_team i) (in_draft i) resolutions conflicts =
    Some (case rs_outcome res of Merged v \<Rightarrow> (v, conflicts)
      | _ \<Rightarrow> select_resolution node field (in_base i) (in_team i) (in_draft i) resolutions conflicts)"
  using assms
  by (auto simp: select_def unchanged_side_def default_strategy_def rich_text_def property_merge_def whole_value_def
      rich_text_resolve_def property_resolve_def whole_value_resolve_def resolved_merged_def resolved_conflict_def
      split: if_splits option.splits sum.splits)

lemma default_strategy_total: "differ_ok myers \<Longrightarrow> \<exists>res. st_resolve (default_strategy myers ser field) i cx = Some res"
  using lawful_strategy.total [OF rich_text_lawful, of myers ser i cx] whole.total [of i cx] property.total [of i cx]
  by (auto simp: default_strategy_def rich_text_def property_merge_def whole_value_def)

lemma default_is_direct:
  assumes "differ_ok myers" and "en_policy en = default_policy" and "en_registry en = builtin_registry myers ser compact"
  obtains v cs en' where "engine_select sha ser compact en a i resolutions conflicts = (v, cs, en')"
    and "select myers ser (at_id a) (at_field a) (in_base i) (in_team i) (in_draft i) resolutions conflicts = Some (v, cs)"
    and "en_policy en' = default_policy" and "en_registry en' = builtin_registry myers ser compact"
proof -
  obtain v cs en' where e: "engine_select sha ser compact en a i resolutions conflicts = (v, cs, en')"
    by (metis prod_cases3)
  have keep: "en_policy en' = en_policy en" "en_registry en' = en_registry en"
    using e by (auto simp: engine_select_def Let_def push_decision_def split: if_splits option.splits prod.splits)
  have "select myers ser (at_id a) (at_field a) (in_base i) (in_team i) (in_draft i) resolutions conflicts = Some (v, cs)"
  proof (cases "unchanged_side i")
    case (Some r)
    with e show ?thesis by (auto simp: engine_select_def select_def unchanged_side_def Let_def split: if_splits)
  next
    case None
    obtain res where res: "st_resolve (default_strategy myers ser (at_field a)) i undefined = Some res"
      using default_strategy_total [OF assms(1)] by blast
    note d = decide_default [OF assms(2,3) res]
    obtain w ws where "select_resolution (at_id a) (at_field a) (in_base i) (in_team i) (in_draft i) resolutions conflicts = (w, ws)"
      by fastforce
    with engine_select_decided [OF None, of sha ser compact en a _ resolutions conflicts, OF d] e select_default [OF None res]
    show ?thesis by (auto split: merge_outcome.splits)
  qed
  with that e keep assms(2,3) show thesis by simp
qed

section \<open>A sequence of choices\<close>

text \<open>The choices of one merge, in order, through the engine and directly.\<close>

fun engine_select_all ::
    "hash_fun \<Rightarrow> scalar_writer \<Rightarrow> (json \<Rightarrow> string option) \<Rightarrow> (string, string) bmap \<Rightarrow> (at_place \<times> inputs) list \<Rightarrow> conflict list \<Rightarrow> engine
      \<Rightarrow> json list \<times> conflict list \<times> engine" where
  "engine_select_all sha ser compact resolutions [] conflicts en = ([], conflicts, en)"
| "engine_select_all sha ser compact resolutions ((a, i) # rest) conflicts en =
     (let (v, cs, en') = engine_select sha ser compact en a i resolutions conflicts;
          (vs, cs', en'') = engine_select_all sha ser compact resolutions rest cs en'
      in (v # vs, cs', en''))"

fun select_all ::
    "differ \<Rightarrow> scalar_writer \<Rightarrow> (string, string) bmap \<Rightarrow> (at_place \<times> inputs) list \<Rightarrow> conflict list \<Rightarrow> (json list \<times> conflict list) option" where
  "select_all myers ser resolutions [] conflicts = Some ([], conflicts)"
| "select_all myers ser resolutions ((a, i) # rest) conflicts =
     (case select myers ser (at_id a) (at_field a) (in_base i) (in_team i) (in_draft i) resolutions conflicts of
        None \<Rightarrow> None
      | Some (v, cs) \<Rightarrow> map_option (\<lambda>(vs, cs'). (v # vs, cs')) (select_all myers ser resolutions rest cs))"

lemma default_all_direct:
  assumes "differ_ok myers" and "en_policy en = default_policy" and "en_registry en = builtin_registry myers ser compact"
  shows "select_all myers ser resolutions places conflicts =
    (case engine_select_all sha ser compact resolutions places conflicts en of (vs, cs, _) \<Rightarrow> Some (vs, cs))"
  using assms(2,3)
proof (induction places arbitrary: conflicts en)
  case (Cons p places)
  obtain a i where p: "p = (a, i)" by fastforce
  from Cons.prems obtain v cs en' where
      "engine_select sha ser compact en a i resolutions conflicts = (v, cs, en')"
      "select myers ser (at_id a) (at_field a) (in_base i) (in_team i) (in_draft i) resolutions conflicts = Some (v, cs)"
      "en_policy en' = default_policy" "en_registry en' = builtin_registry myers ser compact"
    by (rule default_is_direct [OF assms(1)])
  with Cons.IH [of en' cs] show ?case unfolding p by (simp split: prod.split)
qed simp

text \<open>The conflicts the decisions say they raised.\<close>

definition raised :: "decision list \<Rightarrow> string list" where
  "raised ds = List.map_filter dn_conflict_key ds"

definition accounted :: "conflict list \<Rightarrow> engine \<Rightarrow> bool" where
  "accounted conflicts en \<longleftrightarrow>
     map cf_key conflicts = raised (en_decisions en)
     \<and> (\<forall>d \<in> set (en_decisions en). dn_conflict_key d \<noteq> None \<longleftrightarrow> dn_outcome d = DO_Conflict)
     \<and> (\<forall>d \<in> set (en_decisions en). dn_choice d \<noteq> None \<longleftrightarrow> dn_outcome d = DO_Explicit)"

lemma raised_push: "raised (ds @ [d]) = raised ds @ (case dn_conflict_key d of None \<Rightarrow> [] | Some k \<Rightarrow> [k])"
  by (simp add: raised_def List.map_filter_def split: option.split)

lemma accounted_push:
  assumes "accounted conflicts en"
    and "map cf_key conflicts' = map cf_key conflicts @ (case dn_conflict_key d of None \<Rightarrow> [] | Some k \<Rightarrow> [k])"
    and "dn_conflict_key d \<noteq> None \<longleftrightarrow> dn_outcome d = DO_Conflict" and "dn_choice d \<noteq> None \<longleftrightarrow> dn_outcome d = DO_Explicit"
  shows "accounted conflicts' (push_decision d en)"
  using assms by (auto simp: accounted_def push_decision_def raised_push)

lemma engine_select_accounted:
  assumes "accounted conflicts en" and "engine_select sha ser compact en a i resolutions conflicts = (v, cs, en')"
  shows "accounted cs en'"
proof (cases "unchanged_side i")
  case (Some r)
  with assms show ?thesis by (auto simp: engine_select_def unchanged_side_def accounted_def Let_def split: if_splits)
next
  case None
  obtain w d where dec: "decide sha ser compact en (Some (at_id a)) (at_node_type a) (at_field a) None i = (w, d)" by fastforce
  note f = decide_fields [OF dec]
  show ?thesis
  proof (cases w)
    case (Some m)
    with assms dec None f show ?thesis
      by (auto simp: engine_select_def unchanged_side_def Let_def split: if_splits intro!: accounted_push)
  next
    case w: None
    let ?explicit = "\<lambda>c. push_decision (d\<lparr>dn_choice := Some c, dn_outcome := DO_Explicit\<rparr>) en"
    let ?k = "conflict_key (at_id a) (at_field a)"
    have "(\<exists>c. cs = conflicts \<and> en' = ?explicit c)
        \<or> map cf_key cs = map cf_key conflicts @ [?k] \<and> en' = push_decision (d\<lparr>dn_conflict_key := Some ?k\<rparr>) en"
      using assms(2) dec None w
      by (auto simp: engine_select_def unchanged_side_def Let_def split: if_splits option.splits)
    then show ?thesis using assms(1) f w by (auto intro!: accounted_push)
  qed
qed

lemma engine_select_all_accounted:
  assumes "accounted conflicts en" and "engine_select_all sha ser compact resolutions places conflicts en = (vs, cs, en')"
  shows "accounted cs en'"
  using assms
proof (induction places arbitrary: conflicts en vs)
  case (Cons p places)
  obtain a i where p: "p = (a, i)" by fastforce
  from Cons.prems(2) obtain v cs1 en1 ws where "engine_select sha ser compact en a i resolutions conflicts = (v, cs1, en1)"
      and "engine_select_all sha ser compact resolutions places cs1 en1 = (ws, cs, en')"
    unfolding p by (auto split: prod.splits)
  with Cons.IH Cons.prems(1) engine_select_accounted show ?case by blast
qed simp

end
