(* ===== verification/Tree_Repair.thy ===== *)
theory Tree_Repair
  imports Merge_Engine Structure_Check
begin

text \<open>
  The checks on a merged tree and their repairs (\<^verbatim>\<open>crates/engine-core/src/workspace_merge.rs\<close>: \<^verbatim>\<open>find_parent_cycle\<close> to
  \<^verbatim>\<open>resolve_duplicate_var_name\<close>). \<open>repair_step\<close> is one turn of the loop of \<^verbatim>\<open>validate_merged_tree\<close>, which the code bounds by its own
  pass budget. Removing the children of a rejected block is the only search without a bound; \<^const>\<open>None\<close> stands for not
  returning, and \<open>drop_kids_returns\<close> shows that it does. \<^verbatim>\<open>Tree_Soundness\<close> shows that without conflicts the tree is sound.
\<close>

section \<open>Places and conflicts\<close>

definition opt_str :: "string option \<Rightarrow> json" where
  "opt_str v = (case v of None \<Rightarrow> JNull | Some s \<Rightarrow> JStr s)"

definition location :: "materialized_node \<Rightarrow> json" where
  "location n = JObj [(''parent_id'', opt_str (mn_parent_id n)), (''pos'', JStr (mn_pos n))]"

text \<open>The derived serializer of a node.\<close>

definition node_json :: "materialized_node \<Rightarrow> json" where
  "node_json n = JObj [(''current_fields'', mn_current_fields n), (''deleted'', JBool (mn_deleted n)), (''id'', JStr (mn_id n)),
     (''parent_id'', opt_str (mn_parent_id n)), (''pos'', JStr (mn_pos n)), (''type'', JStr (mn_node_type n)),
     (''var_name'', opt_str (mn_var_name n))]"

definition node_value :: "materialized_node option \<Rightarrow> json" where
  "node_value n = (case n of None \<Rightarrow> JNull | Some m \<Rightarrow> node_json m)"

definition push_conflict :: "conflict \<Rightarrow> conflict list \<Rightarrow> conflict list" where
  "push_conflict c cs = (if list_ex (\<lambda>x. cf_key x = cf_key c) cs then cs else cs @ [c])"

definition node_at :: "document_state \<Rightarrow> node_id \<Rightarrow> materialized_node option" where
  "node_at s k = bt_get (ds_nodes s) k"

text \<open>\<^verbatim>\<open>get_mut\<close> and an assignment through it.\<close>

definition modify_node :: "node_id \<Rightarrow> (materialized_node \<Rightarrow> materialized_node) \<Rightarrow> document_state \<Rightarrow> document_state" where
  "modify_node k f s = s\<lparr>ds_nodes := map (\<lambda>(k', n). (k', if k' = k then f n else n)) (ds_nodes s)\<rparr>"

definition place_at :: "materialized_node \<Rightarrow> materialized_node \<Rightarrow> materialized_node" where
  "place_at src n = n\<lparr>mn_parent_id := mn_parent_id src, mn_pos := mn_pos src\<rparr>"

section \<open>Finding defects\<close>

text \<open>One parent chain: \<^const>\<open>Inl\<close> is the cycle it runs into, \<^const>\<open>Inr\<close> the ids it visited.\<close>

function chain_walk ::
    "(node_id, materialized_node) bmap \<Rightarrow> node_id list \<Rightarrow> node_id list \<Rightarrow> node_id option \<Rightarrow> node_id list + node_id list" where
  "chain_walk nodes visited path None = Inr path"
| "chain_walk nodes visited path (Some k) =
     (if k \<in> set visited then Inr path
      else if k \<in> set path then Inl (dropWhile (\<lambda>p. p \<noteq> k) path)
      else chain_walk nodes visited (path @ [k]) (Option.bind (bt_get nodes k) mn_parent_id))"
  by pat_completeness auto
termination
proof (relation "measure (\<lambda>(nodes, visited, path, c). 2 * card (fst ` set nodes - set path) + (if c = None then 0 else 1))")
  fix nodes :: "(node_id, materialized_node) bmap" and visited path :: "node_id list" and k
  assume "k \<notin> set path"
  let ?keys = "fst ` set nodes"
  show "((nodes, visited, path @ [k], Option.bind (bt_get nodes k) mn_parent_id), nodes, visited, path, Some k)
      \<in> measure (\<lambda>(nodes, visited, path, c). 2 * card (fst ` set nodes - set path) + (if c = None then 0 else 1))"
  proof (cases "k \<in> ?keys")
    case True
    with \<open>k \<notin> set path\<close> have "?keys - set (path @ [k]) \<subset> ?keys - set path" by auto
    then have "card (?keys - set (path @ [k])) < card (?keys - set path)" by (intro psubset_card_mono) auto
    then show ?thesis by auto
  next
    case False
    then have "bt_get nodes k = None" by (simp add: map_of_eq_None_iff)
    moreover have "?keys - set (path @ [k]) = ?keys - set path" using False by auto
    ultimately show ?thesis by simp
  qed
qed simp

fun cycle_search :: "(node_id, materialized_node) bmap \<Rightarrow> node_id list \<Rightarrow> node_id list \<Rightarrow> node_id list option" where
  "cycle_search nodes visited [] = None"
| "cycle_search nodes visited (start # ks) =
     (case chain_walk nodes visited [] (Some start) of
        Inl cycle \<Rightarrow> Some cycle
      | Inr path \<Rightarrow> cycle_search nodes (visited @ path) ks)"

definition find_parent_cycle :: "document_state \<Rightarrow> node_id list option" where
  "find_parent_cycle s = cycle_search (ds_nodes s) [] (map fst (ds_nodes s))"

definition is_live :: "document_state \<Rightarrow> node_id \<Rightarrow> bool" where
  "is_live s k = (case node_at s k of None \<Rightarrow> False | Some n \<Rightarrow> \<not> mn_deleted n)"

definition orphan_parent :: "document_state \<Rightarrow> materialized_node \<Rightarrow> node_id option" where
  "orphan_parent s n =
     (case mn_parent_id n of None \<Rightarrow> None | Some p \<Rightarrow> if \<not> mn_deleted n \<and> \<not> is_live s p then Some p else None)"

definition find_orphan :: "document_state \<Rightarrow> (node_id \<times> node_id) option" where
  "find_orphan s =
     (case find (\<lambda>n. orphan_parent s n \<noteq> None) (map snd (ds_nodes s)) of
        None \<Rightarrow> None
      | Some n \<Rightarrow> map_option (\<lambda>p. (mn_id n, p)) (orphan_parent s n))"

fun name_index :: "materialized_node list \<Rightarrow> (string, materialized_node list) bmap \<Rightarrow> (string, materialized_node list) bmap" where
  "name_index [] m = m"
| "name_index (n # ns) m =
     (case mn_var_name n of
        Some name \<Rightarrow>
          if \<not> mn_deleted n \<and> name \<noteq> []
          then name_index ns (bt_insert name ((case bt_get m name of None \<Rightarrow> [] | Some l \<Rightarrow> l) @ [n]) m)
          else name_index ns m
      | None \<Rightarrow> name_index ns m)"

definition find_duplicate_var_name :: "document_state \<Rightarrow> document_state \<Rightarrow> node_id option" where
  "find_duplicate_var_name team s =
     (case find (\<lambda>ns. 1 < length ns) (map snd (name_index (map snd (ds_nodes s)) [])) of
        None \<Rightarrow> None
      | Some ns \<Rightarrow>
          (case find (\<lambda>n. case node_at team (mn_id n) of None \<Rightarrow> True | Some t \<Rightarrow> mn_deleted t \<or> mn_var_name t \<noteq> mn_var_name n) ns of
             Some n \<Rightarrow> Some (mn_id n)
           | None \<Rightarrow> map_option mn_id (case ns of [] \<Rightarrow> None | n # _ \<Rightarrow> Some n)))"

section \<open>Repairs\<close>

record sides =
  sd_base :: document_state
  sd_team :: document_state
  sd_draft :: document_state

definition orphan_conflict :: "sides \<Rightarrow> node_id \<Rightarrow> conflict" where
  "orphan_conflict sd parent =
     \<lparr>cf_key = conflict_key parent ''$node'', cf_node_id = parent, cf_field = ''$node'',
      cf_ancestor = node_value (node_at (sd_base sd) parent), cf_team = node_value (node_at (sd_team sd) parent),
      cf_draft = node_value (node_at (sd_draft sd) parent)\<rparr>"

text \<open>Bringing a deleted parent back, with its deleted ancestors.\<close>

function bring_back :: "document_state \<Rightarrow> node_id option \<Rightarrow> document_state \<Rightarrow> document_state" where
  "bring_back side None out = out"
| "bring_back side (Some k) out =
     (if is_live out k then out
      else
        case node_at side k of
          None \<Rightarrow> out
        | Some n \<Rightarrow>
            if mn_deleted n then out
            else
              bring_back side (mn_parent_id n)
                (out\<lparr>ds_removed_choices := bs_remove k (ds_removed_choices out), ds_nodes := bt_insert k n (ds_nodes out)\<rparr>))"
  by pat_completeness auto
termination
proof (relation "measure (\<lambda>(side, c, out). card {k \<in> fst ` set (ds_nodes side). \<not> is_live out k})")
  fix side k out n
  assume k: "\<not> is_live out k" "node_at side k = Some n" "\<not> mn_deleted n"
  let ?out = "out\<lparr>ds_removed_choices := bs_remove k (ds_removed_choices out), ds_nodes := bt_insert k n (ds_nodes out)\<rparr>"
  let ?dead = "\<lambda>st. {j \<in> fst ` set (ds_nodes side). \<not> is_live st j}"
  have "k \<in> ?dead out" using k by (auto simp: node_at_def dest!: map_of_SomeD intro: rev_image_eqI)
  moreover have "is_live ?out j \<longleftrightarrow> j = k \<or> is_live out j" for j using k(3) by (auto simp: is_live_def node_at_def)
  ultimately have "?dead ?out \<subset> ?dead out" using k by auto
  then have "card (?dead ?out) < card (?dead out)" by (intro psubset_card_mono) auto
  then show "((side, mn_parent_id n, ?out), side, Some k, out) 
      \<in> measure (\<lambda>(side, c, out). card {k \<in> fst ` set (ds_nodes side). \<not> is_live out k})" by simp
qed simp

definition take_out :: "document_state \<Rightarrow> node_id list \<Rightarrow> document_state \<Rightarrow> document_state" where
  "take_out side ks out =
     fold (\<lambda>k. modify_node k (\<lambda>n. case node_at side k of
         Some s \<Rightarrow> if mn_deleted s then n\<lparr>mn_deleted := True\<rparr> else place_at s n
       | None \<Rightarrow> n\<lparr>mn_deleted := True\<rparr>)) ks out"

definition resolve_orphan ::
    "sides \<Rightarrow> (string, string) bmap \<Rightarrow> node_id \<Rightarrow> node_id \<Rightarrow> document_state \<Rightarrow> conflict list \<Rightarrow> bool \<times> document_state \<times> conflict list" where
  "resolve_orphan sd resolutions child parent out cs =
     (let conflict = orphan_conflict sd parent;
          (side, cs1) =
            (case bt_get resolutions (cf_key conflict) of
               Some c \<Rightarrow>
                 if c = ''draft'' then (sd_draft sd, cs) else if c = ''team'' then (sd_team sd, cs)
                 else (sd_team sd, push_conflict conflict cs)
             | None \<Rightarrow> (sd_team sd, push_conflict conflict cs));
          out' =
            (if is_live side parent then bring_back side (Some parent) out
             else
               take_out side
                 (map mn_id (filter (\<lambda>n. \<not> mn_deleted n \<and> mn_parent_id n = Some parent) (map snd (ds_nodes out)))) out);
          changed = ((node_at out' child, node_at out' parent) \<noteq> (node_at out child, node_at out parent))
      in (changed, out', if changed then cs1 else push_conflict conflict cs1))"

definition var_name_conflict :: "sides \<Rightarrow> node_id \<Rightarrow> conflict" where
  "var_name_conflict sd k =
     (let name = (\<lambda>s. opt_str (Option.bind (node_at s k) mn_var_name)) in
      \<lparr>cf_key = conflict_key k ''var_name'', cf_node_id = k, cf_field = ''var_name'', cf_ancestor = name (sd_base sd),
       cf_team = name (sd_team sd), cf_draft = name (sd_draft sd)\<rparr>)"

text \<open>The stack has its top first.\<close>

partial_function (option) drop_kids ::
    "document_state \<Rightarrow> node_id list \<Rightarrow> (node_id, materialized_node) bmap \<Rightarrow> (node_id, materialized_node) bmap option" where
  "drop_kids team stack nodes =
     (case stack of
        [] \<Rightarrow> Some nodes
      | p # rest \<Rightarrow>
          let kids = map mn_id (filter (\<lambda>n. mn_parent_id n = Some p \<and> node_at team (mn_id n) = None) (map snd nodes)) in
          drop_kids team (rev kids @ rest) (fold bt_remove kids nodes))"

definition new_var_name :: "(string, string) bmap \<Rightarrow> document_state \<Rightarrow> node_id \<Rightarrow> string \<Rightarrow> string option" where
  "new_var_name resolutions out k key =
     (case bt_get resolutions key of
        Some name \<Rightarrow>
          if is_new_name name
             \<and> \<not> list_ex (\<lambda>n. mn_id n \<noteq> k \<and> \<not> mn_deleted n \<and> mn_var_name n = Some name) (map snd (ds_nodes out))
          then Some name else None
      | None \<Rightarrow> None)"

text \<open>A block the team has not is left out, with its draft-only children.\<close>

definition reject_block :: "sides \<Rightarrow> node_id \<Rightarrow> document_state \<Rightarrow> document_state option" where
  "reject_block sd k out =
     map_option (\<lambda>nodes.
       out\<lparr>ds_nodes := (case node_at (sd_team sd) k of Some t \<Rightarrow> bt_insert k t nodes | None \<Rightarrow> nodes),
           ds_removed_choices := (if k \<in> set (ds_removed_choices (sd_team sd)) then bs_insert k (ds_removed_choices out)
             else bs_remove k (ds_removed_choices out))\<rparr>)
       (drop_kids (sd_team sd) [k] (bt_remove k (ds_nodes out)))"

definition rename_node :: "string option \<Rightarrow> materialized_node option \<Rightarrow> materialized_node \<Rightarrow> materialized_node" where
  "rename_node renamed team_node n =
     (let n1 = (case (renamed, team_node) of
                  (Some name, _) \<Rightarrow> n\<lparr>mn_var_name := Some name\<rparr>
                | (None, Some t) \<Rightarrow> n\<lparr>mn_var_name := mn_var_name t\<rparr>
                | (None, None) \<Rightarrow> n\<lparr>mn_deleted := True\<rparr>)
      in case (renamed, team_node, mn_current_fields n1) of
           (None, Some t, JObj m) \<Rightarrow>
             n1\<lparr>mn_current_fields := JObj (case json_get (mn_current_fields t) ''var_name'' of
                  Some v \<Rightarrow> bt_insert ''var_name'' v m | None \<Rightarrow> bt_remove ''var_name'' m)\<rparr>
         | (_, _, JObj m) \<Rightarrow>
             if bt_contains m ''var_name'' then n1\<lparr>mn_current_fields := JObj (bt_insert ''var_name'' (opt_str (mn_var_name n1)) m)\<rparr> else n1
         | _ \<Rightarrow> n1)"

definition resolve_duplicate_var_name ::
    "sides \<Rightarrow> (string, string) bmap \<Rightarrow> node_id \<Rightarrow> document_state \<Rightarrow> conflict list \<Rightarrow> (bool \<times> document_state \<times> conflict list) option" where
  "resolve_duplicate_var_name sd resolutions k out cs =
     (let conflict = var_name_conflict sd k;
          renamed = new_var_name resolutions out k (cf_key conflict);
          cs1 = (if renamed = None \<and> bt_get resolutions (cf_key conflict) \<noteq> Some ''team'' then push_conflict conflict cs else cs)
      in if renamed = None \<and> \<not> is_live (sd_team sd) k
         then map_option (\<lambda>out'. (node_at out k \<noteq> node_at (sd_team sd) k, out', cs1)) (reject_block sd k out)
         else
           (case node_at out k of
              None \<Rightarrow> Some (False, out, cs1)
            | Some n \<Rightarrow>
                (let n' = rename_node renamed (if is_live (sd_team sd) k then node_at (sd_team sd) k else None) n;
                     changed = ((mn_var_name n', mn_deleted n') \<noteq> (mn_var_name n, mn_deleted n))
                 in Some (changed, modify_node k (\<lambda>_. n') out, if changed then cs1 else push_conflict conflict cs1))))"

section \<open>The loop\<close>

definition moved_node :: "sides \<Rightarrow> document_state \<Rightarrow> node_id \<Rightarrow> bool" where
  "moved_node sd out k \<longleftrightarrow> map_option location (node_at out k) \<noteq> map_option location (node_at (sd_team sd) k)"

text \<open>The node of a cycle to put back; a cycle is never empty (\<open>find_parent_cycle_nonempty\<close>).\<close>

definition cycle_node :: "sides \<Rightarrow> document_state \<Rightarrow> node_id list \<Rightarrow> node_id" where
  "cycle_node sd out cycle =
     (case find (\<lambda>k. node_at (sd_team sd) k \<noteq> None \<and> moved_node sd out k) cycle of
        Some k \<Rightarrow> k
      | None \<Rightarrow> (case find (moved_node sd out) cycle of Some k \<Rightarrow> k | None \<Rightarrow> hd cycle))"

definition location_conflict :: "sides \<Rightarrow> node_id \<Rightarrow> conflict" where
  "location_conflict sd k =
     (let loc = (\<lambda>s. case node_at s k of Some n \<Rightarrow> location n | None \<Rightarrow> JNull) in
      \<lparr>cf_key = conflict_key k ''$location'', cf_node_id = k, cf_field = ''$location'', cf_ancestor = loc (sd_base sd),
       cf_team = loc (sd_team sd), cf_draft = loc (sd_draft sd)\<rparr>)"

definition put_back :: "document_state \<Rightarrow> node_id \<Rightarrow> document_state \<Rightarrow> document_state" where
  "put_back side k out = (case node_at side k of Some s \<Rightarrow> modify_node k (place_at s) out | None \<Rightarrow> out)"

definition break_cycle ::
    "sides \<Rightarrow> (string, string) bmap \<Rightarrow> node_id list \<Rightarrow> node_id \<Rightarrow> document_state \<Rightarrow> conflict list \<Rightarrow> document_state \<times> conflict list" where
  "break_cycle sd resolutions cycle k out cs =
     (case bt_get resolutions (conflict_key k ''$location'') of
        Some c \<Rightarrow>
          if c = ''draft'' then (fold (put_back (sd_draft sd)) (k # filter (\<lambda>j. j \<noteq> k) cycle) out, cs)
          else if c = ''team'' then (put_back (sd_team sd) k out, cs)
          else (put_back (sd_team sd) k out, push_conflict (location_conflict sd k) cs)
      | None \<Rightarrow> (put_back (sd_team sd) k out, push_conflict (location_conflict sd k) cs))"

type_synonym repair = "nat \<times> node_id \<times> node_id option"

text \<open>One pass: whether to go on, the state, the conflicts and the repairs met so far. \<open>over\<close> says that the budget is spent.\<close>

definition repair_step ::
    "sides \<Rightarrow> (string, string) bmap \<Rightarrow> bool \<Rightarrow> document_state \<Rightarrow> conflict list \<Rightarrow> repair list
      \<Rightarrow> (bool \<times> document_state \<times> conflict list \<times> repair list) option" where
  "repair_step sd resolutions over out cs seen =
     (case find_parent_cycle out of
        None \<Rightarrow>
          (case find_orphan out of
             Some (child, parent) \<Rightarrow>
               if over \<or> (0, child, Some parent) \<in> set seen
               then Some (False, out, push_conflict (orphan_conflict sd parent) cs, seen)
               else
                 (case resolve_orphan sd resolutions child parent out cs of
                    (changed, out', cs') \<Rightarrow> Some (changed, out', cs', (0, child, Some parent) # seen))
           | None \<Rightarrow>
               (case find_duplicate_var_name (sd_team sd) out of
                  Some k \<Rightarrow>
                    if over \<or> (1, k, None) \<in> set seen then Some (False, out, push_conflict (var_name_conflict sd k) cs, seen)
                    else
                      map_option (\<lambda>(changed, out', cs'). (changed, out', cs', (1, k, None) # seen))
                        (resolve_duplicate_var_name sd resolutions k out cs)
                | None \<Rightarrow> Some (False, out, cs, seen)))
      | Some cycle \<Rightarrow>
          (let k = cycle_node sd out cycle in
           if over \<or> (2, k, None) \<in> set seen then Some (False, out, push_conflict (location_conflict sd k) cs, seen)
           else
             (case break_cycle sd resolutions cycle k out cs of
                (out', cs') \<Rightarrow>
                  if map (\<lambda>j. map_option location (node_at out' j)) cycle = map (\<lambda>j. map_option location (node_at out j)) cycle
                  then Some (False, out', push_conflict (location_conflict sd k) cs', (2, k, None) # seen)
                  else Some (True, out', cs', (2, k, None) # seen))))"

lemma repair_step_over: "repair_step sd resolutions True out cs seen = Some (go, r) \<Longrightarrow> \<not> go"
  by (auto simp: repair_step_def Let_def split: option.splits prod.splits)

function repair_loop ::
    "sides \<Rightarrow> (string, string) bmap \<Rightarrow> nat \<Rightarrow> nat \<Rightarrow> document_state \<Rightarrow> conflict list \<Rightarrow> repair list
      \<Rightarrow> (document_state \<times> conflict list) option" where
  "repair_loop sd resolutions max_passes passes out cs seen =
     (case repair_step sd resolutions (passes > max_passes) out cs seen of
        None \<Rightarrow> None
      | Some (True, out', cs', seen') \<Rightarrow> repair_loop sd resolutions max_passes (passes + 1) out' cs' seen'
      | Some (False, out', cs', seen') \<Rightarrow> Some (out', cs'))"
  by pat_completeness auto
termination
proof (relation "measure (\<lambda>(sd, resolutions, max_passes, passes, out, cs, seen). max_passes + 1 - passes)")
  fix sd resolutions and max_passes passes :: nat and out cs seen x2 go y out' ya cs' seen'
  assume "repair_step sd resolutions (max_passes < passes) out cs seen = Some x2" "(go, y) = x2" "go = True"
  then have "passes \<le> max_passes" using repair_step_over [of sd resolutions out cs seen go y] by (cases "max_passes < passes") auto
  then show "((sd, resolutions, max_passes, passes + 1, out', cs', seen'), sd, resolutions, max_passes, passes, out, cs, seen)
      \<in> measure (\<lambda>(sd, resolutions, max_passes, passes, out, cs, seen). max_passes + 1 - passes)" by simp
qed simp

declare repair_loop.simps [simp del]

definition validate_merged_tree ::
    "sides \<Rightarrow> (string, string) bmap \<Rightarrow> document_state \<Rightarrow> conflict list \<Rightarrow> (document_state \<times> conflict list) option" where
  "validate_merged_tree sd resolutions out cs = repair_loop sd resolutions (2 * length (ds_nodes out) + 1) 1 out cs []"

section \<open>What the searches find\<close>

declare chain_walk.simps [simp del] bring_back.simps [simp del]

lemma find_mem: "find P xs = Some x \<Longrightarrow> x \<in> set xs \<and> P x"
  by (auto simp: find_Some_iff)

lemma chain_walk_acc:
  assumes "chain_walk (ds_nodes s) visited path c = Inr path'" and "set visited \<subseteq> Wellfounded.acc (parent_rel s)"
  shows "(\<forall>k. c = Some k \<longrightarrow> k \<in> Wellfounded.acc (parent_rel s)) \<and> set path \<subseteq> set path'
    \<and> set path' - set path \<subseteq> Wellfounded.acc (parent_rel s)"
  using assms
proof (induction "ds_nodes s" visited path c rule: chain_walk.induct)
  case (2 visited path k)
  show ?case
  proof (cases "k \<in> set visited")
    case True
    with 2(2,3) show ?thesis by (auto simp: chain_walk.simps)
  next
    case False
    with 2(2) have k: "k \<notin> set path" and rest: "chain_walk (ds_nodes s) visited (path @ [k]) (Option.bind (bt_get (ds_nodes s) k) mn_parent_id) = Inr path'"
      by (auto simp: chain_walk.simps split: if_splits)
    note ih = 2(1) [OF False k rest 2(3)]
    have "k \<in> Wellfounded.acc (parent_rel s)"
    proof (rule accI)
      fix p
      assume "(p, k) \<in> parent_rel s"
      then obtain n where "bt_get (ds_nodes s) k = Some n" "mn_parent_id n = Some p" by auto
      then show "p \<in> Wellfounded.acc (parent_rel s)" using ih by simp
    qed
    with ih show ?thesis by auto
  qed
qed (simp add: chain_walk.simps)

lemma cycle_search_acc:
  assumes "cycle_search (ds_nodes s) visited ks = None" and "set visited \<subseteq> Wellfounded.acc (parent_rel s)"
  shows "set ks \<subseteq> Wellfounded.acc (parent_rel s)"
  using assms
proof (induction ks arbitrary: visited)
  case (Cons k ks)
  then obtain path where w: "chain_walk (ds_nodes s) visited [] (Some k) = Inr path" "cycle_search (ds_nodes s) (visited @ path) ks = None"
    by (auto split: sum.splits)
  from chain_walk_acc [OF w(1) Cons.prems(2)] Cons.IH [OF w(2)] Cons.prems(2) show ?case by auto
qed simp

lemma find_parent_cycle_None: "find_parent_cycle s = None \<Longrightarrow> acyclic (parent_rel s)"
proof -
  assume "find_parent_cycle s = None"
  then have keys: "fst ` set (ds_nodes s) \<subseteq> Wellfounded.acc (parent_rel s)"
    using cycle_search_acc [of s "[]" "map fst (ds_nodes s)"] by (simp add: find_parent_cycle_def)
  have "k \<in> Wellfounded.acc (parent_rel s)" for k
  proof (cases "k \<in> fst ` set (ds_nodes s)")
    case False
    then have "bt_get (ds_nodes s) k = None" by (simp add: map_of_eq_None_iff)
    then show ?thesis by - (rule accI, simp)
  qed (use keys in auto)
  then have "wf (parent_rel s)" by (intro acc_wfI) auto
  then show ?thesis by (rule wf_acyclic)
qed

lemma chain_walk_nonempty: "chain_walk nodes visited path c = Inl cycle \<Longrightarrow> cycle \<noteq> []"
proof (induction nodes visited path c rule: chain_walk.induct)
  case (2 nodes visited path k)
  then show ?case by (auto simp: chain_walk.simps(2) [of nodes visited path k] dropWhile_eq_Nil_conv split: if_splits)
qed (simp add: chain_walk.simps)

lemma find_parent_cycle_nonempty: "find_parent_cycle s = Some cycle \<Longrightarrow> cycle \<noteq> []"
proof -
  have "cycle_search nodes visited ks = Some cycle \<Longrightarrow> cycle \<noteq> []" for nodes visited ks
    by (induction ks arbitrary: visited) (auto split: sum.splits dest: chain_walk_nonempty)
  then show "find_parent_cycle s = Some cycle \<Longrightarrow> cycle \<noteq> []" unfolding find_parent_cycle_def .
qed

lemma find_orphan_None: "find_orphan s = None \<Longrightarrow> n \<in> snd ` set (ds_nodes s) \<Longrightarrow> orphan_parent s n = None"
  by (auto simp: find_orphan_def find_None_iff find_Some_iff split: option.splits)

text \<open>The nodes that share a name, in the order of their ids.\<close>

definition holders :: "string \<Rightarrow> materialized_node list \<Rightarrow> materialized_node list" where
  "holders name ns = filter (\<lambda>n. \<not> mn_deleted n \<and> mn_var_name n = Some name) ns"

lemma name_index_get:
  assumes "name \<noteq> []"
  shows "(case bt_get (name_index ns m) name of None \<Rightarrow> [] | Some l \<Rightarrow> l) = (case bt_get m name of None \<Rightarrow> [] | Some l \<Rightarrow> l) @ holders name ns"
proof (induction ns arbitrary: m)
  case (Cons n ns)
  show ?case using assms
    by (cases "mn_var_name n") (auto simp: holders_def Cons.IH split: option.splits)
qed (simp add: holders_def split: option.split)

lemma name_index_values:
  assumes "\<forall>l \<in> snd ` set m. \<forall>n \<in> set l. P n" and "\<forall>n \<in> set ns. \<not> mn_deleted n \<longrightarrow> P n"
  shows "\<forall>l \<in> snd ` set (name_index ns m). \<forall>n \<in> set l. P n"
  using assms
proof (induction ns arbitrary: m)
  case (Cons n ns)
  have step: "\<forall>l \<in> snd ` set (bt_insert name ((case bt_get m name of None \<Rightarrow> [] | Some l \<Rightarrow> l) @ [n]) m). \<forall>x \<in> set l. P x" if "P n" for name
    using Cons.prems(1) that set_bt_insert [of name "(case bt_get m name of None \<Rightarrow> [] | Some l \<Rightarrow> l) @ [n]" m]
    by (fastforce split: option.splits dest: map_of_SomeD)
  show ?case
  proof (cases "mn_var_name n = None \<or> mn_deleted n \<or> mn_var_name n = Some []")
    case True
    then show ?thesis using Cons.IH [of m] Cons.prems by (auto split: option.splits)
  next
    case False
    then obtain name where "mn_var_name n = Some name" "name \<noteq> []" "\<not> mn_deleted n" by auto
    then show ?thesis using Cons.IH [OF step] Cons.prems by simp
  qed
qed simp

lemma duplicate_live:
  assumes "find_duplicate_var_name team s = Some k"
  shows "\<exists>n \<in> snd ` set (ds_nodes s). mn_id n = k \<and> \<not> mn_deleted n"
proof -
  obtain ns where ns: "ns \<in> snd ` set (name_index (map snd (ds_nodes s)) [])" "1 < length ns" "\<exists>n \<in> set ns. mn_id n = k"
    using assms by (auto simp: find_duplicate_var_name_def split: option.splits list.splits dest!: find_mem) (metis image_eqI snd_conv)+
  have "\<forall>l \<in> snd ` set (name_index (map snd (ds_nodes s)) []). \<forall>n \<in> set l. n \<in> snd ` set (ds_nodes s) \<and> \<not> mn_deleted n"
    by (rule name_index_values) auto
  with ns show ?thesis by blast
qed

lemma find_duplicate_None:
  assumes "find_duplicate_var_name team s = None" and "name \<noteq> []"
  shows "length (holders name (map snd (ds_nodes s))) \<le> 1"
proof -
  let ?m = "name_index (map snd (ds_nodes s)) []"
  have none: "\<forall>ns \<in> snd ` set ?m. length ns \<le> 1"
    using assms(1) by (auto simp: find_duplicate_var_name_def find_None_iff not_less split: option.splits list.splits dest!: find_mem)
  show ?thesis
  proof (cases "bt_get ?m name")
    case None
    then show ?thesis using name_index_get [OF assms(2), of "map snd (ds_nodes s)" "[]"] by simp
  next
    case (Some l)
    then have "l \<in> snd ` set ?m" by (auto dest!: map_of_SomeD intro: rev_image_eqI)
    then have "length l \<le> 1" using none by blast
    with Some show ?thesis using name_index_get [OF assms(2), of "map snd (ds_nodes s)" "[]"] by simp
  qed
qed

end
