(* ===== verification/Tree_Soundness.thy ===== *)
theory Tree_Soundness
  imports Tree_Repair
begin

text \<open>
  What the repairs of a merged tree guarantee. \<open>tidy\<close> is what they need of a state and keep: nodes under their own ids, and
  removed choices deleted. The loop returns on tidy states and leaves no defect unless it reports a conflict (\<open>repair_loop_ok\<close>);
  a tidy state without a defect is structurally sound (\<open>no_defect_sound\<close>).
\<close>

section \<open>Tidy states\<close>

definition tidy :: "document_state \<Rightarrow> bool" where
  "tidy s \<longleftrightarrow> bt_ok (ds_nodes s)
     \<and> (\<forall>k n. node_at s k = Some n \<longrightarrow> mn_id n = k \<and> (k \<in> set (ds_removed_choices s) \<longrightarrow> mn_deleted n))"

lemma tidyD: "tidy s \<Longrightarrow> node_at s k = Some n \<Longrightarrow> mn_id n = k"
  by (simp add: tidy_def)

lemma tidy_mem: "tidy s \<Longrightarrow> n \<in> snd ` set (ds_nodes s) \<longleftrightarrow> node_at s (mn_id n) = Some n"
proof
  assume t: "tidy s" and "n \<in> snd ` set (ds_nodes s)"
  then obtain k where "(k, n) \<in> set (ds_nodes s)" by auto
  with t have "node_at s k = Some n" by (simp add: tidy_def node_at_def bt_get_iff_mem)
  with tidyD [OF t this] show "node_at s (mn_id n) = Some n" by simp
next
  assume "node_at s (mn_id n) = Some n"
  then have "(mn_id n, n) \<in> set (ds_nodes s)" unfolding node_at_def by (rule map_of_SomeD)
  then show "n \<in> snd ` set (ds_nodes s)" by force
qed

lemma node_at_modify: "node_at (modify_node k f s) j = (if j = k then map_option f (node_at s k) else node_at s j)"
proof -
  have "map_of (map (\<lambda>(k', n). (k', if k' = k then f n else n)) m) j = (if j = k then map_option f (map_of m k) else map_of m j)" for m
    by (induction m) auto
  then show ?thesis by (simp add: modify_node_def node_at_def)
qed

lemma modify_node_parts [simp]:
  "ds_removed_choices (modify_node k f s) = ds_removed_choices s" "map fst (ds_nodes (modify_node k f s)) = map fst (ds_nodes s)"
  by (simp_all add: modify_node_def comp_def case_prod_unfold)

lemma bt_ok_modify [simp]: "bt_ok (ds_nodes (modify_node k f s)) = bt_ok (ds_nodes s)"
  by (simp add: bt_ok_def)

lemma tidy_modify:
  assumes "tidy s" and "\<And>n. node_at s k = Some n \<Longrightarrow> mn_id (f n) = k \<and> (mn_deleted n \<longrightarrow> mn_deleted (f n))"
  shows "tidy (modify_node k f s)"
  using assms by (auto simp: tidy_def node_at_modify split: if_splits)

lemma tidy_put_back: "tidy out \<Longrightarrow> tidy (put_back side k out)"
  by (auto simp: put_back_def place_at_def dest: tidyD split: option.split intro!: tidy_modify)

lemma tidy_fold: "tidy out \<Longrightarrow> (\<And>k out. tidy out \<Longrightarrow> tidy (f k out)) \<Longrightarrow> tidy (fold f ks out)"
  by (induction ks arbitrary: out) auto

lemma tidy_break_cycle: "tidy out \<Longrightarrow> break_cycle sd resolutions cycle k out cs = (out', cs') \<Longrightarrow> tidy out'"
  by (auto simp: break_cycle_def intro!: tidy_fold tidy_put_back split: option.splits if_splits)

lemma tidy_take_out: "tidy out \<Longrightarrow> tidy (take_out side ks out)"
  unfolding take_out_def
  by (erule tidy_fold) (auto simp: place_at_def dest: tidyD split: option.split intro!: tidy_modify)

lemma tidy_bring_back: "tidy side \<Longrightarrow> tidy out \<Longrightarrow> tidy (bring_back side c out)"
proof (induction side c out rule: bring_back.induct)
  case (2 side k out)
  show ?case
  proof (cases "is_live out k \<or> node_at side k = None \<or> (\<exists>n. node_at side k = Some n \<and> mn_deleted n)")
    case True
    with 2(3) show ?thesis by (auto simp: bring_back.simps split: option.split)
  next
    case False
    then obtain n where n: "\<not> is_live out k" "node_at side k = Some n" "\<not> mn_deleted n" by auto
    let ?out = "out\<lparr>ds_removed_choices := bs_remove k (ds_removed_choices out), ds_nodes := bt_insert k n (ds_nodes out)\<rparr>"
    have "tidy ?out" using 2(2,3) tidyD [OF 2(2) n(2)] by (auto simp: tidy_def node_at_def)
    with 2(1) [OF n 2(2)] n show ?thesis by (simp add: bring_back.simps(2))
  qed
qed (simp add: bring_back.simps)

lemma tidy_resolve_orphan:
  assumes "resolve_orphan sd resolutions child parent out cs = (changed, out', cs')"
    and "tidy (sd_team sd)" and "tidy (sd_draft sd)" and "tidy out"
  shows "tidy out'"
  using assms by (auto simp: resolve_orphan_def Let_def intro!: tidy_bring_back tidy_take_out split: option.splits if_splits)

section \<open>Removing a rejected block\<close>

abbreviation keyed_nodes :: "(node_id, materialized_node) bmap \<Rightarrow> bool" where
  "keyed_nodes nodes \<equiv> bt_ok nodes \<and> (\<forall>k n. bt_get nodes k = Some n \<longrightarrow> mn_id n = k)"

abbreviation kids_of :: "document_state \<Rightarrow> node_id \<Rightarrow> (node_id, materialized_node) bmap \<Rightarrow> node_id list" where
  "kids_of team p nodes \<equiv> map mn_id (filter (\<lambda>n. mn_parent_id n = Some p \<and> node_at team (mn_id n) = None) (map snd nodes))"

lemma bt_get_fold_remove: "bt_get (fold bt_remove ks nodes) k = (if k \<in> set ks then None else bt_get nodes k)"
  by (induction ks arbitrary: nodes) auto

lemma bt_ok_fold_remove: "bt_ok nodes \<Longrightarrow> bt_ok (fold bt_remove ks nodes)"
  by (induction ks arbitrary: nodes) auto

lemma fold_remove_length: "length (fold bt_remove ks nodes) \<le> length nodes"
proof (induction ks arbitrary: nodes)
  case (Cons k ks)
  have "length (bt_remove k nodes) \<le> length nodes" by (simp add: bt_remove_def)
  then show ?case using Cons.IH [of "bt_remove k nodes"] by simp
qed simp

lemma drop_kids_subset:
  assumes "drop_kids team stack nodes = Some nodes'" and "bt_ok nodes"
  shows "bt_ok nodes' \<and> (\<forall>k n. bt_get nodes' k = Some n \<longrightarrow> bt_get nodes k = Some n)"
proof -
  let ?P = "\<lambda>team stack nodes nodes'. bt_ok nodes \<longrightarrow> bt_ok nodes' \<and> (\<forall>k n. bt_get nodes' k = Some n \<longrightarrow> bt_get nodes k = Some n)"
  have "?P team stack nodes nodes'"
  proof (rule drop_kids.raw_induct [of ?P, OF _ assms(1)], intro impI)
    fix f team stack nodes nodes'
    assume ih: "\<And>team stack nodes y. f team stack nodes = Some y \<Longrightarrow> ?P team stack nodes y"
      and step: "(case stack of [] \<Rightarrow> Some nodes
        | p # rest \<Rightarrow> let kids = kids_of team p nodes in f team (rev kids @ rest) (fold bt_remove kids nodes)) = Some nodes'"
      and ok: "bt_ok nodes"
    show "bt_ok nodes' \<and> (\<forall>k n. bt_get nodes' k = Some n \<longrightarrow> bt_get nodes k = Some n)"
    proof (cases stack)
      case (Cons p rest)
      let ?rest = "fold bt_remove (kids_of team p nodes) nodes"
      from step Cons have "f team (rev (kids_of team p nodes) @ rest) ?rest = Some nodes'" by (simp add: Let_def)
      from ih [OF this] bt_ok_fold_remove [OF ok]
      have "bt_ok nodes' \<and> (\<forall>k n. bt_get nodes' k = Some n \<longrightarrow> bt_get ?rest k = Some n)" by blast
      moreover have "bt_get ?rest k = Some n \<Longrightarrow> bt_get nodes k = Some n" for k n
        unfolding bt_get_fold_remove by (simp split: if_splits)
      ultimately show ?thesis by blast
    qed (use step ok in simp)
  qed
  with assms(2) show ?thesis by simp
qed

lemma kids_shrink:
  assumes "keyed_nodes nodes" and "kids_of team p nodes \<noteq> []"
  shows "length (fold bt_remove (kids_of team p nodes) nodes) < length nodes"
proof -
  obtain k ks where ks: "kids_of team p nodes = k # ks" using assms(2) by (cases "kids_of team p nodes") auto
  then have "k \<in> set (kids_of team p nodes)" by simp
  then obtain j n where "(j, n) \<in> set nodes" "mn_id n = k" by auto
  with assms(1) have "(k, n) \<in> set nodes" by (metis bt_get_iff_mem)
  then have "length (bt_remove k nodes) < length nodes" unfolding bt_remove_def by (intro length_filter_less [of "(k, n)"]) auto
  with fold_remove_length [of ks "bt_remove k nodes"] show ?thesis unfolding ks by simp
qed

lemma drop_kids_returns: "keyed_nodes nodes \<Longrightarrow> \<exists>nodes'. drop_kids team stack nodes = Some nodes'"
proof (induction "length nodes" arbitrary: nodes stack rule: less_induct)
  case less
  show ?case using less.prems
  proof (induction stack)
    case Nil
    show ?case by (subst drop_kids.simps) simp
  next
    case (Cons p rest)
    let ?rest = "fold bt_remove (kids_of team p nodes) nodes"
    show ?case
    proof (cases "kids_of team p nodes = []")
      case True
      with Cons show ?thesis by (subst drop_kids.simps) (simp add: Let_def)
    next
      case False
      have "keyed_nodes ?rest" using Cons.prems by (auto simp: bt_get_fold_remove bt_ok_fold_remove)
      from less.hyps [OF kids_shrink [OF Cons.prems False] this] show ?thesis by (subst drop_kids.simps) (simp add: Let_def)
    qed
  qed
qed

lemma reject_block_ok:
  assumes "tidy (sd_team sd)" and "tidy out"
  shows "\<exists>out'. reject_block sd k out = Some out' \<and> tidy out'"
proof -
  have keyed: "keyed_nodes (bt_remove k (ds_nodes out))" using assms(2) by (auto simp: tidy_def node_at_def)
  then obtain nodes' where d: "drop_kids (sd_team sd) [k] (bt_remove k (ds_nodes out)) = Some nodes'" using drop_kids_returns by blast
  note kept = drop_kids_subset [OF d conjunct1 [OF keyed]]
  have sub: "bt_ok nodes'" "j \<noteq> k \<and> node_at out j = Some n" if "bt_get nodes' j = Some n" for j n
  proof -
    from kept that have "bt_get (bt_remove k (ds_nodes out)) j = Some n" by blast
    then show "j \<noteq> k \<and> node_at out j = Some n" by (simp add: node_at_def split: if_splits)
  qed (use kept in blast)
  have "bt_get nodes' k = None" using sub(2) by (metis not_Some_eq)
  moreover have "mn_id n = j \<and> (j \<in> set (ds_removed_choices out) \<longrightarrow> mn_deleted n)" if "bt_get nodes' j = Some n" for j n
    using sub [OF that] assms(2) unfolding tidy_def by blast
  ultimately show ?thesis using d kept assms(1) by (auto simp: reject_block_def tidy_def node_at_def split: option.splits if_splits)
qed

section \<open>One pass\<close>

lemma push_conflict_nonempty [simp]: "push_conflict c cs \<noteq> []"
  by (auto simp: push_conflict_def)

lemma rename_node_id: "mn_id (rename_node renamed t n) = mn_id n \<and> (mn_deleted n \<longrightarrow> mn_deleted (rename_node renamed t n))"
proof -
  define n1 where "n1 = (case (renamed, t) of (Some name, _) \<Rightarrow> n\<lparr>mn_var_name := Some name\<rparr>
      | (None, Some u) \<Rightarrow> n\<lparr>mn_var_name := mn_var_name u\<rparr> | (None, None) \<Rightarrow> n\<lparr>mn_deleted := True\<rparr>)"
  have "mn_id n1 = mn_id n" "mn_deleted n \<longrightarrow> mn_deleted n1" by (auto simp: n1_def split: option.splits)
  moreover have "mn_id (rename_node renamed t n) = mn_id n1 \<and> mn_deleted (rename_node renamed t n) = mn_deleted n1"
    unfolding rename_node_def n1_def [symmetric] Let_def by (auto split: option.splits json.splits)
  ultimately show ?thesis by auto
qed

lemma resolve_duplicate_ok:
  assumes "tidy (sd_team sd)" and "tidy out" and "is_live out k"
  shows "\<exists>changed out' cs'. resolve_duplicate_var_name sd resolutions k out cs = Some (changed, out', cs') \<and> tidy out'
    \<and> (\<not> changed \<longrightarrow> cs' \<noteq> [])"
proof -
  obtain n where n: "node_at out k = Some n" "\<not> mn_deleted n" using assms(3) by (auto simp: is_live_def split: option.splits)
  let ?renamed = "new_var_name resolutions out k (cf_key (var_name_conflict sd k))"
  show ?thesis
  proof (cases "?renamed = None \<and> \<not> is_live (sd_team sd) k")
    case True
    then have "node_at (sd_team sd) k \<noteq> node_at out k" using n by (auto simp: is_live_def)
    moreover obtain out' where "reject_block sd k out = Some out'" "tidy out'" using reject_block_ok [OF assms(1,2)] by blast
    ultimately show ?thesis using True by (auto simp: resolve_duplicate_var_name_def Let_def)
  next
    case False
    have "tidy (modify_node k (\<lambda>_. rename_node r t n) out)" for r t
      using n rename_node_id tidyD [OF assms(2) n(1)] by (intro tidy_modify [OF assms(2)]) auto
    with False n show ?thesis by (auto simp: resolve_duplicate_var_name_def Let_def)
  qed
qed

lemma resolve_orphan_reports: "resolve_orphan sd resolutions child parent out cs = (False, out', cs') \<Longrightarrow> cs' \<noteq> []"
  by (auto simp: resolve_orphan_def Let_def split: option.splits if_splits)

definition no_defect :: "document_state \<Rightarrow> document_state \<Rightarrow> bool" where
  "no_defect team s \<longleftrightarrow> find_parent_cycle s = None \<and> find_orphan s = None \<and> find_duplicate_var_name team s = None"

lemma repair_step_ok:
  assumes "tidy (sd_team sd)" and "tidy (sd_draft sd)" and "tidy out"
  shows "\<exists>go out' cs' seen'. repair_step sd resolutions over out cs seen = Some (go, out', cs', seen') \<and> tidy out'
    \<and> (\<not> go \<longrightarrow> cs' = [] \<longrightarrow> no_defect (sd_team sd) out')"
proof (cases "find_parent_cycle out")
  case (Some cycle)
  obtain out' cs' where b: "break_cycle sd resolutions cycle (cycle_node sd out cycle) out cs = (out', cs')" by fastforce
  with tidy_break_cycle [OF assms(3) b] assms(3) Some show ?thesis by (auto simp: repair_step_def Let_def)
next
  case none: None
  show ?thesis
  proof (cases "find_orphan out")
    case (Some cp)
    obtain child parent where cp: "cp = (child, parent)" by fastforce
    obtain changed out' cs' where r: "resolve_orphan sd resolutions child parent out cs = (changed, out', cs')" by (metis prod_cases3)
    from tidy_resolve_orphan [OF r assms] resolve_orphan_reports r none Some assms(3) show ?thesis
      by (cases changed) (auto simp: cp repair_step_def)
  next
    case orphan: None
    show ?thesis
    proof (cases "find_duplicate_var_name (sd_team sd) out")
      case (Some k)
      obtain n where "n \<in> snd ` set (ds_nodes out)" "mn_id n = k" "\<not> mn_deleted n" using duplicate_live [OF Some] by blast
      then have "is_live out k" using tidy_mem [OF assms(3), of n] by (simp add: is_live_def)
      from resolve_duplicate_ok [OF assms(1,3) this, of resolutions cs] none orphan Some assms(3) show ?thesis
        by (auto simp: repair_step_def)
    next
      case None
      with none orphan assms(3) show ?thesis by (auto simp: repair_step_def no_defect_def)
    qed
  qed
qed

section \<open>The loop\<close>

lemma repair_loop_ok:
  assumes "tidy (sd_team sd)" and "tidy (sd_draft sd)" and "tidy out"
  shows "\<exists>out' cs'. repair_loop sd resolutions max_passes passes out cs seen = Some (out', cs') \<and> tidy out'
    \<and> (cs' = [] \<longrightarrow> no_defect (sd_team sd) out')"
  using assms
proof (induction sd resolutions max_passes passes out cs seen rule: repair_loop.induct)
  case (1 sd resolutions max_passes passes out cs seen)
  obtain go out' cs' seen' where s: "repair_step sd resolutions (passes > max_passes) out cs seen = Some (go, out', cs', seen')"
      "tidy out'" "\<not> go \<longrightarrow> cs' = [] \<longrightarrow> no_defect (sd_team sd) out'"
    using repair_step_ok [OF 1(2-4)] by blast
  show ?case
  proof (cases go)
    case True
    with 1(1) [OF s(1)] 1(2,3) s show ?thesis by (simp add: repair_loop.simps)
  next
    case False
    with s show ?thesis by (simp add: repair_loop.simps)
  qed
qed

lemma no_defect_sound:
  assumes "tidy s" and "no_defect team s"
  shows "structurally_sound s"
proof -
  have live: "live_node s k = Some n \<longleftrightarrow> node_at s k = Some n \<and> \<not> mn_deleted n" for k n
    using assms(1) by (auto simp: live_node_iff live_def tidy_def node_at_def)
  have "is_live s p" if "live_node s k = Some n" "mn_parent_id n = Some p" for k n p
  proof -
    have "n \<in> snd ` set (ds_nodes s)" using that(1) live tidy_mem [OF assms(1)] tidyD [OF assms(1)] by metis
    with find_orphan_None assms(2) have "orphan_parent s n = None" by (auto simp: no_defect_def)
    then show ?thesis using that live by (auto simp: orphan_parent_def split: if_splits)
  qed
  then have parents: "live_node s p \<noteq> None" if "live_node s k = Some n" "mn_parent_id n = Some p" for k n p
    using that live by (fastforce simp: is_live_def split: option.splits)
  have "live_rel s \<subseteq> parent_rel s" by (auto simp: live_rel_def live_node_iff)
  then have acyclic: "acyclic (live_rel s)" using find_parent_cycle_None assms(2) acyclic_subset by (auto simp: no_defect_def)
  have names: "k = k'" if "live_node s k = Some n" "live_node s k' = Some n'" "mn_var_name n = Some name" "mn_var_name n' = Some name" "name \<noteq> []"
    for k k' n n' name
  proof -
    let ?h = "holders name (map snd (ds_nodes s))"
    have mem: "n \<in> set ?h" "n' \<in> set ?h"
      using that live tidy_mem [OF assms(1)] tidyD [OF assms(1)] by (auto simp: holders_def)
    have "length ?h \<le> 1" using find_duplicate_None assms(2) that(5) by (auto simp: no_defect_def)
    with mem have "n = n'" by (cases ?h) auto
    with that(1,2) live tidyD [OF assms(1)] show ?thesis by metis
  qed
  show ?thesis unfolding structurally_sound_def
    using parents acyclic names tidyD [OF assms(1)] by (auto simp: node_at_def)
qed

end
