(* ===== verification/Workspace_Merge.thy ===== *)
theory Workspace_Merge
  imports Tree_Soundness
begin

text \<open>
  The three-way merge of document states (\<^verbatim>\<open>merge_with\<close> of \<^verbatim>\<open>crates/engine-core/src/workspace_merge.rs\<close>) as signed convergence runs
  it: without an event plan (\<^verbatim>\<open>merge_for_signed_v1\<close>, \<^verbatim>\<open>merge_for_signed_v1_with_registry\<close>). A \<^verbatim>\<open>Selector\<close> is a function with a state
  of its own; \<^const>\<open>None\<close> is a panic. \<open>read_node\<close> is \<^verbatim>\<open>serde_json::from_value\<close> at the type of a node. The locale \<open>side_picker\<close> is
  what the walk needs of a selector to keep nodes under their ids; \<open>alike\<close> relates two selectors that choose the same.
\<close>

section \<open>The walk\<close>

type_synonym 's selector = "at_place \<Rightarrow> inputs \<Rightarrow> conflict list \<Rightarrow> 's \<Rightarrow> (json \<times> conflict list \<times> 's) option"

definition direct_selector :: "differ \<Rightarrow> scalar_writer \<Rightarrow> (string, string) bmap \<Rightarrow> unit selector" where
  "direct_selector myers ser resolutions a i cs u =
     map_option (\<lambda>(v, cs'). (v, cs', ()))
       (select myers ser (at_id a) (at_field a) (in_base i) (in_team i) (in_draft i) resolutions cs)"

definition engine_selector ::
    "hash_fun \<Rightarrow> scalar_writer \<Rightarrow> (json \<Rightarrow> string option) \<Rightarrow> (string, string) bmap \<Rightarrow> engine selector" where
  "engine_selector sha ser compact resolutions a i cs en = Some (engine_select sha ser compact en a i resolutions cs)"

definition canonical_state :: "document_state \<Rightarrow> document_state" where
  "canonical_state s = fold (\<lambda>k. modify_node k (\<lambda>n. n\<lparr>mn_deleted := True\<rparr>)) (ds_removed_choices s) s"

text \<open>Reading an optional id or name, \<^verbatim>\<open>unwrap_or(None)\<close>, and assigning through an index.\<close>

fun read_opt_str :: "json \<Rightarrow> string option" where
  "read_opt_str (JStr s) = Some s"
| "read_opt_str _ = None"

fun set_key :: "string \<Rightarrow> json \<Rightarrow> json \<Rightarrow> json option" where
  "set_key k v (JObj m) = Some (JObj (bt_insert k v m))"
| "set_key k v JNull = Some (JObj [(k, v)])"
| "set_key k v _ = None"

definition set_field :: "string \<Rightarrow> json \<Rightarrow> materialized_node \<Rightarrow> materialized_node option" where
  "set_field k v n = map_option (\<lambda>f. n\<lparr>mn_current_fields := f\<rparr>) (set_key k v (mn_current_fields n))"

definition rich_fields :: "materialized_node \<Rightarrow> materialized_node \<Rightarrow> materialized_node \<Rightarrow> bool" where
  "rich_fields b t d \<longleftrightarrow>
     list_all (\<lambda>n. is_object (json_index (mn_current_fields n) ''content'')) [b, t, d]"

fun merge_fields ::
    "'s selector \<Rightarrow> node_id \<Rightarrow> materialized_node \<Rightarrow> materialized_node \<Rightarrow> materialized_node \<Rightarrow> string list
      \<Rightarrow> materialized_node \<Rightarrow> conflict list \<Rightarrow> 's \<Rightarrow> (materialized_node \<times> conflict list \<times> 's) option" where
  "merge_fields sel k b t d [] n cs s = Some (n, cs, s)"
| "merge_fields sel k b t d (key # keys) n cs s =
     (if key = ''var_name'' \<or> key = ''varName'' then
        if mn_var_name n \<noteq> mn_var_name t then
          (case set_field ''var_name'' (opt_str (mn_var_name n)) n of
             None \<Rightarrow> None | Some n' \<Rightarrow> merge_fields sel k b t d keys n' cs s)
        else merge_fields sel k b t d keys n cs s
      else if key = ''label'' \<and> rich_fields b t d then merge_fields sel k b t d keys n cs s
      else
        (case sel \<lparr>at_id = k, at_node_type = mn_node_type t, at_field = key\<rparr>
            (triple (json_index (mn_current_fields b) key) (json_index (mn_current_fields t) key) (json_index (mn_current_fields d) key)) cs s of
           None \<Rightarrow> None
         | Some (v, cs', s') \<Rightarrow>
             if v \<noteq> JNull \<or> json_get (mn_current_fields n) key \<noteq> None then
               (case set_field key v n of None \<Rightarrow> None | Some n' \<Rightarrow> merge_fields sel k b t d keys n' cs' s')
             else merge_fields sel k b t d keys n cs' s'))"

definition field_keys :: "materialized_node \<Rightarrow> string list" where
  "field_keys n = (case mn_current_fields n of JObj m \<Rightarrow> map fst m | _ \<Rightarrow> [])"

definition merge_node ::
    "'s selector \<Rightarrow> node_id \<Rightarrow> materialized_node \<Rightarrow> materialized_node \<Rightarrow> materialized_node \<Rightarrow> conflict list \<Rightarrow> 's
      \<Rightarrow> (materialized_node \<times> conflict list \<times> 's) option" where
  "merge_node sel k b t d cs s =
     (let at = (\<lambda>field. \<lparr>at_id = k, at_node_type = mn_node_type t, at_field = field\<rparr>) in
      case sel (at ''$location'') (triple (location b) (location t) (location d)) cs s of
        None \<Rightarrow> None
      | Some (loc, cs1, s1) \<Rightarrow>
          (case sel (at ''var_name'') (triple (opt_str (mn_var_name b)) (opt_str (mn_var_name t)) (opt_str (mn_var_name d))) cs1 s1 of
             None \<Rightarrow> None
           | Some (name, cs2, s2) \<Rightarrow>
               (let n = t\<lparr>mn_parent_id := read_opt_str (json_index loc ''parent_id''),
                          mn_pos := (case as_str (json_index loc ''pos'') of Some p \<Rightarrow> p | None \<Rightarrow> mn_pos t),
                          mn_var_name := read_opt_str name\<rparr>;
                    keys = fold bs_insert (field_keys b @ field_keys d) []
                in case merge_fields sel k b t d keys n cs2 s2 of
                     None \<Rightarrow> None
                   | Some (n', cs3, s3) \<Rightarrow>
                       if rich_fields b t d then
                         map_option (\<lambda>n''. (n'', cs3, s3))
                           (set_field ''label'' (JStr (plain_text (json_index (mn_current_fields n') ''content''))) n')
                       else Some (n', cs3, s3))))"

definition merge_entry ::
    "(json \<Rightarrow> materialized_node option) \<Rightarrow> 's selector \<Rightarrow> document_state \<Rightarrow> document_state \<Rightarrow> node_id \<times> materialized_node
      \<Rightarrow> document_state \<times> conflict list \<times> 's \<Rightarrow> (document_state \<times> conflict list \<times> 's) option" where
  "merge_entry read_node sel base team e st =
     (case (e, st) of ((k, d), (out, cs, s)) \<Rightarrow>
        if node_at base k = Some d then Some (out, cs, s)
        else
          (case (node_at base k, node_at team k) of
             (Some b, Some t) \<Rightarrow>
               if mn_deleted b \<noteq> mn_deleted d \<or> mn_deleted t \<noteq> mn_deleted b then
                 map_option (\<lambda>(picked, cs', s').
                     (case read_node picked of Some n \<Rightarrow> out\<lparr>ds_nodes := bt_insert k n (ds_nodes out)\<rparr> | None \<Rightarrow> out, cs', s'))
                   (sel \<lparr>at_id = k, at_node_type = mn_node_type d, at_field = ''$node''\<rparr>
                     (triple (node_value (Some b)) (node_value (Some t)) (node_value (Some d))) cs s)
               else
                 map_option (\<lambda>(n, cs', s'). (out\<lparr>ds_nodes := bt_insert k n (ds_nodes out)\<rparr>, cs', s')) (merge_node sel k b t d cs s)
           | (b, t) \<Rightarrow>
               map_option (\<lambda>(picked, cs', s').
                   (case read_node picked of Some n \<Rightarrow> out\<lparr>ds_nodes := bt_insert k n (ds_nodes out)\<rparr> | None \<Rightarrow> out, cs', s'))
                 (sel \<lparr>at_id = k, at_node_type = mn_node_type d, at_field = ''$node''\<rparr>
                   (triple (node_value b) (node_value t) (node_value (Some d))) cs s)))"

fun merge_walk ::
    "(json \<Rightarrow> materialized_node option) \<Rightarrow> 's selector \<Rightarrow> document_state \<Rightarrow> document_state \<Rightarrow> (node_id \<times> materialized_node) list
      \<Rightarrow> document_state \<times> conflict list \<times> 's \<Rightarrow> (document_state \<times> conflict list \<times> 's) option" where
  "merge_walk read_node sel base team [] st = Some st"
| "merge_walk read_node sel base team (e # es) st =
     (case merge_entry read_node sel base team e st of
        None \<Rightarrow> None
      | Some st' \<Rightarrow> merge_walk read_node sel base team es st')"

record merge_plan =
  pn_state :: document_state
  pn_conflicts :: "conflict list"
  pn_ops :: "event_payload list"

text \<open>\<^verbatim>\<open>merge_with\<close> with \<^verbatim>\<open>build_event_plan\<close> and \<^verbatim>\<open>group_inserts\<close> false.\<close>

definition merge_states ::
    "(json \<Rightarrow> materialized_node option) \<Rightarrow> 's selector \<Rightarrow> (string, string) bmap \<Rightarrow> document_state \<Rightarrow> document_state \<Rightarrow> document_state \<Rightarrow> 's
      \<Rightarrow> (merge_plan \<times> 's) option" where
  "merge_states read_node sel resolutions base0 team0 draft0 s0 =
     (let base = canonical_state base0; team = canonical_state team0; draft = canonical_state draft0 in
      case merge_walk read_node sel base team (ds_nodes draft) (team, [], s0) of
        None \<Rightarrow> None
      | Some (out, cs, s) \<Rightarrow>
          (let out1 = out\<lparr>ds_removed_choices := filter (\<lambda>k. case node_at out k of Some n \<Rightarrow> mn_deleted n | None \<Rightarrow> False)
                             (ds_removed_choices out)\<rparr>
           in map_option (\<lambda>(out2, cs2). (\<lparr>pn_state = out2, pn_conflicts = cs2, pn_ops = []\<rparr>, s))
                (validate_merged_tree \<lparr>sd_base = base, sd_team = team, sd_draft = draft\<rparr> resolutions out1 cs)))"

definition merge_for_signed_v1 ::
    "differ \<Rightarrow> scalar_writer \<Rightarrow> (json \<Rightarrow> materialized_node option) \<Rightarrow> (string, string) bmap
      \<Rightarrow> document_state \<Rightarrow> document_state \<Rightarrow> document_state \<Rightarrow> merge_plan option" where
  "merge_for_signed_v1 myers ser read_node resolutions base team draft =
     map_option fst (merge_states read_node (direct_selector myers ser resolutions) resolutions base team draft ())"

section \<open>Nodes stay under their ids\<close>

lemma set_field_id: "set_field key v n = Some n' \<Longrightarrow> mn_id n' = mn_id n"
  by (auto simp: set_field_def)

lemma merge_fields_id: "merge_fields sel k b t d keys n cs s = Some (n', cs', s') \<Longrightarrow> mn_id n' = mn_id n"
  by (induction keys arbitrary: n cs s) (auto dest!: set_field_id split: if_splits option.splits prod.splits)

lemma merge_node_id: "merge_node sel k b t d cs s = Some (n, cs', s') \<Longrightarrow> mn_id n = mn_id t"
  by (auto simp: merge_node_def Let_def dest!: merge_fields_id set_field_id split: if_splits option.splits prod.splits)

definition keyed_state :: "document_state \<Rightarrow> bool" where
  "keyed_state s \<longleftrightarrow> bt_ok (ds_nodes s) \<and> (\<forall>k n. node_at s k = Some n \<longrightarrow> mn_id n = k)"

lemma keyed_insert:
  "keyed_state s \<Longrightarrow> mn_id n = k \<Longrightarrow> keyed_state (s\<lparr>ds_nodes := bt_insert k n (ds_nodes s)\<rparr>)"
  by (auto simp: keyed_state_def node_at_def)

text \<open>What a derived decoder gives back: a serialized node, and nothing for null.\<close>

definition reads_nodes :: "(json \<Rightarrow> materialized_node option) \<Rightarrow> bool" where
  "reads_nodes read_node \<longleftrightarrow> (\<forall>n. read_node (node_json n) = Some n) \<and> read_node JNull = None"

lemma reads_node_value: "reads_nodes read_node \<Longrightarrow> read_node (node_value n) = n"
  by (cases n) (simp_all add: reads_nodes_def node_value_def)

locale side_picker =
  fixes sel :: "'s selector"
  assumes picks: "sel a i cs s = Some (v, cs', s') \<Longrightarrow> at_field a = ''$node'' \<Longrightarrow> v = in_team i \<or> v = in_draft i"
begin

lemma merge_entry_keyed:
  assumes "reads_nodes read_node" and "keyed_state team" and "keyed_state out" and "mn_id d = k"
    and "merge_entry read_node sel base team (k, d) (out, cs, s) = Some (out', cs', s')"
  shows "keyed_state out' \<and> ds_removed_choices out' = ds_removed_choices out"
proof -
  let ?whole = "\<lambda>b t. \<exists>picked cs1 s1. sel \<lparr>at_id = k, at_node_type = mn_node_type d, at_field = ''$node''\<rparr>
      (triple (node_value b) (node_value t) (node_value (Some d))) cs s = Some (picked, cs1, s1)
      \<and> out' = (case read_node picked of Some n \<Rightarrow> out\<lparr>ds_nodes := bt_insert k n (ds_nodes out)\<rparr> | None \<Rightarrow> out)"
  consider "out' = out" | "?whole (node_at base k) (node_at team k)"
    | b t n cs1 s1 where "node_at team k = Some t" "merge_node sel k b t d cs s = Some (n, cs1, s1)"
        "out' = out\<lparr>ds_nodes := bt_insert k n (ds_nodes out)\<rparr>"
    using assms(5) by (fastforce simp: merge_entry_def split: if_splits option.splits)
  then show ?thesis
  proof cases
    case 1
    with assms(3) show ?thesis by simp
  next
    case 2
    then obtain picked cs1 s1 where p: "sel \<lparr>at_id = k, at_node_type = mn_node_type d, at_field = ''$node''\<rparr>
        (triple (node_value (node_at base k)) (node_value (node_at team k)) (node_value (Some d))) cs s = Some (picked, cs1, s1)"
      and out': "out' = (case read_node picked of Some n \<Rightarrow> out\<lparr>ds_nodes := bt_insert k n (ds_nodes out)\<rparr> | None \<Rightarrow> out)" by blast
    from picks [OF p] have "read_node picked = node_at team k \<or> read_node picked = Some d"
      using reads_node_value [OF assms(1)] by auto
    then have "\<forall>n. read_node picked = Some n \<longrightarrow> mn_id n = k" using assms(2,4) by (auto simp: keyed_state_def)
    then show ?thesis using out' keyed_insert [OF assms(3)] assms(3) by (auto split: option.splits)
  next
    case 3
    then have "mn_id n = k" using merge_node_id [OF 3(2)] assms(2) unfolding keyed_state_def by metis
    from keyed_insert [OF assms(3) this] 3(3) show ?thesis by simp
  qed
qed

lemma merge_walk_keyed:
  assumes "reads_nodes read_node" and "keyed_state team" and "\<forall>(k, d) \<in> set es. mn_id d = k" and "keyed_state out"
    and "merge_walk read_node sel base team es (out, cs, s) = Some (out', cs', s')"
  shows "keyed_state out' \<and> ds_removed_choices out' = ds_removed_choices out"
  using assms(3-5)
proof (induction es arbitrary: out cs s)
  case (Cons e es)
  obtain k d where e: "e = (k, d)" by fastforce
  from Cons.prems(3) obtain out1 cs1 s1 where step: "merge_entry read_node sel base team (k, d) (out, cs, s) = Some (out1, cs1, s1)"
      and rest: "merge_walk read_node sel base team es (out1, cs1, s1) = Some (out', cs', s')"
    unfolding e by (auto split: option.splits)
  have "keyed_state out1 \<and> ds_removed_choices out1 = ds_removed_choices out"
    using merge_entry_keyed [OF assms(1,2) Cons.prems(2) _ step] Cons.prems(1) e by simp
  with Cons.IH [OF _ _ rest] Cons.prems(1) show ?case by simp
qed simp

end

lemma select_node:
  "select myers ser k ''$node'' b t d resolutions cs = Some (v, cs') \<Longrightarrow> v = t \<or> v = d"
  by (auto simp: select_def select_resolution_def Let_def split: if_splits option.splits)

interpretation direct: side_picker "direct_selector myers ser resolutions" for myers ser resolutions
  by unfold_locales (auto simp: direct_selector_def dest: select_node)

abbreviation tombs :: "node_id list \<Rightarrow> document_state \<Rightarrow> document_state" where
  "tombs ks s \<equiv> fold (\<lambda>k. modify_node k (\<lambda>n. n\<lparr>mn_deleted := True\<rparr>)) ks s"

lemma tombs_parts:
  "node_at (tombs ks s) j = map_option (\<lambda>n. if j \<in> set ks then n\<lparr>mn_deleted := True\<rparr> else n) (node_at s j)"
  "ds_removed_choices (tombs ks s) = ds_removed_choices s" "bt_ok (ds_nodes (tombs ks s)) = bt_ok (ds_nodes s)"
  by (induction ks arbitrary: s) (auto simp: node_at_modify option.map_comp comp_def option.map_ident intro!: option.map_cong)

lemma canonical_node: "node_at (canonical_state s) k = map_option (\<lambda>n. if k \<in> set (ds_removed_choices s) then n\<lparr>mn_deleted := True\<rparr> else n) (node_at s k)"
  by (simp add: canonical_state_def tombs_parts)

lemma canonical_tidy:
  assumes "keyed_state s"
  shows "tidy (canonical_state s)"
  unfolding tidy_def canonical_node
proof (intro conjI allI impI)
  show "bt_ok (ds_nodes (canonical_state s))" using assms by (simp add: canonical_state_def tombs_parts keyed_state_def)
  fix k n
  assume "map_option (\<lambda>n. if k \<in> set (ds_removed_choices s) then n\<lparr>mn_deleted := True\<rparr> else n) (node_at s k) = Some n"
  then obtain m where m: "node_at s k = Some m" "n = (if k \<in> set (ds_removed_choices s) then m\<lparr>mn_deleted := True\<rparr> else m)" by auto
  with assms have "mn_id m = k" unfolding keyed_state_def by blast
  with m show "mn_id n = k" and "k \<in> set (ds_removed_choices (canonical_state s)) \<Longrightarrow> mn_deleted n"
    by (simp_all add: canonical_state_def tombs_parts)
qed

lemma tidy_keyed: "tidy s \<Longrightarrow> keyed_state s"
  by (simp add: tidy_def keyed_state_def)

section \<open>The merge returns\<close>

definition fields_objects :: "document_state \<Rightarrow> bool" where
  "fields_objects s \<longleftrightarrow> (\<forall>k n. node_at s k = Some n \<longrightarrow> is_object (mn_current_fields n))"

lemma set_field_object:
  "is_object (mn_current_fields n) \<Longrightarrow> \<exists>n'. set_field key v n = Some n' \<and> is_object (mn_current_fields n')"
  by (cases "mn_current_fields n") (auto simp: set_field_def)

lemma merge_fields_returns:
  assumes "\<And>a i cs s. sel a i cs s \<noteq> None" and "is_object (mn_current_fields n)"
  shows "\<exists>n' cs' s'. merge_fields sel k b t d keys n cs s = Some (n', cs', s') \<and> is_object (mn_current_fields n')"
  using assms(2)
proof (induction keys arbitrary: n cs s)
  case (Cons key keys)
  obtain n1 where n1: "set_field ''var_name'' (opt_str (mn_var_name n)) n = Some n1" "is_object (mn_current_fields n1)"
    using set_field_object [OF Cons.prems] by blast
  obtain v cs2 s2 where v: "sel \<lparr>at_id = k, at_node_type = mn_node_type t, at_field = key\<rparr>
      (triple (json_index (mn_current_fields b) key) (json_index (mn_current_fields t) key) (json_index (mn_current_fields d) key)) cs s
      = Some (v, cs2, s2)" using assms(1) by (metis not_Some_eq prod_cases3)
  obtain n2 where n2: "set_field key v n = Some n2" "is_object (mn_current_fields n2)" using set_field_object [OF Cons.prems] by blast
  show ?case using Cons.IH [OF n1(2), of cs s] Cons.IH [OF n2(2), of cs2 s2] Cons.IH [OF Cons.prems, of cs s] Cons.IH [OF Cons.prems, of cs2 s2]
    by (simp add: n1(1) v n2(1))
qed simp

lemma merge_node_returns:
  assumes "\<And>a i cs s. sel a i cs s \<noteq> None" and "is_object (mn_current_fields t)"
  shows "merge_node sel k b t d cs s \<noteq> None"
proof -
  have sel: "\<exists>v cs' s'. sel a i cs s = Some (v, cs', s')" for a i cs s using assms(1) by (metis not_Some_eq prod_cases3)
  obtain loc cs1 s1 where l: "sel \<lparr>at_id = k, at_node_type = mn_node_type t, at_field = ''$location''\<rparr>
      (triple (location b) (location t) (location d)) cs s = Some (loc, cs1, s1)" using sel by blast
  obtain name cs2 s2 where m: "sel \<lparr>at_id = k, at_node_type = mn_node_type t, at_field = ''var_name''\<rparr>
      (triple (opt_str (mn_var_name b)) (opt_str (mn_var_name t)) (opt_str (mn_var_name d))) cs1 s1 = Some (name, cs2, s2)" using sel by blast
  let ?n = "t\<lparr>mn_parent_id := read_opt_str (json_index loc ''parent_id''),
      mn_pos := (case as_str (json_index loc ''pos'') of Some p \<Rightarrow> p | None \<Rightarrow> mn_pos t), mn_var_name := read_opt_str name\<rparr>"
  obtain n' cs3 s3 where f: "merge_fields sel k b t d (fold bs_insert (field_keys b @ field_keys d) []) ?n cs2 s2 = Some (n', cs3, s3)"
      "is_object (mn_current_fields n')"
    using merge_fields_returns [of sel ?n, OF assms(1)] assms(2) by force
  show ?thesis unfolding merge_node_def Let_def l m option.case prod.case f(1)
    using set_field_object [OF f(2)] by auto
qed

lemma merge_walk_returns:
  assumes "\<And>a i cs s. sel a i cs s \<noteq> None" and "fields_objects team"
  shows "merge_walk read_node sel base team es st \<noteq> None"
proof (induction es arbitrary: st)
  case (Cons e es)
  obtain k d out cs s where es: "e = (k, d)" "st = (out, cs, s)" by (metis prod_cases3 surj_pair)
  have node: "merge_node sel k b t d cs s \<noteq> None" if "node_at team k = Some t" for b t
    using that assms(2) unfolding fields_objects_def by (intro merge_node_returns [of sel, OF assms(1)]) blast
  have "merge_entry read_node sel base team e st \<noteq> None"
    unfolding es merge_entry_def by (simp add: assms(1) node del: not_None_eq split: option.split)
  with Cons show ?case by (auto split: option.splits)
qed simp

lemma direct_returns: "differ_ok myers \<Longrightarrow> direct_selector myers ser resolutions a i cs s \<noteq> None"
proof -
  assume "differ_ok myers"
  then obtain m where "merge myers ser (in_base i) (in_team i) (in_draft i) = Some m" using merge_total by blast
  then show ?thesis by (cases m) (simp_all add: direct_selector_def select_def del: not_None_eq split: sum.split option.split)
qed

lemma signed_merge_ok:
  assumes "differ_ok myers" and "reads_nodes read_node" and "keyed_state team0" and "fields_objects team0" and "keyed_state draft0"
  shows "\<exists>plan. merge_for_signed_v1 myers ser read_node resolutions base0 team0 draft0 = Some plan \<and> tidy (pn_state plan)
    \<and> (pn_conflicts plan = [] \<longrightarrow> structurally_sound (pn_state plan))"
proof -
  let ?base = "canonical_state base0" and ?team = "canonical_state team0" and ?draft = "canonical_state draft0"
  let ?sel = "direct_selector myers ser resolutions"
  have tidy: "tidy ?team" "tidy ?draft" using assms(3,5) canonical_tidy by blast+
  have "fields_objects ?team" using assms(4) by (auto simp: fields_objects_def canonical_node)
  then obtain out cs u where w: "merge_walk read_node ?sel ?base ?team (ds_nodes ?draft) (?team, [], ()) = Some (out, cs, u)"
    using merge_walk_returns [of ?sel, OF direct_returns [OF assms(1)]] by (metis not_Some_eq prod_cases3)
  have ids: "\<forall>(k, d) \<in> set (ds_nodes ?draft). mn_id d = k"
    using tidy(2) by (auto simp: tidy_def node_at_def bt_get_iff_mem)
  let ?out = "out\<lparr>ds_removed_choices := filter (\<lambda>k. case node_at out k of Some n \<Rightarrow> mn_deleted n | None \<Rightarrow> False) (ds_removed_choices out)\<rparr>"
  have "keyed_state out" using direct.merge_walk_keyed [OF assms(2) tidy_keyed [OF tidy(1)] ids tidy_keyed [OF tidy(1)] w] by simp
  then have out: "tidy ?out" unfolding tidy_def keyed_state_def node_at_def by (auto split: option.splits)
  let ?sd = "\<lparr>sd_base = ?base, sd_team = ?team, sd_draft = ?draft\<rparr>"
  obtain out2 cs2 where v: "validate_merged_tree ?sd resolutions ?out cs = Some (out2, cs2)" "tidy out2" "cs2 = [] \<longrightarrow> no_defect ?team out2"
    using repair_loop_ok [of ?sd ?out] tidy out unfolding validate_merged_tree_def by fastforce
  then have "merge_for_signed_v1 myers ser read_node resolutions base0 team0 draft0
      = Some \<lparr>pn_state = out2, pn_conflicts = cs2, pn_ops = []\<rparr>"
    by (simp add: merge_for_signed_v1_def merge_states_def Let_def w)
  with v no_defect_sound show ?thesis by auto
qed

section \<open>Selectors that choose alike\<close>

definition alike :: "('s \<Rightarrow> 't \<Rightarrow> bool) \<Rightarrow> ('a \<times> 'b \<times> 's) option \<Rightarrow> ('a \<times> 'b \<times> 't) option \<Rightarrow> bool" where
  "alike R x y \<longleftrightarrow> (case (x, y) of (None, None) \<Rightarrow> True
     | (Some (v, cs, s), Some (w, ds, t)) \<Rightarrow> v = w \<and> cs = ds \<and> R s t | _ \<Rightarrow> False)"

lemma alike_cases [consumes 1]:
  assumes "alike R x y"
  obtains "x = None" "y = None" | v cs s t where "x = Some (v, cs, s)" "y = Some (v, cs, t)" "R s t"
  using assms by (auto simp: alike_def split: option.splits)

lemma alike_simps [simp]: "alike R None None" "alike R (Some (v, cs, s)) (Some (w, ds, t)) \<longleftrightarrow> v = w \<and> cs = ds \<and> R s t"
  by (simp_all add: alike_def)

lemma alike_map: "R s t \<Longrightarrow> alike R (map_option (\<lambda>x. (f x, cs, s)) y) (map_option (\<lambda>x. (f x, cs, t)) y)"
  by (cases y) auto

lemma merge_fields_alike:
  assumes "\<And>a i cs s t. R s t \<Longrightarrow> alike R (sel a i cs s) (sel' a i cs t)" and "R s t"
  shows "alike R (merge_fields sel k b tm d keys n cs s) (merge_fields sel' k b tm d keys n cs t)"
  using assms(2)
proof (induction keys arbitrary: n cs s t)
  case (Cons key keys)
  show ?case using assms(1) [OF Cons.prems, of "\<lparr>at_id = k, at_node_type = mn_node_type tm, at_field = key\<rparr>"
      "triple (json_index (mn_current_fields b) key) (json_index (mn_current_fields tm) key) (json_index (mn_current_fields d) key)" cs]
    by (cases rule: alike_cases) (auto simp: Cons split: option.split)
qed simp

lemma merge_node_alike:
  assumes "\<And>a i cs s t. R s t \<Longrightarrow> alike R (sel a i cs s) (sel' a i cs t)" and "R s t"
  shows "alike R (merge_node sel k b tm d cs s) (merge_node sel' k b tm d cs t)"
proof -
  show ?thesis using assms(1) [OF assms(2), of "\<lparr>at_id = k, at_node_type = mn_node_type tm, at_field = ''$location''\<rparr>"
      "triple (location b) (location tm) (location d)" cs]
  proof (cases rule: alike_cases)
    case l: (2 loc cs1 s1 t1)
    show ?thesis using assms(1) [OF l(3), of "\<lparr>at_id = k, at_node_type = mn_node_type tm, at_field = ''var_name''\<rparr>"
        "triple (opt_str (mn_var_name b)) (opt_str (mn_var_name tm)) (opt_str (mn_var_name d))" cs1]
    proof (cases rule: alike_cases)
      case m: (2 name cs2 s2 t2)
      let ?n = "tm\<lparr>mn_parent_id := read_opt_str (json_index loc ''parent_id''),
          mn_pos := (case as_str (json_index loc ''pos'') of Some p \<Rightarrow> p | None \<Rightarrow> mn_pos tm), mn_var_name := read_opt_str name\<rparr>"
      let ?keys = "fold bs_insert (field_keys b @ field_keys d) []"
      show ?thesis using merge_fields_alike [of R sel sel', OF assms(1) m(3), of k b tm d ?keys ?n cs2]
        unfolding merge_node_def Let_def l(1,2) m(1,2) option.case prod.case
        by (cases rule: alike_cases) (auto simp: alike_map)
    qed (simp add: merge_node_def l)
  qed (simp add: merge_node_def)
qed

definition whole_choice :: "document_state \<Rightarrow> document_state \<Rightarrow> node_id \<Rightarrow> materialized_node \<Rightarrow> bool" where
  "whole_choice base team k d \<longleftrightarrow> node_at base k = None \<or> node_at team k = None
     \<or> mn_deleted (the (node_at base k)) \<noteq> mn_deleted d \<or> mn_deleted (the (node_at team k)) \<noteq> mn_deleted (the (node_at base k))"

lemma merge_entry_whole:
  assumes "whole_choice base team k d" and "node_at base k \<noteq> Some d"
  shows "merge_entry read_node sel base team (k, d) (out, cs, s) =
    map_option (\<lambda>(picked, cs', s').
        (case read_node picked of Some n \<Rightarrow> out\<lparr>ds_nodes := bt_insert k n (ds_nodes out)\<rparr> | None \<Rightarrow> out, cs', s'))
      (sel \<lparr>at_id = k, at_node_type = mn_node_type d, at_field = ''$node''\<rparr>
        (triple (node_value (node_at base k)) (node_value (node_at team k)) (node_value (Some d))) cs s)"
  using assms by (cases "node_at base k"; cases "node_at team k") (auto simp: merge_entry_def whole_choice_def)

lemma merge_entry_fields:
  assumes "\<not> whole_choice base team k d" and "node_at base k \<noteq> Some d"
  shows "merge_entry read_node sel base team (k, d) (out, cs, s) =
    map_option (\<lambda>(n, cs', s'). (out\<lparr>ds_nodes := bt_insert k n (ds_nodes out)\<rparr>, cs', s'))
      (merge_node sel k (the (node_at base k)) (the (node_at team k)) d cs s)"
  using assms by (cases "node_at base k"; cases "node_at team k") (auto simp: merge_entry_def whole_choice_def)

lemma alike_map_fst:
  assumes "alike R x y"
  shows "alike R (map_option (\<lambda>(v, cs, s). (f v, cs, s)) x) (map_option (\<lambda>(v, cs, s). (f v, cs, s)) y)"
  using assms by (cases rule: alike_cases) auto

lemma merge_entry_alike:
  assumes "\<And>a i cs s t. R s t \<Longrightarrow> alike R (sel a i cs s) (sel' a i cs t)" and "R s t"
  shows "alike R (merge_entry read_node sel base team (k, d) (out, cs, s)) (merge_entry read_node sel' base team (k, d) (out, cs, t))"
proof (cases "node_at base k = Some d")
  case True
  with assms(2) show ?thesis by (simp add: merge_entry_def)
next
  case False
  show ?thesis
  proof (cases "whole_choice base team k d")
    case True
    show ?thesis unfolding merge_entry_whole [OF True False] by (intro alike_map_fst assms)
  next
    case fields: False
    show ?thesis unfolding merge_entry_fields [OF fields False] by (intro alike_map_fst merge_node_alike [of R sel sel'] assms)
  qed
qed

lemma merge_walk_alike:
  assumes "\<And>a i cs s t. R s t \<Longrightarrow> alike R (sel a i cs s) (sel' a i cs t)" and "R s t"
  shows "alike R (merge_walk read_node sel base team es (out, cs, s)) (merge_walk read_node sel' base team es (out, cs, t))"
  using assms(2)
proof (induction es arbitrary: out cs s t)
  case (Cons e es)
  obtain k d where e: "e = (k, d)" by fastforce
  show ?case using merge_entry_alike [of R sel sel', OF assms(1) Cons.prems, of read_node base team k d out cs]
    by (cases rule: alike_cases) (auto simp: e Cons.IH)
qed simp

lemma merge_states_alike:
  assumes "\<And>a i cs s t. R s t \<Longrightarrow> alike R (sel a i cs s) (sel' a i cs t)" and "R s t"
  shows "map_option fst (merge_states read_node sel resolutions base team draft s)
    = map_option fst (merge_states read_node sel' resolutions base team draft t)"
  using merge_walk_alike [of R sel sel', OF assms, of read_node "canonical_state base" "canonical_state team"
      "ds_nodes (canonical_state draft)" "canonical_state team" "[]"]
  by (cases rule: alike_cases) (auto simp: merge_states_def Let_def option.map_comp comp_def case_prod_unfold)

lemma engine_alike:
  assumes "differ_ok myers"
  shows "en_policy en = default_policy \<and> en_registry en = builtin_registry myers ser compact \<Longrightarrow>
    alike (\<lambda>u en. en_policy en = default_policy \<and> en_registry en = builtin_registry myers ser compact)
      (direct_selector myers ser resolutions a i cs u) (engine_selector sha ser compact resolutions a i cs en)"
proof -
  assume en: "en_policy en = default_policy \<and> en_registry en = builtin_registry myers ser compact"
  then obtain v ds en' where "engine_select sha ser compact en a i resolutions cs = (v, ds, en')"
      "select myers ser (at_id a) (at_field a) (in_base i) (in_team i) (in_draft i) resolutions cs = Some (v, ds)"
      "en_policy en' = default_policy" "en_registry en' = builtin_registry myers ser compact"
    by (metis default_is_direct [OF assms])
  then show ?thesis by (simp add: direct_selector_def engine_selector_def)
qed

end
