(* ===== verification/Merge_Invariants.thy ===== *)
theory Merge_Invariants
  imports Workspace_Merge Integrity "HOL-Library.Product_Lexorder"
begin

text \<open>
  The post-merge checks INV-G1 to INV-G8 (\<^verbatim>\<open>crates/engine-core/src/merge_policy/invariants.rs\<close>), the evidence record
  (\<^verbatim>\<open>evidence.rs\<close>) and the merge under a policy (\<^verbatim>\<open>merge_for_signed_v1_with_registry\<close> of \<^verbatim>\<open>workspace_merge.rs\<close>). A violation is the
  tuple of its invariant, subject, detail and participants, ordered as the derived order of the struct; the set of violations is
  the sorted list without repeats. \<open>show_violation\<close> is \<^verbatim>\<open>serde_json::to_string\<close> of an integrity violation.
\<close>

section \<open>The checks\<close>

type_synonym violation = "string \<times> string \<times> string \<times> node_id list"

text \<open>A cycle is written from its smallest id.\<close>

definition from_smallest :: "node_id list \<Rightarrow> node_id list" where
  "from_smallest cycle = rotate (length (takeWhile (\<lambda>k. k \<noteq> Min (set cycle)) cycle)) cycle"

definition cycle_violations :: "document_state \<Rightarrow> violation list" where
  "cycle_violations s =
     (case find_parent_cycle s of
        None \<Rightarrow> []
      | Some cycle \<Rightarrow>
          (let c = from_smallest cycle in [(''INV-G1'', hd c, ''parent cycle '' @ join '' > '' c, c)]))"

definition containment_violations :: "document_state \<Rightarrow> materialized_node \<Rightarrow> violation list" where
  "containment_violations s n =
     (case mn_parent_id n of
        None \<Rightarrow>
          (case parse_node_type (mn_node_type n) of
             Some t \<Rightarrow>
               if is_root_type t then []
               else [(''INV-G2'', mn_id n, ''`'' @ mn_node_type n @ ''` cannot be a document root'', [mn_id n])]
           | None \<Rightarrow> [])
      | Some parent \<Rightarrow>
          (case node_at s parent of
             None \<Rightarrow> [(''INV-G3'', mn_id n, ''parent '' @ parent @ '' does not exist'', [parent])]
           | Some p \<Rightarrow>
               if mn_deleted p then [(''INV-G3'', mn_id n, ''parent '' @ parent @ '' is deleted'', [parent])]
               else
                 (case (parse_node_type (mn_node_type p), parse_node_type (mn_node_type n)) of
                    (Some pt, Some ct) \<Rightarrow>
                      if can_contain pt ct then []
                      else [(''INV-G2'', mn_id n, ''`'' @ mn_node_type p @ ''` cannot contain `'' @ mn_node_type n @ ''`'', [mn_id n])]
                  | _ \<Rightarrow> [])))"

definition field_violations :: "materialized_node \<Rightarrow> violation list" where
  "field_violations n =
     (let content = json_index (mn_current_fields n) ''content'';
          flag = json_index (mn_current_fields n) ''sheet_protected''
      in (if is_object content \<and> json_index (mn_current_fields n) ''label'' \<noteq> JStr (plain_text content)
          then [(''INV-G6'', mn_id n, ''label differs from the plain text of content'', [mn_id n])] else [])
         @ (if flag = JNull
              \<or> is_boolean flag \<and> mn_node_type n = ''section'' \<and> json_index (mn_current_fields n) ''kind'' = JStr ''sheet''
            then [] else [(''INV-G8'', mn_id n, ''sheet_protected must be a boolean on a worksheet section'', [mn_id n])]))"

definition shared_name_violations :: "document_state \<Rightarrow> violation list" where
  "shared_name_violations s =
     concat (map (\<lambda>(name, ns). if 1 < length ns
         then [(''INV-G4'', name, ''variable name `'' @ name @ ''` is held by '' @ join '', '' (map mn_id ns), map mn_id ns)] else [])
       (name_index (map snd (ds_nodes s)) []))"

fun integrity_nodes :: "integrity_violation \<Rightarrow> node_id list option" where
  "integrity_nodes (DanglingReference k _ _) = Some [k]"
| "integrity_nodes (InvalidExpression k _ _) = Some [k]"
| "integrity_nodes (TypeMismatch k _ _ _ _) = Some [k]"
| "integrity_nodes (UndefinedChoice k _ _ _) = Some [k]"
| "integrity_nodes (RelevanceCycle cycle) = Some cycle"
| "integrity_nodes (IV_DuplicateVarName _ _) = None"
| "integrity_nodes (InvalidOperation _) = None"

definition reference_violations ::
    "(string \<Rightarrow> 64 word option) \<Rightarrow> (integrity_violation \<Rightarrow> string) \<Rightarrow> document_state \<Rightarrow> violation list" where
  "reference_violations f64 show_violation s =
     List.map_filter (\<lambda>v. map_option (\<lambda>ks. (''INV-G5'', (case ks of [] \<Rightarrow> [] | k # _ \<Rightarrow> k), show_violation v, ks)) (integrity_nodes v))
       (validate_integrity f64 s)"

definition target_violations :: "document_state \<Rightarrow> violation list" where
  "target_violations s =
     List.map_filter (\<lambda>c. case cs_node_id c of
         Some t \<Rightarrow> if node_at s t = None
           then Some (''INV-G7'', t, ''comment '' @ [CHR 0x22] @ concat (take 40 (chars (cs_body c))) @ [CHR 0x22]
             @ '' targets a node that does not exist'', [t]) else None
       | None \<Rightarrow> None) (ds_comments s)
     @ List.map_filter (\<lambda>(sid, g). case sg_target_node_id g of
         Some t \<Rightarrow> if node_at s t = None
           then Some (''INV-G7'', t, ''suggestion '' @ sid @ '' targets a node that does not exist'', [t]) else None
       | None \<Rightarrow> None) (ds_suggestions s)"

definition check ::
    "(string \<Rightarrow> 64 word option) \<Rightarrow> (integrity_violation \<Rightarrow> string) \<Rightarrow> document_state \<Rightarrow> violation list" where
  "check f64 show_violation s =
     fold bs_insert
       (cycle_violations s
        @ concat (map (\<lambda>n. containment_violations s n @ field_violations n) (filter (\<lambda>n. \<not> mn_deleted n) (map snd (ds_nodes s))))
        @ shared_name_violations s @ reference_violations f64 show_violation s @ target_violations s) []"

definition introduced ::
    "(string \<Rightarrow> 64 word option) \<Rightarrow> (integrity_violation \<Rightarrow> string) \<Rightarrow> document_state \<Rightarrow> document_state \<Rightarrow> document_state
      \<Rightarrow> violation list \<times> nat" where
  "introduced f64 show_violation merged team draft =
     (let known = set (check f64 show_violation team) \<union> set (check f64 show_violation draft); vs = check f64 show_violation merged
      in (filter (\<lambda>v. v \<notin> known) vs, length (filter (\<lambda>v. v \<in> known) vs)))"

section \<open>Conflicts and evidence\<close>

definition reported_by :: "string \<Rightarrow> string list" where
  "reported_by law =
     (if law = ''INV-G1'' then [''$location''] else if law = ''INV-G3'' then [''$node'']
      else if law = ''INV-G4'' then [''var_name''] else [])"

definition invariant_conflict :: "violation \<Rightarrow> conflict" where
  "invariant_conflict v =
     (case v of (law, subject, detail, ks) \<Rightarrow>
        let k = (case ks of [] \<Rightarrow> subject | k # _ \<Rightarrow> k) in
        \<lparr>cf_key = k @ '':$invariant:'' @ law, cf_node_id = k, cf_field = ''$invariant'', cf_ancestor = JNull, cf_team = JNull,
         cf_draft = JObj [(''detail'', JStr detail), (''invariant'', JStr law), (''subject'', JStr subject)]\<rparr>)"

fun invariant_conflicts :: "conflict list \<Rightarrow> violation list \<Rightarrow> conflict list \<Rightarrow> conflict list" where
  "invariant_conflicts existing [] out = out"
| "invariant_conflicts existing (v # vs) out =
     (if list_ex (\<lambda>c. cf_field c \<in> set (reported_by (fst v)) \<and> cf_node_id c \<in> set (snd (snd (snd v)))) existing
      then invariant_conflicts existing vs out
      else if list_ex (\<lambda>c. cf_key c = cf_key (invariant_conflict v)) (out @ existing) then invariant_conflicts existing vs out
      else invariant_conflicts existing vs (out @ [invariant_conflict v]))"

record structural_conflict =
  sf_invariant :: string
  sf_key :: string
  sf_node :: node_id
  sf_field :: string

record invariant_report =
  ir_mode :: invariant_mode
  ir_introduced :: "violation list"
  ir_preexisting :: nat
  ir_conflicts :: "string list"

record merge_evidence =
  me_policy_id :: string
  me_policy_hash :: string
  me_family :: family
  me_decisions :: "decision list"
  me_shortcuts :: shortcuts
  me_structural :: "structural_conflict list"
  me_invariants :: invariant_report

definition engine_finish :: "hash_fun \<Rightarrow> scalar_writer \<Rightarrow> engine \<Rightarrow> merge_evidence" where
  "engine_finish sha ser en =
     \<lparr>me_policy_id = mp_id (en_policy en), me_policy_hash = hash_hex sha ser (en_policy en), me_family = en_family en,
      me_decisions = en_decisions en, me_shortcuts = en_shortcuts en, me_structural = [],
      me_invariants = \<lparr>ir_mode = de_invariants (mp_defaults (en_policy en)), ir_introduced = [], ir_preexisting = 0, ir_conflicts = []\<rparr>\<rparr>"

definition structural_of :: "decision list \<Rightarrow> conflict list \<Rightarrow> structural_conflict list" where
  "structural_of decisions cs =
     map (\<lambda>c. \<lparr>sf_invariant = (if cf_field c = ''$location'' then ''INV-G1'' else if cf_field c = ''$node'' then ''INV-G3''
                  else if cf_field c = ''var_name'' then ''INV-G4'' else ''tree-check''),
               sf_key = cf_key c, sf_node = cf_node_id c, sf_field = cf_field c\<rparr>)
       (filter (\<lambda>c. cf_key c \<notin> set (raised decisions)) cs)"

definition apply_invariants ::
    "(string \<Rightarrow> 64 word option) \<Rightarrow> (integrity_violation \<Rightarrow> string) \<Rightarrow> merge_plan \<Rightarrow> document_state \<Rightarrow> document_state \<Rightarrow> invariant_mode
      \<Rightarrow> merge_evidence \<Rightarrow> merge_plan \<times> merge_evidence" where
  "apply_invariants f64 show_violation plan team draft mode ev =
     (let (vs, preexisting) = introduced f64 show_violation (pn_state plan) team draft;
          added = (case mode of IM_Flag \<Rightarrow> [] | IM_Conflict \<Rightarrow> invariant_conflicts (pn_conflicts plan) vs [])
      in (plan\<lparr>pn_conflicts := pn_conflicts plan @ added\<rparr>,
          ev\<lparr>me_structural := structural_of (me_decisions ev) (pn_conflicts plan),
             me_invariants := \<lparr>ir_mode = mode, ir_introduced = vs, ir_preexisting = preexisting, ir_conflicts = map cf_key added\<rparr>\<rparr>))"

definition merge_for_signed_v1_with_registry ::
    "hash_fun \<Rightarrow> scalar_writer \<Rightarrow> (json \<Rightarrow> string option) \<Rightarrow> (string \<Rightarrow> 64 word option) \<Rightarrow> (integrity_violation \<Rightarrow> string)
      \<Rightarrow> (json \<Rightarrow> materialized_node option) \<Rightarrow> (string, string) bmap \<Rightarrow> merge_policy \<Rightarrow> registry
      \<Rightarrow> document_state \<Rightarrow> document_state \<Rightarrow> document_state \<Rightarrow> (merge_plan \<times> merge_evidence) option" where
  "merge_for_signed_v1_with_registry sha ser compact f64 show_violation read_node resolutions policy reg base team draft =
     map_option (\<lambda>(plan, en).
         apply_invariants f64 show_violation plan (canonical_state team) (canonical_state draft) (de_invariants (mp_defaults policy))
           (engine_finish sha ser en))
       (merge_states read_node (engine_selector sha ser compact resolutions) resolutions base team draft
         (engine_new policy reg (family_of [base, team, draft])))"

section \<open>What the checks guarantee\<close>

lemma set_fold_bs_insert: "set (fold bs_insert xs ys) = set xs \<union> set ys"
  by (induction xs arbitrary: ys) auto

lemma invariant_conflicts_nonempty: "out \<noteq> [] \<Longrightarrow> invariant_conflicts existing vs out \<noteq> []"
  by (induction existing vs out rule: invariant_conflicts.induct) auto

lemma invariant_conflicts_reports: "invariant_conflicts [] vs [] = [] \<longleftrightarrow> vs = []"
  by (cases vs) (auto simp: invariant_conflicts_nonempty)

lemma flag_keeps_plan: "fst (apply_invariants f64 show_violation plan team draft IM_Flag ev) = plan"
  by (simp add: apply_invariants_def Let_def case_prod_unfold)

lemma conflict_mode_exact:
  assumes "apply_invariants f64 show_violation plan team draft IM_Conflict ev = (plan', ev')" and "pn_conflicts plan' = []"
  shows "set (check f64 show_violation (pn_state plan')) \<subseteq> set (check f64 show_violation team) \<union> set (check f64 show_violation draft)"
proof -
  obtain vs preexisting where i: "introduced f64 show_violation (pn_state plan) team draft = (vs, preexisting)" by fastforce
  with assms have none: "pn_conflicts plan = []" "invariant_conflicts [] vs [] = []" and state: "pn_state plan' = pn_state plan"
    by (auto simp: apply_invariants_def Let_def)
  then have "vs = []" by (simp add: invariant_conflicts_reports)
  with i have "\<forall>v \<in> set (check f64 show_violation (pn_state plan)).
      v \<in> set (check f64 show_violation team) \<union> set (check f64 show_violation draft)"
    unfolding introduced_def Let_def by (simp add: filter_empty_conv)
  with state show ?thesis by auto
qed

lemma default_policy_plan:
  assumes "differ_ok myers" and "builtin myers ser compact = Inr reg"
  shows "map_option fst (merge_for_signed_v1_with_registry sha ser compact f64 show_violation read_node resolutions default_policy reg base team draft)
    = merge_for_signed_v1 myers ser read_node resolutions base team draft"
proof -
  have reg: "reg = builtin_registry myers ser compact" using assms(2) by (simp add: builtin_ok builtin_registry_def)
  let ?R = "\<lambda>(u::unit) en. en_policy en = default_policy \<and> en_registry en = builtin_registry myers ser compact"
  have mode: "de_invariants (mp_defaults default_policy) = IM_Flag" by (simp add: default_policy_def defaults_default_def)
  have "map_option fst (merge_states read_node (direct_selector myers ser resolutions) resolutions base team draft ())
      = map_option fst (merge_states read_node (engine_selector sha ser compact resolutions) resolutions base team draft
          (engine_new default_policy reg (family_of [base, team, draft])))"
    by (rule merge_states_alike [of ?R, OF engine_alike [OF assms(1)]]) (simp_all add: engine_new_def reg)
  then show ?thesis unfolding merge_for_signed_v1_def merge_for_signed_v1_with_registry_def mode
    by (simp add: option.map_comp comp_def case_prod_unfold flag_keeps_plan)
qed

end
