(* ===== verification/Merge_Properties.thy ===== *)
theory Merge_Properties
  imports Merge_Engine Sample
begin

text \<open>
  Properties of three-way merging: rich text, comments and suggestions, the built-in strategies, policies and the engine. Each is
  a few steps over the lemmas of \<^verbatim>\<open>RichText_Edits\<close>, \<^verbatim>\<open>Merge_Laws\<close>, \<^verbatim>\<open>Merge_Policy\<close> and \<^verbatim>\<open>Merge_Engine\<close>. The
  witnesses use a diff that replaces whatever the common prefix and suffix leave.
\<close>

section \<open>Sample values\<close>

definition sample_differ :: differ where
  "sample_differ a b = trimmed a b"

lemma sample_differ_ok: "differ_ok sample_differ"
  by (simp add: differ_ok_def sample_differ_def trimmed_script)

definition para :: "string \<Rightarrow> json" where
  "para s = JObj [(''content'', JArr [JObj [(''text'', JStr s), (''type'', JStr ''text'')]]), (''type'', JStr ''paragraph'')]"

section \<open>Rich text\<close>

lemma ok_Some:
  "(case r of Inl _ \<Rightarrow> None | Inr x \<Rightarrow> Some x) = Some y \<longleftrightarrow> r = Inr y"
  "(case q of Inl _ \<Rightarrow> None | Inr z \<Rightarrow> z) = Some w \<longleftrightarrow> q = Inr (Some w)"
  by (auto split: sum.splits)

text \<open>C14: The merge of two edited versions of an inline text applies both edits. The characters of a document are those of its texts,
  with one object character for every other child. Each side's characters are those of the base with that side's own edits; the edits of
  one side lie apart from the edits of the other, an insertion not even at the border of an edit; and the text of the result
  document is that of the base with the edits of both sides, in the order of their positions, which is the same whichever
  side is called the team.\<close>

theorem rich_text_merge_applies_both_edits:
  assumes "differ_ok myers" and "merge_inline myers ser base team draft = Some (Some v)"
  shows "\<exists>m. both_edits (doc_chars base) (doc_chars team) (doc_chars draft) m \<and> concat (doc_chars v) = concat m"
proof -
  obtain ob st1 ot st2 od st3 where i: "inline ser base styles_default True = (ob, st1)" "inline ser team st1 True = (ot, st2)"
      "inline ser draft st2 True = (od, st3)" by (meson surj_pair)
  obtain b t d bp tp dp result st out cs where s: "ob = Some b" "ot = Some t" "od = Some d"
      "props base = Some bp" "props team = Some tp" "props draft = Some dp" "merge_property (Some bp) (Some tp) (Some dp) = Inr (Some out)"
      "merge_scalars myers ser b t d st3 = Some (Some (result, st))"
      "children_of result (st_values st) True = Inr cs" "v = put_content out (JArr cs)"
    using assms(2) by (auto simp: merge_inline_def pbind_Some Let_def i ok_Some)
  have "both_edits (doc_chars base) (doc_chars team) (doc_chars draft) (map sc_ch result)"
    using merge_scalars_both [OF assms(1) s(8)] inline_ch i s(1-3) by metis
  moreover have "concat (doc_chars v) = concat (map sc_ch result)"
    using props_merge_object [OF s(4-7)] children_of_ch [OF s(9)] s(10) by (auto simp: is_object_iff doc_chars_def json_index_def)
  ultimately show ?thesis by blast
qed

lemma sample_merge: "merge_inline sample_differ sample_ser (para ''ab'') (para ''xab'') (para ''aby'') = Some (Some (para ''xaby''))"
  by code_simp

theorem rich_text_merge_applies_both_edits_witness:
  "\<exists>m. both_edits [''a'', ''b''] [''x'', ''a'', ''b''] [''a'', ''b'', ''y''] m \<and> concat m = ''xaby''"
proof -
  have "doc_chars (para ''ab'') = [''a'', ''b'']" "doc_chars (para ''xab'') = [''x'', ''a'', ''b'']"
    "doc_chars (para ''aby'') = [''a'', ''b'', ''y'']" "concat (doc_chars (para ''xaby'')) = ''xaby''" by code_simp+
  with rich_text_merge_applies_both_edits [OF sample_differ_ok sample_merge] show ?thesis by metis
qed

section \<open>Strategies\<close>

text \<open>C22: Every built-in strategy is total and neutral. Whatever the three inputs and the context, no strategy of the built-in registry
  panics; when the draft did not change, when both sides changed alike or when only the draft changed, each
  gives what the engine's shortcut gives, so the shortcut skips nothing. The registry itself is built without a duplicate id.\<close>

theorem builtin_strategies_are_lawful:
  assumes "differ_ok myers"
  shows "\<exists>reg. builtin myers ser compact = Inr reg \<and> (\<forall>s \<in> set reg. \<forall>i cx. \<exists>res. st_resolve s i cx = Some res
    \<and> (\<forall>r. unchanged_side i = Some r \<longrightarrow> rs_outcome res = rs_outcome r))"
proof -
  have law: "\<exists>res. f i cx = Some res \<and> (\<forall>r. unchanged_side i = Some r \<longrightarrow> rs_outcome res = rs_outcome r)"
    if "lawful_strategy f" for f i cx
    using lawful_strategy.total [OF that, of i cx] lawful_strategy.shortcut_agrees [OF that, of i _ cx] by fastforce
  note laws = law [OF whole.lawful_strategy_axioms] law [OF rich_text_lawful [OF assms]] law [OF property.lawful_strategy_axioms]
    law [OF element.lawful_strategy_axioms]
  show ?thesis unfolding builtin_ok using laws by (simp add: whole_value_def rich_text_def property_merge_def element_wise_def)
qed

definition field_context :: merge_context where
  "field_context = \<lparr>cx_node = None, cx_node_type = [], cx_field = [], cx_aspect = None, cx_family = Document, cx_params = []\<rparr>"

theorem builtin_strategies_are_lawful_witness:
  "map_option rs_outcome (st_resolve (rich_text sample_differ sample_ser) (triple JNull (JBool True) JNull) field_context)
     = Some (Merged (JBool True))"
proof -
  let ?i = "triple JNull (JBool True) JNull"
  let ?law = "\<lambda>s i cx. \<exists>res. st_resolve s i cx = Some res \<and> (\<forall>r. unchanged_side i = Some r \<longrightarrow> rs_outcome res = rs_outcome r)"
  obtain reg where reg: "builtin sample_differ sample_ser (\<lambda>_. None) = Inr reg" "\<forall>s \<in> set reg. \<forall>i cx. ?law s i cx"
    using builtin_strategies_are_lawful [OF sample_differ_ok, of sample_ser "\<lambda>_. None"] by blast
  have "rich_text sample_differ sample_ser \<in> set reg" using reg(1) unfolding builtin_ok by auto
  with reg(2) have "?law (rich_text sample_differ sample_ser) ?i field_context" by blast
  moreover have "unchanged_side ?i = Some (resolved_merged (JBool True) ''unchanged-or-team-only'')" by (simp add: unchanged_side_def)
  ultimately obtain res where "st_resolve (rich_text sample_differ sample_ser) ?i field_context = Some res"
      "rs_outcome res = rs_outcome (resolved_merged (JBool True) ''unchanged-or-team-only'')" by blast
  then show ?thesis by (simp add: resolved_merged_def)
qed

text \<open>C21: Comments and suggestions merge element by element. Of each comment content the merged list has as many copies as the
  three-way count asks: the larger number when neither side removed copies, the smaller one when neither added any, and both changes when
  one side added and the other removed. Suggestions merge by id, each by the three-way choice; the collection is a
  conflict exactly when some id was changed in two different ways. Neither depends on which side is called the team (for
  comments when the canonical form tells contents apart).\<close>

theorem collections_merge_element_wise:
  fixes bs ts ds :: "(string, json) bmap"
  defines "merged \<equiv> fst (suggestions_loop bs ts ds (map fst bs @ map fst ts @ map fst ds) [] [])"
  shows "(\<forall>k. occurrences ser k (merge_comments ser b t d) =
         (let nb = occurrences ser k b; nt = occurrences ser k t; nd = occurrences ser k d in
          if nb \<le> nt \<and> nb \<le> nd then max nt nd else if nt \<le> nb \<and> nd \<le> nb then min nt nd else nt + nd - nb))
    \<and> (inj_on (canonical_json ser) (set b \<union> set t \<union> set d) \<longrightarrow> merge_comments ser b t d = merge_comments ser b d t)
    \<and> rs_outcome (suggestions_resolve (triple (JObj bs) (JObj ts) (JObj ds))) =
        (if \<exists>id. settle (bt_get bs id) (bt_get ts id) (bt_get ds id) = None then Conflicts ELEMENT_DIFFERS
         else Merged (JObj merged))
    \<and> (\<forall>id v. settle (bt_get bs id) (bt_get ts id) (bt_get ds id) = Some v \<longrightarrow> bt_get merged id = v)
    \<and> rs_outcome (suggestions_resolve i) = rs_outcome (suggestions_resolve (swapped i))"
proof -
  obtain differ where l: "suggestions_loop bs ts ds (map fst bs @ map fst ts @ map fst ds) [] [] = (merged, differ)"
    unfolding merged_def by (metis prod.collapse)
  note exact = suggestions_exact [OF l]
  have "rs_outcome (suggestions_resolve (triple (JObj bs) (JObj ts) (JObj ds))) =
      (if \<exists>id. settle (bt_get bs id) (bt_get ts id) (bt_get ds id) = None then Conflicts ELEMENT_DIFFERS else Merged (JObj merged))"
    using exact(2) by (auto simp: suggestions_resolve_def l resolved_merged_def resolved_conflict_def with_notes_def)
  moreover have "int (occurrences ser k (merge_comments ser b t d)) =
      int (let nb = occurrences ser k b; nt = occurrences ser k t; nd = occurrences ser k d in
          if nb \<le> nt \<and> nb \<le> nd then max nt nd else if nt \<le> nb \<and> nd \<le> nb then min nt nd else nt + nd - nb)" for k
    unfolding merge_comments_count by (auto simp: wanted_def Let_def max_def min_def)
  moreover have "\<forall>id v. settle (bt_get bs id) (bt_get ts id) (bt_get ds id) = Some v \<longrightarrow> bt_get merged id = v" using exact(3) by simp
  ultimately show ?thesis using merge_comments_symmetric suggestions_symmetric of_nat_eq_iff by blast
qed

theorem collections_merge_element_wise_witness:
  "merge_comments sample_ser [JStr ''a''] [JStr ''a'', JStr ''b''] [JStr ''c'']
     = merge_comments sample_ser [JStr ''a''] [JStr ''c''] [JStr ''a'', JStr ''b'']
   \<and> merge_comments sample_ser [JStr ''a''] [JStr ''a'', JStr ''b''] [JStr ''c''] = [JStr ''b'', JStr ''c'']
   \<and> rs_outcome (suggestions_resolve (triple (JObj []) (JObj [(''s'', JNull)]) (JObj [(''s'', JBool True)]))) = Conflicts ELEMENT_DIFFERS"
proof -
  have i: "inj_on (canonical_json sample_ser) (set [JStr ''a''] \<union> set [JStr ''a'', JStr ''b''] \<union> set [JStr ''c''])"
    by (auto simp: inj_on_def canonical_json_def as_bytes_def)
  have "settle (bt_get [] ''s'') (bt_get [(''s'', JNull)] ''s'') (bt_get [(''s'', JBool True)] ''s'') = None"
    by (simp add: settle_def)
  then have e: "\<exists>id. settle (bt_get [] id) (bt_get [(''s'', JNull)] id) (bt_get [(''s'', JBool True)] id) = None" by blast
  have "merge_comments sample_ser [JStr ''a''] [JStr ''a'', JStr ''b''] [JStr ''c''] = [JStr ''b'', JStr ''c'']" by code_simp
  with i e collections_merge_element_wise [of sample_ser "[JStr ''a'']" "[JStr ''a'', JStr ''b'']" "[JStr ''c'']" "[]"
      "[(''s'', JNull)]" "[(''s'', JBool True)]"] show ?thesis by simp
qed


section \<open>Policies\<close>

text \<open>C23: The policy loader accepts exactly the valid policies: within the size limits, with known strategies that fit what the rule
  decides, well-typed parameters, unique ids, no gate below its floor and no rule whose match repeats an earlier one or follows a
  catch-all. Under a loaded policy a decision has the gate its rule names, and the canonical form that is hashed is a
  policy that finds the same rule for every decision.\<close>

theorem merge_policy_loader_exact:
  "(from_json decode ser bs reg = Inr p \<longleftrightarrow>
      length bs \<le> MAX_INPUT_BYTES \<and> decode bs = Some p
      \<and> mp_version p = VERSION \<and> id_ok (mp_id p) \<and> text_ok (mp_description p)
      \<and> de_roles_rank (mp_defaults p) \<noteq> [] \<and> distinct (de_roles_rank (mp_defaults p))
      \<and> length (mp_rules p) \<le> MAX_RULES \<and> (\<forall>r \<in> set (mp_rules p). rule_ok p reg r) \<and> distinct (map ru_id (mp_rules p))
      \<and> no_shadow (mp_rules p) \<and> (\<forall>k \<in> fst ` set (mp_gate_at_least p). registry_get reg k \<noteq> None)
      \<and> length (canonical_bytes ser p) \<le> MAX_CANONICAL_BYTES)
   \<and> (from_json decode ser bs reg = Inr p \<longrightarrow> (\<forall>r \<in> set (mp_rules p). effective_gate p r = ru_gate r))
   \<and> map_option ru_id (find_rule (canonical_policy p) pr) = map_option ru_id (find_rule p pr)
   \<and> canonical_bytes ser (canonical_policy p) = canonical_bytes ser p"
proof -
  have iff: "from_json decode ser bs reg = Inr p \<longleftrightarrow>
      length bs \<le> MAX_INPUT_BYTES \<and> decode bs = Some p \<and> validate ser p reg = Inr ()"
    by (cases "decode bs") (auto simp: from_json_def result_simps not_less)
  have "map_option ru_id (find_rule (canonical_policy p) pr) = map_option ru_id (find_rule p pr)"
    by (cases "find_rule p pr") (simp_all add: find_rule_canonical)
  moreover have "canonical_bytes ser (canonical_policy p) = canonical_bytes ser p"
    by (simp add: canonical_bytes_def canonical_value_def canonical_policy_idem)
  ultimately show ?thesis unfolding iff using valid_gate by (auto simp: validate_ok_iff)
qed

definition small_policy :: merge_policy where
  "small_policy = \<lparr>mp_version = 1, mp_id = ''p'', mp_description = None, mp_defaults = defaults_default,
     mp_rules = [default_rule ''all'' None ''dynodoc.default.whole-value.v1''], mp_gate_at_least = []\<rparr>"

theorem merge_policy_loader_exact_witness:
  "from_json (\<lambda>_. Some small_policy) (\<lambda>_. []) [] [whole_value] = Inr small_policy
   \<and> effective_gate small_policy (hd (mp_rules small_policy)) = Auto"
proof -
  have "from_json (\<lambda>_. Some small_policy) (\<lambda>_. []) [] [whole_value] = Inr small_policy" by code_simp
  then show ?thesis using merge_policy_loader_exact [of "\<lambda>_. Some small_policy" "\<lambda>_. []" "[]" "[whole_value]" small_policy]
    by (simp add: small_policy_def default_rule_def)
qed

text \<open>C40: The check for rules that never run errs both ways. A rule for comments that follows a catch-all rule for fields is refused as
  shadowed, although it is the rule a decision about comments finds; and a rule for one field after a rule for a prefix of that field is
  accepted by the rule loop, although no decision ever finds it.\<close>

theorem shadow_check_errs_both_ways:
  "(\<exists>every comments. validate ser (small_policy\<lparr>mp_rules := [every, comments]\<rparr>) (builtin_registry myers ser compact)
        = Inl (Shadowed, ''rules[1].match'') \<and> rule_reached (small_policy\<lparr>mp_rules := [every, comments]\<rparr>) comments)
   \<and> (\<exists>cells cell. validate_rules (small_policy\<lparr>mp_rules := [cells, cell]\<rparr>) (builtin_registry myers ser compact) [] [cells, cell] = Inr ()
        \<and> \<not> rule_reached (small_policy\<lparr>mp_rules := [cells, cell]\<rparr>) cell)"
proof -
  let ?w = "''dynodoc.default.whole-value.v1''" and ?e = "''dynodoc.collection.element-wise.v1''"
  define every where "every = default_rule ''all'' None ?w"
  define comments where "comments = (default_rule ''notes'' None ?e)\<lparr>ru_matcher := match_default\<lparr>ma_aspect := Some Comments\<rparr>\<rparr>"
  define cells where "cells = default_rule ''cells'' (Some ''cell_*'') ?w"
  define cell where "cell = default_rule ''cell'' (Some ''cell_1'') ?w"
  have reg: "registry_get (builtin_registry myers ser compact) ?e = Some (element_wise ser compact)"
    by (simp add: builtin_registry_def registry_get_def whole_value_def rich_text_def property_merge_def element_wise_def)
  have ids: "id_ok ''all''" "id_ok ''notes''" "id_ok ''p''" "id_ok ''cells''" "id_ok ''cell''" by code_simp+
  have pats: "check_field ''cell_*''" "check_field ''cell_1''" by code_simp+
  have one: "dec_nat (Suc 0) = ''1''" by code_simp
  let ?p = "small_policy\<lparr>mp_rules := [every, comments]\<rparr>"
  note defs = small_policy_def every_def comments_def cells_def cell_def default_rule_def defaults_default_def match_default_def
  have "validate ser ?p (builtin_registry myers ser compact) = Inl (Shadowed, ''rules[1].match'')"
    by (simp add: validate_def defs VERSION_def check_id_def check_text_def text_ok_def ids MAX_RULES_def Let_def validate_match_def
        validate_strategy_def builtin_get reg aspect_compatible_def whole_value_def element_wise_def shadows_def is_catch_all_def one)
  moreover have "find_rule ?p \<lparr>pr_family = Document, pr_node_type = [], pr_block_type = None, pr_field = ''$comments'',
      pr_aspect = Some Comments\<rparr> = Some comments"
    by (simp add: find_rule_def defs matches_def)
  moreover have "validate_rules (small_policy\<lparr>mp_rules := [cells, cell]\<rparr>) (builtin_registry myers ser compact) [] [cells, cell] = Inr ()"
    unfolding validate_rules_iff rule_ok_def match_ok_def strategy_ok_def
    by (simp add: defs ids text_ok_def pats builtin_get aspect_compatible_def whole_value_def shadows_def is_catch_all_def match_sorted_def)
  moreover have "\<not> rule_reached (small_policy\<lparr>mp_rules := [cells, cell]\<rparr>) cell"
    by (auto simp: rule_reached_def find_rule_def defs matches_def field_matches_def strip_suffix_def starts_with_def split: if_splits)
  ultimately show ?thesis unfolding rule_reached_def by blast
qed

section \<open>The engine\<close>

text \<open>C15: A gate is obeyed wherever it is consulted. A field that one side alone changed is taken from that side, and a field
  both sides left alike is kept, before any rule or gate is read; such a choice records no decision. Of a field both sides changed, a
  merged value is applied exactly when the first rule that matches has a gate of \<^verbatim>\<open>auto\<close> or \<^verbatim>\<open>auto-with-review\<close> and its
  registered strategy produced that value; the recorded decision asks for a review exactly for the latter gate. In every other
  case the engine keeps the team's value and raises a conflict unless the caller resolved it by name, and the recorded
  decision says which: explicit when no conflict is raised, otherwise a conflict that carries its key.\<close>

theorem gates_are_obeyed:
  fixes en i a
  defines "applies \<equiv> \<lambda>r w. find_rule (en_policy en) (probe_at en (at_node_type a) (at_field a) None i) = Some r
        \<and> effective_gate (en_policy en) r \<in> {Auto, AutoWithReview}
        \<and> (\<exists>s res. registry_get (en_registry en) (ru_strategy r) = Some s
            \<and> st_resolve s i (context_at en (Some (at_id a)) (at_node_type a) (at_field a) None r) = Some res \<and> rs_outcome res = Merged w)"
  assumes "engine_select sha ser compact en a i resolutions conflicts = (v, cs, en')"
  shows "if in_draft i = in_base i \<or> in_draft i = in_team i then v = in_team i \<and> cs = conflicts \<and> en_decisions en' = en_decisions en
    else if in_team i = in_base i then v = in_draft i \<and> cs = conflicts \<and> en_decisions en' = en_decisions en
    else \<exists>d. en_decisions en' = en_decisions en @ [d] \<and> (
      if \<exists>r w. applies r w
      then cs = conflicts \<and> dn_outcome d = DO_Merged
        \<and> (\<exists>r. applies r v \<and> (dn_needs_review d \<longleftrightarrow> effective_gate (en_policy en) r = AutoWithReview))
      else (v, cs) = select_resolution (at_id a) (at_field a) (in_base i) (in_team i) (in_draft i) resolutions conflicts
        \<and> dn_outcome d = (if cs = conflicts then DO_Explicit else DO_Conflict)
        \<and> dn_conflict_key d = (if cs = conflicts then None else Some (conflict_key (at_id a) (at_field a))))"
proof (cases "unchanged_side i")
  case (Some r)
  with assms(2) show ?thesis by (auto simp: engine_select_def unchanged_side_def Let_def split: if_splits)
next
  case None
  obtain out d where dec: "decide sha ser compact en (Some (at_id a)) (at_node_type a) (at_field a) None i = (out, d)" by fastforce
  have out: "out = Some w" if "applies r w" for r w
    using that decide_complete [where sha = sha and ser = ser and compact = compact] dec unfolding applies_def by fastforce
  show ?thesis
  proof (cases out)
    case none: None
    then have "\<not> applies r w" for r w using out by blast
    with engine_select_undecided [OF None _ assms(2)] dec none None show ?thesis by (simp add: unchanged_side_def split: if_splits)
  next
    case (Some u)
    with dec assms(2) None have e: "v = u" "cs = conflicts" "en_decisions en' = en_decisions en @ [d]"
      by (auto simp: engine_select_def unchanged_side_def push_decision_def Let_def split: if_splits)
    from dec Some obtain r where "applies r u" "dn_needs_review d \<longleftrightarrow> effective_gate (en_policy en) r = AutoWithReview"
      unfolding applies_def by (auto elim: decide_applies)
    with e decide_fields(3) [OF dec] Some None show ?thesis by (auto simp: unchanged_side_def split: if_splits)
  qed
qed

definition manual_policy :: merge_policy where
  "manual_policy = small_policy\<lparr>mp_rules := [(default_rule ''all'' None ''dynodoc.default.whole-value.v1'')\<lparr>ru_gate := Manual\<rparr>]\<rparr>"

definition label_at :: at_place where
  "label_at = \<lparr>at_id = ''n'', at_node_type = ''item'', at_field = ''label''\<rparr>"

theorem gates_are_obeyed_witness:
  "\<exists>cs en'. engine_select sample_sha sample_ser (\<lambda>_. None) (engine_new manual_policy [whole_value] Document) label_at
     (triple JNull (JBool True) (JBool False)) [] [] = (JBool True, cs, en') \<and> map cf_key cs = [''n:label'']
     \<and> map dn_outcome (en_decisions en') = [DO_Conflict]"
proof -
  let ?en = "engine_new manual_policy [whole_value] Document" and ?i = "triple JNull (JBool True) (JBool False)"
  obtain v cs en' where e: "engine_select sample_sha sample_ser (\<lambda>_. None) ?en label_at ?i [] [] = (v, cs, en')" by (metis prod_cases3)
  have gate: "effective_gate (en_policy ?en) r = Manual" if "find_rule (en_policy ?en) pr = Some r" for r pr
    using that by (auto simp: find_rule_def effective_gate_def engine_new_def manual_policy_def small_policy_def default_rule_def
        split: if_splits)
  have sel: "select_resolution ''n'' ''label'' JNull (JBool True) (JBool False) [] [] =
      (JBool True, [\<lparr>cf_key = ''n:label'', cf_node_id = ''n'', cf_field = ''label'', cf_ancestor = JNull, cf_team = JBool True, cf_draft = JBool False\<rparr>])"
    by (simp add: select_resolution_def conflict_key_def)
  have empty: "en_decisions ?en = []" by (simp add: engine_new_def)
  have "\<not> (effective_gate (en_policy ?en) r \<in> {Auto, AutoWithReview} \<and> P)" if "find_rule (en_policy ?en) pr = Some r" for r pr P
    using gate [OF that] by simp
  then have no: "(\<exists>r w. find_rule (en_policy ?en) pr = Some r \<and> effective_gate (en_policy ?en) r \<in> {Auto, AutoWithReview} \<and> Q r w) = False"
    for pr Q by blast
  note ob = gates_are_obeyed [OF e, unfolded no if_False]
  have "\<exists>d. en_decisions en' = [d] \<and> (v, cs) = select_resolution ''n'' ''label'' JNull (JBool True) (JBool False) [] []
      \<and> dn_outcome d = (if cs = [] then DO_Explicit else DO_Conflict)"
    using ob empty by (auto simp: label_at_def)
  with e sel show ?thesis by auto
qed

text \<open>The evidence accounts for the plan: over any sequence of choices through the engine, the conflicts raised are, in order,
  the conflict keys of the recorded decisions; a decision has a conflict key exactly when its outcome is a conflict, and an
  explicit choice exactly when its outcome is explicit.\<close>

theorem evidence_accounts_for_conflicts:
  assumes "engine_select_all sha ser compact resolutions places [] (engine_new policy reg family) = (vs, cs, en)"
  shows "map cf_key cs = raised (en_decisions en)
    \<and> (\<forall>d \<in> set (en_decisions en). (dn_conflict_key d \<noteq> None \<longleftrightarrow> dn_outcome d = DO_Conflict)
         \<and> (dn_choice d \<noteq> None \<longleftrightarrow> dn_outcome d = DO_Explicit))"
proof -
  have "accounted [] (engine_new policy reg family)" by (simp add: accounted_def engine_new_def raised_def)
  from engine_select_all_accounted [OF this assms] show ?thesis by (auto simp: accounted_def)
qed

theorem evidence_accounts_for_conflicts_witness:
  "\<exists>vs cs en. engine_select_all sample_sha sample_ser (\<lambda>_. None) [] [(label_at, triple JNull (JBool True) (JBool False))] []
       (engine_new manual_policy [whole_value] Document) = (vs, cs, en)
     \<and> map cf_key cs = [''n:label''] \<and> raised (en_decisions en) = [''n:label'']"
proof -
  let ?run = "engine_select_all sample_sha sample_ser (\<lambda>_. None) [] [(label_at, triple JNull (JBool True) (JBool False))] []
      (engine_new manual_policy [whole_value] Document)"
  obtain vs cs en where e: "?run = (vs, cs, en)" by (metis prod_cases3)
  have "map cf_key (fst (snd ?run)) = [''n:label'']" by code_simp
  with e evidence_accounts_for_conflicts [OF e] show ?thesis by auto
qed

end
