(* ===== verification/Workspace_Properties.thy ===== *)
theory Workspace_Properties
  imports Merge_Invariants Merge_Properties
begin

text \<open>
  Properties of merging whole documents: what a merge without conflicts guarantees of the tree, that the default policy changes
  nothing, and what the post-merge checks report. The witnesses merge a small document to which both sides add a section.
\<close>

section \<open>Sample values\<close>

fun sample_read_node :: "json \<Rightarrow> materialized_node option" where
  "sample_read_node (JObj [(_, f), (_, JBool del), (_, JStr k), (_, p), (_, JStr pos), (_, JStr ty), (_, v)]) =
     Some \<lparr>mn_id = k, mn_parent_id = read_opt_str p, mn_node_type = ty, mn_pos = pos, mn_current_fields = f,
       mn_var_name = read_opt_str v, mn_deleted = del\<rparr>"
| "sample_read_node _ = None"

lemma sample_reads: "reads_nodes sample_read_node"
proof -
  have "read_opt_str (opt_str x) = x" for x by (cases x) (simp_all add: opt_str_def)
  then show ?thesis by (simp add: reads_nodes_def node_json_def)
qed

definition plain_node :: "node_id \<Rightarrow> node_id option \<Rightarrow> string \<Rightarrow> materialized_node" where
  "plain_node k parent name = \<lparr>mn_id = k, mn_parent_id = parent, mn_node_type = ''section'', mn_pos = ''a'', mn_current_fields = JObj [],
     mn_var_name = Some name, mn_deleted = False\<rparr>"

definition doc_of :: "materialized_node list \<Rightarrow> document_state" where
  "doc_of ns = empty_state\<lparr>ds_nodes := map (\<lambda>n. (mn_id n, n)) ns\<rparr>"

abbreviation "base_doc \<equiv> doc_of [plain_node ''a'' None ''one'']"
abbreviation "team_doc \<equiv> doc_of [plain_node ''a'' None ''one'', plain_node ''b'' (Some ''a'') ''two'']"
abbreviation "draft_doc \<equiv> doc_of [plain_node ''a'' None ''one'', plain_node ''c'' (Some ''a'') ''three'']"

lemma sample_docs: "keyed_state team_doc" "fields_objects team_doc" "keyed_state draft_doc"
  by (auto simp: keyed_state_def fields_objects_def node_at_def doc_of_def plain_node_def bt_ok_def empty_state_def split: if_splits)

section \<open>The merged tree\<close>

text \<open>C12: Merging three document states returns, and a merge without conflicts yields a sound tree: when the team's and the draft's
  nodes stand under their own ids and the team's fields are objects, the merge neither panics nor runs forever, and if it reports
  no conflict the structural diagnostics find nothing in the merged state: no parent cycle, no live node under a missing or
  deleted parent, no variable name held twice. This holds for any resolutions, contradictory ones included.\<close>

theorem conflict_free_merge_is_sound:
  assumes "differ_ok myers" and "reads_nodes read_node" and "keyed_state team" and "fields_objects team" and "keyed_state draft"
  shows "\<exists>plan. merge_for_signed_v1 myers ser read_node resolutions base team draft = Some plan
    \<and> (pn_conflicts plan = [] \<longrightarrow> check_invariants (pn_state plan) = [])"
  using signed_merge_ok [OF assms, of ser resolutions base] check_invariants_empty_iff by (auto simp: tidy_def)

lemma sample_plan:
  "map_option pn_conflicts (merge_for_signed_v1 sample_differ sample_ser sample_read_node [] base_doc team_doc draft_doc) = Some []"
  by code_simp

theorem conflict_free_merge_is_sound_witness:
  "\<exists>plan. merge_for_signed_v1 sample_differ sample_ser sample_read_node [] base_doc team_doc draft_doc = Some plan
    \<and> pn_conflicts plan = [] \<and> check_invariants (pn_state plan) = []"
  using conflict_free_merge_is_sound [OF sample_differ_ok sample_reads sample_docs, of sample_ser "[]" base_doc] sample_plan by auto

text \<open>C13: The default policy changes nothing. Over any sequence of three-way choices, with any resolutions, the engine under the default
  policy and the built-in strategies selects the values and raises the conflicts of the direct choice; and merging whole documents
  under that policy gives the plan that merging without a policy gives, panics included.\<close>

theorem default_policy_changes_nothing:
  assumes "differ_ok myers" and "builtin myers ser compact = Inr reg"
  shows "select_all myers ser resolutions places conflicts =
      (case engine_select_all sha ser compact resolutions places conflicts (engine_new default_policy reg family) of
         (vs, cs, _) \<Rightarrow> Some (vs, cs))
    \<and> map_option fst (merge_for_signed_v1_with_registry sha ser compact f64 show_violation read_node resolutions default_policy reg
        base team draft) = merge_for_signed_v1 myers ser read_node resolutions base team draft"
proof
  have "reg = builtin_registry myers ser compact" using assms(2) by (simp add: builtin_ok builtin_registry_def)
  then show "select_all myers ser resolutions places conflicts =
      (case engine_select_all sha ser compact resolutions places conflicts (engine_new default_policy reg family) of
         (vs, cs, _) \<Rightarrow> Some (vs, cs))"
    by (intro default_all_direct [OF assms(1)]) (simp_all add: engine_new_def)
  show "map_option fst (merge_for_signed_v1_with_registry sha ser compact f64 show_violation read_node resolutions default_policy reg
      base team draft) = merge_for_signed_v1 myers ser read_node resolutions base team draft"
    by (rule default_policy_plan [OF assms])
qed

theorem default_policy_changes_nothing_witness:
  "\<exists>plan ev. merge_for_signed_v1_with_registry sample_sha sample_ser (\<lambda>_. None) (\<lambda>_. None) (\<lambda>_. []) sample_read_node [] default_policy
      (builtin_registry sample_differ sample_ser (\<lambda>_. None)) base_doc team_doc draft_doc = Some (plan, ev) \<and> pn_conflicts plan = []"
proof -
  have reg: "builtin sample_differ sample_ser (\<lambda>_. None) = Inr (builtin_registry sample_differ sample_ser (\<lambda>_. None))"
    by (simp add: builtin_ok builtin_registry_def)
  from default_policy_changes_nothing [OF sample_differ_ok reg, of "[]" "[]" "[]" sample_sha Document "\<lambda>_. None" "\<lambda>_. []"
      sample_read_node base_doc team_doc draft_doc] sample_plan show ?thesis by auto
qed

section \<open>The post-merge checks\<close>

text \<open>C16: Under a policy whose invariant mode is \<^verbatim>\<open>conflict\<close>, a merge that reports no conflict introduces no violation: every violation of
  INV-G1 to INV-G8 in the merged state is one the team's or the draft's state already had, word for word.\<close>

theorem conflict_mode_reports_new_violations:
  assumes "merge_for_signed_v1_with_registry sha ser compact f64 show_violation read_node resolutions policy reg base team draft
      = Some (plan, ev)"
    and "de_invariants (mp_defaults policy) = IM_Conflict" and "pn_conflicts plan = []"
  shows "set (check f64 show_violation (pn_state plan))
    \<subseteq> set (check f64 show_violation (canonical_state team)) \<union> set (check f64 show_violation (canonical_state draft))"
  using assms by (auto simp: merge_for_signed_v1_with_registry_def intro: conflict_mode_exact [THEN subsetD, THEN UnE])

definition strict_policy :: merge_policy where
  "strict_policy = small_policy\<lparr>mp_defaults := defaults_default\<lparr>de_invariants := IM_Conflict\<rparr>\<rparr>"

lemma sample_strict_plan:
  "map_option (\<lambda>(p, ev). pn_conflicts p) (merge_for_signed_v1_with_registry (\<lambda>_. []) (\<lambda>_. []) (\<lambda>_. None) (\<lambda>_. None) (\<lambda>_. []) sample_read_node []
     strict_policy [whole_value] base_doc team_doc draft_doc) = Some []"
  by code_simp

theorem conflict_mode_reports_new_violations_witness:
  "\<exists>plan ev. merge_for_signed_v1_with_registry (\<lambda>_. []) (\<lambda>_. []) (\<lambda>_. None) (\<lambda>_. None) (\<lambda>_. []) sample_read_node []
       strict_policy [whole_value] base_doc team_doc draft_doc = Some (plan, ev)
     \<and> set (check (\<lambda>_. None) (\<lambda>_. []) (pn_state plan))
        \<subseteq> set (check (\<lambda>_. None) (\<lambda>_. []) (canonical_state team_doc)) \<union> set (check (\<lambda>_. None) (\<lambda>_. []) (canonical_state draft_doc))"
proof -
  obtain plan ev where m: "merge_for_signed_v1_with_registry (\<lambda>_. []) (\<lambda>_. []) (\<lambda>_. None) (\<lambda>_. None) (\<lambda>_. []) sample_read_node []
      strict_policy [whole_value] base_doc team_doc draft_doc = Some (plan, ev)" "pn_conflicts plan = []"
    using sample_strict_plan by auto
  have "de_invariants (mp_defaults strict_policy) = IM_Conflict" by (simp add: strict_policy_def)
  from m(1) conflict_mode_reports_new_violations [OF m(1) this m(2)] show ?thesis by blast
qed

end
