(* ===== verification/Spec2Isabelle.thy ===== *)
theory Spec2Isabelle
  imports Position_Keys Document_Properties Log_Properties Assurance_Properties Workspace_Properties
begin

text \<open>
  Verification of the core of the document engine (\<^verbatim>\<open>src/crates\<close>).

  \<^bold>\<open>The program.\<close> A document is an append-only log of events. A client proposes an operation; the validator
  (\<^verbatim>\<open>engine-core/src/ops.rs\<close>) checks it against the current state, the governance gate (\<^verbatim>\<open>governance.rs\<close>) checks
  the role, worksheet protection and, for a deployment, referential integrity (\<^verbatim>\<open>integrity.rs\<close>, which parses the
  expressions of the document with \<^verbatim>\<open>expr.rs\<close>); the event log (\<^verbatim>\<open>log.rs\<close>) stores the event with a content hash and
  a hash chain; the materializer (\<^verbatim>\<open>materializer.rs\<close>) folds the log into the state again. Auditors check the
  chain, and the audit endpoint (\<^verbatim>\<open>engine-api/src/audit.rs\<close>) proves single events against the root of
  \<^verbatim>\<open>event_merkle.rs\<close>. Independently, the transparency log (\<^verbatim>\<open>engine-core/src/transparency\<close>) keeps entries in an RFC
  6962 tree stored as tiles and proves inclusion and consistency; its entries are typed leaves, its heads are signed
  notes that witnesses cosign, and a client assesses an inclusion bundle under a trust policy against the checkpoints
  it already knows. Two edited versions of a document merge against their base: rich text by hunks (\<^verbatim>\<open>richtext.rs\<close>), fields and
  collections by the strategies a merge policy names (\<^verbatim>\<open>merge_policy\<close>), each choice standing in for the direct one of
  \<^verbatim>\<open>workspace_merge.rs\<close>, which walks the nodes, repairs the merged tree and reports what it cannot settle; under a policy the
  merged state is then checked against the general invariants. The agent compiler places new nodes with position keys (\<^verbatim>\<open>engine-agent/src/pos.rs\<close>).

  \<^bold>\<open>Theories and sources.\<close>

  \<^item> \<^verbatim>\<open>Prelude\<close>, \<^verbatim>\<open>Json\<close>, \<^verbatim>\<open>Decimal\<close>: results, \<^verbatim>\<open>BTreeMap\<close> and \<^verbatim>\<open>BTreeSet\<close> as sorted lists, strings as UTF-8 bytes,
    \<^verbatim>\<open>serde_json::Value\<close>, decimal spelling.
  \<^item> \<^verbatim>\<open>Vocabulary\<close>: \<^verbatim>\<open>engine-shared\<close> (enums, payloads, ids, rows). \<^verbatim>\<open>Canonical\<close>: canonical JSON and the hashes of
    \<^verbatim>\<open>log.rs\<close>. \<^verbatim>\<open>RichText\<close>: patches of \<^verbatim>\<open>richtext.rs\<close>. \<^verbatim>\<open>Materializer\<close>: state, fold, snapshot recovery, event compaction.
  \<^item> \<^verbatim>\<open>RichText_Merge\<close>: the three-way merge of \<^verbatim>\<open>richtext.rs\<close>. \<^verbatim>\<open>RichText_Edits\<close>: hunks as edits of the base, what the merge computes
    and that no index is out of range.
  \<^item> \<^verbatim>\<open>Merge_Strategy\<close>: \<^verbatim>\<open>merge_policy/mod.rs\<close>, \<^verbatim>\<open>strategy.rs\<close>, \<^verbatim>\<open>registry.rs\<close>, \<^verbatim>\<open>default.rs\<close>, \<^verbatim>\<open>collections.rs\<close>. \<^verbatim>\<open>Merge_Laws\<close>: the
    contract \<open>lawful_strategy\<close> of a strategy, interpreted by the built-in ones, and comments as multisets. \<^verbatim>\<open>Merge_Policy\<close>:
    \<^verbatim>\<open>merge_policy/policy.rs\<close>. \<^verbatim>\<open>Merge_Engine\<close>: \<^verbatim>\<open>engine.rs\<close>, the records of \<^verbatim>\<open>evidence.rs\<close> and \<^verbatim>\<open>select\<close> of \<^verbatim>\<open>workspace_merge.rs\<close>.
  \<^item> \<^verbatim>\<open>Tree_Repair\<close>: the searches for cycles, orphans and shared names and their repairs (\<^verbatim>\<open>validate_merged_tree\<close>).
    \<^verbatim>\<open>Tree_Soundness\<close>: the loop returns, and leaves a sound tree or a conflict. \<^verbatim>\<open>Workspace_Merge\<close>: \<^verbatim>\<open>merge_with\<close> without an event
    plan; the locale \<open>side_picker\<close> is what the walk needs of a selector, interpreted by the direct one, and \<open>alike\<close> is the
    simulation between selectors. \<^verbatim>\<open>Merge_Invariants\<close>: \<^verbatim>\<open>merge_policy/invariants.rs\<close> and the merge under a policy.
  \<^item> \<^verbatim>\<open>Ops\<close>: \<^verbatim>\<open>validate_op\<close> with every operation. \<^verbatim>\<open>Doc_Invariant\<close>: the invariant \<open>state_ok\<close>, preserved by each accepted
    operation; the locale \<open>guarded_fold\<close> is the contract between validator and fold, interpreted as \<open>doc\<close>.
    \<^verbatim>\<open>Structure_Check\<close>: \<^verbatim>\<open>integrity/invariants.rs\<close>.
  \<^item> \<^verbatim>\<open>Expr\<close>, \<^verbatim>\<open>Integrity\<close>: the expression parser and the deploy-time pass with its iterative cycle search. \<^verbatim>\<open>Var_Refs\<close>:
    what a reference is, by the text and by the parsed expression, and when the two agree.
    \<^verbatim>\<open>Governance\<close>: \<^verbatim>\<open>governance.rs\<close>.
  \<^item> \<^verbatim>\<open>EventLog\<close>: appending, reading and verifying rows of the table \<^verbatim>\<open>event\<close>. \<^verbatim>\<open>EventMerkle\<close>: the accumulator, its root
    over the stored rows and the proofs of the audit endpoint, from the query of the rows on.
  \<^item> \<^verbatim>\<open>Encoding\<close>, \<^verbatim>\<open>Merkle\<close>: \<^verbatim>\<open>encoding.rs\<close>, \<^verbatim>\<open>merkle.rs\<close>. \<^verbatim>\<open>Merkle_Proofs\<close>, \<^verbatim>\<open>Merkle_Consistency\<close>: the tree hash of RFC 6962 and
    the two proof systems. \<^verbatim>\<open>Merkle_Tree\<close>: the contract \<open>stored_tree\<close> of the trait \<^verbatim>\<open>HashSource\<close>, interpreted by the tree
    in memory.
  \<^item> \<^verbatim>\<open>Tiles\<close>: \<^verbatim>\<open>tiles.rs\<close>. \<^verbatim>\<open>Tile_Tree\<close>, \<^verbatim>\<open>Tile_Store\<close>, \<^verbatim>\<open>Tile_Log\<close>, \<^verbatim>\<open>Tile_Reads\<close>: what a batch adds to the tree and to the
    store, under the contract \<open>tile_store\<close> of the trait \<^verbatim>\<open>TileStore\<close>, interpreted by \<^verbatim>\<open>MemoryTileStore\<close> and by a store that
    fails on demand.
  \<^item> \<^verbatim>\<open>Text\<close>: the string functions of the standard library the text formats use. \<^verbatim>\<open>Note\<close>: \<^verbatim>\<open>note.rs\<close> (keys, checkpoints,
    signature lines, notes, signing). \<^verbatim>\<open>Note_Text\<close>: each parser accepts exactly the encodings of well-formed values.
    \<^verbatim>\<open>Leaf\<close>: \<^verbatim>\<open>leaf.rs\<close>. \<^verbatim>\<open>Transparency_Log\<close>: \<^verbatim>\<open>log.rs\<close> and \<^verbatim>\<open>bundle.rs\<close>.
  \<^item> \<^verbatim>\<open>Policy\<close>: \<^verbatim>\<open>policy.rs\<close>. \<^verbatim>\<open>Assurance\<close>: \<^verbatim>\<open>assurance.rs\<close>. \<^verbatim>\<open>Honest_Log\<close>: what the honest log and its witnesses produce, up to the
    assessment of a bundle.
  \<^item> \<^verbatim>\<open>Position_Keys\<close>: \<^verbatim>\<open>pos.rs\<close>.
  \<^item> \<^verbatim>\<open>Sample\<close>, \<^verbatim>\<open>Trust_Sample\<close>: a small questionnaire and a small witnessed log for witnesses. \<^verbatim>\<open>Document_Properties\<close>,
    \<^verbatim>\<open>Log_Properties\<close>, \<^verbatim>\<open>Transparency_Properties\<close>, \<^verbatim>\<open>Assurance_Properties\<close>, \<^verbatim>\<open>Merge_Properties\<close>,
    \<^verbatim>\<open>Workspace_Properties\<close>: the properties, each with a witness where it has hypotheses.

  \<^bold>\<open>What is shown.\<close> A log of validated operations replays to the state its writer saw, which is well-formed;
  replay of any log is type-safe; the structural and the referential pass report exactly the defects
  they are meant to report, the latter with references read off the text of an expression, which are those of the parsed
  expression unless a string literal contains the start of a reference; no node under a protected worksheet and no decided proposal
  changes; the deployment gate holds. Two gaps are shown for all states: an accepted removal of a choice can orphan live nodes, and
  it can remove a protected worksheet. Logs written by \<^verbatim>\<open>append_in_tx\<close> verify, a verified head commits to the payload, type, author, target and order of every
  row up to a named hash collision (not to its id, document or time, which are not hashed), a failed audit names the first bad row, and a suffix audit equals a full one. The
  accumulator computes the root of the layered tree and the audit proofs recompute it, or fail with the error the branch names. Generated
  inclusion and consistency proofs verify; accepted ones are true up to a named collision. A tile log
  holds the same tree as the log in memory, and a batch that fails at any point leaves the committed tree
  readable. Base64, hexadecimal, keys, checkpoints, notes, leaves, bundles and policies decode exactly what is
  encoded. A bundle assessed at level 1 is signed by the log and its leaf stands at its index; at level 2 a fresh quorum
  of witnesses cosigned the head, and two majority quorums share an operator; at level 3 the head extends the known one.
  The honest log reaches level 3, and a client that records trusted checkpoints never holds a fork. A position key is found between any
  two valid neighbours. The text of a merged document is the base with the edits of both
  sides, and the merge never panics; comments merge as
  multisets and suggestions by id; the policy loader accepts exactly the valid policies; the engine obeys the gates wherever both sides changed a field, its evidence names
  every conflict, and under the default policy it selects what the direct choice selects, up to the plan for whole documents. Merging
  document states returns, and a merge without conflicts leaves a tree in which the structural diagnostics find nothing; when
  the policy asks for conflicts on broken invariants, it introduces no violation of them either.

  \<^bold>\<open>Parameters.\<close> Code outside the repository is an argument of the definitions: SHA-256 (\<open>sha\<close>; where digest width
  matters, the only hypothesis is 32 bytes), the scalar writer of \<^verbatim>\<open>serde_json\<close> (\<open>ser\<close>), the derived decoders
  (\<open>decode\<close>, \<open>decode_state\<close>), the Myers diff (\<open>myers\<close>; the
  merge relies on its operations covering both texts, \<open>differ_ok\<close>), the compact writer (\<open>compact\<close>), the derived decoder of a node (\<open>read_node\<close>;
  \<open>reads_nodes\<close>: it reads what the serializer wrote, and no node from null), the text of an integrity violation (\<open>show_violation\<close>), decimal to \<^verbatim>\<open>f64\<close> (\<open>f64\<close>), PostgreSQL (\<open>pg\<close>: any statement may
  fail; \<open>jsonb\<close>: how a payload is stored, assumed to keep the canonical form of the payloads appended; row streams and commits may fail), Ed25519 (\<open>ed\<close>; the only law, used by the
  honest path alone, is that signatures verify and have the right lengths: \<open>ed25519_ok\<close>), HMAC-SHA256 (\<open>hmac\<close>) and the JSON
  reader (\<open>from_slice\<close>; a round trip assumes it reads back the bytes at hand). Unforgeability is not assumed: the levels say which
  signatures verified, not who made them.

  \<^bold>\<open>Integers, bounds and fuel.\<close> Sequence numbers are \<open>int\<close> with the wrap-around of \<^verbatim>\<open>i64\<close> written out; tree sizes are
  \<open>nat\<close> with the bound \<open>2 ^ 64\<close> where an operation is checked. No definition takes fuel except through the code's
  own bounds: the parent walk of \<^verbatim>\<open>is_descendant_of\<close> stops after as many steps as there are nodes, which
  never cuts it short on a well-formed state; expression nesting is limited by the parser's own depth; the
  loop of \<^verbatim>\<open>open\<close> runs over 64 levels; the repair loop of a merged tree stops at its own pass budget. Removing the children of a
  rejected block may run forever on a malformed state: it is a partial function, and \<open>drop_kids_returns\<close> shows that it returns when
  nodes stand under their own ids. Every other recursion has a termination proof.

  \<^bold>\<open>Not modelled.\<close> The event plans of \<^verbatim>\<open>workspace_merge.rs\<close>: the operations a merge emits, the grouping of insertions and the strict merge; the statistics and text renderings of \<^verbatim>\<open>richtext.rs\<close> and \<^verbatim>\<open>evidence.rs\<close>; snapshots beyond
  recovery; the rest of the agent crate. The directory-backed tile store is
  file I/O behind the contract \<open>tile_store\<close>. Repository, shared checkpoints, encryption at rest, database access, HTTP
  handlers, command line and MCP server are I/O and library glue around the core.
\<close>

end
